(* ===== verification/Shoal_Prelude.thy ===== *)
theory Shoal_Prelude
  imports Main "HOL-Library.Sublist" "HOL-Library.Char_ord" "HOL-Library.List_Lexorder"
begin

text \<open>
  What every component of the development shares: the result type of fallible Rust code, the
  machine-integer ranges, \<open>std::cmp::Ordering\<close> with the laws a comparison promises, and the
  parts of \<open>str\<close> the sources call (\<open>starts_with\<close>, \<open>strip_prefix\<close>, \<open>split\<close>, \<open>trim\<close>,
  \<open>rsplit_once\<close>, \<open>parse::<u64>\<close>). A string is the list of its UTF-8 bytes, so \<open>length\<close> is
  \<open>str::len\<close> and the library order on strings is Rust's byte order on \<open>str\<close>.
\<close>

subsection \<open>Proof automation\<close>

named_theorems result_simps \<open>equations for fallible steps\<close>
named_theorems state_simps \<open>unfolding of state-changing operations\<close>
named_theorems inv_intros \<open>preservation of component invariants\<close>

subsection \<open>Results\<close>

text \<open>\<open>Result<T, E>\<close> is \<open>'e + 't\<close>; \<open>bindR\<close> is the \<open>?\<close> operator.\<close>

type_synonym ('e, 'a) result = "'e + 'a"

fun bindR :: "('e, 'a) result \<Rightarrow> ('a \<Rightarrow> ('e, 'b) result) \<Rightarrow> ('e, 'b) result" where
  "bindR (Inl e) f = Inl e"
| "bindR (Inr x) f = f x"

fun is_ok :: "('e, 'a) result \<Rightarrow> bool" where
  "is_ok (Inl e) = False"
| "is_ok (Inr x) = True"

lemma bindR_eq_Inr [result_simps]: "bindR m f = Inr y \<longleftrightarrow> (\<exists>x. m = Inr x \<and> f x = Inr y)"
  by (cases m) auto

lemma bindR_eq_Inl [result_simps]:
  "bindR m f = Inl e \<longleftrightarrow> m = Inl e \<or> (\<exists>x. m = Inr x \<and> f x = Inl e)"
  by (cases m) auto

lemma map_err_eq_Inr [result_simps]:
  "(case r of Inl e \<Rightarrow> Inl (f e) | Inr x \<Rightarrow> Inr x) = Inr y \<longleftrightarrow> r = Inr y"
  by (cases r) auto

lemma is_ok_iff [result_simps]: "is_ok r \<longleftrightarrow> (\<exists>x. r = Inr x)"
  by (cases r) auto

text \<open>A \<open>for\<close> loop whose body may return early with an error.\<close>

fun eachR :: "('a \<Rightarrow> ('e, unit) result) \<Rightarrow> 'a list \<Rightarrow> ('e, unit) result" where
  "eachR f [] = Inr ()"
| "eachR f (x # xs) = bindR (f x) (\<lambda>_. eachR f xs)"

lemma eachR_ok [result_simps]: "eachR f xs = Inr () \<longleftrightarrow> (\<forall>x \<in> set xs. f x = Inr ())"
  by (induction xs) (auto simp: result_simps)

lemma eachR_error: "eachR f xs = Inl e \<Longrightarrow> \<exists>x \<in> set xs. f x = Inl e"
  by (induction xs) (auto simp: result_simps)

subsection \<open>Machine integers\<close>

text \<open>
  Integers the code keeps in range by checked or saturating arithmetic are mathematical integers
  with the range written out.
\<close>

abbreviation U64_MAX :: nat where
  "U64_MAX \<equiv> 18446744073709551615"

abbreviation USIZE_MAX :: nat where
  "USIZE_MAX \<equiv> U64_MAX"

abbreviation I64_MAX :: int where
  "I64_MAX \<equiv> 9223372036854775807"

abbreviation I64_MIN :: int where
  "I64_MIN \<equiv> - 9223372036854775808"

definition in_i64 :: "int \<Rightarrow> bool" where
  "in_i64 x \<longleftrightarrow> I64_MIN \<le> x \<and> x \<le> I64_MAX"

definition in_u64 :: "nat \<Rightarrow> bool" where
  "in_u64 n \<longleftrightarrow> n \<le> U64_MAX"

definition checked_i64 :: "int \<Rightarrow> int option" where
  "checked_i64 x = (if in_i64 x then Some x else None)"

definition checked_u64 :: "int \<Rightarrow> nat option" where
  "checked_u64 x = (if 0 \<le> x \<and> x \<le> int U64_MAX then Some (nat x) else None)"

definition saturating_i64 :: "int \<Rightarrow> int" where
  "saturating_i64 x = max I64_MIN (min I64_MAX x)"

definition saturating_usize :: "nat \<Rightarrow> nat" where
  "saturating_usize n = min USIZE_MAX n"

lemma checked_i64_Some [simp]: "checked_i64 x = Some y \<longleftrightarrow> y = x \<and> in_i64 x"
  by (auto simp: checked_i64_def)

lemma checked_i64_None [simp]: "checked_i64 x = None \<longleftrightarrow> \<not> in_i64 x"
  by (simp add: checked_i64_def)

lemma checked_u64_Some: "checked_u64 x = Some n \<longleftrightarrow> x = int n \<and> in_u64 n"
  by (auto simp: checked_u64_def in_u64_def)

lemma checked_u64_None: "checked_u64 x = None \<longleftrightarrow> x < 0 \<or> int U64_MAX < x"
  by (auto simp: checked_u64_def)

lemma in_i64_saturating [simp]: "in_i64 (saturating_i64 x)"
  by (simp add: in_i64_def saturating_i64_def)

text \<open>Rust's integer \<open>/\<close> and \<open>%\<close> truncate towards zero.\<close>

definition trunc_div :: "int \<Rightarrow> int \<Rightarrow> int" where
  "trunc_div a b = sgn a * sgn b * (\<bar>a\<bar> div \<bar>b\<bar>)"

definition trunc_rem :: "int \<Rightarrow> int \<Rightarrow> int" where
  "trunc_rem a b = a - b * trunc_div a b"

subsection \<open>Comparison results\<close>

datatype ordering = Less | Equal | Greater

fun reverse_ordering :: "ordering \<Rightarrow> ordering" where
  "reverse_ordering Less = Greater"
| "reverse_ordering Equal = Equal"
| "reverse_ordering Greater = Less"

definition cmp_of :: "'a::linorder \<Rightarrow> 'a \<Rightarrow> ordering" where
  "cmp_of x y = (if x < y then Less else if x = y then Equal else Greater)"

lemma cmp_of_simps [simp]:
  "cmp_of x y = Less \<longleftrightarrow> x < y"
  "cmp_of x y = Equal \<longleftrightarrow> x = y"
  "cmp_of x y = Greater \<longleftrightarrow> y < x"
  by (auto simp: cmp_of_def)

text \<open>
  The contract of a Rust \<open>Ord\<close> instance: reflexive, antisymmetric under reversal and transitive.
  Clients that pick the best element of a sequence rely on these laws only.
\<close>

locale total_cmp =
  fixes cmp :: "'a \<Rightarrow> 'a \<Rightarrow> ordering"
  assumes cmp_refl: "cmp x x = Equal"
    and cmp_reverse: "cmp y x = reverse_ordering (cmp x y)"
    and cmp_trans: "cmp x y \<noteq> Greater \<Longrightarrow> cmp y z \<noteq> Greater \<Longrightarrow> cmp x z \<noteq> Greater"
begin

lemma cmp_greater_iff: "cmp x y = Greater \<longleftrightarrow> cmp y x = Less"
  by (subst cmp_reverse [of x y]) (cases "cmp y x"; simp)

lemma cmp_equal_sym: "cmp x y = Equal \<Longrightarrow> cmp y x = Equal"
  by (simp add: cmp_reverse [where x = x])

lemma cmp_not_greater_iff: "cmp x y \<noteq> Greater \<longleftrightarrow> cmp y x \<noteq> Less"
  using cmp_greater_iff by blast

lemma cmp_equal_trans:
  assumes "cmp x y = Equal" and "cmp y z = Equal"
  shows "cmp x z = Equal"
proof -
  have "cmp x z \<noteq> Greater" using cmp_trans [of x y z] assms by simp
  moreover have "cmp z x \<noteq> Greater"
    using cmp_trans [of z y x] cmp_equal_sym [OF assms(1)] cmp_equal_sym [OF assms(2)] by simp
  ultimately show ?thesis using cmp_greater_iff [of z x] by (cases "cmp x z") auto
qed

lemma cmp_less_le_trans:
  assumes "cmp x y = Less" and "cmp y z \<noteq> Greater"
  shows "cmp x z = Less"
proof (rule ccontr)
  assume neq: "cmp x z \<noteq> Less"
  have "cmp x z \<noteq> Greater" using cmp_trans [of x y z] assms by simp
  with neq have "cmp x z = Equal" by (cases "cmp x z") auto
  then have "cmp z x \<noteq> Greater" using cmp_equal_sym by simp
  with assms(2) have "cmp y x \<noteq> Greater" by (rule cmp_trans)
  then show False using assms(1) cmp_greater_iff by blast
qed

lemma cmp_le_less_trans:
  assumes "cmp x y \<noteq> Greater" and "cmp y z = Less"
  shows "cmp x z = Less"
proof (rule ccontr)
  assume neq: "cmp x z \<noteq> Less"
  then have "cmp z x \<noteq> Greater" using cmp_greater_iff [of z x] by blast
  then have "cmp z y \<noteq> Greater" using assms(1) by (rule cmp_trans)
  then show False using assms(2) cmp_greater_iff [of z y] by blast
qed

end

interpretation linorder_cmp: total_cmp "cmp_of :: 'a::linorder \<Rightarrow> 'a \<Rightarrow> ordering"
proof unfold_locales
  fix x y :: 'a
  show "cmp_of y x = reverse_ordering (cmp_of x y)" by (auto simp: cmp_of_def)
qed (auto simp: cmp_of_def split: if_splits)

subsection \<open>Sorted sequences\<close>

lemma strict_sorted_remdups_adj:
  "sorted xs \<Longrightarrow> sorted_wrt (<) (remdups_adj xs)" for xs :: "'a::linorder list"
proof (induction xs rule: remdups_adj.induct)
  case (3 x y xs)
  show ?case
  proof (cases "x = y")
    case False
    have "\<forall>z \<in> set (remdups_adj (y # xs)). x < z"
      using 3(3) False by (auto simp: le_less)
    then show ?thesis using 3 False by simp
  qed (use 3 in simp)
qed simp_all

subsection \<open>Strings\<close>

definition strip_prefix :: "string \<Rightarrow> string \<Rightarrow> string option" where
  "strip_prefix p s = (if prefix p s then Some (drop (length p) s) else None)"

text \<open>\<open>str::split(c)\<close>: a string without the separator is one segment, also the empty string.\<close>

fun split_on :: "'a \<Rightarrow> 'a list \<Rightarrow> 'a list list" where
  "split_on c [] = [[]]"
| "split_on c (x # xs) =
     (if x = c then [] # split_on c xs
      else (case split_on c xs of [] \<Rightarrow> [[x]] | y # ys \<Rightarrow> (x # y) # ys))"

fun join_with :: "'a list \<Rightarrow> 'a list list \<Rightarrow> 'a list" where
  "join_with sep [] = []"
| "join_with sep [x] = x"
| "join_with sep (x # y # zs) = x @ sep @ join_with sep (y # zs)"

lemma split_on_not_Nil [simp]: "split_on c xs \<noteq> []"
  by (induction xs) (auto split: list.splits)

lemma split_on_no_sep: "c \<notin> set xs \<Longrightarrow> split_on c xs = [xs]"
  by (induction xs) auto

lemma split_on_append: "c \<notin> set xs \<Longrightarrow> split_on c (xs @ c # ys) = xs # split_on c ys"
  by (induction xs) auto

lemma split_on_elem: "y \<in> set (split_on c xs) \<Longrightarrow> c \<notin> set y \<and> set y \<subseteq> set xs"
proof (induction xs arbitrary: y)
  case Nil
  then show ?case by simp
next
  case (Cons x xs)
  obtain z zs where s: "split_on c xs = z # zs"
    by (cases "split_on c xs") auto
  have z: "c \<notin> set z \<and> set z \<subseteq> set xs" using Cons.IH [of z] s by simp
  have zs: "\<forall>y \<in> set zs. c \<notin> set y \<and> set y \<subseteq> set xs" using Cons.IH s by simp
  show ?case using Cons.prems s z zs by (auto split: if_splits)
qed

lemma split_join: "split_on c (join_with [c] xs) = xs"
  if "xs \<noteq> []" "\<forall>x \<in> set xs. c \<notin> set x" for c :: 'a and xs
  using that
  by (induction "[c]" xs rule: join_with.induct) (auto simp: split_on_no_sep split_on_append)

lemma join_split: "join_with [c] (split_on c xs) = xs"
proof (induction xs)
  case Nil
  then show ?case by simp
next
  case (Cons x xs)
  obtain y ys where s: "split_on c xs = y # ys"
    by (cases "split_on c xs") auto
  show ?case
  proof (cases "x = c")
    case True
    with Cons s show ?thesis by simp
  next
    case False
    with Cons s show ?thesis by (cases ys) auto
  qed
qed

text \<open>\<open>str::rsplit_once(c)\<close>: the last separator splits the string.\<close>

definition rsplit_once :: "'a \<Rightarrow> 'a list \<Rightarrow> ('a list \<times> 'a list) option" where
  "rsplit_once c xs =
     (case rev (split_on c xs) of
        [] \<Rightarrow> None
      | [_] \<Rightarrow> None
      | y # ys \<Rightarrow> Some (join_with [c] (rev ys), y))"

text \<open>\<open>str::trim\<close> removes \<open>char::is_whitespace\<close> characters, here by their UTF-8 encodings.\<close>

definition ws_encodings :: "string list" where
  "ws_encodings =
     [[CHR 0x09], [CHR 0x0A], [CHR 0x0B], [CHR 0x0C], [CHR 0x0D], [CHR 0x20],
      [CHR 0xC2, CHR 0x85], [CHR 0xC2, CHR 0xA0], [CHR 0xE1, CHR 0x9A, CHR 0x80],
      [CHR 0xE2, CHR 0x80, CHR 0x80], [CHR 0xE2, CHR 0x80, CHR 0x81],
      [CHR 0xE2, CHR 0x80, CHR 0x82], [CHR 0xE2, CHR 0x80, CHR 0x83],
      [CHR 0xE2, CHR 0x80, CHR 0x84], [CHR 0xE2, CHR 0x80, CHR 0x85],
      [CHR 0xE2, CHR 0x80, CHR 0x86], [CHR 0xE2, CHR 0x80, CHR 0x87],
      [CHR 0xE2, CHR 0x80, CHR 0x88], [CHR 0xE2, CHR 0x80, CHR 0x89],
      [CHR 0xE2, CHR 0x80, CHR 0x8A], [CHR 0xE2, CHR 0x80, CHR 0xA8],
      [CHR 0xE2, CHR 0x80, CHR 0xA9], [CHR 0xE2, CHR 0x80, CHR 0xAF],
      [CHR 0xE2, CHR 0x81, CHR 0x9F], [CHR 0xE3, CHR 0x80, CHR 0x80]]"

function strip_all :: "string list \<Rightarrow> string \<Rightarrow> string" where
  "strip_all ws s =
     (case find (\<lambda>w. w \<noteq> [] \<and> prefix w s) ws of
        None \<Rightarrow> s
      | Some w \<Rightarrow> strip_all ws (drop (length w) s))"
  by pat_completeness auto
termination
proof (relation "measure (\<lambda>(ws, s). length s)")
  fix ws s w
  assume "find (\<lambda>w. w \<noteq> [] \<and> prefix w s) ws = Some w"
  then have "w \<noteq> []" and "length w \<le> length s"
    by (auto simp: find_Some_iff dest: prefix_length_le)
  then have "length s - length w < length s"
    by (metis diff_less length_greater_0_conv list.size(3) le_zero_eq)
  then show "((ws, drop (length w) s), ws, s) \<in> measure (\<lambda>(ws, s). length s)"
    by simp
qed simp

declare strip_all.simps [simp del]

definition trim :: "string \<Rightarrow> string" where
  "trim s = rev (strip_all (map rev ws_encodings) (rev (strip_all ws_encodings s)))"

text \<open>\<open>u64::from_str\<close>: digits with an optional \<open>+\<close>, refused on overflow.\<close>

definition is_digit :: "char \<Rightarrow> bool" where
  "is_digit c \<longleftrightarrow> CHR ''0'' \<le> c \<and> c \<le> CHR ''9''"

definition digit_val :: "char \<Rightarrow> nat" where
  "digit_val c = of_char c - 48"

fun digits_val :: "nat \<Rightarrow> string \<Rightarrow> nat" where
  "digits_val acc [] = acc"
| "digits_val acc (c # cs) = digits_val (10 * acc + digit_val c) cs"

definition parse_uint :: "nat \<Rightarrow> string \<Rightarrow> nat option" where
  "parse_uint maxv s =
     (let ds = (case s of [] \<Rightarrow> s | c # cs \<Rightarrow> if c = CHR ''+'' then cs else s)
      in if ds = [] \<or> \<not> list_all is_digit ds then None
         else if digits_val 0 ds \<le> maxv then Some (digits_val 0 ds) else None)"

abbreviation parse_u64 :: "string \<Rightarrow> nat option" where
  "parse_u64 \<equiv> parse_uint U64_MAX"

lemma parse_uint_le: "parse_uint m s = Some n \<Longrightarrow> n \<le> m"
  by (auto simp: parse_uint_def Let_def split: if_splits)

section \<open>Subsequences\<close>

lemma subseq_distinct: "subseq xs ys \<Longrightarrow> distinct ys \<Longrightarrow> distinct xs"
  by (auto simp: subseq_conv_nths intro: distinct_nthsI)

lemma subseq_set: "subseq xs ys \<Longrightarrow> set xs \<subseteq> set ys"
  by (auto simp: subseq_conv_nths dest: in_set_nthsD)

lemma subseq_remove1: "subseq (remove1 x xs) xs"
  by (induction xs) auto

lemma subseq_sum_list: "subseq xs ys \<Longrightarrow> sum_list (map f xs) \<le> sum_list (map (f :: 'a \<Rightarrow> nat) ys)"
  by (induction rule: list_emb.induct) auto

section \<open>Decimal numbers\<close>

fun dec :: "nat \<Rightarrow> string" where
  "dec n = (if n < 10 then [char_of (48 + n)] else dec (n div 10) @ [char_of (48 + n mod 10)])"

declare dec.simps [simp del]

lemma digits_val_append: "digits_val acc (xs @ ys) = digits_val (digits_val acc xs) ys"
  by (induction xs arbitrary: acc) simp_all

lemma digits_val_dec: "digits_val 0 (dec n) = n"
proof (induction n rule: dec.induct)
  case (1 n)
  have digit: "digit_val (char_of (48 + k)) = k" if "k < 10" for k
    using that by (simp add: digit_val_def)
  show ?case
  proof (cases "n < 10")
    case True
    then show ?thesis by (simp add: dec.simps[of n] digit)
  next
    case False
    then have "digits_val 0 (dec n) = 10 * (n div 10) + n mod 10"
      using 1 by (simp add: dec.simps[of n] digits_val_append digit)
    then show ?thesis by simp
  qed
qed

lemma dec_inj: "dec m = dec n \<Longrightarrow> m = n"
  by (metis digits_val_dec)

lemma dec_digits: "dec n \<noteq> [] \<and> list_all is_digit (dec n)"
proof (induction n rule: dec.induct)
  case (1 n)
  have digit: "is_digit (char_of (48 + k))" if "k < 10" for k :: nat
    using that by (simp add: is_digit_def less_eq_char_def)
  show ?case
    using 1 digit by (cases "n < 10") (simp_all add: dec.simps[of n])
qed

lemma parse_uint_dec: "n \<le> m \<Longrightarrow> parse_uint m (dec n) = Some n"
proof -
  assume le: "n \<le> m"
  obtain c cs where d: "dec n = c # cs" "is_digit c" using dec_digits[of n] by (cases "dec n") auto
  then have "c \<noteq> CHR ''+''" by (auto simp: is_digit_def less_eq_char_def)
  then show ?thesis
    using d le dec_digits[of n] digits_val_dec[of n] by (simp add: parse_uint_def Let_def)
qed

end
