(* ===== verification/Unix_Path.thy ===== *)
theory Unix_Path
  imports Shoal_Prelude
begin

text \<open>
  The part of \<open>std::path\<close> on Unix that the policy code uses. A path that arrives from outside
  (an effect's path, a policy grant) is its text, and \<open>components\<close> splits it as
  \<open>Path::components\<close> does. A path the code builds itself by \<open>push\<close> and \<open>pop\<close> from
  components is an \<open>lpath\<close>: whether it starts at the root and its normal segments; \<open>path_str\<close>
  is the text such a \<open>PathBuf\<close> holds.
\<close>

datatype component = RootDir | CurDir | ParentDir | Normal string

abbreviation sep :: char where
  "sep \<equiv> CHR ''/''"

definition comp_of :: "string \<Rightarrow> component option" where
  "comp_of seg =
     (if seg = [] \<or> seg = ''.'' then None
      else if seg = ''..'' then Some ParentDir else Some (Normal seg))"

definition is_absolute :: "string \<Rightarrow> bool" where
  "is_absolute s \<longleftrightarrow> prefix [sep] s"

definition components :: "string \<Rightarrow> component list" where
  "components s =
     (let segs = split_on sep s
      in (if is_absolute s then [RootDir] else if hd segs = ''.'' then [CurDir] else [])
         @ List.map_filter comp_of segs)"

text \<open>\<open>PathBuf::join\<close> on text: an absolute argument replaces the base.\<close>

definition path_join :: "string \<Rightarrow> string \<Rightarrow> string" where
  "path_join base p =
     (if is_absolute p then p
      else if base = [] \<or> last base = sep then base @ p else base @ [sep] @ p)"

subsection \<open>Built paths\<close>

record lpath =
  rooted :: bool
  segs :: "string list"

definition path_empty :: lpath where
  "path_empty = \<lparr>rooted = False, segs = []\<rparr>"

definition path_root :: lpath where
  "path_root = \<lparr>rooted = True, segs = []\<rparr>"

definition path_push :: "lpath \<Rightarrow> string \<Rightarrow> lpath" where
  "path_push p s = p\<lparr>segs := segs p @ [s]\<rparr>"

definition path_pop :: "lpath \<Rightarrow> lpath" where
  "path_pop p = p\<lparr>segs := butlast (segs p)\<rparr>"

definition path_extend :: "lpath \<Rightarrow> string list \<Rightarrow> lpath" where
  "path_extend p ss = p\<lparr>segs := segs p @ ss\<rparr>"

definition path_str :: "lpath \<Rightarrow> string" where
  "path_str p = (if rooted p then [sep] else []) @ join_with [sep] (segs p)"

definition path_is_empty :: "lpath \<Rightarrow> bool" where
  "path_is_empty p \<longleftrightarrow> \<not> rooted p \<and> segs p = []"

text \<open>A segment a component can carry, and a path made of such segments.\<close>

definition clean_seg :: "string \<Rightarrow> bool" where
  "clean_seg s \<longleftrightarrow> s \<noteq> [] \<and> s \<noteq> ''.'' \<and> s \<noteq> ''..'' \<and> sep \<notin> set s"

definition clean :: "lpath \<Rightarrow> bool" where
  "clean p \<longleftrightarrow> (\<forall>s \<in> set (segs p). clean_seg s)"

lemma clean_simps [simp]:
  "clean path_empty" "clean path_root"
  "clean (path_push p s) \<longleftrightarrow> clean p \<and> clean_seg s"
  "clean (path_extend p ss) \<longleftrightarrow> clean p \<and> (\<forall>s \<in> set ss. clean_seg s)"
  by (auto simp: clean_def path_empty_def path_root_def path_push_def path_extend_def)

lemma clean_pop [simp]: "clean p \<Longrightarrow> clean (path_pop p)"
  by (auto simp: clean_def path_pop_def dest: in_set_butlastD)

lemma components_Normal:
  "Normal s \<in> set (components p) \<Longrightarrow> clean_seg s"
proof -
  assume "Normal s \<in> set (components p)"
  then obtain seg where seg: "seg \<in> set (split_on sep p)" "comp_of seg = Some (Normal s)"
    by (auto simp: components_def Let_def List.map_filter_def split: if_splits)
  then show ?thesis
    using split_on_elem [OF seg(1)] by (auto simp: comp_of_def clean_seg_def split: if_splits)
qed

lemma map_filter_clean:
  "\<forall>s \<in> set ss. clean_seg s \<Longrightarrow> List.map_filter comp_of ss = map Normal ss"
  by (induction ss) (auto simp: comp_of_def clean_seg_def)

text \<open>The text of a clean built path splits back into the components it was built from.\<close>

lemma components_path_str:
  assumes "clean p"
  shows "components (path_str p) = (if rooted p then [RootDir] else []) @ map Normal (segs p)"
proof -
  have c: "\<forall>s \<in> set (segs p). clean_seg s" using assms by (simp add: clean_def)
  then have nosep: "\<forall>s \<in> set (segs p). sep \<notin> set s" by (simp add: clean_seg_def)
  show ?thesis
  proof (cases "segs p")
    case Nil
    then show ?thesis
      by (simp add: components_def path_str_def is_absolute_def comp_of_def Let_def)
  next
    case (Cons x xs)
    have sp: "split_on sep (join_with [sep] (segs p)) = segs p"
      by (rule split_join) (use Cons nosep in auto)
    obtain y ys where x: "x = y # ys" using c Cons by (cases x) (auto simp: clean_seg_def)
    have hdx: "y \<noteq> sep" using nosep Cons x by auto
    obtain r where j: "join_with [sep] (segs p) = y # r"
      using Cons x by (cases xs) auto
    have "\<not> is_absolute (join_with [sep] (segs p))"
      using hdx j by (simp add: is_absolute_def)
    then show ?thesis
      using sp c Cons map_filter_clean [OF c]
      by (auto simp: components_def path_str_def is_absolute_def Let_def comp_of_def clean_seg_def)
  qed
qed

subsection \<open>Lexical normalization\<close>

text \<open>One component of a path folded into the path built so far.\<close>

fun push_component :: "lpath \<Rightarrow> component \<Rightarrow> lpath" where
  "push_component p RootDir = path_root"
| "push_component p CurDir = p"
| "push_component p ParentDir = path_pop p"
| "push_component p (Normal s) = path_push p s"

lemma clean_fold_push:
  assumes "clean p" and "\<forall>s. Normal s \<in> set cs \<longrightarrow> clean_seg s"
  shows "clean (foldl push_component p cs)"
  using assms
proof (induction cs arbitrary: p)
  case Nil
  then show ?case by simp
next
  case (Cons c cs)
  have "clean (push_component p c)" using Cons.prems by (cases c) auto
  then show ?case using Cons by simp
qed

lemma foldl_push_Normal:
  "foldl push_component p (map Normal ss) = path_extend p ss"
  by (induction ss arbitrary: p) (auto simp: path_push_def path_extend_def)

lemma path_extend_empty: "path_extend path_empty ss = \<lparr>rooted = False, segs = ss\<rparr>"
  and path_extend_root: "path_extend path_root ss = \<lparr>rooted = True, segs = ss\<rparr>"
  by (simp_all add: path_extend_def path_empty_def path_root_def)

subsection \<open>The order of paths\<close>

text \<open>
  \<open>Path\<close> compares component by component; components compare by variant, then by text. The empty
  component list is least.
\<close>

instantiation component :: linorder
begin

fun comp_rank :: "component \<Rightarrow> nat \<times> string" where
  "comp_rank RootDir = (1, [])"
| "comp_rank CurDir = (2, [])"
| "comp_rank ParentDir = (3, [])"
| "comp_rank (Normal s) = (4, s)"

definition less_eq_component :: "component \<Rightarrow> component \<Rightarrow> bool" where
  "less_eq_component a b \<longleftrightarrow>
     fst (comp_rank a) < fst (comp_rank b)
     \<or> fst (comp_rank a) = fst (comp_rank b) \<and> snd (comp_rank a) \<le> snd (comp_rank b)"

definition less_component :: "component \<Rightarrow> component \<Rightarrow> bool" where
  "less_component a b \<longleftrightarrow> a \<le> b \<and> \<not> b \<le> (a :: component)"

lemma comp_rank_inj: "comp_rank a = comp_rank b \<Longrightarrow> a = b"
  by (cases a; cases b) auto

instance
proof
  fix a b c :: component
  show "(a < b) = (a \<le> b \<and> \<not> b \<le> a)" by (simp add: less_component_def)
  show "a \<le> a" by (simp add: less_eq_component_def)
  show "a \<le> b \<Longrightarrow> b \<le> c \<Longrightarrow> a \<le> c" by (auto simp: less_eq_component_def)
  show "a \<le> b \<Longrightarrow> b \<le> a \<Longrightarrow> a = b"
    by (rule comp_rank_inj) (auto simp: less_eq_component_def prod_eq_iff)
  show "a \<le> b \<or> b \<le> a" by (auto simp: less_eq_component_def)
qed

end

definition path_comps :: "lpath \<Rightarrow> component list" where
  "path_comps p = (if rooted p then [RootDir] else []) @ map Normal (segs p)"

lemma path_comps_inj: "path_comps p = path_comps q \<Longrightarrow> p = q"
proof -
  assume eq: "path_comps p = path_comps q"
  have inj: "inj Normal" by (rule injI) simp
  show ?thesis
    using eq map_injective [OF _ inj, of "segs p" "segs q"]
    by (cases "segs p"; cases "segs q")
      (auto simp: path_comps_def split: if_splits intro!: lpath.equality)
qed

lemma inj_path_comps: "inj path_comps"
  by (rule injI) (rule path_comps_inj)

text \<open>\<open>Vec::sort\<close> followed by \<open>Vec::dedup\<close>.\<close>

definition sort_dedup :: "lpath list \<Rightarrow> lpath list" where
  "sort_dedup ps = remdups_adj (sort_key path_comps ps)"

lemma set_sort_dedup [simp]: "set (sort_dedup ps) = set ps"
  by (simp add: sort_dedup_def)

lemma sort_dedup_strict: "sorted_wrt (<) (map path_comps (sort_dedup ps))"
proof -
  have "map path_comps (sort_dedup ps) = remdups_adj (map path_comps (sort_key path_comps ps))"
    by (simp add: sort_dedup_def remdups_adj_map_injective [OF inj_path_comps])
  moreover have "sorted (map path_comps (sort_key path_comps ps))" by simp
  ultimately show ?thesis
    by (simp add: strict_sorted_remdups_adj)
qed

lemma sort_dedup_distinct: "distinct (sort_dedup ps)"
  using sort_dedup_strict [of ps] by (metis distinct_map strict_sorted_iff)

end
