(* ===== verification/Leash_Policy.thy ===== *)
theory Leash_Policy
  imports Unix_Path
begin

text \<open>
  The semantic effect and policy engine: \<open>leash/effects.rs\<close> and the evaluation half of
  \<open>leash/policy.rs\<close>. A \<open>policy\<close> maps principals to grants; \<open>evaluate_effect\<close> and
  \<open>evaluate_plan\<close> give the verdict that the kernel and the evaluator act on. The operating system
  and the \<open>glob\<close> crate are the fields of a \<open>host\<close> record, an argument of every definition that
  consults them.
\<close>

section \<open>Data model\<close>

type_synonym port = nat

datatype effect =
    FsRead "string list"
  | FsWrite "string list"
  | FsDelete "string list"
  | ProcSpawn (bin_hash: string) (argv0: string)
  | NetConnect string port
  | NetListen port
  | EnvRead "string list"
  | EnvWrite "string list"
  | SecretUse "string list"
  | SessionWrite
  | JournalRead
  | Time
  | Opaque

datatype reversibility = Reversible | Irreversible | Unknown

record estimates =
  est_bytes :: "nat option"
  est_items :: "nat option"

record plan =
  plan_ref :: string
  effects :: "effect list"
  plan_reversibility :: reversibility
  plan_estimates :: estimates

definition plan_new ::
  "(effect list \<times> reversibility \<times> estimates \<Rightarrow> string) \<Rightarrow> effect list \<Rightarrow> reversibility
   \<Rightarrow> estimates \<Rightarrow> plan" where
  "plan_new digest es r est =
     \<lparr>plan_ref = ''plan:'' @ take 16 (digest (es, r, est)), effects = es,
      plan_reversibility = r, plan_estimates = est\<rparr>"

datatype verdict = Allow | Deny | ApprovalRequired

datatype auto_apply_mode = ApplyReversible | ApplyInGrant | ApplyNever

datatype opaque_mode = OpaqueDeny | OpaqueAsk | OpaqueAllow

record principal_policy =
  fs_read :: "string list"
  fs_write :: "string list"
  fs_delete :: "string list"
  net_connect :: "string list"
  net_listen :: "port list"
  proc_spawn :: "string list"
  env_read :: "string list"
  env_write :: "string list"
  secret_use :: "string list"
  session_write :: bool
  journal_read :: bool
  time_read :: bool
  process_cpu_seconds :: "nat option"
  process_memory_bytes :: "nat option"
  auto_apply :: auto_apply_mode
  opaque :: opaque_mode
  hermetic :: bool

definition principal_default :: principal_policy where
  "principal_default =
     \<lparr>fs_read = [], fs_write = [], fs_delete = [], net_connect = [], net_listen = [],
      proc_spawn = [], env_read = [], env_write = [], secret_use = [], session_write = False,
      journal_read = False, time_read = False, process_cpu_seconds = None,
      process_memory_bytes = None, auto_apply = ApplyNever, opaque = OpaqueDeny,
      hermetic = False\<rparr>"

record policy =
  principals :: "string \<rightharpoonup> principal_policy"
  fail_closed :: bool

text \<open>The operating system and the \<open>glob\<close> crate, as the policy code sees them.\<close>

record host =
  env_home :: "string option"
  canonicalize :: "lpath \<Rightarrow> lpath option"
  path_exists :: "lpath \<Rightarrow> bool"
  glob_match_path :: "string \<Rightarrow> string \<Rightarrow> bool"
  glob_match :: "string \<Rightarrow> string \<Rightarrow> bool"
  glob_escape :: "string \<Rightarrow> string"
  glob_dirs :: "string \<Rightarrow> lpath list"

section \<open>Paths and grants\<close>

definition normalize :: "string \<Rightarrow> lpath" where
  "normalize p = foldl push_component path_empty (components p)"

definition has_glob_meta :: "string \<Rightarrow> bool" where
  "has_glob_meta s \<longleftrightarrow> list_ex (\<lambda>c. c \<in> set ''*?[]{}'') s"

text \<open>
  \<open>resolve_existing_prefix\<close>: the loop walks up from the whole path; \<open>rs\<close> holds the segments of the
  current ancestor in reverse, \<open>tail\<close> the ones already taken off.
\<close>

fun resolve_loop ::
  "(lpath \<Rightarrow> lpath option) \<Rightarrow> lpath \<Rightarrow> string list \<Rightarrow> string list \<Rightarrow> lpath" where
  "resolve_loop can p [] tail =
     (case can (p\<lparr>segs := []\<rparr>) of Some real \<Rightarrow> path_extend real tail | None \<Rightarrow> p)"
| "resolve_loop can p (s # rs) tail =
     (case can (p\<lparr>segs := rev (s # rs)\<rparr>) of
        Some real \<Rightarrow> path_extend real tail
      | None \<Rightarrow> resolve_loop can p rs (s # tail))"

definition resolve_existing_prefix :: "host \<Rightarrow> lpath \<Rightarrow> lpath" where
  "resolve_existing_prefix h p = resolve_loop (canonicalize h) p (rev (segs p)) []"

definition expand_grant :: "host \<Rightarrow> string \<Rightarrow> string" where
  "expand_grant h grant =
     (case strip_prefix ''~/'' grant of
        Some rest \<Rightarrow> path_join (case env_home h of Some d \<Rightarrow> d | None \<Rightarrow> []) rest
      | None \<Rightarrow> grant)"

text \<open>The loop of \<open>canonical_grant_pattern\<close>: the concrete root and the glob tail.\<close>

fun grant_split_step :: "lpath \<times> string list \<Rightarrow> component \<Rightarrow> lpath \<times> string list" where
  "grant_split_step (root, rest) RootDir = (path_root, rest)"
| "grant_split_step (root, rest) CurDir = (root, rest)"
| "grant_split_step (root, rest) ParentDir =
     (if rest = [] then (path_pop root, rest) else (root, butlast rest))"
| "grant_split_step (root, rest) (Normal seg) =
     (if rest \<noteq> [] \<or> has_glob_meta seg then (root, rest @ [seg]) else (path_push root seg, rest))"

definition append_tail :: "string \<Rightarrow> string list \<Rightarrow> string" where
  "append_tail out rest =
     foldl (\<lambda>out seg. (if out \<noteq> [] \<and> last out = sep then out else out @ [sep]) @ seg) out rest"

definition canonical_grant_pattern :: "host \<Rightarrow> string \<Rightarrow> string" where
  "canonical_grant_pattern h expanded =
     (let (root, rest) = foldl grant_split_step (path_empty, []) (components expanded)
      in append_tail (glob_escape h (path_str (resolve_existing_prefix h root))) rest)"

definition path_grant :: "host \<Rightarrow> string \<Rightarrow> string \<Rightarrow> bool" where
  "path_grant h grant path =
     glob_match_path h (canonical_grant_pattern h (expand_grant h grant))
       (path_str (resolve_existing_prefix h (normalize path)))"

definition system_bin_dirs :: "string list" where
  "system_bin_dirs =
     [''/usr/bin'', ''/bin'', ''/usr/local/bin'', ''/usr/sbin'', ''/sbin'', ''/opt/homebrew/bin'']"

definition file_name :: "string \<Rightarrow> string option" where
  "file_name p =
     (case rev (components p) of Normal n # _ \<Rightarrow> Some n | _ \<Rightarrow> None)"

definition parent_components :: "string \<Rightarrow> component list option" where
  "parent_components p =
     (case rev (components p) of
        [] \<Rightarrow> None | RootDir # _ \<Rightarrow> None | _ # cs \<Rightarrow> Some (rev cs))"

definition spawn_pin_matches :: "host \<Rightarrow> string \<Rightarrow> string \<Rightarrow> string \<Rightarrow> bool" where
  "spawn_pin_matches h grant hash argv =
     (if grant = hash then True
      else if sep \<notin> set argv then grant = argv
      else if sep \<in> set grant
      then resolve_existing_prefix h (normalize grant)
           = resolve_existing_prefix h (normalize argv)
      else file_name argv = Some grant
           \<and> (case parent_components argv of
                None \<Rightarrow> False
              | Some d \<Rightarrow> list_ex (\<lambda>s. d = components s) system_bin_dirs))"

definition host_grant :: "host \<Rightarrow> string \<Rightarrow> string \<Rightarrow> port \<Rightarrow> bool" where
  "host_grant h grant name p =
     (case rsplit_once (CHR '':'') grant of
        None \<Rightarrow> False
      | Some (host_pat, port_pat) \<Rightarrow>
          if port_pat \<noteq> ''*'' \<and> parse_uint 65535 port_pat \<noteq> Some p then False
          else glob_match h host_pat name)"

section \<open>Verdicts\<close>

definition bool_verdict :: "bool \<Rightarrow> verdict" where
  "bool_verdict ok = (if ok then Allow else Deny)"

definition names_verdict :: "string list \<Rightarrow> string list \<Rightarrow> verdict" where
  "names_verdict names grants =
     bool_verdict (list_all (\<lambda>n. list_ex (\<lambda>g. g = ''*'' \<or> g = n) grants) names)"

definition paths_verdict :: "host \<Rightarrow> string list \<Rightarrow> string list \<Rightarrow> verdict" where
  "paths_verdict h paths grants =
     bool_verdict (list_all (\<lambda>p. list_ex (\<lambda>g. path_grant h g p) grants) paths)"

fun opaque_verdict :: "opaque_mode \<Rightarrow> verdict" where
  "opaque_verdict OpaqueDeny = Deny"
| "opaque_verdict OpaqueAsk = ApprovalRequired"
| "opaque_verdict OpaqueAllow = Allow"

fun effect_verdict :: "host \<Rightarrow> principal_policy \<Rightarrow> effect \<Rightarrow> verdict" where
  "effect_verdict h p Opaque = opaque_verdict (opaque p)"
| "effect_verdict h p (FsRead ps) = paths_verdict h ps (fs_read p)"
| "effect_verdict h p (FsWrite ps) = paths_verdict h ps (fs_write p)"
| "effect_verdict h p (FsDelete ps) = paths_verdict h ps (fs_delete p)"
| "effect_verdict h p (ProcSpawn hash argv) =
     bool_verdict (list_ex (\<lambda>g. spawn_pin_matches h g hash argv) (proc_spawn p))"
| "effect_verdict h p (NetConnect name prt) =
     bool_verdict (list_ex (\<lambda>g. host_grant h g name prt) (net_connect p))"
| "effect_verdict h p (NetListen prt) = bool_verdict (prt \<in> set (net_listen p))"
| "effect_verdict h p (EnvRead ns) = names_verdict ns (env_read p)"
| "effect_verdict h p (EnvWrite ns) = names_verdict ns (env_write p)"
| "effect_verdict h p (SecretUse ns) = names_verdict ns (secret_use p)"
| "effect_verdict h p SessionWrite = bool_verdict (session_write p)"
| "effect_verdict h p JournalRead = bool_verdict (journal_read p)"
| "effect_verdict h p Time = bool_verdict (time_read p)"

definition evaluate_effect :: "host \<Rightarrow> policy \<Rightarrow> string \<Rightarrow> effect \<Rightarrow> verdict" where
  "evaluate_effect h pol who e =
     (if fail_closed pol then Deny
      else case principals pol who of None \<Rightarrow> Deny | Some p \<Rightarrow> effect_verdict h p e)"

definition spawn_pinning_active :: "policy \<Rightarrow> string \<Rightarrow> bool" where
  "spawn_pinning_active pol who \<longleftrightarrow>
     fail_closed pol
     \<or> (case principals pol who of None \<Rightarrow> False | Some p \<Rightarrow> proc_spawn p \<noteq> [])"

fun is_spawn :: "effect \<Rightarrow> bool" where
  "is_spawn (ProcSpawn hash argv) = True"
| "is_spawn _ = False"

text \<open>The \<open>for\<close> loop of \<open>evaluate_plan\<close> with its early return on a denial.\<close>

fun plan_loop :: "host \<Rightarrow> policy \<Rightarrow> string \<Rightarrow> verdict \<Rightarrow> effect list \<Rightarrow> verdict" where
  "plan_loop h pol who v [] = v"
| "plan_loop h pol who v (e # es) =
     (if is_spawn e \<and> \<not> spawn_pinning_active pol who then plan_loop h pol who v es
      else (case evaluate_effect h pol who e of
              Deny \<Rightarrow> Deny
            | ApprovalRequired \<Rightarrow> plan_loop h pol who ApprovalRequired es
            | Allow \<Rightarrow> plan_loop h pol who v es))"

fun auto_apply_verdict :: "auto_apply_mode \<Rightarrow> reversibility \<Rightarrow> verdict" where
  "auto_apply_verdict ApplyNever r = ApprovalRequired"
| "auto_apply_verdict ApplyInGrant r = Allow"
| "auto_apply_verdict ApplyReversible r =
     (if r = Reversible then Allow else ApprovalRequired)"

definition evaluate_plan :: "host \<Rightarrow> policy \<Rightarrow> string \<Rightarrow> plan \<Rightarrow> verdict" where
  "evaluate_plan h pol who pl =
     (if fail_closed pol then Deny
      else case principals pol who of
        None \<Rightarrow> Deny
      | Some p \<Rightarrow>
          (let v = plan_loop h pol who Allow (effects pl)
           in if v \<noteq> Allow then v else auto_apply_verdict (auto_apply p) (plan_reversibility pl)))"

section \<open>Environment and intent predicates\<close>

definition safe_child_env :: "string list" where
  "safe_child_env =
     [''PATH'', ''HOME'', ''USER'', ''LOGNAME'', ''SHELL'', ''LANG'', ''LANGUAGE'', ''TERM'',
      ''COLORTERM'', ''TZ'', ''TMPDIR'', ''PWD'', ''NO_COLOR'']"

definition child_env_allows :: "policy \<Rightarrow> string \<Rightarrow> string \<Rightarrow> bool" where
  "child_env_allows pol who name =
     (if name \<in> set safe_child_env \<or> prefix ''LC_'' name then True
      else if fail_closed pol then False
      else case principals pol who of
             None \<Rightarrow> False
           | Some p \<Rightarrow> list_ex (\<lambda>g. g = ''*'' \<or> g = name) (env_read p))"

text \<open>\<open>to_str\<close> is \<open>OsStr::to_str\<close>: \<open>None\<close> when the key is not valid UTF-8.\<close>

definition filter_child_env ::
  "('os \<Rightarrow> string option) \<Rightarrow> policy \<Rightarrow> string \<Rightarrow> ('os \<times> 'v) list \<Rightarrow> ('os \<times> 'v) list" where
  "filter_child_env to_str pol who env =
     filter (\<lambda>(k, _). case to_str k of None \<Rightarrow> False | Some n \<Rightarrow> child_env_allows pol who n) env"

definition network_scoping_active :: "policy \<Rightarrow> string \<Rightarrow> bool" where
  "network_scoping_active pol who \<longleftrightarrow>
     fail_closed pol
     \<or> (case principals pol who of
          None \<Rightarrow> False | Some p \<Rightarrow> net_connect p \<noteq> [] \<or> net_listen p \<noteq> [])"

definition hermetic_active :: "policy \<Rightarrow> string \<Rightarrow> bool" where
  "hermetic_active pol who \<longleftrightarrow>
     fail_closed pol \<or> (case principals pol who of None \<Rightarrow> False | Some p \<Rightarrow> hermetic p)"

definition process_limits_active :: "policy \<Rightarrow> string \<Rightarrow> bool" where
  "process_limits_active pol who \<longleftrightarrow>
     (case principals pol who of
        None \<Rightarrow> False
      | Some p \<Rightarrow> process_cpu_seconds p \<noteq> None \<or> process_memory_bytes p \<noteq> None)"

definition deny_all :: "string \<Rightarrow> policy" where
  "deny_all who = \<lparr>principals = [who \<mapsto> principal_default], fail_closed = True\<rparr>"

section \<open>Specification: the verdict order\<close>

text \<open>Verdicts ordered by severity; a plan's verdict is the most severe of its parts.\<close>

instantiation verdict :: linorder
begin

fun severity :: "verdict \<Rightarrow> nat" where
  "severity Allow = 0"
| "severity ApprovalRequired = 1"
| "severity Deny = 2"

definition less_eq_verdict :: "verdict \<Rightarrow> verdict \<Rightarrow> bool" where
  "less_eq_verdict a b \<longleftrightarrow> severity a \<le> severity b"

definition less_verdict :: "verdict \<Rightarrow> verdict \<Rightarrow> bool" where
  "less_verdict a b \<longleftrightarrow> severity a < severity b"

instance
proof
  fix a b c :: verdict
  show "(a < b) = (a \<le> b \<and> \<not> b \<le> a)" by (auto simp: less_verdict_def less_eq_verdict_def)
  show "a \<le> a" by (simp add: less_eq_verdict_def)
  show "a \<le> b \<Longrightarrow> b \<le> c \<Longrightarrow> a \<le> c" by (simp add: less_eq_verdict_def)
  show "a \<le> b \<Longrightarrow> b \<le> a \<Longrightarrow> a = b" by (cases a; cases b) (simp_all add: less_eq_verdict_def)
  show "a \<le> b \<or> b \<le> a" by (auto simp: less_eq_verdict_def)
qed

end

lemma verdict_bounds [simp]: "Allow \<le> v" "v \<le> Deny" for v :: verdict
  by (cases v; simp add: less_eq_verdict_def)+

lemma verdict_order_simps [simp]:
  "(v \<le> Allow) = (v = Allow)" "(Deny \<le> v) = (v = Deny)"
  "max Allow v = v" "max v Allow = v" "max Deny v = Deny" "max v Deny = Deny" for v :: verdict
  by (cases v; simp add: less_eq_verdict_def max_def)+

lemma bool_verdict_simps [simp]:
  "bool_verdict b = Allow \<longleftrightarrow> b" "bool_verdict b = Deny \<longleftrightarrow> \<not> b"
  "bool_verdict b \<noteq> ApprovalRequired"
  "bool_verdict b \<le> bool_verdict c \<longleftrightarrow> (c \<longrightarrow> b)"
  by (auto simp: bool_verdict_def less_eq_verdict_def)

definition gated :: "policy \<Rightarrow> string \<Rightarrow> effect \<Rightarrow> bool" where
  "gated pol who e \<longleftrightarrow> \<not> (is_spawn e \<and> \<not> spawn_pinning_active pol who)"

definition plan_spec :: "host \<Rightarrow> policy \<Rightarrow> string \<Rightarrow> plan \<Rightarrow> verdict" where
  "plan_spec h pol who pl =
     (if fail_closed pol then Deny
      else case principals pol who of
        None \<Rightarrow> Deny
      | Some p \<Rightarrow>
          foldr max (map (evaluate_effect h pol who) (filter (gated pol who) (effects pl)))
            (auto_apply_verdict (auto_apply p) (plan_reversibility pl)))"

text \<open>One principal grants at most what another does.\<close>

definition grants_le :: "principal_policy \<Rightarrow> principal_policy \<Rightarrow> bool" where
  "grants_le p q \<longleftrightarrow>
     set (fs_read p) \<subseteq> set (fs_read q) \<and> set (fs_write p) \<subseteq> set (fs_write q)
     \<and> set (fs_delete p) \<subseteq> set (fs_delete q) \<and> set (net_connect p) \<subseteq> set (net_connect q)
     \<and> set (net_listen p) \<subseteq> set (net_listen q) \<and> set (proc_spawn p) \<subseteq> set (proc_spawn q)
     \<and> set (env_read p) \<subseteq> set (env_read q) \<and> set (env_write p) \<subseteq> set (env_write q)
     \<and> set (secret_use p) \<subseteq> set (secret_use q) \<and> (session_write p \<longrightarrow> session_write q)
     \<and> (journal_read p \<longrightarrow> journal_read q) \<and> (time_read p \<longrightarrow> time_read q)
     \<and> opaque_verdict (opaque q) \<le> opaque_verdict (opaque p)"

section \<open>Allow lists\<close>

text \<open>
  The contract shared by every list of grants: a request is allowed exactly when each of its items
  is matched by some grant, and is denied otherwise.
\<close>

locale allow_list =
  fixes check :: "'i list \<Rightarrow> 'g list \<Rightarrow> verdict"
    and matches :: "'g \<Rightarrow> 'i \<Rightarrow> bool"
  assumes check_eq:
    "check items grants = bool_verdict (\<forall>i \<in> set items. \<exists>g \<in> set grants. matches g i)"
begin

lemma check_allow_iff:
  "check items grants = Allow \<longleftrightarrow> (\<forall>i \<in> set items. \<exists>g \<in> set grants. matches g i)"
  by (simp add: check_eq)

lemma check_mono_grants: "set gs \<subseteq> set gs' \<Longrightarrow> check items gs' \<le> check items gs"
  by (simp add: check_eq) blast

lemma check_mono_items: "set is \<subseteq> set is' \<Longrightarrow> check is gs \<le> check is' gs"
  by (auto simp: check_eq)

lemma check_append: "check (is @ is') gs = max (check is gs) (check is' gs)"
  by (auto simp: check_eq bool_verdict_def ball_Un)

lemma check_no_grants: "check is [] = (if is = [] then Allow else Deny)"
  by (cases "is") (auto simp: check_eq bool_verdict_def)

end

interpretation names: allow_list names_verdict "\<lambda>g n. g = ''*'' \<or> g = n"
  by unfold_locales (simp add: names_verdict_def list_all_iff list_ex_iff)

interpretation paths: allow_list "paths_verdict h" "path_grant h" for h
  by unfold_locales (simp add: paths_verdict_def list_all_iff list_ex_iff)

section \<open>Helper lemmas\<close>

lemma foldr_max_absorb: "foldr max vs (v :: verdict) = max (foldr max vs Allow) v"
  by (induction vs) (simp_all add: max.assoc)

lemma plan_loop_Cons:
  "plan_loop h pol who v (e # es) =
     (if gated pol who e
      then (case evaluate_effect h pol who e of
              Deny \<Rightarrow> Deny
            | ApprovalRequired \<Rightarrow> plan_loop h pol who ApprovalRequired es
            | Allow \<Rightarrow> plan_loop h pol who v es)
      else plan_loop h pol who v es)"
  by (simp add: gated_def)

lemma plan_loop_max:
  "v \<noteq> Deny \<Longrightarrow>
   plan_loop h pol who v es
   = max v (foldr max (map (evaluate_effect h pol who) (filter (gated pol who) es)) Allow)"
proof (induction es arbitrary: v)
  case Nil
  then show ?case by simp
next
  case (Cons e es)
  have ar: "max v (max ApprovalRequired w) = max ApprovalRequired w" for w :: verdict
    using Cons.prems by (cases v; cases w) (simp_all add: max_def less_eq_verdict_def)
  show ?case
    using Cons unfolding plan_loop_Cons
    by (cases "evaluate_effect h pol who e") (simp_all add: ar)
qed

lemma foldr_max_le: "foldr max vs (b :: verdict) \<le> w \<longleftrightarrow> (\<forall>v \<in> set vs. v \<le> w) \<and> b \<le> w"
  by (induction vs) auto

lemma auto_apply_not_deny: "auto_apply_verdict m r \<noteq> Deny"
  by (cases m) auto

lemma plan_spec_le:
  "plan_spec h pol who pl \<le> w \<longleftrightarrow>
     w = Deny
     \<or> (\<not> fail_closed pol
        \<and> (\<exists>p. principals pol who = Some p
             \<and> (\<forall>e \<in> set (effects pl). gated pol who e \<longrightarrow> evaluate_effect h pol who e \<le> w)
             \<and> auto_apply_verdict (auto_apply p) (plan_reversibility pl) \<le> w))"
  by (auto simp: plan_spec_def foldr_max_le split: option.splits)

lemma normalize_clean [simp]: "clean (normalize p)"
  unfolding normalize_def
  by (rule clean_fold_push) (auto dest: components_Normal)

lemma normalize_path_str: "clean p \<Longrightarrow> normalize (path_str p) = p"
  by (simp add: normalize_def components_path_str foldl_push_Normal
      path_extend_empty path_extend_root)

lemma resolve_loop_found:
  assumes "can (p\<lparr>segs := rev rs\<rparr>) = Some real"
    and "\<forall>us. us \<noteq> [] \<and> prefix us xs \<longrightarrow> can (p\<lparr>segs := rev rs @ us\<rparr>) = None"
  shows "resolve_loop can p (rev xs @ rs) tail = path_extend real (xs @ tail)"
  using assms(2)
proof (induction xs arbitrary: tail rule: rev_induct)
  case Nil
  show ?case using assms(1) by (cases rs) auto
next
  case (snoc x xs)
  have none: "can (p\<lparr>segs := rev rs @ xs @ [x]\<rparr>) = None" using snoc.prems by simp
  have "resolve_loop can p (rev xs @ rs) (x # tail) = path_extend real (xs @ x # tail)"
    using snoc by (simp add: prefix_snoc)
  then show ?case using none by simp
qed

lemma resolve_loop_none:
  "\<forall>us. prefix us (rev rs) \<longrightarrow> can (p\<lparr>segs := us\<rparr>) = None \<Longrightarrow> resolve_loop can p rs tail = p"
proof (induction rs arbitrary: tail)
  case Nil
  then show ?case by simp
next
  case (Cons s rs)
  have "can (p\<lparr>segs := rev (s # rs)\<rparr>) = None" using Cons.prems by blast
  moreover have "resolve_loop can p rs (s # tail) = p"
    using Cons by (simp add: prefix_snoc)
  ultimately show ?case by simp
qed


lemma evaluate_plan_is_spec: "evaluate_plan h pol who pl = plan_spec h pol who pl"
proof (cases "fail_closed pol \<or> principals pol who = None")
  case True
  then show ?thesis by (auto simp: evaluate_plan_def plan_spec_def)
next
  case False
  then obtain p where p: "principals pol who = Some p" "\<not> fail_closed pol" by auto
  let ?w = "foldr max (map (evaluate_effect h pol who) (filter (gated pol who) (effects pl))) Allow"
  let ?a = "auto_apply_verdict (auto_apply p) (plan_reversibility pl)"
  have "max ?w ?a = (if ?w \<noteq> Allow then ?w else ?a)"
    using auto_apply_not_deny[of "auto_apply p" "plan_reversibility pl"]
    by (cases ?w; cases ?a) (simp_all add: max_def less_eq_verdict_def)
  then show ?thesis
    using p foldr_max_absorb[of _ ?a]
    by (simp add: evaluate_plan_def plan_spec_def plan_loop_max Let_def)
qed

section \<open>Properties\<close>

text \<open>
  C34. The loop of \<open>evaluate_plan\<close> with its early returns computes the most severe of the verdicts of
  the gated effects and of the auto-apply mode; an unknown principal and a quarantined policy are
  denied.
\<close>

theorem evaluate_plan_refines_spec:
  "evaluate_plan h pol who pl =
     (if fail_closed pol \<or> principals pol who = None then Deny
      else Max (insert (auto_apply_verdict (auto_apply (the (principals pol who)))
                         (plan_reversibility pl))
                 (evaluate_effect h pol who ` {e \<in> set (effects pl). gated pol who e})))"
proof -
  have "foldr max vs a = Max (insert a (set vs))" for vs :: "verdict list" and a
    by (induction vs) (simp_all add: insert_commute[of a])
  then show ?thesis
    by (auto simp: evaluate_plan_is_spec plan_spec_def)
qed

text \<open>
  C35. Adding effects to a plan never makes its verdict milder, and the order and the multiplicity of
  the effects do not matter.
\<close>

theorem evaluate_plan_mono_effects:
  assumes "set (effects a) \<subseteq> set (effects b)"
    and "plan_reversibility a = plan_reversibility b"
  shows "evaluate_plan h pol who a \<le> evaluate_plan h pol who b"
proof -
  have "plan_spec h pol who b \<le> plan_spec h pol who b" by simp
  then show ?thesis
    unfolding evaluate_plan_is_spec plan_spec_le using assms by auto
qed

text \<open>
  A principal with more grants is never given a more severe verdict on an effect.
\<close>

theorem effect_verdict_mono_grants:
  "grants_le p q \<Longrightarrow> effect_verdict h q e \<le> effect_verdict h p e"
  by (cases e)
    (auto simp: grants_le_def list_ex_iff paths.check_mono_grants names.check_mono_grants)

text \<open>
  A file target is judged where it really is: when \<open>pre\<close> is the longest ancestor of the
  normalised target that the operating system can resolve, to \<open>real\<close>, the grant is matched against
  \<open>real\<close> followed by the rest of the target; nothing of the path as written survives, so neither
  \<open>..\<close> nor a symbolic link escapes a grant.
\<close>

theorem path_grant_resolved:
  assumes "normalize path = \<lparr>rooted = b, segs = pre @ rest\<rparr>"
    and "canonicalize h \<lparr>rooted = b, segs = pre\<rparr> = Some real"
    and "\<And>us. us \<noteq> [] \<Longrightarrow> prefix us rest \<Longrightarrow> canonicalize h \<lparr>rooted = b, segs = pre @ us\<rparr> = None"
  shows "path_grant h grant path \<longleftrightarrow>
    glob_match_path h (canonical_grant_pattern h (expand_grant h grant))
      (path_str (path_extend real rest))"
  using assms resolve_loop_found[where can = "canonicalize h" and p = "normalize path" and rs = "rev pre"
      and xs = rest and tail = "[]" and real = real]
  by (simp add: path_grant_def resolve_existing_prefix_def)

text \<open>
  A bare command name in \<open>proc.spawn\<close> admits a program given by path only from one of the fixed
  system directories: a binary of the same name anywhere else is refused.
\<close>

theorem bare_pin_only_system_dirs:
  assumes "sep \<in> set argv" and "sep \<notin> set grant" and "grant \<noteq> hash"
  shows "spawn_pin_matches h grant hash argv \<longleftrightarrow>
    (\<exists>d \<in> set system_bin_dirs. components argv = components d @ [Normal grant])"
proof (cases "components argv" rule: rev_cases)
  case Nil
  then show ?thesis using assms by (simp add: spawn_pin_matches_def file_name_def)
next
  case (snoc cs c)
  then show ?thesis using assms
    by (cases c)
      (auto simp: spawn_pin_matches_def file_name_def parent_components_def list_ex_iff)
qed

text \<open>
  A quarantined policy (\<open>deny_all\<close>, what a policy file that cannot be read or parsed becomes)
  denies every effect and plan of every principal, scopes its network and its spawns, and leaves a
  child process only the fixed safe variables.
\<close>

theorem deny_all_fails_closed:
  "evaluate_effect h (deny_all who) q e = Deny
   \<and> evaluate_plan h (deny_all who) q pl = Deny
   \<and> spawn_pinning_active (deny_all who) q
   \<and> network_scoping_active (deny_all who) q
   \<and> hermetic_active (deny_all who) q
   \<and> (child_env_allows (deny_all who) q n \<longleftrightarrow> n \<in> set safe_child_env \<or> prefix ''LC_'' n)"
  by (simp add: deny_all_def evaluate_effect_def evaluate_plan_def spawn_pinning_active_def
      network_scoping_active_def hermetic_active_def child_env_allows_def)

text \<open>
  The child's environment is the parent's with exactly the variables removed that are not UTF-8
  named, and not safe and not readable by the principal: the order is kept, values are not touched,
  and without the star grant a variable outside the safe list passes only if it is granted by name.
\<close>

theorem filter_child_env_exact:
  assumes "\<not> fail_closed pol" "principals pol who = Some p" "''*'' \<notin> set (env_read p)"
  shows "subseq (filter_child_env to_str pol who env) env
    \<and> ((k, v) \<in> set (filter_child_env to_str pol who env) \<longleftrightarrow>
         (k, v) \<in> set env
         \<and> (\<exists>n. to_str k = Some n
              \<and> (n \<in> set safe_child_env \<or> prefix ''LC_'' n \<or> n \<in> set (env_read p))))"
  using assms
  by (auto simp: filter_child_env_def child_env_allows_def list_ex_iff split: option.splits)

section \<open>Examples\<close>

text \<open>A file system with one link, \<open>/work/link\<close> to \<open>/etc\<close>, and a matcher of path prefixes.\<close>

definition link_target :: "lpath \<Rightarrow> lpath option" where
  "link_target p =
     (if \<not> rooted p then None
      else if segs p = [''work'', ''link''] then Some \<lparr>rooted = True, segs = [''etc'']\<rparr>
      else if segs p \<in> {[], [''work''], [''etc'']} then Some p else None)"

definition sample_host :: host where
  "sample_host =
     \<lparr>env_home = Some ''/home/u'', canonicalize = link_target,
      path_exists = (\<lambda>p. link_target p \<noteq> None),
      glob_match_path = (\<lambda>pat s. prefix pat (s @ ''/'')), glob_match = (\<lambda>pat s. pat = s),
      glob_escape = (\<lambda>s. s), glob_dirs = (\<lambda>_. [])\<rparr>"

definition reader :: principal_policy where
  "reader = principal_default\<lparr>fs_read := [''/work/''], env_read := [''CI''], auto_apply := ApplyInGrant\<rparr>"

definition sample_policy :: policy where
  "sample_policy = \<lparr>principals = [''agent:a'' \<mapsto> reader], fail_closed = False\<rparr>"

definition sample_plan :: "effect list \<Rightarrow> plan" where
  "sample_plan es = plan_new (\<lambda>_. ''0'') es Reversible \<lparr>est_bytes = None, est_items = None\<rparr>"

lemma evaluate_plan_mono_effects_witness:
  "evaluate_plan sample_host sample_policy ''agent:a'' (sample_plan [SessionWrite])
   \<le> evaluate_plan sample_host sample_policy ''agent:a'' (sample_plan [Time, SessionWrite])"
  by (rule evaluate_plan_mono_effects) (simp_all add: sample_plan_def plan_new_def)

lemma effect_verdict_mono_grants_witness:
  "effect_verdict sample_host reader (EnvRead [''CI''])
   \<le> effect_verdict sample_host principal_default (EnvRead [''CI''])"
  by (rule effect_verdict_mono_grants) (simp add: grants_le_def reader_def principal_default_def)

lemma path_grant_resolved_witness:
  "\<not> path_grant sample_host ''/work/'' ''/work/sub/../link/passwd''"
proof -
  have "prefix us [''passwd''] \<Longrightarrow> us \<noteq> [] \<Longrightarrow> us = [''passwd'']" for us
    by (auto simp: prefix_def Cons_eq_append_conv append_eq_Cons_conv)
  then have "path_grant sample_host ''/work/'' ''/work/sub/../link/passwd'' \<longleftrightarrow>
    glob_match_path sample_host
      (canonical_grant_pattern sample_host (expand_grant sample_host ''/work/''))
      (path_str (path_extend \<lparr>rooted = True, segs = [''etc'']\<rparr> [''passwd'']))"
    by (intro path_grant_resolved[where b = True and pre = "[''work'', ''link'']"])
      (code_simp, auto simp: sample_host_def link_target_def)
  then show ?thesis by code_simp
qed

lemma bare_pin_only_system_dirs_witness:
  "spawn_pin_matches sample_host ''git'' ''sha256:0'' ''/usr/bin/git''
   \<and> \<not> spawn_pin_matches sample_host ''git'' ''sha256:0'' ''/tmp/git''"
proof -
  have "spawn_pin_matches sample_host ''git'' ''sha256:0'' a \<longleftrightarrow>
    (\<exists>d \<in> set system_bin_dirs. components a = components d @ [Normal ''git''])"
    if "sep \<in> set a" for a
    by (rule bare_pin_only_system_dirs) (use that in simp_all)
  moreover have "sep \<in> set ''/usr/bin/git''" "sep \<in> set ''/tmp/git''" by simp_all
  moreover have "\<exists>d \<in> set system_bin_dirs. components ''/usr/bin/git'' = components d @ [Normal ''git'']"
    "\<not> (\<exists>d \<in> set system_bin_dirs. components ''/tmp/git'' = components d @ [Normal ''git''])"
    by code_simp+
  ultimately show ?thesis by blast
qed

lemma filter_child_env_exact_witness:
  "(''CI'', ''1'') \<in> set (filter_child_env Some sample_policy ''agent:a'' [(''TOKEN'', ''x''), (''CI'', ''1'')])
   \<and> (''TOKEN'', ''x'') \<notin> set (filter_child_env Some sample_policy ''agent:a'' [(''TOKEN'', ''x''), (''CI'', ''1'')])"
proof -
  have "\<not> fail_closed sample_policy" "principals sample_policy ''agent:a'' = Some reader"
    "''*'' \<notin> set (env_read reader)"
    by (simp_all add: sample_policy_def reader_def)
  note ex = filter_child_env_exact[OF this, where to_str = Some]
  show ?thesis by (simp add: ex reader_def safe_child_env_def)
qed

end
