(* ===== verification/Leash_Sandbox.thy ===== *)
theory Leash_Sandbox
  imports Leash_Policy
begin

text \<open>
  Lowering of a principal's grants to an operating-system sandbox request: \<open>grant_root\<close>,
  \<open>expand_grant_roots\<close>, \<open>grant_roots\<close> and \<open>PrincipalPolicy::to_sandbox_policy\<close> of
  \<open>leash/policy.rs\<close>, and the request types of \<open>leash/enforce.rs\<close>.
\<close>

record fs_sandbox =
  sb_read :: "lpath list"
  sb_write :: "lpath list"
  sb_delete :: "lpath list"

datatype net_policy = NetUnrestricted | NetDeny

record process_limits =
  cpu_seconds :: "nat option"
  memory_bytes :: "nat option"

record sandbox_policy =
  sb_fs :: fs_sandbox
  filesystem_requested :: bool
  sb_net :: net_policy
  spawn_hash :: "string option"
  sb_limits :: process_limits
  sb_hermetic :: bool

definition limits_empty :: "process_limits \<Rightarrow> bool" where
  "limits_empty l \<longleftrightarrow> cpu_seconds l = None \<and> memory_bytes l = None"

section \<open>Concrete roots of a grant\<close>

fun grant_root_loop :: "lpath \<Rightarrow> component list \<Rightarrow> lpath" where
  "grant_root_loop root [] = root"
| "grant_root_loop root (RootDir # cs) = grant_root_loop path_root cs"
| "grant_root_loop root (CurDir # cs) = grant_root_loop root cs"
| "grant_root_loop root (ParentDir # cs) = grant_root_loop (path_pop root) cs"
| "grant_root_loop root (Normal seg # cs) =
     (if has_glob_meta seg then root else grant_root_loop (path_push root seg) cs)"

definition grant_root :: "host \<Rightarrow> string \<Rightarrow> lpath option" where
  "grant_root h grant =
     (let root = grant_root_loop path_empty (components (expand_grant h grant))
      in if path_is_empty root then None else Some root)"

definition grants_include_root :: "host \<Rightarrow> string list \<Rightarrow> bool" where
  "grants_include_root h grants \<longleftrightarrow> list_ex (\<lambda>g. grant_root h g = Some path_root) grants"

definition max_expansion :: nat where
  "max_expansion = 256"

text \<open>\<open>Inl\<close> is a \<open>return\<close> out of the loop, \<open>Inr\<close> its normal end.\<close>

fun expand_loop ::
  "host \<Rightarrow> lpath list \<Rightarrow> component list \<Rightarrow> lpath list + lpath list" where
  "expand_loop h bases [] = Inr bases"
| "expand_loop h bases (RootDir # cs) = expand_loop h (map (\<lambda>_. path_root) bases) cs"
| "expand_loop h bases (CurDir # cs) = expand_loop h bases cs"
| "expand_loop h bases (ParentDir # cs) = expand_loop h (map path_pop bases) cs"
| "expand_loop h bases (Normal seg # cs) =
     (if \<not> has_glob_meta seg then expand_loop h (map (\<lambda>b. path_push b seg) bases) cs
      else if cs = [] \<or> seg = ''**'' then Inl bases
      else (let nxt = take max_expansion
                  (concat (map (\<lambda>b. glob_dirs h (glob_escape h (path_str b) @ [sep] @ seg)) bases))
            in if nxt = [] then Inl [] else expand_loop h nxt cs))"

definition expand_grant_roots :: "host \<Rightarrow> string \<Rightarrow> lpath list" where
  "expand_grant_roots h grant =
     (case grant_root h grant of
        None \<Rightarrow> []
      | Some first \<Rightarrow>
          (case expand_loop h [path_empty] (components (expand_grant h grant)) of
             Inl bases \<Rightarrow> bases
           | Inr bases \<Rightarrow> if bases = [] then [first] else bases))"

definition grant_roots :: "host \<Rightarrow> string list \<Rightarrow> lpath list" where
  "grant_roots h grants =
     sort_dedup (filter (path_exists h) (concat (map (expand_grant_roots h) grants)))"

section \<open>Lowering\<close>

definition is_fs_unrestricted :: "host \<Rightarrow> principal_policy \<Rightarrow> bool" where
  "is_fs_unrestricted h p \<longleftrightarrow>
     grants_include_root h (fs_read p) \<and> grants_include_root h (fs_write p)
     \<and> grants_include_root h (fs_delete p)"

definition has_fs_scope :: "host \<Rightarrow> principal_policy \<Rightarrow> bool" where
  "has_fs_scope h p \<longleftrightarrow>
     (fs_read p \<noteq> [] \<or> fs_write p \<noteq> [] \<or> fs_delete p \<noteq> []) \<and> \<not> is_fs_unrestricted h p"

definition limits_of :: "principal_policy \<Rightarrow> process_limits" where
  "limits_of p =
     \<lparr>cpu_seconds = process_cpu_seconds p, memory_bytes = process_memory_bytes p\<rparr>"

definition to_sandbox_policy :: "host \<Rightarrow> principal_policy \<Rightarrow> sandbox_policy option" where
  "to_sandbox_policy h p =
     (let requested = has_fs_scope h p;
          limits = limits_of p
      in if \<not> requested \<and> limits_empty limits then None
         else let (r, w, d) =
                    (if requested
                     then (grant_roots h (fs_read p), grant_roots h (fs_write p),
                           grant_roots h (fs_delete p))
                     else ([], [], []))
              in if requested \<and> r = [] \<and> w = [] \<and> d = [] \<and> \<not> hermetic p \<and> limits_empty limits
                 then None
                 else Some \<lparr>sb_fs = \<lparr>sb_read = r, sb_write = w, sb_delete = d\<rparr>,
                            filesystem_requested = requested,
                            sb_net = (if requested \<and> hermetic p \<and> net_connect p = []
                                         \<and> net_listen p = []
                                      then NetDeny else NetUnrestricted),
                            spawn_hash = None, sb_limits = limits,
                            sb_hermetic = hermetic p\<rparr>)"

definition sandbox_for :: "host \<Rightarrow> policy \<Rightarrow> string \<Rightarrow> sandbox_policy option" where
  "sandbox_for h pol who =
     (case principals pol who of None \<Rightarrow> None | Some p \<Rightarrow> to_sandbox_policy h p)"

definition filesystem_scoping_active :: "host \<Rightarrow> policy \<Rightarrow> string \<Rightarrow> bool" where
  "filesystem_scoping_active h pol who \<longleftrightarrow>
     fail_closed pol
     \<or> (case principals pol who of None \<Rightarrow> False | Some p \<Rightarrow> has_fs_scope h p)"

section \<open>Lemmas\<close>

definition glob_free :: "component list \<Rightarrow> bool" where
  "glob_free cs \<longleftrightarrow> list_all (\<lambda>c. case c of Normal seg \<Rightarrow> \<not> has_glob_meta seg | _ \<Rightarrow> True) cs"

lemma glob_free_simps [simp]:
  "glob_free []" "glob_free (RootDir # cs) = glob_free cs" "glob_free (CurDir # cs) = glob_free cs"
  "glob_free (ParentDir # cs) = glob_free cs"
  "glob_free (Normal seg # cs) \<longleftrightarrow> \<not> has_glob_meta seg \<and> glob_free cs"
  by (simp_all add: glob_free_def)

lemma grant_root_loop_glob_free:
  "glob_free cs \<Longrightarrow> grant_root_loop b cs = foldl push_component b cs"
  by (induction b cs rule: grant_root_loop.induct) auto

lemma expand_loop_glob_free:
  "glob_free cs \<Longrightarrow> expand_loop h [b] cs = Inr [foldl push_component b cs]"
  by (induction b cs rule: grant_root_loop.induct) auto

lemma expand_loop_length:
  "length bases \<le> max_expansion \<Longrightarrow>
   case expand_loop h bases cs of
     Inl ps \<Rightarrow> length ps \<le> max_expansion
   | Inr ps \<Rightarrow> length ps \<le> max_expansion"
  by (induction h bases cs rule: expand_loop.induct) (auto simp: Let_def)

lemma grant_roots_iff:
  "r \<in> set (grant_roots h gs) \<longleftrightarrow> path_exists h r \<and> (\<exists>g \<in> set gs. r \<in> set (expand_grant_roots h g))"
  by (auto simp: grant_roots_def)

lemma grant_roots_Nil:
  "grant_roots h gs = [] \<longleftrightarrow>
     (\<forall>g \<in> set gs. \<forall>r \<in> set (expand_grant_roots h g). \<not> path_exists h r)"
  unfolding set_empty[symmetric] set_eq_iff grant_roots_iff by auto

section \<open>Properties\<close>

text \<open>
  What a grant stands for, one path at a time: the components are walked from the left, a wildcard in
  the middle is one of the directories that match it below the path walked so far, and the walk ends
  at a wildcard that is last or is \<open>**\<close>. The grant must have a concrete beginning.
\<close>

inductive grant_path :: "host \<Rightarrow> lpath \<Rightarrow> component list \<Rightarrow> lpath \<Rightarrow> bool" for h where
  path_end: "grant_path h b [] b"
| path_concrete: "\<not> (\<exists>seg. c = Normal seg \<and> has_glob_meta seg) \<Longrightarrow>
    grant_path h (push_component b c) cs r \<Longrightarrow> grant_path h b (c # cs) r"
| path_trailing: "has_glob_meta seg \<Longrightarrow> cs = [] \<or> seg = ''**'' \<Longrightarrow> grant_path h b (Normal seg # cs) b"
| path_wildcard: "has_glob_meta seg \<Longrightarrow> cs \<noteq> [] \<Longrightarrow> seg \<noteq> ''**'' \<Longrightarrow>
    d \<in> set (glob_dirs h (glob_escape h (path_str b) @ [sep] @ seg)) \<Longrightarrow>
    grant_path h d cs r \<Longrightarrow> grant_path h b (Normal seg # cs) r"

inductive_simps grant_path_simps [simp]:
  "grant_path h b [] r" "grant_path h b (RootDir # cs) r" "grant_path h b (CurDir # cs) r"
  "grant_path h b (ParentDir # cs) r" "grant_path h b (Normal seg # cs) r"

definition wildcard :: "component \<Rightarrow> bool" where
  "wildcard c \<longleftrightarrow> (case c of Normal seg \<Rightarrow> has_glob_meta seg | _ \<Rightarrow> False)"

definition anchored :: "component list \<Rightarrow> bool" where
  "anchored cs \<longleftrightarrow> \<not> path_is_empty (foldl push_component path_empty (takeWhile (\<lambda>c. \<not> wildcard c) cs))"

lemma wildcard_simps [simp]:
  "\<not> wildcard RootDir" "\<not> wildcard CurDir" "\<not> wildcard ParentDir" "wildcard (Normal seg) = has_glob_meta seg"
  by (simp_all add: wildcard_def)

lemma grant_root_anchored: "grant_root h g \<noteq> None \<longleftrightarrow> anchored (components (expand_grant h g))"
proof -
  have "grant_root_loop b cs = foldl push_component b (takeWhile (\<lambda>c. \<not> wildcard c) cs)" for b cs
    by (induction b cs rule: grant_root_loop.induct) simp_all
  then show ?thesis by (simp add: grant_root_def anchored_def Let_def)
qed

text \<open>The loop over all paths at once: sound, and complete while the cap is out of reach.\<close>

definition loop_roots :: "lpath list + lpath list \<Rightarrow> lpath set" where
  "loop_roots out = (case out of Inl ps \<Rightarrow> set ps | Inr ps \<Rightarrow> set ps)"

lemma loop_roots_simps [simp]: "loop_roots (Inl ps) = set ps" "loop_roots (Inr ps) = set ps"
  by (simp_all add: loop_roots_def)

lemma expand_loop_sound:
  "r \<in> loop_roots (expand_loop h bases cs) \<Longrightarrow> \<exists>b \<in> set bases. grant_path h b cs r"
proof (induction h bases cs rule: expand_loop.induct)
  case (5 h bases seg cs)
  then show ?case by (fastforce simp: Let_def split: if_splits dest: in_set_takeD)
qed auto

lemma expand_loop_complete:
  assumes "\<And>pat. length (glob_dirs h pat) \<le> k" and "0 < k"
  shows "length bases * k ^ length (filter wildcard cs) \<le> max_expansion \<Longrightarrow> b \<in> set bases \<Longrightarrow>
    grant_path h b cs r \<Longrightarrow> r \<in> loop_roots (expand_loop h bases cs)"
proof (induction cs arbitrary: bases b)
  case (Cons c cs)
  show ?case
  proof (cases "\<exists>seg. c = Normal seg \<and> has_glob_meta seg")
    case False
    then have "expand_loop h bases (c # cs) = expand_loop h (map (\<lambda>b. push_component b c) bases) cs"
      by (cases c) auto
    moreover have "grant_path h (push_component b c) cs r"
      using Cons.prems(3) False by (cases c) auto
    moreover have "\<not> wildcard c" using False by (cases c) auto
    ultimately show ?thesis
      using Cons.IH[of "map (\<lambda>b. push_component b c) bases" "push_component b c"] Cons.prems(1,2) by simp
  next
    case True
    then obtain seg where seg: "c = Normal seg" "has_glob_meta seg" by blast
    show ?thesis
    proof (cases "cs = [] \<or> seg = ''**''")
      case True
      then show ?thesis using Cons.prems(2,3) seg by auto
    next
      case False
      let ?dirs = "\<lambda>b. glob_dirs h (glob_escape h (path_str b) @ [sep] @ seg)"
      let ?nxt = "concat (map ?dirs bases)"
      have "length ?nxt \<le> length bases * k"
        using assms(1) by (induction bases) (auto intro: add_mono)
      then have "length ?nxt * k ^ length (filter wildcard cs)
          \<le> length bases * k * k ^ length (filter wildcard cs)"
        by (rule mult_right_mono) simp
      also have "\<dots> \<le> max_expansion" using Cons.prems(1) seg by (simp add: mult.assoc)
      finally have fits: "length ?nxt * k ^ length (filter wildcard cs) \<le> max_expansion" .
      moreover have "0 < k ^ length (filter wildcard cs)" using assms(2) by simp
      ultimately have "length ?nxt \<le> max_expansion"
        by (metis One_nat_def Suc_leI le_trans mult.right_neutral mult_le_mono2)
      then have all: "take max_expansion ?nxt = ?nxt" by simp
      obtain d where d: "d \<in> set (?dirs b)" "grant_path h d cs r"
        using Cons.prems(3) seg False by auto
      then have "d \<in> set ?nxt" using Cons.prems(2) by auto
      moreover from this have "expand_loop h bases (c # cs) = expand_loop h ?nxt cs"
        using False seg all by (auto simp: Let_def)
      ultimately show ?thesis using Cons.IH[OF fits _ d(2)] by simp
    qed
  qed
qed simp

lemma expand_loop_nonempty: "bases \<noteq> [] \<Longrightarrow> expand_loop h bases cs \<noteq> Inr []"
  by (induction h bases cs rule: expand_loop.induct) (auto simp: Let_def)

lemma expand_grant_roots_set:
  "set (expand_grant_roots h g) = (if anchored (components (expand_grant h g))
     then loop_roots (expand_loop h [path_empty] (components (expand_grant h g))) else {})"
  using grant_root_anchored[of h g] expand_loop_nonempty[of "[path_empty]" h "components (expand_grant h g)"]
  by (cases "grant_root h g"; cases "expand_loop h [path_empty] (components (expand_grant h g))")
    (auto simp: expand_grant_roots_def)

definition granted_root :: "host \<Rightarrow> string \<Rightarrow> lpath \<Rightarrow> bool" where
  "granted_root h g r \<longleftrightarrow>
     (let cs = components (expand_grant h g) in anchored cs \<and> grant_path h path_empty cs r)"

lemma granted_root_sound: "r \<in> set (expand_grant_roots h g) \<Longrightarrow> granted_root h g r"
  using expand_loop_sound[of r h "[path_empty]" "components (expand_grant h g)"]
  by (auto simp: expand_grant_roots_set granted_root_def split: if_splits)

lemma granted_root_complete:
  assumes "\<And>pat. length (glob_dirs h pat) \<le> k" and "0 < k"
    and "k ^ length (filter wildcard (components (expand_grant h g))) \<le> 256" and "granted_root h g r"
  shows "r \<in> set (expand_grant_roots h g)"
  using expand_loop_complete[OF assms(1,2), of "[path_empty]" "components (expand_grant h g)" path_empty r] assms(3,4)
  by (auto simp: expand_grant_roots_set granted_root_def Let_def max_expansion_def)

definition exact_roots :: "host \<Rightarrow> string list \<Rightarrow> lpath list \<Rightarrow> bool" where
  "exact_roots h grants roots \<longleftrightarrow>
     sorted_wrt (<) (map path_comps roots) \<and> distinct roots
     \<and> (\<forall>r \<in> set roots. path_exists h r \<and> (\<exists>g \<in> set grants. granted_root h g r))
     \<and> (\<forall>k > 0. (\<forall>pat. length (glob_dirs h pat) \<le> k)
          \<and> (\<forall>g \<in> set grants. k ^ length (filter wildcard (components (expand_grant h g))) \<le> 256)
          \<longrightarrow> (\<forall>g \<in> set grants. \<forall>r. granted_root h g r \<and> path_exists h r \<longrightarrow> r \<in> set roots))"

lemma grant_roots_exact: "exact_roots h gs (grant_roots h gs)"
  unfolding exact_roots_def
proof (intro conjI ballI allI impI)
  show "sorted_wrt (<) (map path_comps (grant_roots h gs))" "distinct (grant_roots h gs)"
    by (simp_all add: grant_roots_def sort_dedup_strict sort_dedup_distinct)
  show "path_exists h r" "\<exists>g \<in> set gs. granted_root h g r" if "r \<in> set (grant_roots h gs)" for r
    using that granted_root_sound unfolding grant_roots_iff by blast+
  show "r \<in> set (grant_roots h gs)"
    if "0 < k" "(\<forall>pat. length (glob_dirs h pat) \<le> k)
        \<and> (\<forall>g \<in> set gs. k ^ length (filter wildcard (components (expand_grant h g))) \<le> 256)"
      "g \<in> set gs" "granted_root h g r \<and> path_exists h r" for k g r
    using that granted_root_complete[of h k g r] unfolding grant_roots_iff by blast
qed

text \<open>
  C37. The roots handed to the operating system for a principal with a file scope. Per kind of access
  they are sorted and distinct, each exists, and each is a path that a grant of that kind stands for:
  its concrete components as written, one matching directory for every wildcard in the middle, nothing
  below a trailing wildcard. So a root is never wider than its grant allows. When no wildcard matches
  more than \<open>k\<close> directories and \<open>k\<close> to the number of wildcards of every grant is at most 256, the
  cap of the expansion, the roots are all such paths that exist.
\<close>

theorem sandbox_roots_exact:
  assumes "to_sandbox_policy h p = Some sb" and "has_fs_scope h p"
  shows "filesystem_requested sb \<and> exact_roots h (fs_read p) (sb_read (sb_fs sb))
    \<and> exact_roots h (fs_write p) (sb_write (sb_fs sb)) \<and> exact_roots h (fs_delete p) (sb_delete (sb_fs sb))"
proof -
  have "filesystem_requested sb" "sb_read (sb_fs sb) = grant_roots h (fs_read p)"
    "sb_write (sb_fs sb) = grant_roots h (fs_write p)"
    "sb_delete (sb_fs sb) = grant_roots h (fs_delete p)"
    using assms by (auto simp: to_sandbox_policy_def Let_def split: if_splits)
  then show ?thesis by (simp add: grant_roots_exact)
qed

text \<open>
  A child runs without an enforcement launcher exactly when its principal has no process ceiling
  and either no file scope to enforce, or a non-hermetic one none of whose roots exists. A hermetic
  scope is never dropped: it is carried, with the network closed when the principal has no network
  grant.
\<close>

theorem no_launcher_iff:
  "(to_sandbox_policy h p = None \<longleftrightarrow>
      limits_empty (limits_of p)
      \<and> (\<not> has_fs_scope h p
         \<or> \<not> hermetic p
           \<and> (\<forall>g \<in> set (fs_read p) \<union> set (fs_write p) \<union> set (fs_delete p).
                \<forall>r \<in> set (expand_grant_roots h g). \<not> path_exists h r)))
   \<and> (has_fs_scope h p \<and> hermetic p \<longrightarrow>
        (\<exists>sb. to_sandbox_policy h p = Some sb \<and> sb_hermetic sb
            \<and> (net_connect p = [] \<and> net_listen p = [] \<longrightarrow> sb_net sb = NetDeny)))"
  by (auto simp: to_sandbox_policy_def Let_def grant_roots_Nil)

text \<open>
  A grant with no wildcard gives the operating system one root, the same lexically normalised
  path that the policy engine resolves; with wildcards never more than 256 roots.
\<close>

theorem grant_roots_agree_with_policy:
  "length (expand_grant_roots h g) \<le> max_expansion
   \<and> (glob_free (components (expand_grant h g)) \<longrightarrow>
        expand_grant_roots h g =
          (if path_is_empty (normalize (expand_grant h g)) then []
           else [normalize (expand_grant h g)]))"
proof -
  have "length [path_empty] \<le> max_expansion" by (simp add: max_expansion_def)
  from expand_loop_length[OF this, of h "components (expand_grant h g)"]
  show ?thesis
    by (auto simp: expand_grant_roots_def grant_root_def normalize_def Let_def max_expansion_def
        grant_root_loop_glob_free expand_loop_glob_free split: sum.splits option.splits)
qed

text \<open>
  A grant such as \<open>/*\<close>, whose first segment after the root is a wildcard, counts as the whole
  root subtree: three of them make the principal unrestricted, and with no process ceiling no
  sandbox is produced at all.
\<close>

theorem root_wildcard_disables_sandbox:
  assumes "components (expand_grant h g) = RootDir # Normal seg # cs" and "has_glob_meta seg"
    and "g \<in> set (fs_read p)" "g \<in> set (fs_write p)" "g \<in> set (fs_delete p)"
    and "limits_empty (limits_of p)"
  shows "to_sandbox_policy h p = None"
proof -
  have "grant_root h g = Some path_root"
    using assms(1,2) by (simp add: grant_root_def path_is_empty_def path_root_def)
  then have "is_fs_unrestricted h p"
    using assms(3-5) by (auto simp: is_fs_unrestricted_def grants_include_root_def list_ex_iff)
  then show ?thesis using assms(6) by (simp add: to_sandbox_policy_def has_fs_scope_def)
qed

section \<open>Examples\<close>

definition worker :: principal_policy where
  "worker = principal_default\<lparr>fs_read := [''/etc'', ''/work/**'', ''/etc''], hermetic := True\<rparr>"

text \<open>A host on which every wildcard matches the directory \<open>/work\<close> and every path exists.\<close>

definition glob_host :: host where
  "glob_host = sample_host\<lparr>path_exists := (\<lambda>_. True), glob_dirs := (\<lambda>_. [normalize ''/work''])\<rparr>"

definition glob_worker :: principal_policy where
  "glob_worker = principal_default\<lparr>fs_read := [''/w*/a'', ''/etc/**''], hermetic := True\<rparr>"

lemma sandbox_roots_exact_witness:
  "map path_str (sb_read (sb_fs (the (to_sandbox_policy glob_host glob_worker)))) = [''/etc'', ''/work/a'']
   \<and> exact_roots glob_host (fs_read glob_worker) (sb_read (sb_fs (the (to_sandbox_policy glob_host glob_worker))))"
proof -
  have "to_sandbox_policy glob_host glob_worker \<noteq> None" "has_fs_scope glob_host glob_worker"
    by code_simp+
  then obtain sb where sb: "to_sandbox_policy glob_host glob_worker = Some sb" by blast
  have "exact_roots glob_host (fs_read glob_worker) (sb_read (sb_fs sb))"
    using sandbox_roots_exact[OF sb \<open>has_fs_scope glob_host glob_worker\<close>] by simp
  moreover have "map path_str (sb_read (sb_fs (the (to_sandbox_policy glob_host glob_worker))))
      = [''/etc'', ''/work/a'']" by code_simp
  ultimately show ?thesis using sb by simp
qed

lemma no_launcher_iff_witness:
  "has_fs_scope sample_host worker \<and> hermetic worker
   \<and> (\<exists>sb. to_sandbox_policy sample_host worker = Some sb \<and> sb_hermetic sb \<and> sb_net sb = NetDeny)"
proof -
  have "has_fs_scope sample_host worker" "hermetic worker" "net_connect worker = []"
    "net_listen worker = []"
    by code_simp+
  then show ?thesis using no_launcher_iff[of sample_host worker] by blast
qed

lemma grant_roots_agree_with_policy_witness:
  "glob_free (components (expand_grant sample_host ''~/a/../b''))
   \<and> expand_grant_roots sample_host ''~/a/../b'' = [normalize ''/home/u/b'']"
proof -
  have "glob_free (components (expand_grant sample_host ''~/a/../b''))"
    "normalize (expand_grant sample_host ''~/a/../b'') = normalize ''/home/u/b''"
    "\<not> path_is_empty (normalize ''/home/u/b'')"
    by code_simp+
  then show ?thesis using grant_roots_agree_with_policy[of sample_host "''~/a/../b''"] by simp
qed

lemma root_wildcard_disables_sandbox_witness:
  "to_sandbox_policy sample_host
     (principal_default\<lparr>fs_read := [''/*''], fs_write := [''/*''], fs_delete := [''/*'']\<rparr>) = None"
proof -
  have "components (expand_grant sample_host ''/*'') = [RootDir, Normal ''*'']" "has_glob_meta ''*''"
    by code_simp+
  then show ?thesis
    by (rule root_wildcard_disables_sandbox)
      (simp_all add: limits_empty_def limits_of_def principal_default_def)
qed

end
