(* ===== verification/Utf8.thy ===== *)
theory Utf8
  imports Shoal_Prelude
begin

text \<open>
  UTF-8 as \<open>String::from_utf8\<close> and \<open>str::from_utf8\<close> of the standard library decide it: byte strings
  are \<open>string\<close>s (a character is a byte), and the accepted sequences are those of the Unicode table
  (no overlong form, no surrogate, nothing above U+10FFFF).
\<close>

abbreviation byte_val :: "char \<Rightarrow> nat" where
  "byte_val c \<equiv> of_char c"

definition cont_byte :: "char \<Rightarrow> bool" where
  "cont_byte c \<longleftrightarrow> 128 \<le> byte_val c \<and> byte_val c \<le> 191"

text \<open>The number of bytes a lead byte announces (0 for a byte that cannot lead).\<close>

definition lead_width :: "char \<Rightarrow> nat" where
  "lead_width c =
     (let n = byte_val c in
      if n < 128 then 1
      else if 194 \<le> n \<and> n \<le> 223 then 2
      else if 224 \<le> n \<and> n \<le> 239 then 3
      else if 240 \<le> n \<and> n \<le> 244 then 4 else 0)"

text \<open>The range of the second byte after a given lead byte.\<close>

definition second_ok :: "char \<Rightarrow> char \<Rightarrow> bool" where
  "second_ok c d =
     (let n = byte_val c; m = byte_val d in
      if n = 224 then 160 \<le> m \<and> m \<le> 191
      else if n = 237 then 128 \<le> m \<and> m \<le> 159
      else if n = 240 then 144 \<le> m \<and> m \<le> 191
      else if n = 244 then 128 \<le> m \<and> m \<le> 143
      else 128 \<le> m \<and> m \<le> 191)"

fun valid_utf8 :: "string \<Rightarrow> bool" where
  "valid_utf8 [] = True"
| "valid_utf8 (a # bs) =
     (if lead_width a = 1 then valid_utf8 bs
      else if lead_width a = 2
      then (case bs of b # r \<Rightarrow> second_ok a b \<and> valid_utf8 r | _ \<Rightarrow> False)
      else if lead_width a = 3
      then (case bs of b # c # r \<Rightarrow> second_ok a b \<and> cont_byte c \<and> valid_utf8 r | _ \<Rightarrow> False)
      else if lead_width a = 4
      then (case bs of
              b # c # d # r \<Rightarrow> second_ok a b \<and> cont_byte c \<and> cont_byte d \<and> valid_utf8 r
            | _ \<Rightarrow> False)
      else False)"

lemma valid_utf8_append: "valid_utf8 xs \<Longrightarrow> valid_utf8 (xs @ ys) = valid_utf8 ys"
  by (induction xs rule: valid_utf8.induct) (auto split: if_splits list.splits)

lemma valid_utf8_ascii: "\<forall>c \<in> set s. byte_val c < 128 \<Longrightarrow> valid_utf8 s"
  by (induction s) (simp_all add: lead_width_def Let_def)

end
