(* ===== verification/Leash_Config.thy ===== *)
theory Leash_Config
  imports Leash_Policy Utf8
begin

text \<open>
  Loading a policy file: the bounds of \<open>leash/policy.rs\<close>, the byte scanner \<open>validate_policy_text\<close>
  that runs before the TOML parser, the flattening of dotted namespaces, the validation of the
  decoded document and the two loaders. The TOML parser and the derived decoder are not part of the
  repository: they are the fields of a \<open>toml_crate\<close> record.
\<close>

section \<open>Bounds, documents and errors\<close>

definition policy_max_bytes :: nat where "policy_max_bytes = 1024 * 1024"
definition policy_max_nesting :: nat where "policy_max_nesting = 64"
definition policy_max_assignments :: nat where "policy_max_assignments = 8 * 1024"
definition policy_max_principals :: nat where "policy_max_principals = 256"
definition policy_max_grants_per_kind :: nat where "policy_max_grants_per_kind = 1024"
definition policy_max_grant_bytes :: nat where "policy_max_grant_bytes = 4 * 1024"

datatype toml =
    TString string
  | TInteger int
  | TFloat string
  | TBoolean bool
  | TDatetime string
  | TArray "toml list"
  | TTable "(string \<times> toml) list"

type_synonym table = "(string \<times> toml) list"

datatype parse_error =
    TextTooLarge
  | NestingLimit
  | AssignmentLimit
  | TomlError string
  | TooManyPrincipals nat
  | StringTooLong string nat
  | TooManyGrants string string nat
  | ZeroCpuSeconds string
  | ZeroMemoryBytes string

datatype load_error = LoadIo | LoadNotFile | LoadTooLarge | LoadUtf8 | LoadParse parse_error

text \<open>\<open>toml::from_str\<close>, and the derived \<open>Value::try_into::<PolicyDoc>\<close>.\<close>

record toml_crate =
  parse_toml :: "string \<Rightarrow> string + table"
  decode_doc :: "table \<Rightarrow> string + (string \<times> principal_policy) list"

section \<open>The text scanner\<close>

record scan =
  sc_depth :: nat
  sc_assignments :: nat
  sc_quote :: "char option"
  sc_escaped :: bool
  sc_comment :: bool

definition scan_start :: scan where
  "scan_start = \<lparr>sc_depth = 0, sc_assignments = 0, sc_quote = None, sc_escaped = False,
                 sc_comment = False\<rparr>"

definition dquote :: char where "dquote = CHR 0x22"
definition squote :: char where "squote = CHR 0x27"
definition newline :: char where "newline = CHR 0x0A"
definition backslash :: char where "backslash = CHR 0x5C"

text \<open>One byte of the \<open>for\<close> loop of \<open>validate_policy_text\<close>.\<close>

definition scan_byte :: "char \<Rightarrow> scan \<Rightarrow> (parse_error, scan) result" where
  "scan_byte byte s =
     (if sc_comment s then Inr (if byte = newline then s\<lparr>sc_comment := False\<rparr> else s)
      else case sc_quote s of
        Some delimiter \<Rightarrow>
          Inr (if delimiter = dquote \<and> sc_escaped s then s\<lparr>sc_escaped := False\<rparr>
               else if delimiter = dquote \<and> byte = backslash then s\<lparr>sc_escaped := True\<rparr>
               else if byte = delimiter then s\<lparr>sc_quote := None\<rparr> else s)
      | None \<Rightarrow>
          if byte = CHR ''#'' then Inr (s\<lparr>sc_comment := True\<rparr>)
          else if byte = dquote \<or> byte = squote then Inr (s\<lparr>sc_quote := Some byte\<rparr>)
          else if byte = CHR ''['' \<or> byte = CHR ''{''
          then (let s' = s\<lparr>sc_depth := sc_depth s + 1\<rparr>
                in if policy_max_nesting < sc_depth s' then Inl NestingLimit else Inr s')
          else if byte = CHR '']'' \<or> byte = CHR ''}'' then Inr (s\<lparr>sc_depth := sc_depth s - 1\<rparr>)
          else if byte = CHR ''=''
          then (let s' = s\<lparr>sc_assignments := sc_assignments s + 1\<rparr>
                in if policy_max_assignments < sc_assignments s' then Inl AssignmentLimit
                   else Inr s')
          else Inr s)"

fun scan_bytes :: "string \<Rightarrow> scan \<Rightarrow> (parse_error, scan) result" where
  "scan_bytes [] s = Inr s"
| "scan_bytes (b # bs) s = bindR (scan_byte b s) (scan_bytes bs)"

definition validate_policy_text :: "string \<Rightarrow> (parse_error, unit) result" where
  "validate_policy_text source =
     (if policy_max_bytes < length source then Inl TextTooLarge
      else bindR (scan_bytes source scan_start) (\<lambda>_. Inr ()))"

section \<open>Document validation\<close>

definition validate_policy_string :: "string \<Rightarrow> string \<Rightarrow> (parse_error, unit) result" where
  "validate_policy_string kind value =
     (if policy_max_grant_bytes < length value then Inl (StringTooLong kind (length value))
      else Inr ())"

definition grant_kinds :: "principal_policy \<Rightarrow> (string \<times> string list) list" where
  "grant_kinds p =
     [(''fs.read'', fs_read p), (''fs.write'', fs_write p), (''fs.delete'', fs_delete p),
      (''net_connect'', net_connect p), (''proc_spawn'', proc_spawn p), (''env_read'', env_read p),
      (''env_write'', env_write p), (''secret_use'', secret_use p)]"

definition validate_grants :: "string \<Rightarrow> string \<times> string list \<Rightarrow> (parse_error, unit) result" where
  "validate_grants name kg =
     (let (kind, grants) = kg in
      if policy_max_grants_per_kind < length grants
      then Inl (TooManyGrants name kind (length grants))
      else eachR (validate_policy_string kind) grants)"

definition validate_principal :: "string \<times> principal_policy \<Rightarrow> (parse_error, unit) result" where
  "validate_principal np =
     (let (name, p) = np in
      bindR (validate_policy_string ''principal name'' name) (\<lambda>_.
      bindR (eachR (validate_grants name) (grant_kinds p)) (\<lambda>_.
      if policy_max_grants_per_kind < length (net_listen p)
      then Inl (TooManyGrants name ''net_listen'' (length (net_listen p)))
      else if process_cpu_seconds p = Some 0 then Inl (ZeroCpuSeconds name)
      else if process_memory_bytes p = Some 0 then Inl (ZeroMemoryBytes name)
      else Inr ())))"

definition validate_policy_doc ::
  "(string \<times> principal_policy) list \<Rightarrow> (parse_error, unit) result" where
  "validate_policy_doc doc =
     (if policy_max_principals < length doc then Inl (TooManyPrincipals (length doc))
      else eachR validate_principal doc)"

section \<open>Decoding\<close>

text \<open>\<open>toml::Table\<close> is ordered by key.\<close>

definition tbl_remove :: "string \<Rightarrow> table \<Rightarrow> table" where
  "tbl_remove k t = filter (\<lambda>(k', _). k' \<noteq> k) t"

definition tbl_insert :: "string \<Rightarrow> toml \<Rightarrow> table \<Rightarrow> table" where
  "tbl_insert k v t = insort_key fst (k, v) (tbl_remove k t)"

definition flatten_field :: "string \<Rightarrow> table \<Rightarrow> table \<Rightarrow> string \<Rightarrow> table" where
  "flatten_field namespace nested t field =
     (case map_of nested field of
        Some v \<Rightarrow> tbl_insert (namespace @ ''.'' @ field) v t
      | None \<Rightarrow> t)"

definition flatten_namespace :: "string \<Rightarrow> string list \<Rightarrow> table \<Rightarrow> table" where
  "flatten_namespace namespace names t =
     (let t' = tbl_remove namespace t in
      case map_of t namespace of
        Some (TTable nested) \<Rightarrow> foldl (flatten_field namespace nested) t' names
      | _ \<Rightarrow> t')"

definition flatten_principal :: "toml \<Rightarrow> toml" where
  "flatten_principal raw =
     (case raw of
        TTable t \<Rightarrow>
          TTable (flatten_namespace ''proc'' [''spawn'']
                   (flatten_namespace ''secret'' [''use'']
                     (flatten_namespace ''env'' [''read'', ''write'']
                       (flatten_namespace ''fs'' [''read'', ''write'', ''delete''] t))))
      | _ \<Rightarrow> raw)"

definition flatten_doc :: "table \<Rightarrow> table" where
  "flatten_doc doc =
     map (\<lambda>(k, v). (k, case v of
                         TTable ps \<Rightarrow> if k = ''principal''
                                      then TTable (map (\<lambda>(n, raw). (n, flatten_principal raw)) ps)
                                      else v
                       | _ \<Rightarrow> v)) doc"

definition from_toml :: "toml_crate \<Rightarrow> string \<Rightarrow> (parse_error, policy) result" where
  "from_toml tc src =
     bindR (validate_policy_text src) (\<lambda>_.
     case parse_toml tc src of
       Inl msg \<Rightarrow> Inl (TomlError msg)
     | Inr value \<Rightarrow>
         (case decode_doc tc (flatten_doc value) of
            Inl msg \<Rightarrow> Inl (TomlError msg)
          | Inr doc \<Rightarrow>
              bindR (validate_policy_doc doc) (\<lambda>_.
              Inr \<lparr>principals = map_of doc, fail_closed = False\<rparr>)))"

section \<open>Files and built-in policies\<close>

datatype metadata = MetaNotFound | MetaErr | MetaFile | MetaNotFile

text \<open>What the file system answers for a path: its metadata, whether it opens, its bytes.\<close>

record file_answers =
  fa_metadata :: metadata
  fa_opens :: bool
  fa_bytes :: "string option"

definition read_policy_utf8 :: "string option \<Rightarrow> (load_error, string) result" where
  "read_policy_utf8 content =
     (case content of
        None \<Rightarrow> Inl LoadIo
      | Some all_bytes \<Rightarrow>
          (let bytes = take (policy_max_bytes + 1) all_bytes in
           if policy_max_bytes < length bytes then Inl LoadTooLarge
           else if valid_utf8 bytes then Inr bytes else Inl LoadUtf8))"

definition policy_load :: "toml_crate \<Rightarrow> file_answers \<Rightarrow> (load_error, policy) result" where
  "policy_load tc f =
     (if fa_metadata f = MetaNotFound \<or> fa_metadata f = MetaErr then Inl LoadIo
      else if fa_metadata f \<noteq> MetaFile then Inl LoadNotFile
      else if \<not> fa_opens f then Inl LoadIo
      else bindR (read_policy_utf8 (fa_bytes f)) (\<lambda>src.
           case from_toml tc src of Inl e \<Rightarrow> Inl (LoadParse e) | Inr p \<Rightarrow> Inr p))"

definition human_text :: "string \<Rightarrow> string" where
  "human_text who =
     (let q = (\<lambda>s. [dquote] @ s @ [dquote]);
          sq = (\<lambda>s. [squote] @ s @ [squote]) in
      concat (map (\<lambda>l. l @ [newline])
        [''[principal.'' @ q who @ '']'', ''opaque='' @ sq ''allow'',
         ''auto_apply='' @ sq ''in-grant'', ''journal_read=true'',
         ''env_read=['' @ q ''*'' @ '']'', ''env_write=['' @ q ''*'' @ '']'',
         ''session_write=true'', ''time=true'', [],
         ''[principal.'' @ q who @ ''.fs]'', ''read=['' @ q ''/**'' @ '']'',
         ''write=['' @ q ''/**'' @ '']'', ''delete=['' @ q ''/**'' @ '']'']))"

text \<open>\<open>None\<close> is the panic of \<open>expect\<close>.\<close>

definition permissive :: "toml_crate \<Rightarrow> string \<Rightarrow> policy option" where
  "permissive tc who =
     (case from_toml tc (human_text who) of Inr p \<Rightarrow> Some p | Inl _ \<Rightarrow> None)"

definition default_agent_policy :: string where
  "default_agent_policy =
     (let sq = (\<lambda>s. [squote] @ s @ [squote]) in
      concat (map (\<lambda>l. l @ [newline])
        [''[principal.'' @ [dquote] @ ''agent:mcp'' @ [dquote] @ '']'', ''opaque = '' @ sq ''ask'',
         ''auto_apply = '' @ sq ''in-grant'', ''time = true'', ''session_write = true'',
         ''journal_read = true'']))"

definition default_with_agents :: "toml_crate \<Rightarrow> string \<Rightarrow> policy option" where
  "default_with_agents tc who =
     (case from_toml tc (human_text who @ [newline] @ default_agent_policy) of
        Inr p \<Rightarrow> Some p | Inl _ \<Rightarrow> None)"

definition user_leash_path :: "string option \<Rightarrow> string option \<Rightarrow> string option" where
  "user_leash_path xdg_config_home home =
     (case xdg_config_home of
        Some (c # dir) \<Rightarrow> Some (path_join (path_join (c # dir) ''shoal'') ''leash.toml'')
      | _ \<Rightarrow>
          (case home of
             Some (c # h) \<Rightarrow>
               Some (path_join (path_join (path_join (c # h) ''.config'') ''shoal'') ''leash.toml'')
           | _ \<Rightarrow> None))"

text \<open>
  The file is looked at twice, first by \<open>load_user_or_permissive\<close> and again by \<open>load\<close>; \<open>first\<close> is
  the first answer and \<open>file\<close> holds the later ones.
\<close>

definition load_user_or_permissive ::
  "toml_crate \<Rightarrow> string option \<Rightarrow> string option \<Rightarrow> (string \<Rightarrow> metadata) \<Rightarrow> (string \<Rightarrow> file_answers)
   \<Rightarrow> string \<Rightarrow> policy option" where
  "load_user_or_permissive tc xdg_config_home home first file who =
     (case user_leash_path xdg_config_home home of
        None \<Rightarrow> permissive tc who
      | Some path \<Rightarrow>
          (case first path of
             MetaNotFound \<Rightarrow> permissive tc who
           | MetaErr \<Rightarrow> Some (deny_all who)
           | _ \<Rightarrow>
               (case policy_load tc (file path) of
                  Inr p \<Rightarrow> Some p
                | Inl _ \<Rightarrow> Some (deny_all who))))"

section \<open>Specification\<close>

definition principal_ok :: "string \<Rightarrow> principal_policy \<Rightarrow> bool" where
  "principal_ok name p \<longleftrightarrow>
     length name \<le> policy_max_grant_bytes
     \<and> (\<forall>(kind, grants) \<in> set (grant_kinds p).
          length grants \<le> policy_max_grants_per_kind
          \<and> (\<forall>g \<in> set grants. length g \<le> policy_max_grant_bytes))
     \<and> length (net_listen p) \<le> policy_max_grants_per_kind
     \<and> process_cpu_seconds p \<noteq> Some 0 \<and> process_memory_bytes p \<noteq> Some 0"

text \<open>The bytes of a document that stand outside strings and comments.\<close>

datatype text_mode = Code | Comment | Quoted char bool

fun next_mode :: "text_mode \<Rightarrow> char \<Rightarrow> text_mode" where
  "next_mode Code b =
     (if b = CHR ''#'' then Comment
      else if b = dquote \<or> b = squote then Quoted b False else Code)"
| "next_mode Comment b = (if b = newline then Code else Comment)"
| "next_mode (Quoted q esc) b =
     (if q = dquote \<and> esc then Quoted q False
      else if q = dquote \<and> b = backslash then Quoted q True
      else if b = q then Code else Quoted q esc)"

fun structural :: "text_mode \<Rightarrow> string \<Rightarrow> string" where
  "structural m [] = []"
| "structural m (b # bs) = (if m = Code then [b] else []) @ structural (next_mode m b) bs"

definition nest :: "nat \<Rightarrow> char \<Rightarrow> nat" where
  "nest d b = (if b \<in> set ''[{'' then d + 1 else if b \<in> set '']}'' then d - 1 else d)"

definition mode_of :: "scan \<Rightarrow> text_mode" where
  "mode_of s = (if sc_comment s then Comment
                else case sc_quote s of Some q \<Rightarrow> Quoted q (sc_escaped s) | None \<Rightarrow> Code)"

section \<open>Lemmas\<close>

lemma all_prefix_Cons:
  "(\<forall>us. prefix us (x # xs) \<longrightarrow> P us) \<longleftrightarrow> P [] \<and> (\<forall>us. prefix us xs \<longrightarrow> P (x # us))"
  by (auto simp: prefix_Cons)

text \<open>A scanner state as a mode, a depth and a count; the modes exclude one another.\<close>

definition scan_at :: "scan \<Rightarrow> text_mode \<Rightarrow> nat \<Rightarrow> nat \<Rightarrow> bool" where
  "scan_at s m d a \<longleftrightarrow>
     mode_of s = m \<and> sc_depth s = d \<and> sc_assignments s = a
     \<and> (sc_escaped s \<longrightarrow> sc_quote s = Some dquote) \<and> (sc_comment s \<longrightarrow> sc_quote s = None)"

lemma scan_byte_comment:
  assumes "scan_at s Comment d a"
  shows "\<exists>s'. scan_byte b s = Inr s' \<and> scan_at s' (next_mode Comment b) d a"
proof -
  have c: "sc_comment s" "sc_quote s = None" "\<not> sc_escaped s" "sc_depth s = d" "sc_assignments s = a"
    using assms by (auto simp: scan_at_def mode_of_def split: if_splits option.splits)
  have "scan_byte b s = Inr (if b = newline then s\<lparr>sc_comment := False\<rparr> else s)"
    by (simp add: scan_byte_def c(1))
  moreover have "scan_at (if b = newline then s\<lparr>sc_comment := False\<rparr> else s) (next_mode Comment b) d a"
    by (simp add: scan_at_def mode_of_def c)
  ultimately show ?thesis by blast
qed

lemma scan_byte_quoted:
  assumes "scan_at s (Quoted q esc) d a"
  shows "\<exists>s'. scan_byte b s = Inr s' \<and> scan_at s' (next_mode (Quoted q esc) b) d a"
proof -
  have c: "\<not> sc_comment s" "sc_quote s = Some q" "sc_escaped s = esc" "sc_depth s = d"
    "sc_assignments s = a"
    using assms by (auto simp: scan_at_def mode_of_def split: if_splits option.splits)
  let ?s = "if q = dquote \<and> esc then s\<lparr>sc_escaped := False\<rparr>
            else if q = dquote \<and> b = backslash then s\<lparr>sc_escaped := True\<rparr>
            else if b = q then s\<lparr>sc_quote := None\<rparr> else s"
  have "scan_byte b s = Inr ?s" by (simp add: scan_byte_def c)
  moreover have "scan_at ?s (next_mode (Quoted q esc) b) d a"
    using assms by (auto simp: scan_at_def mode_of_def c)
  ultimately show ?thesis by blast
qed

definition eq_count :: "char \<Rightarrow> nat" where
  "eq_count b = (if b = CHR ''='' then 1 else 0)"

lemma scan_byte_code:
  assumes "scan_at s Code d a"
    and "d \<le> policy_max_nesting" "a \<le> policy_max_assignments"
  shows "if nest d b \<le> policy_max_nesting \<and> a + eq_count b \<le> policy_max_assignments
    then \<exists>s'. scan_byte b s = Inr s' \<and> scan_at s' (next_mode Code b) (nest d b) (a + eq_count b)
    else \<exists>e. scan_byte b s = Inl e"
proof -
  have c: "\<not> sc_comment s" "sc_quote s = None" "\<not> sc_escaped s" "sc_depth s = d"
    "sc_assignments s = a"
    using assms(1) by (auto simp: scan_at_def mode_of_def split: if_splits option.splits)
  note defs = scan_byte_def scan_at_def mode_of_def nest_def eq_count_def Let_def dquote_def
    squote_def
  consider "b = CHR ''#''" | "b = dquote" | "b = squote" | "b = CHR ''[''" | "b = CHR ''{''"
    | "b = CHR '']''" | "b = CHR ''}''" | "b = CHR ''=''"
    | "b \<notin> {CHR ''#'', dquote, squote, CHR ''['', CHR ''{'', CHR '']'', CHR ''}'', CHR ''=''}"
    by blast
  then show ?thesis
    by cases (use assms(2,3) in \<open>simp_all add: c defs\<close>)
qed

lemma scan_bytes_ok:
  "scan_at s m d a \<Longrightarrow> d \<le> policy_max_nesting \<Longrightarrow> a \<le> policy_max_assignments \<Longrightarrow>
   is_ok (scan_bytes bs s) \<longleftrightarrow>
     a + count_list (structural m bs) (CHR ''='') \<le> policy_max_assignments
     \<and> (\<forall>us. prefix us (structural m bs) \<longrightarrow> foldl nest d us \<le> policy_max_nesting)"
proof (induction bs arbitrary: s m d a)
  case Nil
  then show ?case by simp
next
  case (Cons b bs)
  show ?case
  proof (cases m)
    case Code
    let ?c = "count_list (structural (next_mode Code b) bs) (CHR ''='')"
    have str: "structural m (b # bs) = b # structural (next_mode Code b) bs"
      "count_list (b # structural (next_mode Code b) bs) (CHR ''='') = eq_count b + ?c"
      by (simp_all add: Code eq_count_def del: next_mode.simps)
    show ?thesis
    proof (cases "nest d b \<le> policy_max_nesting \<and> a + eq_count b \<le> policy_max_assignments")
      case True
      then obtain s' where s': "scan_byte b s = Inr s'"
        "scan_at s' (next_mode Code b) (nest d b) (a + eq_count b)"
        using scan_byte_code[of s d a b] Cons.prems Code by auto
      have "is_ok (scan_bytes (b # bs) s) = is_ok (scan_bytes bs s')" by (simp add: s')
      then show ?thesis
        using Cons.IH[OF s'(2)] True Cons.prems(2) unfolding str all_prefix_Cons
        by (simp add: add.assoc del: next_mode.simps)
    next
      case False
      then obtain e where "scan_byte b s = Inl e"
        using scan_byte_code[of s d a b] Cons.prems Code by auto
      moreover have "prefix [] (structural (next_mode Code b) bs)" by simp
      ultimately show ?thesis
        using False unfolding str all_prefix_Cons by (fastforce simp del: next_mode.simps)
    qed
  next
    case Comment
    then show ?thesis
      using scan_byte_comment[of s d a b] Cons.prems Cons.IH by fastforce
  next
    case (Quoted q esc)
    then obtain s' where s': "scan_byte b s = Inr s'" "scan_at s' (next_mode m b) d a"
      using scan_byte_quoted Cons.prems(1) by blast
    show ?thesis
      using Cons.IH[OF s'(2) Cons.prems(2,3)] by (simp add: s' Quoted del: next_mode.simps)
  qed
qed

lemma validate_policy_string_ok:
  "validate_policy_string k v = Inr () \<longleftrightarrow> length v \<le> policy_max_grant_bytes"
  by (auto simp: validate_policy_string_def)

lemma validate_principal_ok: "validate_principal (n, p) = Inr () \<longleftrightarrow> principal_ok n p"
  by (auto simp: validate_principal_def principal_ok_def validate_grants_def result_simps
      validate_policy_string_ok Let_def split: if_splits)

lemma validate_policy_doc_ok:
  "validate_policy_doc doc = Inr () \<longleftrightarrow>
     length doc \<le> policy_max_principals \<and> (\<forall>(n, p) \<in> set doc. principal_ok n p)"
  by (auto simp: validate_policy_doc_def result_simps validate_principal_ok)

text \<open>\<open>deny_unknown_fields\<close> on \<open>PrincipalPolicy\<close>, with the names and aliases its attributes give.\<close>

definition principal_fields :: "string list" where
  "principal_fields =
     [''fs.read'', ''fs.write'', ''fs.delete'', ''net_connect'', ''net'', ''net_listen'',
      ''proc_spawn'', ''spawn'', ''env_read'', ''env_write'', ''secret_use'', ''secrets'',
      ''session_write'', ''journal_read'', ''time'', ''process_cpu_seconds'',
      ''process_memory_bytes'', ''auto_apply'', ''opaque'', ''hermetic'']"

definition has_unknown_field :: "table \<Rightarrow> bool" where
  "has_unknown_field doc =
     (case map_of doc ''principal'' of
        Some (TTable ps) \<Rightarrow>
          list_ex (\<lambda>(n, raw). case raw of
                               TTable t \<Rightarrow> list_ex (\<lambda>(k, _). k \<notin> set principal_fields) t
                             | _ \<Rightarrow> False) ps
      | _ \<Rightarrow> False)"

lemma has_unknown_fieldI:
  assumes "map_of doc ''principal'' = Some (TTable ps)" and "(n, TTable t) \<in> set ps"
    and "list_ex (\<lambda>(k, _). k \<notin> set principal_fields) t"
  shows "has_unknown_field doc"
  unfolding has_unknown_field_def assms(1)
  using assms(2,3) by (simp only: list_ex_iff option.case toml.case) (rule bexI[OF _ assms(2)], simp add: list_ex_iff)

lemma set_tbl_insert: "set (tbl_insert k v t) = insert (k, v) (set (tbl_remove k t))"
  by (simp add: tbl_insert_def set_insort_key)

lemma key_tbl_remove: "k \<in> fst ` set (tbl_remove n t) \<longleftrightarrow> k \<in> fst ` set t \<and> k \<noteq> n"
  by (force simp: tbl_remove_def)

lemma flatten_field_keys:
  "k \<in> fst ` set (flatten_field ns nested t f) \<longleftrightarrow>
     k \<in> fst ` set t \<or> (k = ns @ ''.'' @ f \<and> map_of nested f \<noteq> None)"
  by (auto simp: flatten_field_def set_tbl_insert key_tbl_remove split: option.splits)

lemma flatten_fields_keys:
  "k \<in> fst ` set (foldl (flatten_field ns nested) t fs) \<longleftrightarrow>
     k \<in> fst ` set t \<or> (\<exists>f \<in> set fs. k = ns @ ''.'' @ f \<and> map_of nested f \<noteq> None)"
  by (induction fs arbitrary: t) (auto simp: flatten_field_keys)

lemma flatten_namespace_keys:
  "k \<in> fst ` set (flatten_namespace ns fs t) \<longleftrightarrow>
     k \<in> fst ` set t \<and> k \<noteq> ns
     \<or> (\<exists>nested f. map_of t ns = Some (TTable nested) \<and> f \<in> set fs \<and> map_of nested f \<noteq> None
          \<and> k = ns @ ''.'' @ f)"
  by (auto simp: flatten_namespace_def Let_def key_tbl_remove flatten_fields_keys
      split: option.splits toml.splits)

lemma flatten_keeps_key:
  "k \<in> fst ` set t \<Longrightarrow> k \<noteq> ns \<Longrightarrow> k \<in> fst ` set (flatten_namespace ns fs t)"
  by (simp add: flatten_namespace_keys)

lemma flatten_adds_key:
  "map_of t ns = Some (TTable nested) \<Longrightarrow> map_of nested f = Some v \<Longrightarrow> f \<in> set fs \<Longrightarrow>
   ns @ ''.'' @ f \<in> fst ` set (flatten_namespace ns fs t)"
  unfolding flatten_namespace_keys by blast

lemma map_of_tbl_remove: "map_of (tbl_remove k t) k' = (if k' = k then None else map_of t k')"
  by (induction t) (auto simp: tbl_remove_def)

lemma map_of_flatten_other:
  assumes "k \<noteq> ns" and "\<forall>f. k \<noteq> ns @ ''.'' @ f"
  shows "map_of (flatten_namespace ns fs t) k = map_of t k"
proof -
  have ins: "map_of (tbl_insert k' v t) k = map_of t k" if "k \<noteq> k'" for k' v t
  proof -
    have "map_of (insort_key fst (k', v) u) k = map_of u k" for u
      using that by (induction u) auto
    then show ?thesis using that by (simp add: tbl_insert_def map_of_tbl_remove)
  qed
  have "map_of (foldl (flatten_field ns nested) u fs) k = map_of u k" for nested u
    using assms(2) by (induction fs arbitrary: u) (auto simp: flatten_field_def ins split: option.splits)
  then show ?thesis
    using assms(1)
    by (auto simp: flatten_namespace_def Let_def map_of_tbl_remove split: option.splits toml.splits)
qed

lemma from_toml_ok:
  "from_toml tc src = Inr pol \<Longrightarrow>
   \<exists>value doc. parse_toml tc src = Inr value \<and> decode_doc tc (flatten_doc value) = Inr doc
     \<and> validate_policy_text src = Inr () \<and> validate_policy_doc doc = Inr ()
     \<and> pol = \<lparr>principals = map_of doc, fail_closed = False\<rparr>"
  by (auto simp: from_toml_def result_simps split: sum.splits)

section \<open>Properties\<close>

text \<open>
  C38. The scanner that guards the TOML parser accepts a text exactly when it is within the size
  limit and, counting only bytes outside strings and comments, has at most 8192 assignments and
  never more than 64 open brackets: the early exits lose nothing and let nothing through.
\<close>

theorem validate_policy_text_exact:
  "validate_policy_text src = Inr () \<longleftrightarrow>
     length src \<le> policy_max_bytes
     \<and> count_list (structural Code src) (CHR ''='') \<le> policy_max_assignments
     \<and> (\<forall>us. prefix us (structural Code src) \<longrightarrow> foldl nest 0 us \<le> policy_max_nesting)"
proof -
  have "scan_at scan_start Code 0 0" by (simp add: scan_at_def scan_start_def mode_of_def)
  note scan = scan_bytes_ok[OF this, of src]
  have "validate_policy_text src = Inr () \<longleftrightarrow>
      length src \<le> policy_max_bytes \<and> is_ok (scan_bytes src scan_start)"
    by (auto simp: validate_policy_text_def result_simps)
  then show ?thesis using scan by simp
qed

text \<open>
  A policy that loads is bounded: at most 256 principals, at most 1024 grants of each kind,
  names and grants of at most 4096 bytes, no zero ceiling; and it is not quarantined.
\<close>

theorem from_toml_bounded:
  assumes "from_toml tc src = Inr pol"
  shows "\<not> fail_closed pol \<and> finite (dom (principals pol))
    \<and> card (dom (principals pol)) \<le> policy_max_principals
    \<and> (\<forall>n p. principals pol n = Some p \<longrightarrow> principal_ok n p)"
proof -
  obtain doc where doc: "validate_policy_doc doc = Inr ()" "pol = \<lparr>principals = map_of doc, fail_closed = False\<rparr>"
    using from_toml_ok[OF assms] by blast
  have "card (dom (map_of doc)) \<le> length doc"
    using card_image_le[of "set doc" fst] card_length[of doc] by (simp add: dom_map_of_conv_image_fst)
  then show ?thesis
    using doc by (auto simp: validate_policy_doc_ok finite_dom_map_of dest: map_of_SomeD)
qed

text \<open>
  C39. A user policy file that is there is never ignored: either it is a readable regular file of
  valid UTF-8 within the size limit that parses and validates, and its contents are the policy, or
  every effect of every principal is denied.
\<close>

theorem user_policy_fails_closed:
  assumes "user_leash_path xdg home = Some path" and "first path \<noteq> MetaNotFound"
  shows "load_user_or_permissive tc xdg home first file who = Some (deny_all who)
    \<or> (\<exists>src pol. fa_metadata (file path) = MetaFile \<and> fa_opens (file path)
         \<and> fa_bytes (file path) = Some src \<and> length src \<le> policy_max_bytes \<and> valid_utf8 src
         \<and> from_toml tc src = Inr pol
         \<and> load_user_or_permissive tc xdg home first file who = Some pol)"
proof (cases "policy_load tc (file path)")
  case (Inl e)
  then show ?thesis using assms
    by (cases "first path") (simp_all add: load_user_or_permissive_def)
next
  case (Inr pol)
  then obtain src where src: "fa_metadata (file path) = MetaFile" "fa_opens (file path)"
    "read_policy_utf8 (fa_bytes (file path)) = Inr src" "from_toml tc src = Inr pol"
    by (auto simp: policy_load_def result_simps split: if_splits)
  then have "fa_bytes (file path) = Some src \<and> length src \<le> policy_max_bytes \<and> valid_utf8 src"
    by (auto simp: read_policy_utf8_def Let_def split: option.splits if_splits)
  then show ?thesis using assms src Inr
    by (cases "first path") (auto simp: load_user_or_permissive_def)
qed

text \<open>
  A policy that writes its environment grants in the dotted form, \<open>env.read = [...]\<close>, is
  refused: flattening gives the key \<open>env.read\<close>, which is not a field of \<open>PrincipalPolicy\<close> (the field
  is \<open>env_read\<close>), and a decoder that rejects unknown fields reports it.
\<close>

theorem dotted_env_grants_rejected:
  assumes decoder: "\<And>doc. has_unknown_field doc \<Longrightarrow> \<not> is_ok (decode_doc tc doc)"
    and "parse_toml tc src = Inr val"
    and "map_of val ''principal'' = Some (TTable ps)" and "(n, TTable t) \<in> set ps"
    and "map_of t ''env'' = Some (TTable nested)" and "map_of nested ''read'' = Some v"
  shows "\<not> is_ok (from_toml tc src)"
proof -
  let ?fs = "flatten_namespace ''fs'' [''read'', ''write'', ''delete''] t"
  let ?t = "flatten_namespace ''proc'' [''spawn''] (flatten_namespace ''secret'' [''use'']
    (flatten_namespace ''env'' [''read'', ''write''] ?fs))"
  have "map_of ?fs ''env'' = Some (TTable nested)"
    using assms(5) by (subst map_of_flatten_other) auto
  then have "''env'' @ ''.'' @ ''read'' \<in> fst ` set (flatten_namespace ''env'' [''read'', ''write''] ?fs)"
    by (rule flatten_adds_key[OF _ assms(6)]) simp
  then have "''env'' @ ''.'' @ ''read'' \<in> fst ` set ?t"
    by (rule flatten_keeps_key[OF flatten_keeps_key]) simp_all
  moreover have "''env'' @ ''.'' @ ''read'' \<notin> set principal_fields"
    by (simp add: principal_fields_def)
  ultimately have unknown: "list_ex (\<lambda>(k, _). k \<notin> set principal_fields) ?t"
    unfolding list_ex_iff image_iff by (metis (no_types, lifting) case_prod_beta)
  have "flatten_principal (TTable t) = TTable ?t" by (simp add: flatten_principal_def)
  then have "(n, TTable ?t) \<in> set (map (\<lambda>(n, raw). (n, flatten_principal raw)) ps)"
    using assms(4) by force
  moreover have "map_of (flatten_doc val) ''principal'' =
      Some (TTable (map (\<lambda>(n, raw). (n, flatten_principal raw)) ps))"
    using assms(3) by (induction val) (auto simp: flatten_doc_def)
  ultimately have "has_unknown_field (flatten_doc val)"
    using unknown has_unknown_fieldI by blast
  then show ?thesis
    using decoder assms(2) by (force simp: from_toml_def result_simps split: sum.splits)
qed

section \<open>Examples\<close>

definition sample_toml :: toml_crate where
  "sample_toml =
     \<lparr>parse_toml = (\<lambda>src. if src = ''e''
        then Inr [(''principal'', TTable [(''a'', TTable [(''env'', TTable [(''read'', TArray [])])])])]
        else if src = ''ok'' then Inr [(''principal'', TTable [(''a'', TTable [])])]
        else Inl ''syntax''),
      decode_doc = (\<lambda>doc. if has_unknown_field doc then Inl ''unknown field''
        else Inr [(''a'', principal_default)])\<rparr>"

definition sample_file :: "string \<Rightarrow> file_answers" where
  "sample_file text = \<lparr>fa_metadata = MetaFile, fa_opens = True, fa_bytes = Some text\<rparr>"

lemmas bound_defs = policy_max_bytes_def policy_max_nesting_def policy_max_assignments_def
  policy_max_principals_def policy_max_grants_per_kind_def policy_max_grant_bytes_def

lemma sample_text_ok: "validate_policy_text ''ok'' = Inr ()" "validate_policy_text ''bad'' = Inr ()"
  by (simp_all add: validate_policy_text_def scan_byte_def scan_start_def bound_defs dquote_def
      squote_def)

lemma sample_from_toml:
  "is_ok (from_toml sample_toml ''ok'')" "\<not> is_ok (from_toml sample_toml ''bad'')"
proof -
  have "flatten_doc [(''principal'', TTable [(''a'', TTable [])])]
      = [(''principal'', TTable [(''a'', TTable [])])]"
    "\<not> has_unknown_field [(''principal'', TTable [(''a'', TTable [])])]"
    by code_simp+
  moreover have "validate_policy_doc [(''a'', principal_default)] = Inr ()"
    by (simp add: validate_policy_doc_ok principal_ok_def grant_kinds_def principal_default_def
        bound_defs)
  ultimately show "is_ok (from_toml sample_toml ''ok'')" "\<not> is_ok (from_toml sample_toml ''bad'')"
    by (simp_all add: from_toml_def sample_text_ok sample_toml_def)
qed

lemma validate_policy_text_exact_witness:
  "validate_policy_text ''a = [1] # ]]=='' = Inr () \<and> structural Code ''a = [1] # ]]=='' = ''a = [1] #''"
proof -
  have st: "structural Code ''a = [1] # ]]=='' = ''a = [1] #''" by code_simp
  have "\<forall>us. prefix us ''a = [1] #'' \<longrightarrow> foldl nest 0 us \<le> policy_max_nesting"
    by (simp add: all_prefix_Cons nest_def policy_max_nesting_def)
  moreover have "length ''a = [1] # ]]=='' \<le> policy_max_bytes" "count_list ''a = [1] #'' (CHR ''='') \<le> policy_max_assignments"
    by (simp_all add: policy_max_bytes_def policy_max_assignments_def)
  ultimately show ?thesis unfolding validate_policy_text_exact st by simp
qed

lemma from_toml_bounded_witness:
  "is_ok (from_toml sample_toml ''ok'')
   \<and> \<not> fail_closed (projr (from_toml sample_toml ''ok''))"
proof -
  from sample_from_toml(1) obtain pol where "from_toml sample_toml ''ok'' = Inr pol"
    by (auto simp: is_ok_iff)
  then show ?thesis using from_toml_bounded[of sample_toml "''ok''" pol] by simp
qed

lemma user_policy_fails_closed_witness:
  "load_user_or_permissive sample_toml None (Some ''/h'') (\<lambda>_. MetaFile) (\<lambda>_. sample_file ''bad'') ''u''
   = Some (deny_all ''u'')"
proof -
  have "user_leash_path None (Some ''/h'') = Some ''/h/.config/shoal/leash.toml''" by code_simp
  then show ?thesis
    using sample_from_toml(2) user_policy_fails_closed[of None "Some ''/h''" "''/h/.config/shoal/leash.toml''"
        "\<lambda>_. MetaFile" sample_toml "\<lambda>_. sample_file ''bad''" "''u''"]
    by (auto simp: sample_file_def)
qed

lemma dotted_env_grants_rejected_witness: "\<not> is_ok (from_toml sample_toml ''e'')"
  by (rule dotted_env_grants_rejected[of sample_toml "''e''"
        "[(''principal'', TTable [(''a'', TTable [(''env'', TTable [(''read'', TArray [])])])])]"
        "[(''a'', TTable [(''env'', TTable [(''read'', TArray [])])])]" "''a''"
        "[(''env'', TTable [(''read'', TArray [])])]" "[(''read'', TArray [])]" "TArray []"])
    (simp_all add: sample_toml_def)

end
