(* ===== verification/Kernel_Plans.thy ===== *)
theory Kernel_Plans
  imports Leash_Policy "HOL-Library.AList"
begin

text \<open>
  Stored plans and their approval: \<open>kernel/state/plans.rs\<close>, the plan half of \<open>handlers_exec/plan.rs\<close>
  and \<open>handlers_exec/run.rs\<close>, and \<open>plan.get\<close>, \<open>plan.list\<close>, \<open>plan.apply\<close> and \<open>cap.request\<close> of
  \<open>handlers_task.rs\<close>. Handlers that release the registry lock between phases are one definition per
  locked transaction, so that the step relation of \<open>Kernel_Approval\<close> interleaves them as the threads
  of the kernel do. The locale \<open>plan_op\<close> is the contract every transaction keeps. Time is a count of nanoseconds; parsing, plan derivation and hashing are parameters.
\<close>

section \<open>Data model\<close>

datatype rpc_code =
    UNKNOWN_PLAN | LEASH_DENIED | APPROVAL_REQUIRED | QUOTA_EXCEEDED | INVALID_PARAMS
  | INTERNAL_ERROR | PARSE_ERROR | NOT_ATTACHED | UNKNOWN_TASK | TASK_CONTROL_UNAVAILABLE

datatype rpc_error = RpcError (code: rpc_code) (message: string)

abbreviation denied :: "string \<Rightarrow> rpc_error" where
  "denied \<equiv> RpcError LEASH_DENIED"

abbreviation internal :: "string \<Rightarrow> rpc_error" where
  "internal \<equiv> RpcError INTERNAL_ERROR"

definition max_stored_plans_per_owner :: nat where
  "max_stored_plans_per_owner = 256"

definition max_plan_source_bytes_per_owner :: nat where
  "max_plan_source_bytes_per_owner = 64 * 1024 * 1024"

definition plan_ttl :: nat where
  "plan_ttl = 24 * 60 * 60 * 1000000000"

definition grant_reservation_ttl :: nat where
  "grant_reservation_ttl = 30 * 1000000000"

record approval_record =
  requester :: string
  approver :: string
  ar_plan_ref :: string
  ar_plan_hash :: string
  ar_source_hash :: string
  ar_session :: string
  scope :: "string list"
  approved_at_ns :: int
  grant_audit_id :: int
  consumed_by :: "int option"

text \<open>A weak lease is the number of the request that holds it; it upgrades while that is live.\<close>

datatype plan_authorization =
    PolicyAllowed
  | Pending
  | Denied
  | Granting approval_record (restore_policy_allowed: bool) (started_at: nat) (lease: nat)
  | Approved approval_record
  | Claimed approval_record
  | Consumed approval_record

record stored_plan =
  sp_src :: string
  sp_session :: string
  sp_principal :: string
  sp_plan_hash :: string
  sp_source_hash :: string
  sp_plan :: plan
  authorization :: plan_authorization
  created_at :: nat

type_synonym plans = "(string \<times> stored_plan) list"

record plan_registry =
  entries :: plans
  next_id :: nat
  quarantined :: bool
  poisoned :: bool

definition registry_new :: plan_registry where
  "registry_new = \<lparr>entries = [], next_id = 1, quarantined = False, poisoned = False\<rparr>"

text \<open>What the kernel holds fixed: its policy, the host, the hashes, the self-approval switch.\<close>

record kernel_cfg =
  k_host :: host
  k_policy :: policy
  k_source_hash :: "string \<Rightarrow> string"
  k_digest :: "string \<times> string \<times> effect list \<times> reversibility \<times> estimates \<times> string \<times> string \<Rightarrow> string"
  allow_self_ack :: bool

definition bound_plan_hash ::
  "kernel_cfg \<Rightarrow> string \<Rightarrow> string \<Rightarrow> plan \<Rightarrow> string \<Rightarrow> string \<Rightarrow> string" where
  "bound_plan_hash k src ast_json pl session req =
     k_digest k (src, ast_json, effects pl, plan_reversibility pl, plan_estimates pl, session, req)"

section \<open>The registry\<close>

fun in_flight :: "plan_authorization \<Rightarrow> bool" where
  "in_flight (Granting _ _ _ _) = True"
| "in_flight (Claimed _) = True"
| "in_flight _ = False"

definition plan_expired :: "nat \<Rightarrow> stored_plan \<Rightarrow> bool" where
  "plan_expired now p \<longleftrightarrow> \<not> in_flight (authorization p) \<and> plan_ttl < now - created_at p"

definition ungrant :: "bool \<Rightarrow> plan_authorization" where
  "ungrant restore = (if restore then PolicyAllowed else Pending)"

definition recover_stale_grant :: "nat \<Rightarrow> nat set \<Rightarrow> stored_plan \<Rightarrow> stored_plan" where
  "recover_stale_grant now live p =
     (case authorization p of
        Granting rec restore started l \<Rightarrow>
          if l \<notin> live \<and> grant_reservation_ttl \<le> now - started
          then p\<lparr>authorization := ungrant restore\<rparr> else p
      | _ \<Rightarrow> p)"

fun is_approved :: "plan_authorization \<Rightarrow> bool" where
  "is_approved PolicyAllowed = True"
| "is_approved (Approved _) = True"
| "is_approved (Claimed _) = True"
| "is_approved (Consumed _) = True"
| "is_approved _ = False"

fun approval :: "plan_authorization \<Rightarrow> approval_record option" where
  "approval (Approved r) = Some r"
| "approval (Claimed r) = Some r"
| "approval (Consumed r) = Some r"
| "approval _ = None"

definition hex_char :: "nat \<Rightarrow> char" where
  "hex_char d = ''0123456789abcdef'' ! d"

fun hex_pad :: "nat \<Rightarrow> nat \<Rightarrow> string" where
  "hex_pad 0 n = []"
| "hex_pad (Suc w) n = hex_pad w (n div 16) @ [hex_char (n mod 16)]"

definition allocate_ref :: "string \<Rightarrow> plan_registry \<Rightarrow> string \<times> plan_registry" where
  "allocate_ref plan_hash reg =
     (''plan:'' @ plan_hash @ '':'' @ hex_pad 16 (next_id reg mod 2 ^ 64),
      reg\<lparr>next_id := next_id reg + 1\<rparr>)"

abbreviation poisoned_error :: rpc_error where
  "poisoned_error \<equiv> internal ''plan registry is quarantined; restart the kernel''"

definition transaction ::
  "nat \<Rightarrow> nat set \<Rightarrow> (plans \<Rightarrow> (rpc_error, 'a) result \<times> plans) \<Rightarrow> plan_registry
   \<Rightarrow> (rpc_error, 'a) result \<times> plan_registry" where
  "transaction now live operation reg =
     (if quarantined reg \<or> poisoned reg
      then (Inl poisoned_error, reg\<lparr>quarantined := True\<rparr>)
      else let (r, es) = operation (map (\<lambda>(k, p). (k, recover_stale_grant now live p)) (entries reg))
           in (r, reg\<lparr>entries := es\<rparr>))"

text \<open>An owner key is a principal, a session name and an authority scope.\<close>

record owner_key =
  ok_principal :: string
  ok_name :: string
  ok_scope :: string

definition remove_owner :: "owner_key \<Rightarrow> plan_registry \<Rightarrow> plan_registry" where
  "remove_owner owner reg =
     (if quarantined reg \<or> poisoned reg then reg\<lparr>quarantined := True\<rparr>
      else reg\<lparr>entries := filter (\<lambda>(_, p). \<not> (sp_principal p = ok_principal owner
                                             \<and> sp_session p = ok_name owner)) (entries reg)\<rparr>)"

definition set_auth :: "string \<Rightarrow> plan_authorization \<Rightarrow> plans \<Rightarrow> plans" where
  "set_auth ref a es = map (\<lambda>(k, p). (k, if k = ref then p\<lparr>authorization := a\<rparr> else p)) es"

definition purge_expired :: "nat \<Rightarrow> string \<Rightarrow> plans \<Rightarrow> plans" where
  "purge_expired now ref es =
     (case map_of es ref of
        Some p \<Rightarrow> if plan_expired now p then AList.delete ref es else es
      | None \<Rightarrow> es)"

section \<open>Planning\<close>

definition plan_verdict :: "kernel_cfg \<Rightarrow> string \<Rightarrow> plan \<Rightarrow> verdict" where
  "plan_verdict k who pl = evaluate_plan (k_host k) (k_policy k) who pl"

fun initial_authorization :: "verdict \<Rightarrow> plan_authorization" where
  "initial_authorization Allow = PolicyAllowed"
| "initial_authorization ApprovalRequired = Pending"
| "initial_authorization Deny = Denied"

definition owner_plans :: "string \<Rightarrow> string \<Rightarrow> plans \<Rightarrow> stored_plan list" where
  "owner_plans session actor es =
     filter (\<lambda>p. sp_session p = session \<and> sp_principal p = actor) (map snd es)"

definition source_bytes :: "stored_plan list \<Rightarrow> nat" where
  "source_bytes ps = sum_list (map (length \<circ> sp_src) ps)"

definition store_plan :: "nat \<Rightarrow> stored_plan \<Rightarrow> plans \<Rightarrow> (rpc_error, unit) result \<times> plans" where
  "store_plan now new es =
     (let es1 = filter (\<lambda>(_, p). \<not> plan_expired now p) es;
          mine = owner_plans (sp_session new) (sp_principal new) es1
      in if max_stored_plans_per_owner \<le> length mine
            \<or> max_plan_source_bytes_per_owner
              < saturating_usize (source_bytes mine + length (sp_src new))
         then (Inl (RpcError QUOTA_EXCEEDED ''stored plan quota reached''), es1)
         else (Inr (), AList.update (plan_ref (sp_plan new)) new es1))"

text \<open>
  \<open>derived\<close> is the outcome of parsing the source and deriving its plan; the result carries the
  verdict and the reference, and the references of the approval events published.
\<close>

definition handle_exec_plan ::
  "kernel_cfg \<Rightarrow> nat \<Rightarrow> nat set \<Rightarrow> string \<Rightarrow> string \<Rightarrow> string \<Rightarrow> (rpc_error, string \<times> plan) result
   \<Rightarrow> plan_registry \<Rightarrow> (rpc_error, string \<times> verdict) result \<times> plan_registry \<times> string list" where
  "handle_exec_plan k now live src session actor derived reg =
     (case derived of
        Inl e \<Rightarrow> (Inl e, reg, [])
      | Inr (ast_json, pl) \<Rightarrow>
          (let hash = bound_plan_hash k src ast_json pl session actor;
               (ref, reg1) = allocate_ref hash reg;
               pl = pl\<lparr>plan_ref := ref\<rparr>;
               v = plan_verdict k actor pl;
               new = \<lparr>sp_src = src, sp_session = session, sp_principal = actor, sp_plan_hash = hash,
                      sp_source_hash = k_source_hash k src, sp_plan = pl,
                      authorization = initial_authorization v, created_at = now\<rparr>
           in case transaction now live (store_plan now new) reg1 of
                (Inl e, reg2) \<Rightarrow> (Inl e, reg2, [])
              | (Inr _, reg2) \<Rightarrow>
                  (Inr (ref, v), reg2, if v = ApprovalRequired then [ref] else [])))"

section \<open>Applying\<close>

definition unknown_plan :: rpc_error where
  "unknown_plan = RpcError UNKNOWN_PLAN ''unknown or expired plan_ref''"

fun claim_authorization ::
  "verdict \<Rightarrow> plan_authorization \<Rightarrow> (rpc_error, approval_record option) result" where
  "claim_authorization v PolicyAllowed =
     (if v = Allow then Inr None else Inl (denied ''plan is not authorized for approved execution''))"
| "claim_authorization v (Approved r) = Inr (Some r)"
| "claim_authorization v (Claimed r) = Inl (denied ''approved plan is already being applied'')"
| "claim_authorization v (Granting r b s l) =
     Inl (denied ''approval grant is still being durably recorded'')"
| "claim_authorization v (Consumed r) = Inl (denied ''approval was already consumed'')"
| "claim_authorization v Pending = 
     Inl (denied (''mode '' @ [CHR 0x22] @ ''approved'' @ [CHR 0x22] @ '' requires a granted approval''))"
| "claim_authorization v Denied = Inl (denied ''plan is not authorized for approved execution'')"

definition claim_plan ::
  "kernel_cfg \<Rightarrow> nat \<Rightarrow> string \<Rightarrow> string \<Rightarrow> string \<Rightarrow> string \<Rightarrow> string \<Rightarrow> plans
   \<Rightarrow> (rpc_error, approval_record option) result \<times> plans" where
  "claim_plan k now ref src session actor actual_hash es =
     (let es1 = purge_expired now ref es in
      case map_of es1 ref of
        None \<Rightarrow>
          (Inl (if map_of es ref = None then RpcError UNKNOWN_PLAN ''unknown plan_ref''
                else unknown_plan), es1)
      | Some p \<Rightarrow>
          if sp_plan_hash p \<noteq> actual_hash \<or> sp_source_hash p \<noteq> k_source_hash k src
             \<or> sp_session p \<noteq> session \<or> sp_principal p \<noteq> actor
          then (Inl (denied ''approved plan binding no longer matches source/session/requester''), es1)
          else case claim_authorization (plan_verdict k actor (sp_plan p)) (authorization p) of
                 Inl e \<Rightarrow> (Inl e, es1)
               | Inr None \<Rightarrow> (Inr None, es1)
               | Inr (Some r) \<Rightarrow> (Inr (Some r), set_auth ref (Claimed r) es1))"

record exec_params =
  ep_src :: string
  ep_mode :: string
  ep_plan_ref :: "string option"

definition claim_exec_approval ::
  "kernel_cfg \<Rightarrow> nat \<Rightarrow> nat set \<Rightarrow> exec_params \<Rightarrow> string \<Rightarrow> string \<Rightarrow> string \<Rightarrow> plan \<Rightarrow> plan_registry
   \<Rightarrow> (rpc_error, approval_record option) result \<times> plan_registry" where
  "claim_exec_approval k now live params session actor ast_json run_plan reg =
     (if ep_mode params \<noteq> ''approved'' then (Inr None, reg)
      else case ep_plan_ref params of
             None \<Rightarrow> (Inl (denied ''approved execution requires plan_ref''), reg)
           | Some ref \<Rightarrow>
               transaction now live
                 (claim_plan k now ref (ep_src params) session actor
                   (bound_plan_hash k (ep_src params) ast_json run_plan session actor)) reg)"

text \<open>The head of \<open>handle_exec_run\<close>: the claim, then the policy check of mode \<open>run\<close>.\<close>

definition authorize_run ::
  "kernel_cfg \<Rightarrow> nat \<Rightarrow> nat set \<Rightarrow> exec_params \<Rightarrow> string \<Rightarrow> string \<Rightarrow> string \<Rightarrow> plan \<Rightarrow> plan_registry
   \<Rightarrow> (rpc_error, approval_record option) result \<times> plan_registry" where
  "authorize_run k now live params session actor ast_json run_plan reg =
     (case claim_exec_approval k now live params session actor ast_json run_plan reg of
        (Inl e, reg1) \<Rightarrow> (Inl e, reg1)
      | (Inr claimed, reg1) \<Rightarrow>
          if ep_mode params = ''run''
          then (case plan_verdict k actor run_plan of
                  Deny \<Rightarrow> (Inl (denied ''leash denied execution''), reg1)
                | ApprovalRequired \<Rightarrow>
                    (Inl (RpcError APPROVAL_REQUIRED ''approval required; plan first''), reg1)
                | Allow \<Rightarrow> (Inr claimed, reg1))
          else (Inr claimed, reg1))"

definition rollback_claim :: "string \<Rightarrow> approval_record \<Rightarrow> plans \<Rightarrow> (rpc_error, unit) result \<times> plans" where
  "rollback_claim ref r es =
     (case map_of es ref of
        Some p \<Rightarrow> if authorization p = Claimed r then (Inr (), set_auth ref (Approved r) es)
                  else (Inr (), es)
      | None \<Rightarrow> (Inr (), es))"

definition consume_claim ::
  "string \<Rightarrow> approval_record \<Rightarrow> int \<Rightarrow> plans \<Rightarrow> (rpc_error, unit) result \<times> plans" where
  "consume_claim ref r entry_id es =
     (case map_of es ref of
        None \<Rightarrow> (Inl (internal ''claimed plan disappeared before execution''), es)
      | Some p \<Rightarrow>
          if authorization p \<noteq> Claimed r
          then (Inl (internal ''claimed approval changed before execution''), es)
          else (Inr (), set_auth ref (Consumed (r\<lparr>consumed_by := Some entry_id\<rparr>)) es))"

text \<open>
  The rest of \<open>handle_exec_run\<close> before evaluation, given the outcome of the journal append: the
  claim is rolled back or consumed. \<open>Inr\<close> means that evaluation starts.
\<close>

definition settle_run ::
  "nat \<Rightarrow> nat set \<Rightarrow> string option \<Rightarrow> approval_record option \<Rightarrow> (rpc_error, int) result \<Rightarrow> plan_registry
   \<Rightarrow> (rpc_error, int) result \<times> plan_registry" where
  "settle_run now live plan_ref_opt claimed appended reg =
     (case (plan_ref_opt, claimed) of
        (Some ref, Some r) \<Rightarrow>
          (case appended of
             Inl e \<Rightarrow> (Inl e, snd (transaction now live (rollback_claim ref r) reg))
           | Inr entry_id \<Rightarrow>
               (case transaction now live (consume_claim ref r entry_id) reg of
                  (Inl e, reg1) \<Rightarrow> (Inl e, reg1)
                | (Inr _, reg1) \<Rightarrow> (Inr entry_id, reg1)))
      | _ \<Rightarrow> (appended, reg))"

fun apply_authorization :: "verdict \<Rightarrow> plan_authorization \<Rightarrow> (rpc_error, unit) result" where
  "apply_authorization v PolicyAllowed =
     (if v = Allow then Inr () else Inl (denied ''plan is denied by policy''))"
| "apply_authorization v (Approved r) = Inr ()"
| "apply_authorization v Pending = Inl (RpcError APPROVAL_REQUIRED ''plan approval pending'')"
| "apply_authorization v (Claimed r) = Inl (denied ''approved plan is already being applied'')"
| "apply_authorization v (Granting r b s l) =
     Inl (denied ''approval grant is still being durably recorded'')"
| "apply_authorization v (Consumed r) = Inl (denied ''approval was already consumed'')"
| "apply_authorization v Denied = Inl (denied ''plan is denied by policy'')"

text \<open>\<open>plan.apply\<close> up to its nested \<open>exec\<close> request in mode \<open>approved\<close>.\<close>

definition apply_plan ::
  "kernel_cfg \<Rightarrow> nat \<Rightarrow> string \<Rightarrow> string \<Rightarrow> string \<Rightarrow> plans \<Rightarrow> (rpc_error, exec_params) result \<times> plans" where
  "apply_plan k now ref session who es =
     (let es1 = purge_expired now ref es in
      case map_of es1 ref of
        None \<Rightarrow> (Inl (RpcError UNKNOWN_PLAN ''unknown plan_ref''), es1)
      | Some p \<Rightarrow>
          if sp_session p \<noteq> session \<or> sp_principal p \<noteq> who
          then (Inl (denied ''plan belongs to another principal/session''), es1)
          else (bindR (apply_authorization (plan_verdict k who (sp_plan p)) (authorization p))
                  (\<lambda>_. Inr \<lparr>ep_src = sp_src p, ep_mode = ''approved'', ep_plan_ref = Some ref\<rparr>), es1))"

definition handle_plan_apply ::
  "kernel_cfg \<Rightarrow> nat \<Rightarrow> nat set \<Rightarrow> string \<Rightarrow> string \<Rightarrow> string \<Rightarrow> plan_registry
   \<Rightarrow> (rpc_error, exec_params) result \<times> plan_registry" where
  "handle_plan_apply k now live ref session who reg =
     transaction now live (apply_plan k now ref session who) reg"

section \<open>Inspection\<close>

definition reversibility_from_effects :: "effect list \<Rightarrow> string" where
  "reversibility_from_effects es =
     (if list_ex (\<lambda>e. case e of Opaque \<Rightarrow> True | NetConnect _ _ \<Rightarrow> True | NetListen _ \<Rightarrow> True
                               | _ \<Rightarrow> False) es
      then ''irreversible'' else ''reversible'')"

record plan_view =
  pv_plan_ref :: string
  pv_effects :: "effect list"
  pv_reversibility :: string
  pv_verdict :: verdict
  pv_approval_pending :: bool
  pv_approved :: bool
  pv_approval :: "approval_record option"
  pv_src :: string

definition view_plan :: "kernel_cfg \<Rightarrow> stored_plan \<Rightarrow> plan_view" where
  "view_plan k p =
     \<lparr>pv_plan_ref = plan_ref (sp_plan p), pv_effects = effects (sp_plan p),
      pv_reversibility = reversibility_from_effects (effects (sp_plan p)),
      pv_verdict = plan_verdict k (sp_principal p) (sp_plan p),
      pv_approval_pending = (authorization p = Pending),
      pv_approved = is_approved (authorization p), pv_approval = approval (authorization p),
      pv_src = sp_src p\<rparr>"

definition get_plan ::
  "kernel_cfg \<Rightarrow> nat \<Rightarrow> string \<Rightarrow> string \<Rightarrow> string \<Rightarrow> bool \<Rightarrow> plans \<Rightarrow> (rpc_error, plan_view) result \<times> plans" where
  "get_plan k now ref session who can_approve es =
     (let es1 = purge_expired now ref es in
      case map_of es1 ref of
        None \<Rightarrow> (Inl unknown_plan, es1)
      | Some p \<Rightarrow>
          if (sp_session p \<noteq> session \<or> sp_principal p \<noteq> who) \<and> \<not> can_approve
          then (Inl (denied ''plan belongs to another principal/session''), es1)
          else (Inr (view_plan k p), es1))"

definition handle_plan_get ::
  "kernel_cfg \<Rightarrow> nat \<Rightarrow> nat set \<Rightarrow> string \<Rightarrow> string \<Rightarrow> string \<Rightarrow> bool \<Rightarrow> plan_registry
   \<Rightarrow> (rpc_error, plan_view) result \<times> plan_registry" where
  "handle_plan_get k now live ref session who can_approve reg =
     transaction now live (get_plan k now ref session who can_approve) reg"

definition list_plans ::
  "kernel_cfg \<Rightarrow> nat \<Rightarrow> string \<Rightarrow> string \<Rightarrow> plans \<Rightarrow> (rpc_error, plan_view list) result \<times> plans" where
  "list_plans k now session who es =
     (let es1 = filter (\<lambda>(_, p). \<not> plan_expired now p) es
      in (Inr (map (view_plan k) (owner_plans session who es1)), es1))"

definition handle_plan_list ::
  "kernel_cfg \<Rightarrow> nat \<Rightarrow> nat set \<Rightarrow> string \<Rightarrow> string \<Rightarrow> plan_registry
   \<Rightarrow> (rpc_error, plan_view list) result \<times> plan_registry" where
  "handle_plan_list k now live session who reg =
     transaction now live (list_plans k now session who) reg"

section \<open>Granting\<close>

text \<open>The \<open>kind\<close> tag an effect serializes with.\<close>

fun effect_kind :: "effect \<Rightarrow> string" where
  "effect_kind (FsRead _) = ''fs_read''"
| "effect_kind (FsWrite _) = ''fs_write''"
| "effect_kind (FsDelete _) = ''fs_delete''"
| "effect_kind (ProcSpawn _ _) = ''proc_spawn''"
| "effect_kind (NetConnect _ _) = ''net_connect''"
| "effect_kind (NetListen _) = ''net_listen''"
| "effect_kind (EnvRead _) = ''env_read''"
| "effect_kind (EnvWrite _) = ''env_write''"
| "effect_kind (SecretUse _) = ''secret_use''"
| "effect_kind SessionWrite = ''session_write''"
| "effect_kind JournalRead = ''journal_read''"
| "effect_kind Time = ''time''"
| "effect_kind Opaque = ''opaque''"

definition norm_effect :: "string \<Rightarrow> string" where
  "norm_effect kind = map (\<lambda>c. if c = CHR ''.'' then CHR ''_'' else c) kind"

text \<open>An element of \<open>cap.request\<close>'s \<open>effects\<close>: a string, an object with a \<open>kind\<close>, something else.\<close>

datatype effect_arg = ArgString string | ArgKind string | ArgOther

fun arg_kind :: "effect_arg \<Rightarrow> string option" where
  "arg_kind (ArgString s) = Some s"
| "arg_kind (ArgKind s) = Some s"
| "arg_kind ArgOther = None"

definition requested_kinds :: "effect_arg list \<Rightarrow> string list" where
  "requested_kinds args = map norm_effect (List.map_filter arg_kind args)"

fun grantable :: "plan_authorization \<Rightarrow> (rpc_error, bool) result" where
  "grantable Pending = Inr False"
| "grantable PolicyAllowed = Inr True"
| "grantable (Granting _ _ _ _) = Inl (denied ''approval grant is already in progress'')"
| "grantable (Approved _) = Inl (denied ''plan already has an approval'')"
| "grantable (Claimed _) = Inl (denied ''plan already has an approval'')"
| "grantable (Consumed _) = Inl (denied ''approval was already consumed; create a new plan'')"
| "grantable Denied = Inl (denied ''policy denies requested effects'')"

text \<open>A prepared grant, or the reply that the requested scope does not cover the plan.\<close>

datatype preparation = Uncovered "string list" | Prepared approval_record

definition reserve_grant ::
  "kernel_cfg \<Rightarrow> nat \<Rightarrow> int \<Rightarrow> nat \<Rightarrow> string \<Rightarrow> bool \<Rightarrow> string \<Rightarrow> effect_arg list \<Rightarrow> plans
   \<Rightarrow> (rpc_error, preparation) result \<times> plans" where
  "reserve_grant k now wall_ns grant_lease who can_approve ref args es =
     (let es1 = purge_expired now ref es; requested = requested_kinds args in
      case map_of es1 ref of
        None \<Rightarrow> (Inl (RpcError UNKNOWN_PLAN ''unknown plan_ref''), es1)
      | Some p \<Rightarrow>
          if who = sp_principal p \<and> \<not> allow_self_ack k
          then (Inl (denied ''self-approval is not permitted''), es1)
          else if who \<noteq> sp_principal p \<and> \<not> can_approve
          then (Inl (denied ''approver is not authorized''), es1)
          else if plan_verdict k (sp_principal p) (sp_plan p) = Deny
          then (Inl (denied ''policy denies requested effects''), es1)
          else let kinds = map effect_kind (effects (sp_plan p));
                   missing = filter (\<lambda>kd. norm_effect kd \<notin> set requested) kinds
               in if requested \<noteq> [] \<and> missing \<noteq> [] then (Inr (Uncovered missing), es1)
                  else case grantable (authorization p) of
                         Inl e \<Rightarrow> (Inl e, es1)
                       | Inr restore \<Rightarrow>
                           let r = \<lparr>requester = sp_principal p, approver = who,
                                    ar_plan_ref = plan_ref (sp_plan p),
                                    ar_plan_hash = sp_plan_hash p,
                                    ar_source_hash = sp_source_hash p, ar_session = sp_session p,
                                    scope = kinds, approved_at_ns = wall_ns, grant_audit_id = 0,
                                    consumed_by = None\<rparr>
                           in (Inr (Prepared r),
                               set_auth ref (Granting r restore now grant_lease) es1))"

definition commit_grant ::
  "string \<Rightarrow> approval_record \<Rightarrow> int \<Rightarrow> plans \<Rightarrow> (rpc_error, unit) result \<times> plans" where
  "commit_grant ref r audit_id es =
     (case map_of es ref of
        None \<Rightarrow> (Inl (internal ''approval reservation disappeared after durable audit''), es)
      | Some p \<Rightarrow>
          (case authorization p of
             Granting r' _ _ _ \<Rightarrow>
               if r' = r then (Inr (), set_auth ref (Approved (r\<lparr>grant_audit_id := audit_id\<rparr>)) es)
               else (Inl (internal ''approval reservation changed after durable audit''), es)
           | _ \<Rightarrow> (Inl (internal ''approval reservation changed after durable audit''), es)))"

definition rollback_grant ::
  "string \<Rightarrow> approval_record \<Rightarrow> plans \<Rightarrow> (rpc_error, unit) result \<times> plans" where
  "rollback_grant ref r es =
     (case map_of es ref of
        None \<Rightarrow> (Inr (), es)
      | Some p \<Rightarrow>
          (case authorization p of
             Granting r' restore _ _ \<Rightarrow>
               if r' = r then (Inr (), set_auth ref (ungrant restore) es) else (Inr (), es)
           | _ \<Rightarrow> (Inr (), es)))"

definition cap_request_reserve ::
  "kernel_cfg \<Rightarrow> nat \<Rightarrow> nat set \<Rightarrow> int \<Rightarrow> nat \<Rightarrow> string \<Rightarrow> bool \<Rightarrow> string option \<Rightarrow> effect_arg list
   \<Rightarrow> plan_registry \<Rightarrow> (rpc_error, preparation) result \<times> plan_registry" where
  "cap_request_reserve k now live wall_ns grant_lease who can_approve ref_opt args reg =
     (case ref_opt of
        None \<Rightarrow> (Inl (RpcError INVALID_PARAMS ''plan_ref is required''), reg)
      | Some ref \<Rightarrow>
          transaction now live (reserve_grant k now wall_ns grant_lease who can_approve ref args) reg)"

text \<open>
  The second half of \<open>cap.request\<close>, given the outcome of the durable audit: commit, and on any
  failure the drop of the reservation rolls it back.
\<close>

definition cap_request_finish ::
  "nat \<Rightarrow> nat set \<Rightarrow> string \<Rightarrow> approval_record \<Rightarrow> (rpc_error, int) result \<Rightarrow> plan_registry
   \<Rightarrow> (rpc_error, approval_record) result \<times> plan_registry" where
  "cap_request_finish now live ref r audited reg =
     (case audited of
        Inl e \<Rightarrow> (Inl e, snd (transaction now live (rollback_grant ref r) reg))
      | Inr audit_id \<Rightarrow>
          (case transaction now live (commit_grant ref r audit_id) reg of
             (Inl e, reg1) \<Rightarrow> (Inl e, snd (transaction now live (rollback_grant ref r) reg1))
           | (Inr _, reg1) \<Rightarrow> (Inr (r\<lparr>grant_audit_id := audit_id\<rparr>), reg1)))"

declare map_of_eq_Some_iff [simp del]

section \<open>References\<close>

lemma length_hex_pad [simp]: "length (hex_pad w n) = w"
  by (induction w arbitrary: n) simp_all

lemma hex_char_inj: "a < 16 \<Longrightarrow> b < 16 \<Longrightarrow> hex_char a = hex_char b \<Longrightarrow> a = b"
  unfolding hex_char_def by (subst (asm) nth_eq_iff_index_eq) simp_all

lemma hex_pad_inj: "m < 16 ^ w \<Longrightarrow> n < 16 ^ w \<Longrightarrow> hex_pad w m = hex_pad w n \<Longrightarrow> m = n"
proof (induction w arbitrary: m n)
  case 0
  then show ?case by simp
next
  case (Suc w)
  have "m div 16 = n div 16" using Suc by (intro Suc.IH) (simp_all add: less_mult_imp_div_less)
  moreover have "m mod 16 = n mod 16" using Suc.prems(3) by (auto intro: hex_char_inj)
  ultimately show ?case by (metis div_mult_mod_eq)
qed

definition ref_name :: "string \<Rightarrow> nat \<Rightarrow> string" where
  "ref_name hash i = ''plan:'' @ hash @ '':'' @ hex_pad 16 (i mod 2 ^ 64)"

lemma allocate_ref_eq:
  "allocate_ref hash reg = (ref_name hash (next_id reg), reg\<lparr>next_id := next_id reg + 1\<rparr>)"
  by (simp add: allocate_ref_def ref_name_def)

lemma ref_name_inj:
  assumes "ref_name h i = ref_name h' j" and "i < 2 ^ 64" "j < 2 ^ 64"
  shows "i = j"
proof -
  have "rev (take 16 (rev (ref_name h i))) = hex_pad 16 i" if "i < 2 ^ 64" for h i
    using that by (simp add: ref_name_def)
  then have "hex_pad 16 i = hex_pad 16 j" using assms by metis
  then show ?thesis using assms by (intro hex_pad_inj[of i 16 j]) simp_all
qed

section \<open>The contract of a registry transaction\<close>

text \<open>A record made by a reservation for the stored plan \<open>p\<close> under the reference \<open>ref\<close>.\<close>

definition grant_ok :: "kernel_cfg \<Rightarrow> string \<Rightarrow> stored_plan \<Rightarrow> approval_record \<Rightarrow> bool" where
  "grant_ok k ref p r \<longleftrightarrow>
     requester r = sp_principal p \<and> ar_plan_ref r = ref \<and> ar_plan_hash r = sp_plan_hash p
     \<and> ar_source_hash r = sp_source_hash p \<and> ar_session r = sp_session p
     \<and> scope r = map effect_kind (effects (sp_plan p)) \<and> consumed_by r = None
     \<and> (approver r \<noteq> requester r \<or> allow_self_ack k)
     \<and> plan_verdict k (requester r) (sp_plan p) \<noteq> Deny"

text \<open>Everything of a stored plan but its authorization.\<close>

definition immut :: "string \<times> stored_plan \<Rightarrow> string \<times> stored_plan" where
  "immut kp = (fst kp, (snd kp)\<lparr>authorization := Pending\<rparr>)"

lemma fst_immut [simp]: "fst (immut kp) = fst kp"
  by (simp add: immut_def)

lemma map_fst_immut: "map fst (map immut es) = map fst es"
  by simp

lemma set_auth_immut [simp]: "map immut (set_auth ref a es) = map immut es"
  by (auto simp: set_auth_def immut_def)

lemma map_of_set_auth [simp]:
  "map_of (set_auth ref a es) k =
     (if k = ref then map_option (\<lambda>p. p\<lparr>authorization := a\<rparr>) (map_of es k) else map_of es k)"
  by (induction es) (auto simp: set_auth_def)

lemma purge_immut: "subseq (map immut (purge_expired now ref es)) (map immut es)"
  by (auto simp: purge_expired_def AList.delete_eq intro!: subseq_map split: option.splits)

lemma map_of_purge: "map_of (purge_expired now ref es) k = Some p \<Longrightarrow> map_of es k = Some p"
  by (auto simp: purge_expired_def delete_conv' split: option.splits if_splits)

lemma map_of_filter_distinct:
  "distinct (map fst es) \<Longrightarrow> map_of (filter P es) k = Some p \<Longrightarrow> map_of es k = Some p"
  by (metis filter_is_subset in_mono map_of_SomeD map_of_is_SomeI)

text \<open>
  What a client may assume of an operation on the stored plans: it removes plans or moves their
  authorization along its own edges, and touches nothing else.
\<close>

locale plan_op =
  fixes op :: "plans \<Rightarrow> (rpc_error, 'a) result \<times> plans"
    and edge :: "string \<Rightarrow> stored_plan \<Rightarrow> plan_authorization \<Rightarrow> plan_authorization \<Rightarrow> bool"
  assumes op_immut: "subseq (map immut (snd (op es))) (map immut es)"
    and op_edge: "distinct (map fst es) \<Longrightarrow> map_of (snd (op es)) k = Some p' \<Longrightarrow>
      \<exists>p. map_of es k = Some p \<and> p' = p\<lparr>authorization := authorization p'\<rparr>
        \<and> edge k p (authorization p) (authorization p')"
    and edge_refl: "edge k p a a"
    and edge_immut: "edge k (p\<lparr>authorization := x\<rparr>) a b = edge k p a b"
begin

lemma op_keys: "subseq (map fst (snd (op es))) (map fst es)"
  using subseq_map[OF op_immut[of es], of fst] by (simp only: map_fst_immut)

lemma op_distinct: "distinct (map fst es) \<Longrightarrow> distinct (map fst (snd (op es)))"
  by (rule subseq_distinct[OF op_keys])

end

lemmas op_simps = Let_def purge_immut

interpretation claim: plan_op "claim_plan k now ref src session actor hash"
  "\<lambda>key p a b. a = b \<or> key = ref \<and> (\<exists>r. a = Approved r \<and> b = Claimed r)"
  for k now ref src session actor hash
proof
  fix es
  show "subseq (map immut (snd (claim_plan k now ref src session actor hash es))) (map immut es)"
    by (auto simp: claim_plan_def op_simps split: option.splits sum.splits)
next
  fix es key p'
  assume "map_of (snd (claim_plan k now ref src session actor hash es)) key = Some p'"
  then show "\<exists>p. map_of es key = Some p \<and> p' = p\<lparr>authorization := authorization p'\<rparr>
      \<and> (authorization p = authorization p'
         \<or> key = ref \<and> (\<exists>r. authorization p = Approved r \<and> authorization p' = Claimed r))"
    by (auto simp: claim_plan_def Let_def dest!: map_of_purge
        elim!: claim_authorization.elims split: option.splits sum.splits if_splits)
qed simp_all

interpretation unclaim: plan_op "rollback_claim ref r"
  "\<lambda>key p a b. a = b \<or> key = ref \<and> a = Claimed r \<and> b = Approved r" for ref r
  by unfold_locales (auto simp: rollback_claim_def split: option.splits if_splits)

interpretation consume: plan_op "consume_claim ref r entry_id"
  "\<lambda>key p a b. a = b \<or> key = ref \<and> a = Claimed r \<and> b = Consumed (r\<lparr>consumed_by := Some entry_id\<rparr>)"
  for ref r entry_id
  by unfold_locales (auto simp: consume_claim_def split: option.splits if_splits)

interpretation applying: plan_op "apply_plan k now ref session who" "\<lambda>_ _. (=)" for k now ref session who
  by unfold_locales
    (auto simp: apply_plan_def op_simps dest!: map_of_purge split: option.splits if_splits)

interpretation get: plan_op "get_plan k now ref session who can_approve" "\<lambda>_ _. (=)"
  for k now ref session who can_approve
  by unfold_locales
    (auto simp: get_plan_def op_simps dest!: map_of_purge split: option.splits if_splits)

interpretation listing: plan_op "list_plans k now session who" "\<lambda>_ _. (=)" for k now session who
  by unfold_locales
    (auto simp: list_plans_def Let_def subseq_map
      dest!: map_of_filter_distinct)

interpretation commit: plan_op "commit_grant ref r audit_id"
  "\<lambda>key p a b. a = b \<or> key = ref \<and> (\<exists>restore s l. a = Granting r restore s l)
     \<and> b = Approved (r\<lparr>grant_audit_id := audit_id\<rparr>)" for ref r audit_id
  by unfold_locales
    (auto simp: commit_grant_def split: option.splits plan_authorization.splits if_splits)

interpretation ungranting: plan_op "rollback_grant ref r"
  "\<lambda>key p a b. a = b \<or> key = ref \<and> (\<exists>restore s l. a = Granting r restore s l \<and> b = ungrant restore)"
  for ref r
  by unfold_locales
    (auto simp: rollback_grant_def split: option.splits plan_authorization.splits if_splits)

lemma grantable_Inr: "grantable a = Inr restore \<longleftrightarrow> a = ungrant restore"
  by (cases a) (auto simp: ungrant_def)

interpretation reserve: plan_op "reserve_grant k now wall_ns l who can_approve ref args"
  "\<lambda>key p a b. a = b \<or> key = ref \<and> (\<exists>r restore. a = ungrant restore \<and> b = Granting r restore now l
     \<and> (plan_ref (sp_plan p) = key \<longrightarrow> grant_ok k key p r))"
  for k now wall_ns l who can_approve ref args
  by unfold_locales
    (auto simp: reserve_grant_def op_simps grantable_Inr grant_ok_def dest!: map_of_purge
      split: option.splits sum.splits if_splits)

text \<open>A transaction first recovers stale grants; a lock in a bad state leaves the plans alone.\<close>

definition recover_edge :: "nat set \<Rightarrow> plan_authorization \<Rightarrow> plan_authorization \<Rightarrow> bool" where
  "recover_edge live a b \<longleftrightarrow>
     a = b \<or> (\<exists>r restore s l. a = Granting r restore s l \<and> l \<notin> live \<and> b = ungrant restore)"

definition recover_all :: "nat \<Rightarrow> nat set \<Rightarrow> plans \<Rightarrow> plans" where
  "recover_all now live = map (\<lambda>(k, p). (k, recover_stale_grant now live p))"

lemma recover_stale_edge:
  "recover_edge live (authorization p) (authorization (recover_stale_grant now live p))"
  "recover_stale_grant now live p = p\<lparr>authorization := authorization (recover_stale_grant now live p)\<rparr>"
  by (auto simp: recover_edge_def recover_stale_grant_def split: plan_authorization.splits)

lemma recover_all_immut [simp]: "map immut (recover_all now live es) = map immut es"
  by (auto simp: recover_all_def immut_def recover_stale_grant_def split: plan_authorization.splits)

lemma recover_all_keys [simp]: "map fst (recover_all now live es) = map fst es"
  by (simp add: recover_all_def comp_def split_beta)

lemma map_of_recover_all:
  "map_of (recover_all now live es) k = map_option (recover_stale_grant now live) (map_of es k)"
  by (induction es) (auto simp: recover_all_def)

lemma transaction_cases:
  obtains "quarantined reg \<or> poisoned reg"
    "transaction now live op reg = (Inl poisoned_error, reg\<lparr>quarantined := True\<rparr>)"
  | "\<not> (quarantined reg \<or> poisoned reg)"
    "transaction now live op reg =
       (fst (op (recover_all now live (entries reg))),
        reg\<lparr>entries := snd (op (recover_all now live (entries reg)))\<rparr>)"
  by (cases "quarantined reg \<or> poisoned reg")
    (auto simp: transaction_def recover_all_def split: prod.splits)

lemma transaction_next_id [simp]: "next_id (snd (transaction now live op reg)) = next_id reg"
  by (rule transaction_cases[of reg now live op]) auto

text \<open>What one registry operation does to the plans, as a client sees it.\<close>

definition evolves ::
  "nat set \<Rightarrow> (string \<Rightarrow> stored_plan \<Rightarrow> plan_authorization \<Rightarrow> plan_authorization \<Rightarrow> bool) \<Rightarrow> plan_registry
   \<Rightarrow> plan_registry \<Rightarrow> bool" where
  "evolves live edge reg reg' \<longleftrightarrow>
     next_id reg' = next_id reg
     \<and> subseq (map immut (entries reg')) (map immut (entries reg))
     \<and> (\<forall>k p'. map_of (entries reg') k = Some p' \<longrightarrow>
          (\<exists>p a. map_of (entries reg) k = Some p \<and> p' = p\<lparr>authorization := authorization p'\<rparr>
             \<and> recover_edge live (authorization p) a \<and> edge k p a (authorization p')))"

context plan_op
begin

lemma transaction_evolves:
  assumes "distinct (map fst (entries reg))"
  shows "evolves live edge reg (snd (transaction now live op reg))"
proof (rule transaction_cases[of reg now live op])
  assume "transaction now live op reg = (Inl poisoned_error, reg\<lparr>quarantined := True\<rparr>)"
  then show ?thesis
    using edge_refl by (auto simp: evolves_def recover_edge_def)
next
  let ?es = "recover_all now live (entries reg)"
  assume eq: "transaction now live op reg = (fst (op ?es), reg\<lparr>entries := snd (op ?es)\<rparr>)"
  have step: "\<exists>p a. map_of (entries reg) k = Some p \<and> p' = p\<lparr>authorization := authorization p'\<rparr>
      \<and> recover_edge live (authorization p) a \<and> edge k p a (authorization p')"
    if prem: "map_of (snd (op ?es)) k = Some p'" for k p'
  proof -
    obtain q where q: "map_of ?es k = Some q" "p' = q\<lparr>authorization := authorization p'\<rparr>"
      "edge k q (authorization q) (authorization p')"
      using op_edge[OF _ prem] assms by auto
    then obtain p where p: "map_of (entries reg) k = Some p" "q = recover_stale_grant now live p"
      by (auto simp: map_of_recover_all)
    have "p' = p\<lparr>authorization := authorization p'\<rparr>"
      using q(2) recover_stale_edge(2)[of now live p] p(2)
      by (metis stored_plan.fold_congs(7) stored_plan.update_convs(7) stored_plan.surjective)
    moreover have "edge k p (authorization q) (authorization p')"
      using q(3) recover_stale_edge(2)[of now live p] p(2) edge_immut by metis
    ultimately show ?thesis using p recover_stale_edge(1) by metis
  qed
  have "subseq (map immut (snd (op ?es))) (map immut (entries reg))"
    using op_immut[of ?es] by simp
  then show ?thesis using eq step by (simp add: evolves_def)
qed

end

end
