(* ===== verification/Kernel_Approval.thy ===== *)
theory Kernel_Approval
  imports Kernel_Plans
begin

text \<open>
  The approval lifecycle under interleaving: the kernel's plan requests as a step relation over the
  registry and the requests in flight, the invariant of its reachable states, and what follows from
  it: an approval is used at most once, is audited before it can be used, and is never its
  requester's own.
\<close>

section \<open>Interleaved requests\<close>

text \<open>
  The kernel with its requests in flight: grant reservations between their two transactions, runs
  between their claim and its settlement, the approval audits in the journal, and the executions
  started under an approval. \<open>finish\<close> is the end of a grant request in one step; \<open>commit_failed\<close>
  leaves the request in flight after its failed commit, so that other requests can come between
  the commit and the rollback, which is then a \<open>finish\<close> without an audit.
\<close>

record sys =
  s_reg :: plan_registry
  s_now :: nat
  s_lease :: nat
  s_grants :: "(nat \<times> string \<times> approval_record) list"
  s_claims :: "(string \<times> approval_record) list"
  s_audits :: "(int \<times> approval_record) list"
  s_runs :: "(string \<times> approval_record \<times> int) list"

definition sys_init :: sys where
  "sys_init = \<lparr>s_reg = registry_new, s_now = 0, s_lease = 0, s_grants = [], s_claims = [],
               s_audits = [], s_runs = []\<rparr>"

definition live_leases :: "sys \<Rightarrow> nat set" where
  "live_leases s = fst ` set (s_grants s)"

inductive sys_step :: "kernel_cfg \<Rightarrow> sys \<Rightarrow> sys \<Rightarrow> bool" for k :: kernel_cfg where
  tick: "s_now s \<le> t \<Longrightarrow> sys_step k s (s\<lparr>s_now := t\<rparr>)"
| plan: "handle_exec_plan k (s_now s) (live_leases s) src session actor derived (s_reg s)
           = (res, reg', events) \<Longrightarrow>
         sys_step k s (s\<lparr>s_reg := reg'\<rparr>)"
| reserve: "cap_request_reserve k (s_now s) (live_leases s) wall (s_lease s) who can (Some ref) args
              (s_reg s) = (Inr (Prepared r), reg') \<Longrightarrow>
            sys_step k s (s\<lparr>s_reg := reg', s_lease := s_lease s + 1,
                            s_grants := (s_lease s, ref, r) # s_grants s\<rparr>)"
| refuse: "cap_request_reserve k (s_now s) (live_leases s) wall (s_lease s) who can ref_opt args
             (s_reg s) = (res, reg') \<Longrightarrow> \<forall>r. res \<noteq> Inr (Prepared r) \<Longrightarrow>
           sys_step k s (s\<lparr>s_reg := reg'\<rparr>)"
| finish: "(l, ref, r) \<in> set (s_grants s) \<Longrightarrow>
           cap_request_finish (s_now s) (live_leases s) ref r audited (s_reg s) = (res, reg') \<Longrightarrow>
           sys_step k s (s\<lparr>s_reg := reg', s_grants := remove1 (l, ref, r) (s_grants s),
                           s_audits := (case audited of Inr i \<Rightarrow> [(i, r)] | Inl _ \<Rightarrow> []) @ s_audits s\<rparr>)"
| commit_failed: "(l, ref, r) \<in> set (s_grants s) \<Longrightarrow>
           transaction (s_now s) (live_leases s) (commit_grant ref r i) (s_reg s) = (Inl e, reg') \<Longrightarrow>
           sys_step k s (s\<lparr>s_reg := reg', s_audits := (i, r) # s_audits s\<rparr>)"
| lost: "g \<in> set (s_grants s) \<Longrightarrow> sys_step k s (s\<lparr>s_grants := remove1 g (s_grants s)\<rparr>)"
| claim: "authorize_run k (s_now s) (live_leases s) params session actor ast_json run_plan (s_reg s)
            = (Inr (Some r), reg') \<Longrightarrow> ep_plan_ref params = Some ref \<Longrightarrow>
          sys_step k s (s\<lparr>s_reg := reg', s_claims := (ref, r) # s_claims s\<rparr>)"
| no_claim: "authorize_run k (s_now s) (live_leases s) params session actor ast_json run_plan (s_reg s)
               = (res, reg') \<Longrightarrow> \<forall>r. res \<noteq> Inr (Some r) \<Longrightarrow>
             sys_step k s (s\<lparr>s_reg := reg'\<rparr>)"
| settle: "(ref, r) \<in> set (s_claims s) \<Longrightarrow>
           settle_run (s_now s) (live_leases s) (Some ref) (Some r) appended (s_reg s) = (res, reg') \<Longrightarrow>
           sys_step k s (s\<lparr>s_reg := reg', s_claims := remove1 (ref, r) (s_claims s),
                           s_runs := (case res of Inr i \<Rightarrow> [(ref, r, i)] | Inl _ \<Rightarrow> []) @ s_runs s\<rparr>)"
| apply_start: "handle_plan_apply k (s_now s) (live_leases s) ref session who (s_reg s) = (res, reg') \<Longrightarrow>
                sys_step k s (s\<lparr>s_reg := reg'\<rparr>)"
| get: "handle_plan_get k (s_now s) (live_leases s) ref session who can (s_reg s) = (res, reg') \<Longrightarrow>
        sys_step k s (s\<lparr>s_reg := reg'\<rparr>)"
| listing: "handle_plan_list k (s_now s) (live_leases s) session who (s_reg s) = (res, reg') \<Longrightarrow>
            sys_step k s (s\<lparr>s_reg := reg'\<rparr>)"
| evict: "sys_step k s (s\<lparr>s_reg := remove_owner owner (s_reg s)\<rparr>)"
| poison: "sys_step k s (s\<lparr>s_reg := (s_reg s)\<lparr>poisoned := True\<rparr>\<rparr>)"

inductive reachable :: "kernel_cfg \<Rightarrow> sys \<Rightarrow> bool" for k :: kernel_cfg where
  start: "reachable k sys_init"
| step: "reachable k s \<Longrightarrow> sys_step k s s' \<Longrightarrow> reachable k s'"

section \<open>The invariant\<close>

definition audited :: "kernel_cfg \<Rightarrow> (int \<times> approval_record) list \<Rightarrow> string \<Rightarrow> stored_plan
    \<Rightarrow> approval_record \<Rightarrow> bool" where
  "audited k aud ref p r \<longleftrightarrow>
     (\<exists>r0 i. grant_ok k ref p r0 \<and> r = r0\<lparr>grant_audit_id := i\<rparr> \<and> (i, r0) \<in> set aud)"

definition auth_ok :: "kernel_cfg \<Rightarrow> (int \<times> approval_record) list \<Rightarrow> string \<Rightarrow> stored_plan
    \<Rightarrow> plan_authorization \<Rightarrow> bool" where
  "auth_ok k aud ref p a \<longleftrightarrow>
     (case a of
        Granting r _ _ _ \<Rightarrow> grant_ok k ref p r
      | Approved r \<Rightarrow> audited k aud ref p r
      | Claimed r \<Rightarrow> audited k aud ref p r
      | _ \<Rightarrow> True)"

definition named :: "nat \<Rightarrow> string \<Rightarrow> bool" where
  "named n ref \<longleftrightarrow> (\<exists>h i. ref = ref_name h i \<and> i < n)"

definition within_quota :: "plans \<Rightarrow> bool" where
  "within_quota es \<longleftrightarrow>
     (\<forall>session actor. length (owner_plans session actor es) \<le> max_stored_plans_per_owner
        \<and> source_bytes (owner_plans session actor es) \<le> max_plan_source_bytes_per_owner)"

definition registry_ok :: "kernel_cfg \<Rightarrow> (int \<times> approval_record) list \<Rightarrow> plan_registry \<Rightarrow> bool" where
  "registry_ok k aud reg \<longleftrightarrow>
     distinct (map fst (entries reg)) \<and> within_quota (entries reg)
     \<and> (\<forall>ref p. map_of (entries reg) ref = Some p \<longrightarrow>
          named (next_id reg) ref \<and> plan_ref (sp_plan p) = ref
          \<and> auth_ok k aud ref p (authorization p))"

text \<open>The approval behind a claim or an execution.\<close>

definition backed :: "kernel_cfg \<Rightarrow> (int \<times> approval_record) list \<Rightarrow> string \<Rightarrow> approval_record \<Rightarrow> bool" where
  "backed k aud ref r \<longleftrightarrow> (\<exists>p. audited k aud ref p r)"

definition claims_ok :: "kernel_cfg \<Rightarrow> (int \<times> approval_record) list \<Rightarrow> plan_registry
    \<Rightarrow> (string \<times> approval_record) list \<Rightarrow> bool" where
  "claims_ok k aud reg claims \<longleftrightarrow>
     distinct (map fst claims)
     \<and> (\<forall>(ref, r) \<in> set claims.
          named (next_id reg) ref \<and> backed k aud ref r
          \<and> (\<forall>p. map_of (entries reg) ref = Some p \<longrightarrow> authorization p = Claimed r))"

definition runs_ok :: "kernel_cfg \<Rightarrow> (int \<times> approval_record) list \<Rightarrow> plan_registry
    \<Rightarrow> (string \<times> approval_record) list \<Rightarrow> (string \<times> approval_record \<times> int) list \<Rightarrow> bool" where
  "runs_ok k aud reg claims runs \<longleftrightarrow>
     distinct (map fst runs) \<and> fst ` set runs \<inter> fst ` set claims = {}
     \<and> (\<forall>(ref, r, i) \<in> set runs.
          named (next_id reg) ref \<and> backed k aud ref r
          \<and> (\<forall>p. map_of (entries reg) ref = Some p \<longrightarrow> (\<exists>r'. authorization p = Consumed r')))"

definition plan_inv :: "kernel_cfg \<Rightarrow> (int \<times> approval_record) list \<Rightarrow> plan_registry
    \<Rightarrow> (string \<times> approval_record) list \<Rightarrow> (string \<times> approval_record \<times> int) list \<Rightarrow> bool" where
  "plan_inv k aud reg claims runs \<longleftrightarrow>
     registry_ok k aud reg \<and> claims_ok k aud reg claims \<and> runs_ok k aud reg claims runs"

subsection \<open>Facts about the parts\<close>

lemma named_mono: "named n ref \<Longrightarrow> n \<le> m \<Longrightarrow> named m ref"
  unfolding named_def by (metis order_less_le_trans)

lemma named_fresh: "n < 2 ^ 64 \<Longrightarrow> \<not> named n (ref_name h n)"
  unfolding named_def by (metis less_trans order_less_irrefl ref_name_inj)

lemma audited_mono: "audited k aud ref p r \<Longrightarrow> set aud \<subseteq> set aud' \<Longrightarrow> audited k aud' ref p r"
  unfolding audited_def by blast

lemma auth_ok_mono: "auth_ok k aud ref p a \<Longrightarrow> set aud \<subseteq> set aud' \<Longrightarrow> auth_ok k aud' ref p a"
  by (auto simp: auth_ok_def intro: audited_mono split: plan_authorization.splits)

lemma backed_mono: "backed k aud ref r \<Longrightarrow> set aud \<subseteq> set aud' \<Longrightarrow> backed k aud' ref r"
  unfolding backed_def by (blast intro: audited_mono)

lemma auth_ok_update [simp]: "auth_ok k aud ref (p\<lparr>authorization := b\<rparr>) a = auth_ok k aud ref p a"
  by (cases a) (simp_all add: auth_ok_def audited_def grant_ok_def)

lemma recover_auth_ok: "recover_edge live a b \<Longrightarrow> auth_ok k aud ref p a \<Longrightarrow> auth_ok k aud ref p b"
  by (auto simp: recover_edge_def auth_ok_def ungrant_def)

lemma recover_settled [simp]:
  "recover_edge live (Claimed r) b = (b = Claimed r)"
  "recover_edge live (Consumed r) b = (b = Consumed r)"
  by (auto simp: recover_edge_def)

lemma owner_plans_immut:
  "length (owner_plans session actor es) =
     length (filter (\<lambda>kp. sp_session (snd kp) = session \<and> sp_principal (snd kp) = actor) (map immut es))"
  "source_bytes (owner_plans session actor es) =
     sum_list (map (length \<circ> sp_src \<circ> snd)
       (filter (\<lambda>kp. sp_session (snd kp) = session \<and> sp_principal (snd kp) = actor) (map immut es)))"
  by (induction es) (auto simp: owner_plans_def source_bytes_def immut_def)

lemma within_quota_subseq:
  assumes "subseq (map immut es') (map immut es)" and "within_quota es"
  shows "within_quota es'"
proof -
  let ?f = "\<lambda>session actor. filter (\<lambda>kp. sp_session (snd kp) = session \<and> sp_principal (snd kp) = actor)"
  have "subseq (?f session actor (map immut es')) (?f session actor (map immut es))" for session actor
    using assms(1) by (rule subseq_filter)
  then show ?thesis
    using assms(2) unfolding within_quota_def owner_plans_immut
    by (meson le_trans list_emb_length subseq_sum_list)
qed

lemma registry_ok_evolves:
  assumes "registry_ok k aud reg" and ev: "evolves live edge reg reg'" and "set aud \<subseteq> set aud'"
    and keep: "\<And>ref p a b. map_of (entries reg) ref = Some p \<Longrightarrow> plan_ref (sp_plan p) = ref \<Longrightarrow>
      edge ref p a b \<Longrightarrow> auth_ok k aud ref p a \<Longrightarrow> auth_ok k aud' ref p b"
  shows "registry_ok k aud' reg'"
proof -
  have sub: "subseq (map immut (entries reg')) (map immut (entries reg))"
    and n: "next_id reg' = next_id reg"
    using ev by (auto simp: evolves_def)
  have "distinct (map fst (entries reg'))"
    using subseq_distinct[OF subseq_map[OF sub, of fst, unfolded map_fst_immut]] assms(1)
    by (simp add: registry_ok_def)
  moreover have "within_quota (entries reg')"
    using within_quota_subseq[OF sub] assms(1) by (simp add: registry_ok_def)
  moreover have "named (next_id reg') ref \<and> plan_ref (sp_plan p') = ref
      \<and> auth_ok k aud' ref p' (authorization p')"
    if p': "map_of (entries reg') ref = Some p'" for ref p'
  proof -
    obtain p a where p: "map_of (entries reg) ref = Some p"
      "p' = p\<lparr>authorization := authorization p'\<rparr>" "recover_edge live (authorization p) a"
      "edge ref p a (authorization p')"
      using ev p' unfolding evolves_def by blast
    have ok: "named (next_id reg) ref" "plan_ref (sp_plan p) = ref"
      "auth_ok k aud ref p (authorization p)"
      using assms(1) p(1) by (auto simp: registry_ok_def)
    have "sp_plan p' = sp_plan p" by (subst p(2)) simp
    moreover have "auth_ok k aud' ref p (authorization p')"
      using keep[OF p(1) ok(2) p(4)] recover_auth_ok[OF p(3) ok(3)] by blast
    then have "auth_ok k aud' ref p' (authorization p')"
      by (subst p(2)) simp
    ultimately show ?thesis using ok n by simp
  qed
  ultimately show ?thesis by (simp add: registry_ok_def)
qed

lemma evolves_lookup:
  assumes "evolves live edge reg reg'" and "map_of (entries reg') ref = Some p'"
    and "\<forall>p. map_of (entries reg) ref = Some p \<longrightarrow> authorization p = a"
    and "\<forall>b. recover_edge live a b \<longrightarrow> b = a"
  shows "\<exists>p. edge ref p a (authorization p')"
  using assms unfolding evolves_def by blast

lemma plan_inv_evolves:
  assumes inv: "plan_inv k aud reg claims runs" and ev: "evolves live edge reg reg'"
    and aud: "set aud \<subseteq> set aud'"
    and keep: "\<And>ref p a b. map_of (entries reg) ref = Some p \<Longrightarrow> plan_ref (sp_plan p) = ref \<Longrightarrow>
      edge ref p a b \<Longrightarrow> auth_ok k aud ref p a \<Longrightarrow> auth_ok k aud' ref p b"
    and claimed: "\<And>ref p r b. (ref, r) \<in> set claims \<Longrightarrow> edge ref p (Claimed r) b \<Longrightarrow> b = Claimed r"
    and consumed: "\<And>ref p r b. edge ref p (Consumed r) b \<Longrightarrow> b = Consumed r"
  shows "plan_inv k aud' reg' claims runs"
proof -
  have n: "next_id reg' = next_id reg" using ev by (simp add: evolves_def)
  have "registry_ok k aud' reg'"
    using registry_ok_evolves[OF _ ev aud keep] inv by (simp add: plan_inv_def)
  moreover have "authorization p' = Claimed r"
    if c: "(ref, r) \<in> set claims" and p': "map_of (entries reg') ref = Some p'" for ref r p'
    using evolves_lookup[OF ev p', of "Claimed r"] claimed[OF c] inv c
    by (fastforce simp: plan_inv_def claims_ok_def)
  then have "claims_ok k aud' reg' claims"
    using inv n backed_mono[OF _ aud] by (fastforce simp: plan_inv_def claims_ok_def)
  moreover have "\<exists>r'. authorization p' = Consumed r'"
    if run: "(ref, r, i) \<in> set runs" and p': "map_of (entries reg') ref = Some p'" for ref r i p'
  proof -
    obtain p a where p: "map_of (entries reg) ref = Some p"
      "recover_edge live (authorization p) a" "edge ref p a (authorization p')"
      using ev p' unfolding evolves_def by blast
    then obtain r' where "authorization p = Consumed r'"
      using inv run by (fastforce simp: plan_inv_def runs_ok_def)
    then show ?thesis using p(2,3) consumed[of ref p r'] by auto
  qed
  then have "runs_ok k aud' reg' claims runs"
    using inv n backed_mono[OF _ aud] by (fastforce simp: plan_inv_def runs_ok_def)
  ultimately show ?thesis by (simp add: plan_inv_def)
qed

subsection \<open>Preservation\<close>

lemma plan_inv_distinct: "plan_inv k aud reg claims runs \<Longrightarrow> distinct (map fst (entries reg))"
  by (simp add: plan_inv_def registry_ok_def)

lemma plan_inv_quiet:
  assumes "plan_inv k aud reg claims runs" and "evolves live (\<lambda>_ _. (=)) reg reg'"
  shows "plan_inv k aud reg' claims runs"
  by (rule plan_inv_evolves[OF assms]) auto

lemma plan_inv_remove_owner:
  assumes "plan_inv k aud reg claims runs"
  shows "plan_inv k aud (remove_owner owner reg) claims runs"
proof (rule plan_inv_quiet[OF assms, of "{}"])
  let ?es = "filter (\<lambda>(_, p). \<not> (sp_principal p = ok_principal owner \<and> sp_session p = ok_name owner))
    (entries reg)"
  have "map_of ?es key = Some p \<Longrightarrow> map_of (entries reg) key = Some p" for key p
    by (rule map_of_filter_distinct[OF plan_inv_distinct[OF assms]])
  moreover have "subseq (map immut ?es) (map immut (entries reg))"
    by (intro subseq_map subseq_filter_left)
  ultimately show "evolves {} (\<lambda>_ _. (=)) reg (remove_owner owner reg)"
    by (simp add: evolves_def remove_owner_def recover_edge_def)
qed

lemma plan_inv_poison:
  "plan_inv k aud reg claims runs \<Longrightarrow> plan_inv k aud (reg\<lparr>poisoned := x\<rparr>) claims runs"
  by (simp add: plan_inv_def registry_ok_def claims_ok_def runs_ok_def)

lemma transaction_ok:
  assumes "transaction now live op reg = (Inr x, reg')"
  shows "op (recover_all now live (entries reg)) = (Inr x, entries reg')"
  using assms by (cases rule: transaction_cases[of reg now live op]) (auto simp: prod_eq_iff)

lemma map_of_recover_settled:
  assumes "map_of (recover_all now live es) ref = Some q"
    and "authorization q = Approved r \<or> authorization q = Claimed r"
  shows "map_of es ref = Some q"
proof -
  obtain p where p: "map_of es ref = Some p" "q = recover_stale_grant now live p"
    using assms(1) by (auto simp: map_of_recover_all)
  then have "q = p"
    using assms(2)
    by (auto simp: recover_stale_grant_def ungrant_def split: plan_authorization.splits if_splits)
  then show ?thesis using p by simp
qed

lemma plan_inv_reserve:
  assumes "plan_inv k aud reg claims runs"
    and "cap_request_reserve k now live wall l who can ref_opt args reg = (res, reg')"
  shows "plan_inv k aud reg' claims runs"
proof (cases ref_opt)
  case None
  then show ?thesis using assms by (simp add: cap_request_reserve_def)
next
  case (Some ref)
  then have reg': "reg' = snd (transaction now live (reserve_grant k now wall l who can ref args) reg)"
    using assms(2) by (simp add: cap_request_reserve_def)
  show ?thesis
    unfolding reg'
    by (rule plan_inv_evolves[OF assms(1) reserve.transaction_evolves[OF plan_inv_distinct[OF assms(1)]]])
      (auto simp: auth_ok_def ungrant_def split: if_splits)
qed

lemma plan_inv_rollback_grant:
  assumes "plan_inv k aud reg claims runs"
  shows "plan_inv k aud (snd (transaction now live (rollback_grant ref r) reg)) claims runs"
  by (rule plan_inv_evolves[OF assms ungranting.transaction_evolves[OF plan_inv_distinct[OF assms]]])
    (auto simp: auth_ok_def ungrant_def split: if_splits)

lemma plan_inv_commit:
  assumes "plan_inv k aud reg claims runs"
  shows "plan_inv k ((i, r) # aud) (snd (transaction now live (commit_grant ref r i) reg)) claims runs"
  by (rule plan_inv_evolves[OF assms commit.transaction_evolves[OF plan_inv_distinct[OF assms]]])
    (auto simp: auth_ok_def audited_def split: plan_authorization.splits)

lemma plan_inv_finish:
  assumes inv: "plan_inv k aud reg claims runs"
    and fin: "cap_request_finish now live ref r outcome reg = (res, reg')"
  shows "plan_inv k ((case outcome of Inr i \<Rightarrow> [(i, r)] | Inl _ \<Rightarrow> []) @ aud) reg' claims runs"
proof (cases outcome)
  case (Inl e)
  then show ?thesis using fin plan_inv_rollback_grant[OF inv] by (auto simp: cap_request_finish_def)
next
  case (Inr i)
  obtain c reg1 where tr: "transaction now live (commit_grant ref r i) reg = (c, reg1)"
    by fastforce
  then have "plan_inv k ((i, r) # aud) reg1 claims runs"
    using plan_inv_commit[OF inv, of i r now live ref] by simp
  then show ?thesis
    using fin Inr tr plan_inv_rollback_grant by (cases c) (auto simp: cap_request_finish_def)
qed

lemma claim_plan_some:
  assumes "claim_plan k now ref src session actor hash es = (Inr (Some r), es')"
  shows "\<exists>p. map_of es ref = Some p \<and> \<not> plan_expired now p \<and> authorization p = Approved r
    \<and> sp_plan_hash p = hash \<and> sp_source_hash p = k_source_hash k src \<and> sp_session p = session
    \<and> sp_principal p = actor \<and> map_of es' ref = Some (p\<lparr>authorization := Claimed r\<rparr>)"
proof -
  from assms obtain p where p: "map_of (purge_expired now ref es) ref = Some p"
    by (auto simp: claim_plan_def Let_def split: option.splits)
  then have "map_of es ref = Some p" "\<not> plan_expired now p"
    using map_of_purge[OF p] by (auto simp: purge_expired_def delete_conv' split: if_splits)
  then show ?thesis
    using assms p
    by (cases "authorization p") (auto simp: claim_plan_def Let_def split: if_splits)
qed

lemma claim_exec_some:
  assumes "authorize_run k now live params session actor ast_json run_plan reg = (Inr (Some r), reg')"
    and "ep_plan_ref params = Some ref"
  shows "transaction now live (claim_plan k now ref (ep_src params) session actor
        (bound_plan_hash k (ep_src params) ast_json run_plan session actor)) reg = (Inr (Some r), reg')"
  using assms
  by (auto simp: authorize_run_def claim_exec_approval_def split: if_splits prod.splits sum.splits
      verdict.splits)

lemma authorize_run_reg:
  "snd (authorize_run k now live params session actor ast_json run_plan reg) =
     (if ep_mode params = ''approved''
      then (case ep_plan_ref params of
              None \<Rightarrow> reg
            | Some ref \<Rightarrow>
                snd (transaction now live (claim_plan k now ref (ep_src params) session actor
                  (bound_plan_hash k (ep_src params) ast_json run_plan session actor)) reg))
      else reg)"
  by (auto simp: authorize_run_def claim_exec_approval_def split: prod.splits sum.splits
      verdict.splits option.splits)

lemma plan_inv_claim_reg:
  assumes "plan_inv k aud reg claims runs"
  shows "plan_inv k aud (snd (transaction now live (claim_plan k now ref src session actor hash) reg))
    claims runs"
  by (rule plan_inv_evolves[OF assms claim.transaction_evolves[OF plan_inv_distinct[OF assms]]])
    (auto simp: auth_ok_def split: plan_authorization.splits)

lemma plan_inv_no_claim:
  assumes "plan_inv k aud reg claims runs"
    and "authorize_run k now live params session actor ast_json run_plan reg = (res, reg')"
  shows "plan_inv k aud reg' claims runs"
  using authorize_run_reg[of k now live params session actor ast_json run_plan reg]
    plan_inv_claim_reg[OF assms(1)] assms by (auto split: if_splits option.splits)

lemma plan_inv_claim:
  assumes inv: "plan_inv k aud reg claims runs"
    and run: "authorize_run k now live params session actor ast_json run_plan reg = (Inr (Some r), reg')"
    and ref: "ep_plan_ref params = Some ref"
  shows "plan_inv k aud reg' ((ref, r) # claims) runs"
proof -
  have inv': "plan_inv k aud reg' claims runs" by (rule plan_inv_no_claim[OF inv run])
  from claim_plan_some[OF transaction_ok[OF claim_exec_some[OF run ref]]]
  obtain q where q: "map_of (recover_all now live (entries reg)) ref = Some q"
    "authorization q = Approved r" "map_of (entries reg') ref = Some (q\<lparr>authorization := Claimed r\<rparr>)"
    by blast
  have old: "map_of (entries reg) ref = Some q"
    using map_of_recover_settled q(1,2) by blast
  have "ref \<notin> fst ` set claims" "ref \<notin> fst ` set runs"
    using inv old q(2) by (fastforce simp: plan_inv_def claims_ok_def runs_ok_def)+
  moreover have "named (next_id reg') ref"
    "auth_ok k aud ref (q\<lparr>authorization := Claimed r\<rparr>) (authorization (q\<lparr>authorization := Claimed r\<rparr>))"
    using inv' q(3) unfolding plan_inv_def registry_ok_def by blast+
  then have "named (next_id reg') ref" "backed k aud ref r"
    by (auto simp: auth_ok_def backed_def)
  ultimately show ?thesis
    using inv' q(3) by (auto simp: plan_inv_def claims_ok_def runs_ok_def)
qed

lemma plan_inv_unclaim:
  assumes "plan_inv k aud reg claims runs" and "(ref, r) \<in> set claims"
  shows "plan_inv k aud reg (remove1 (ref, r) claims) runs"
    and "ref \<notin> fst ` set (remove1 (ref, r) claims)"
proof -
  have sub: "set (remove1 (ref, r) claims) \<subseteq> set claims" by (rule set_remove1_subset)
  have d: "distinct (map fst claims)" using assms by (simp add: plan_inv_def claims_ok_def)
  have d': "distinct (map fst (remove1 (ref, r) claims))"
    by (rule subseq_distinct[OF subseq_map[OF subseq_remove1] d])
  have "claims_ok k aud reg (remove1 (ref, r) claims)"
    using assms sub d' unfolding plan_inv_def claims_ok_def by blast
  moreover have "runs_ok k aud reg (remove1 (ref, r) claims) runs"
    using assms image_mono[OF sub, of fst] unfolding plan_inv_def runs_ok_def by blast
  ultimately show "plan_inv k aud reg (remove1 (ref, r) claims) runs"
    using assms by (simp add: plan_inv_def)
  show "ref \<notin> fst ` set (remove1 (ref, r) claims)"
    using d assms(2) by (induction claims) force+
qed

lemma plan_inv_settle_reg:
  assumes "plan_inv k aud reg claims runs" and "ref \<notin> fst ` set claims"
  shows "plan_inv k aud (snd (transaction now live (rollback_claim ref r) reg)) claims runs"
    and "plan_inv k aud (snd (transaction now live (consume_claim ref r i) reg)) claims runs"
proof -
  have "\<And>ref' r'. (ref', r') \<in> set claims \<Longrightarrow> ref' \<noteq> ref" using assms(2) by force
  then show "plan_inv k aud (snd (transaction now live (rollback_claim ref r) reg)) claims runs"
    by (intro plan_inv_evolves[OF assms(1) unclaim.transaction_evolves[OF plan_inv_distinct[OF assms(1)]]])
      (auto simp: auth_ok_def split: plan_authorization.splits)
  from \<open>\<And>ref' r'. (ref', r') \<in> set claims \<Longrightarrow> ref' \<noteq> ref\<close>
  show "plan_inv k aud (snd (transaction now live (consume_claim ref r i) reg)) claims runs"
    by (intro plan_inv_evolves[OF assms(1) consume.transaction_evolves[OF plan_inv_distinct[OF assms(1)]]])
      (auto simp: auth_ok_def split: plan_authorization.splits)
qed

lemma settle_run_reg:
  "snd (settle_run now live (Some ref) (Some r) appended reg) =
     (case appended of
        Inl e \<Rightarrow> snd (transaction now live (rollback_claim ref r) reg)
      | Inr i \<Rightarrow> snd (transaction now live (consume_claim ref r i) reg))"
  by (auto simp: settle_run_def split: sum.splits prod.splits)

lemma consume_claim_ok:
  "consume_claim ref r i es = (Inr (), es') \<Longrightarrow>
   \<exists>q. map_of es ref = Some q \<and> authorization q = Claimed r
     \<and> map_of es' ref = Some (q\<lparr>authorization := Consumed (r\<lparr>consumed_by := Some i\<rparr>)\<rparr>)"
  by (auto simp: consume_claim_def split: option.splits if_splits)

lemma settle_run_ok:
  assumes "settle_run now live (Some ref) (Some r) appended reg = (Inr i, reg')"
  shows "\<exists>q. map_of (entries reg) ref = Some q \<and> authorization q = Claimed r
    \<and> map_of (entries reg') ref = Some (q\<lparr>authorization := Consumed (r\<lparr>consumed_by := Some i\<rparr>)\<rparr>)"
proof -
  have "transaction now live (consume_claim ref r i) reg = (Inr (), reg')"
    using assms by (auto simp: settle_run_def split: sum.splits prod.splits)
  from consume_claim_ok[OF transaction_ok[OF this]] obtain q
    where q: "map_of (recover_all now live (entries reg)) ref = Some q" "authorization q = Claimed r"
      "map_of (entries reg') ref = Some (q\<lparr>authorization := Consumed (r\<lparr>consumed_by := Some i\<rparr>)\<rparr>)"
    by blast
  then show ?thesis using map_of_recover_settled by blast
qed

lemma plan_inv_settle:
  assumes inv: "plan_inv k aud reg claims runs" and c: "(ref, r) \<in> set claims"
    and run: "settle_run now live (Some ref) (Some r) appended reg = (res, reg')"
  shows "plan_inv k aud reg' (remove1 (ref, r) claims)
    ((case res of Inr i \<Rightarrow> [(ref, r, i)] | Inl _ \<Rightarrow> []) @ runs)"
proof -
  note un = plan_inv_unclaim[OF inv c]
  have reg': "plan_inv k aud reg' (remove1 (ref, r) claims) runs"
    using settle_run_reg[of now live ref r appended reg] run plan_inv_settle_reg[OF un]
    by (auto split: sum.splits)
  show ?thesis
  proof (cases res)
    case (Inl e)
    then show ?thesis using reg' by simp
  next
    case (Inr i)
    have "ref \<in> fst ` set claims" using c by force
    then have "ref \<notin> fst ` set runs"
      using inv unfolding plan_inv_def runs_ok_def by blast
    moreover have "named (next_id reg') ref" "backed k aud ref r"
    proof -
      have "next_id reg' = next_id reg"
        using settle_run_reg[of now live ref r appended reg] run by (auto split: sum.splits)
      then show "named (next_id reg') ref" "backed k aud ref r"
        using inv c by (auto simp: plan_inv_def claims_ok_def)
    qed
    moreover obtain q where "map_of (entries reg') ref = Some q" "\<exists>r'. authorization q = Consumed r'"
      using settle_run_ok run Inr by fastforce
    ultimately have "runs_ok k aud reg' (remove1 (ref, r) claims) ((ref, r, i) # runs)"
      using reg' un(2) by (simp add: plan_inv_def runs_ok_def)
    then show ?thesis using reg' Inr by (simp add: plan_inv_def)
  qed
qed

text \<open>Storing a plan: stale and expired entries go first, then one fresh reference is added.\<close>

lemma update_fresh: "k \<notin> fst ` set es \<Longrightarrow> AList.update k v es = es @ [(k, v)]"
  by (induction es) auto

lemma named_not_key:
  assumes "registry_ok k aud reg" and "\<not> named (next_id reg) ref"
  shows "ref \<notin> fst ` set (entries reg)"
proof
  assume "ref \<in> fst ` set (entries reg)"
  then obtain p where "map_of (entries reg) ref = Some p"
    by (metis map_of_eq_None_iff not_None_eq)
  then show False using assms by (auto simp: registry_ok_def)
qed

lemma plan_inv_next_id:
  assumes "plan_inv k aud reg claims runs"
  shows "plan_inv k aud (reg\<lparr>next_id := next_id reg + 1\<rparr>) claims runs"
  using assms named_mono[of "next_id reg" _ "next_id reg + 1"]
  by (auto simp: plan_inv_def registry_ok_def claims_ok_def runs_ok_def)

lemma plan_inv_insert:
  assumes inv: "plan_inv k aud reg claims runs"
    and fresh: "next_id reg < 2 ^ 64" "ref = ref_name h (next_id reg)"
    and new: "plan_ref (sp_plan new) = ref" "authorization new = initial_authorization v"
    and quota: "length (owner_plans (sp_session new) (sp_principal new) (entries reg))
        < max_stored_plans_per_owner"
      "source_bytes (owner_plans (sp_session new) (sp_principal new) (entries reg)) + length (sp_src new)
        \<le> max_plan_source_bytes_per_owner"
  shows "plan_inv k aud (reg\<lparr>next_id := next_id reg + 1, entries := AList.update ref new (entries reg)\<rparr>)
    claims runs"
proof -
  let ?reg = "reg\<lparr>next_id := next_id reg + 1, entries := AList.update ref new (entries reg)\<rparr>"
  have unnamed: "\<not> named (next_id reg) ref" using named_fresh fresh by simp
  then have nk: "ref \<notin> fst ` set (entries reg)"
    using named_not_key inv unfolding plan_inv_def by blast
  have named: "named (Suc (next_id reg)) ref'" if "ref' = ref \<or> named (next_id reg) ref'" for ref'
    using that fresh(2) named_mono[of "next_id reg" ref' "Suc (next_id reg)"] by (auto simp: named_def)
  have "within_quota (entries reg @ [(ref, new)])"
    using inv quota
    by (auto simp: plan_inv_def registry_ok_def within_quota_def owner_plans_def source_bytes_def)
  moreover have "auth_ok k aud ref new (authorization new)"
    using new(2) by (cases v) (simp_all add: auth_ok_def)
  ultimately have "registry_ok k aud ?reg"
    using inv nk new(1) named
    by (auto simp: plan_inv_def registry_ok_def update_fresh image_iff split: if_splits)
  moreover have look: "map_of (entries ?reg) ref' = map_of (entries reg) ref'"
    if "named (next_id reg) ref'" for ref'
    using that unnamed by (auto simp: update_conv')
  have "claims_ok k aud ?reg claims"
    unfolding claims_ok_def
  proof (intro conjI ballI)
    fix c
    assume c: "c \<in> set claims"
    obtain ref' r where c': "c = (ref', r)" by (cases c)
    have old: "named (next_id reg) ref'" "backed k aud ref' r"
      "\<forall>p. map_of (entries reg) ref' = Some p \<longrightarrow> authorization p = Claimed r"
      using inv c c' by (auto simp: plan_inv_def claims_ok_def)
    show "case c of (ref, r) \<Rightarrow> named (next_id ?reg) ref \<and> backed k aud ref r
        \<and> (\<forall>p. map_of (entries ?reg) ref = Some p \<longrightarrow> authorization p = Claimed r)"
      using old look[OF old(1)] named c' by simp
  qed (use inv in \<open>simp add: plan_inv_def claims_ok_def\<close>)
  moreover have "runs_ok k aud ?reg claims runs"
    unfolding runs_ok_def
  proof (intro conjI ballI)
    fix c
    assume c: "c \<in> set runs"
    obtain ref' r i where c': "c = (ref', r, i)" by (cases c)
    have old: "named (next_id reg) ref'" "backed k aud ref' r"
      "\<forall>p. map_of (entries reg) ref' = Some p \<longrightarrow> (\<exists>r'. authorization p = Consumed r')"
      using inv c c' by (auto simp: plan_inv_def runs_ok_def)
    show "case c of (ref, r, i) \<Rightarrow> named (next_id ?reg) ref \<and> backed k aud ref r
        \<and> (\<forall>p. map_of (entries ?reg) ref = Some p \<longrightarrow> (\<exists>r'. authorization p = Consumed r'))"
      using old look[OF old(1)] named c' by simp
  qed (use inv in \<open>simp_all add: plan_inv_def runs_ok_def\<close>)
  ultimately show ?thesis by (simp add: plan_inv_def)
qed

lemma handle_exec_plan_reg:
  assumes "handle_exec_plan k now live src session actor derived reg = (res, reg', events)"
  shows "reg' = reg
    \<or> (\<exists>new h. plan_ref (sp_plan new) = ref_name h (next_id reg)
         \<and> (\<exists>v. authorization new = initial_authorization v)
         \<and> reg' = snd (transaction now live (store_plan now new) (reg\<lparr>next_id := next_id reg + 1\<rparr>)))"
proof (cases derived)
  case (Inl e)
  then show ?thesis using assms by (simp add: handle_exec_plan_def)
next
  case (Inr d)
  obtain ast_json pl where d: "d = (ast_json, pl)" by (cases d)
  let ?h = "bound_plan_hash k src ast_json pl session actor"
  let ?pl = "pl\<lparr>plan_ref := ref_name ?h (next_id reg)\<rparr>"
  let ?new = "\<lparr>sp_src = src, sp_session = session, sp_principal = actor, sp_plan_hash = ?h,
    sp_source_hash = k_source_hash k src, sp_plan = ?pl,
    authorization = initial_authorization (plan_verdict k actor ?pl), created_at = now\<rparr>"
  have "reg' = snd (transaction now live (store_plan now ?new) (reg\<lparr>next_id := next_id reg + 1\<rparr>))"
    using assms Inr d
    by (auto simp: handle_exec_plan_def allocate_ref_eq Let_def split: prod.splits sum.splits)
  then show ?thesis by (intro disjI2 exI[of _ ?new] exI[of _ ?h]) auto
qed

lemma store_plan_reg:
  "snd (transaction now live (store_plan now new) reg) =
     (let reg1 = snd (transaction now live (list_plans k now session who) reg);
          mine = owner_plans (sp_session new) (sp_principal new) (entries reg1)
      in if quarantined reg \<or> poisoned reg
            \<or> max_stored_plans_per_owner \<le> length mine
            \<or> max_plan_source_bytes_per_owner
              < saturating_usize (source_bytes mine + length (sp_src new))
         then reg1 else reg1\<lparr>entries := AList.update (plan_ref (sp_plan new)) new (entries reg1)\<rparr>)"
  by (auto simp: transaction_def store_plan_def list_plans_def Let_def)

lemma saturating_le: "saturating_usize n \<le> max_plan_source_bytes_per_owner \<Longrightarrow> n \<le> max_plan_source_bytes_per_owner"
  by (simp add: saturating_usize_def max_plan_source_bytes_per_owner_def)

lemma plan_inv_plan:
  assumes inv: "plan_inv k aud reg claims runs" and small: "next_id reg' \<le> 2 ^ 64"
    and step: "handle_exec_plan k now live src session actor derived reg = (res, reg', events)"
  shows "plan_inv k aud reg' claims runs"
  using handle_exec_plan_reg[OF step]
proof (elim disjE exE conjE)
  assume "reg' = reg"
  then show ?thesis using inv by simp
next
  fix new h v
  let ?tick = "\<lambda>reg. reg\<lparr>next_id := next_id reg + 1\<rparr>"
  assume new: "plan_ref (sp_plan new) = ref_name h (next_id reg)" "authorization new = initial_authorization v"
    and reg': "reg' = snd (transaction now live (store_plan now new) (?tick reg))"
  let ?mid = "snd (transaction now live (list_plans k now session actor) reg)"
  have mid: "plan_inv k aud ?mid claims runs"
    by (rule plan_inv_quiet[OF inv listing.transaction_evolves[OF plan_inv_distinct[OF inv]]])
  have tick: "snd (transaction now live (list_plans k now session actor) (?tick reg)) = ?tick ?mid"
    by (auto simp: transaction_def split: prod.splits)
  have "next_id reg < 2 ^ 64" using small reg' by simp
  then have fresh: "next_id ?mid < 2 ^ 64" "plan_ref (sp_plan new) = ref_name h (next_id ?mid)"
    using new(1) by simp_all
  show ?thesis
    using plan_inv_next_id[OF mid] plan_inv_insert[OF mid fresh refl new(2)]
    unfolding reg' store_plan_reg[of now live new _ k session actor] tick
    by (auto simp: Let_def not_le not_less dest!: saturating_le)
qed

lemma sys_step_next_id: "sys_step k s s' \<Longrightarrow> next_id (s_reg s) \<le> next_id (s_reg s')"
proof (induction rule: sys_step.induct)
  case (plan s src session actor derived res reg' events)
  then show ?case using handle_exec_plan_reg[OF plan] by auto
next
  case (finish l ref r s audited res reg')
  then show ?case
    by (auto simp: cap_request_finish_def split: sum.splits prod.splits)
      (metis snd_conv transaction_next_id order_refl)+
next
  case (settle ref r s appended res reg')
  then show ?case
    using settle_run_reg[of "s_now s" "live_leases s" ref r appended "s_reg s"] by (auto split: sum.splits)
qed (auto simp: cap_request_reserve_def authorize_run_reg handle_plan_apply_def handle_plan_get_def
    handle_plan_list_def remove_owner_def dest!: arg_cong[where f = snd] split: option.splits if_splits)

lemma reachable_inv:
  "reachable k s \<Longrightarrow> next_id (s_reg s) \<le> 2 ^ 64 \<Longrightarrow>
   plan_inv k (s_audits s) (s_reg s) (s_claims s) (s_runs s)"
proof (induction rule: reachable.induct)
  case start
  show ?case
    by (simp add: sys_init_def registry_new_def plan_inv_def registry_ok_def claims_ok_def
        runs_ok_def within_quota_def owner_plans_def source_bytes_def)
next
  case (step s s')
  have inv: "plan_inv k (s_audits s) (s_reg s) (s_claims s) (s_runs s)"
    using step sys_step_next_id[OF step.hyps(2)] by simp
  note dist = plan_inv_distinct[OF inv]
  show ?case
    using step.hyps(2) inv step.prems
  proof (cases rule: sys_step.cases)
    case (plan src session actor derived res reg' events)
    then show ?thesis using plan_inv_plan[OF inv _ plan(2)] step.prems by simp
  next
    case (finish l ref r audited res reg')
    then show ?thesis using plan_inv_finish[OF inv finish(3)] by simp
  next
    case (commit_failed l ref r i e reg')
    then show ?thesis
      using plan_inv_commit[OF inv, of i r "s_now s" "live_leases s" ref] by simp
  next
    case (claim params session actor ast_json run_plan r reg' ref)
    then show ?thesis using plan_inv_claim[OF inv claim(2,3)] by simp
  next
    case (settle ref r appended res reg')
    then show ?thesis using plan_inv_settle[OF inv settle(2,3)] by simp
  next
    case (apply_start ref session who res reg')
    then show ?thesis
      using plan_inv_quiet[OF inv applying.transaction_evolves[OF dist]]
      by (auto simp: handle_plan_apply_def dest!: arg_cong[where f = snd])
  next
    case (get ref session who can res reg')
    then show ?thesis
      using plan_inv_quiet[OF inv get.transaction_evolves[OF dist]]
      by (auto simp: handle_plan_get_def dest!: arg_cong[where f = snd])
  next
    case (listing session who res reg')
    then show ?thesis
      using plan_inv_quiet[OF inv listing.transaction_evolves[OF dist]]
      by (auto simp: handle_plan_list_def dest!: arg_cong[where f = snd])
  qed (auto intro: plan_inv_reserve[OF inv] plan_inv_no_claim[OF inv] plan_inv_remove_owner[OF inv]
      plan_inv_poison[OF inv])
qed

section \<open>One-way authorization\<close>

fun one_way :: "plan_authorization \<Rightarrow> plan_authorization \<Rightarrow> bool" where
  "one_way PolicyAllowed b \<longleftrightarrow> b = PolicyAllowed \<or> (\<exists>r s l. b = Granting r True s l)"
| "one_way Pending b \<longleftrightarrow> b = Pending \<or> (\<exists>r s l. b = Granting r False s l)"
| "one_way Denied b \<longleftrightarrow> b = Denied"
| "one_way (Granting r restore s l) b \<longleftrightarrow>
     b = ungrant restore \<or> (\<exists>r' s' l'. b = Granting r' restore s' l')
     \<or> (\<exists>i. b = Approved (r\<lparr>grant_audit_id := i\<rparr>))"
| "one_way (Approved r) b \<longleftrightarrow> b = Approved r \<or> b = Claimed r"
| "one_way (Claimed r) b \<longleftrightarrow>
     b = Claimed r \<or> b = Approved r \<or> (\<exists>i. b = Consumed (r\<lparr>consumed_by := Some i\<rparr>))"
| "one_way (Consumed r) b \<longleftrightarrow> b = Consumed r"

lemma one_way_refl [simp]: "one_way a a"
  by (cases a) auto

lemma recover_one_way: "recover_edge live a c \<Longrightarrow> one_way c b \<Longrightarrow> one_way a b"
  by (auto simp: recover_edge_def ungrant_def split: if_splits)

definition moves_one_way :: "plan_registry \<Rightarrow> plan_registry \<Rightarrow> bool" where
  "moves_one_way reg reg' \<longleftrightarrow>
     (\<forall>ref p p'. map_of (entries reg) ref = Some p \<longrightarrow> map_of (entries reg') ref = Some p' \<longrightarrow>
        p' = p\<lparr>authorization := authorization p'\<rparr> \<and> one_way (authorization p) (authorization p'))"

lemma evolves_one_way:
  assumes "evolves live edge reg reg'" and "\<And>ref p a b. edge ref p a b \<Longrightarrow> one_way a b"
  shows "moves_one_way reg reg'"
  unfolding moves_one_way_def
proof (intro allI impI)
  fix ref p p'
  assume "map_of (entries reg) ref = Some p" "map_of (entries reg') ref = Some p'"
  then obtain a where "p' = p\<lparr>authorization := authorization p'\<rparr>" "recover_edge live (authorization p) a"
    "edge ref p a (authorization p')"
    using assms(1) unfolding evolves_def by fastforce
  then show "p' = p\<lparr>authorization := authorization p'\<rparr> \<and> one_way (authorization p) (authorization p')"
    using assms(2) recover_one_way by blast
qed

lemma commit_fails:
  assumes "transaction now live (commit_grant ref r i) reg = (Inl e, reg1)"
  shows "entries reg1 = entries reg \<or> entries reg1 = recover_all now live (entries reg)"
  using assms
  by (cases rule: transaction_cases[of reg now live "commit_grant ref r i"])
    (auto simp: commit_grant_def split: option.splits plan_authorization.splits if_splits)

lemma rollback_edge_one_way:
  assumes "distinct (map fst (entries reg))"
  shows "evolves live (\<lambda>key p a b. a = b \<or> key = ref \<and>
      (\<exists>restore s l. a = Granting r restore s l \<and> b = ungrant restore)) reg
    (snd (transaction now live (rollback_grant ref r) reg))"
  by (rule ungranting.transaction_evolves[OF assms])

lemma auth_update_trans:
  "q = p\<lparr>authorization := a\<rparr> \<Longrightarrow> p' = q\<lparr>authorization := b\<rparr> \<Longrightarrow> p' = p\<lparr>authorization := b\<rparr>"
  by simp

lemma moves_one_way_recover:
  assumes "moves_one_way reg1 reg'"
    and rec: "\<And>key p. map_of (entries reg) key = Some p \<Longrightarrow>
      \<exists>q. map_of (entries reg1) key = Some q \<and> q = p\<lparr>authorization := authorization q\<rparr>
        \<and> recover_edge live (authorization p) (authorization q)"
  shows "moves_one_way reg reg'"
  unfolding moves_one_way_def
proof (intro allI impI)
  fix ref p p'
  assume p: "map_of (entries reg) ref = Some p" and p': "map_of (entries reg') ref = Some p'"
  from rec[OF p] obtain q where q: "map_of (entries reg1) ref = Some q"
    "q = p\<lparr>authorization := authorization q\<rparr>" "recover_edge live (authorization p) (authorization q)"
    by blast
  from assms(1) q(1) p' have r: "p' = q\<lparr>authorization := authorization p'\<rparr>"
    "one_way (authorization q) (authorization p')"
    unfolding moves_one_way_def by blast+
  show "p' = p\<lparr>authorization := authorization p'\<rparr> \<and> one_way (authorization p) (authorization p')"
    using auth_update_trans[OF q(2) r(1)] recover_one_way[OF q(3) r(2)] by blast
qed

lemma finish_one_way:
  assumes dist: "distinct (map fst (entries reg))"
    and fin: "cap_request_finish now live ref r outcome reg = (res, reg')"
  shows "moves_one_way reg reg'"
proof (cases "\<exists>i reg1 e. outcome = Inr i \<and> transaction now live (commit_grant ref r i) reg = (Inl e, reg1)")
  case True
  then obtain i reg1 e where c: "outcome = Inr i"
    "transaction now live (commit_grant ref r i) reg = (Inl e, reg1)" by blast
  have reg': "reg' = snd (transaction now live (rollback_grant ref r) reg1)"
    using fin c by (simp add: cap_request_finish_def)
  have dist1: "distinct (map fst (entries reg1))"
    using commit_fails[OF c(2)] dist by auto
  have "moves_one_way reg1 reg'"
    unfolding reg' by (rule evolves_one_way[OF rollback_edge_one_way[OF dist1]]) auto
  moreover have "map_of (entries reg) key = Some p \<Longrightarrow>
      \<exists>q. map_of (entries reg1) key = Some q \<and> q = p\<lparr>authorization := authorization q\<rparr>
        \<and> recover_edge live (authorization p) (authorization q)" for key p
    using commit_fails[OF c(2)]
  proof
    assume "map_of (entries reg) key = Some p" "entries reg1 = entries reg"
    then show ?thesis by (auto simp: recover_edge_def)
  next
    assume "map_of (entries reg) key = Some p" "entries reg1 = recover_all now live (entries reg)"
    then show ?thesis
      using recover_stale_edge[where live = live and p = p and now = now]
      by (simp add: map_of_recover_all)
  qed
  ultimately show ?thesis by (rule moves_one_way_recover)
next
  case False
  show ?thesis
  proof (cases outcome)
    case (Inl e)
    then have "reg' = snd (transaction now live (rollback_grant ref r) reg)"
      using fin by (simp add: cap_request_finish_def)
    then show ?thesis by (auto intro!: evolves_one_way[OF rollback_edge_one_way[OF dist]])
  next
    case (Inr i)
    then have "reg' = snd (transaction now live (commit_grant ref r i) reg)"
      using fin False by (auto simp: cap_request_finish_def split: prod.splits sum.splits)
    then show ?thesis
      by (auto intro!: evolves_one_way[OF commit.transaction_evolves[OF dist]])
  qed
qed

lemma quiet_one_way: "evolves live (\<lambda>_ _. (=)) reg reg' \<Longrightarrow> moves_one_way reg reg'"
  by (erule evolves_one_way) simp

lemma plan_one_way:
  assumes inv: "plan_inv k aud reg claims runs" and small: "next_id reg' \<le> 2 ^ 64"
    and step: "handle_exec_plan k now live src session actor derived reg = (res, reg', events)"
  shows "moves_one_way reg reg'"
  using handle_exec_plan_reg[OF step]
proof (elim disjE exE conjE)
  assume "reg' = reg"
  then show ?thesis by (simp add: moves_one_way_def)
next
  fix new h v
  let ?tick = "reg\<lparr>next_id := next_id reg + 1\<rparr>"
  let ?mid = "snd (transaction now live (list_plans k now session actor) ?tick)"
  assume new: "plan_ref (sp_plan new) = ref_name h (next_id reg)"
    and reg': "reg' = snd (transaction now live (store_plan now new) ?tick)"
  have "evolves live (\<lambda>_ _. (=)) ?tick ?mid"
    using listing.transaction_evolves[of ?tick] plan_inv_distinct[OF inv] by simp
  then have mid: "moves_one_way ?tick ?mid" by (rule quiet_one_way)
  have "next_id reg < 2 ^ 64" using small reg' by simp
  then have "plan_ref (sp_plan new) \<notin> fst ` set (entries reg)"
    using named_not_key named_fresh inv new unfolding plan_inv_def by metis
  then have "map_of (entries reg) ref = Some p \<Longrightarrow> ref \<noteq> plan_ref (sp_plan new)" for ref p
    by (metis map_of_eq_None_iff option.distinct(1))
  then show ?thesis
    using mid unfolding reg' store_plan_reg[of now live new _ k session actor]
    by (auto simp: moves_one_way_def Let_def update_conv')
qed

lemma sys_step_one_way:
  assumes "sys_step k s s'" and inv: "plan_inv k (s_audits s) (s_reg s) (s_claims s) (s_runs s)"
    and "next_id (s_reg s') \<le> 2 ^ 64"
  shows "moves_one_way (s_reg s) (s_reg s')"
proof -
  note dist = plan_inv_distinct[OF inv]
  have ow: "moves_one_way (s_reg s) reg'"
    if "evolves live edge (s_reg s) reg'" "\<And>ref p a b. edge ref p a b \<Longrightarrow> one_way a b" for live edge reg'
    using that by (rule evolves_one_way)
  have same: "moves_one_way (s_reg s) (s_reg s)" by (simp add: moves_one_way_def)
  have grant: "moves_one_way (s_reg s) reg'"
    if "cap_request_reserve k now live wall l who can ref_opt args (s_reg s) = (res, reg')"
    for now live wall l who can ref_opt args res reg'
  proof (cases ref_opt)
    case None
    then show ?thesis using that same by (simp add: cap_request_reserve_def)
  next
    case (Some ref)
    have "moves_one_way (s_reg s) (snd (transaction now live (reserve_grant k now wall l who can ref args) (s_reg s)))"
      by (rule ow[OF reserve.transaction_evolves[OF dist]]) (auto simp: ungrant_def)
    then show ?thesis using that Some by (simp add: cap_request_reserve_def)
  qed
  have run: "moves_one_way (s_reg s) reg'"
    if "authorize_run k now live params session actor ast_json run_plan (s_reg s) = (res, reg')"
    for now live params session actor ast_json run_plan res reg'
  proof -
    have "moves_one_way (s_reg s) (snd (transaction now live (claim_plan k now ref src session actor hash) (s_reg s)))"
      for ref src hash
      by (rule ow[OF claim.transaction_evolves[OF dist]]) auto
    then show ?thesis
      using that same authorize_run_reg[of k now live params session actor ast_json run_plan "s_reg s"]
      by (auto split: if_splits option.splits)
  qed
  show ?thesis
    using assms(1)
  proof (cases rule: sys_step.cases)
    case (plan src session actor derived res reg' events)
    then show ?thesis using plan_one_way[OF inv _ plan(2)] assms(3) by simp
  next
    case (finish l ref r audited res reg')
    then show ?thesis using finish_one_way[OF dist finish(3)] by simp
  next
    case (commit_failed l ref r i e reg')
    have "moves_one_way (s_reg s) (snd (transaction (s_now s) (live_leases s) (commit_grant ref r i) (s_reg s)))"
      by (rule ow[OF commit.transaction_evolves[OF dist]]) auto
    then show ?thesis using commit_failed by simp
  next
    case (settle ref r appended res reg')
    have "moves_one_way (s_reg s) (snd (transaction (s_now s) (live_leases s) (rollback_claim ref r) (s_reg s)))"
      by (rule ow[OF unclaim.transaction_evolves[OF dist]]) auto
    moreover have "moves_one_way (s_reg s) (snd (transaction (s_now s) (live_leases s) (consume_claim ref r i) (s_reg s)))" for i
      by (rule ow[OF consume.transaction_evolves[OF dist]]) auto
    ultimately show ?thesis
      using settle settle_run_reg[of "s_now s" "live_leases s" ref r appended "s_reg s"]
      by (simp split: sum.splits)
  next
    case (apply_start ref session who res reg')
    then show ?thesis
      using quiet_one_way[OF applying.transaction_evolves[OF dist]]
      by (auto simp: handle_plan_apply_def dest!: arg_cong[where f = snd])
  next
    case (get ref session who can res reg')
    then show ?thesis
      using quiet_one_way[OF get.transaction_evolves[OF dist]]
      by (auto simp: handle_plan_get_def dest!: arg_cong[where f = snd])
  next
    case (listing session who res reg')
    then show ?thesis
      using quiet_one_way[OF listing.transaction_evolves[OF dist]]
      by (auto simp: handle_plan_list_def dest!: arg_cong[where f = snd])
  next
    case (evict owner)
    then show ?thesis
      using dist by (auto simp: moves_one_way_def remove_owner_def dest!: map_of_filter_distinct)
  qed (use same grant run in \<open>auto simp: moves_one_way_def\<close>)
qed

section \<open>Properties\<close>

text \<open>
  C1. An approval is spent at most once: whatever requests interleave, no plan reference starts two
  executions under an explicit approval (in a kernel that has issued at most \<open>2^64\<close> references).
\<close>

theorem approval_single_use:
  assumes "reachable k s" and "next_id (s_reg s) \<le> 2 ^ 64"
  shows "distinct (map fst (s_runs s))"
  using reachable_inv[OF assms] by (simp add: plan_inv_def runs_ok_def)

text \<open>
  C2. Every execution under an approval has a durable audit of that approval behind it, written for
  this plan reference; the approver is not the requester unless self-acknowledgement is enabled; and
  the policy did not deny the plan it was granted for.
\<close>

theorem approval_audited_and_separate:
  assumes "reachable k s" and "next_id (s_reg s) \<le> 2 ^ 64" and "(ref, r, entry) \<in> set (s_runs s)"
  shows "\<exists>r0 pl. (grant_audit_id r, r0) \<in> set (s_audits s) \<and> r = r0\<lparr>grant_audit_id := grant_audit_id r\<rparr>
    \<and> ar_plan_ref r = ref \<and> (approver r \<noteq> requester r \<or> allow_self_ack k)
    \<and> plan_verdict k (requester r) pl \<noteq> Deny \<and> scope r = map effect_kind (effects pl)"
proof -
  from reachable_inv[OF assms(1,2)] assms(3) have "backed k (s_audits s) ref r"
    by (auto simp: plan_inv_def runs_ok_def)
  then obtain p r0 i where "grant_ok k ref p r0" "r = r0\<lparr>grant_audit_id := i\<rparr>" "(i, r0) \<in> set (s_audits s)"
    by (auto simp: backed_def audited_def)
  then show ?thesis
    by (intro exI[of _ r0] exI[of _ "sp_plan p"]) (auto simp: grant_ok_def)
qed

text \<open>
  C3. A stored plan is immutable but for its authorization, and that moves one way only: a denied
  plan stays denied, a consumed approval stays consumed, only a reservation can become an approval,
  only an approval can be claimed and only a claim can be consumed.
\<close>

theorem authorization_one_way:
  assumes "reachable k s" and "sys_step k s s'" and "next_id (s_reg s') \<le> 2 ^ 64"
    and "map_of (entries (s_reg s)) ref = Some p" and "map_of (entries (s_reg s')) ref = Some p'"
  shows "p' = p\<lparr>authorization := authorization p'\<rparr> \<and> one_way (authorization p) (authorization p')"
proof -
  have "plan_inv k (s_audits s) (s_reg s) (s_claims s) (s_runs s)"
    using reachable_inv[OF assms(1)] sys_step_next_id[OF assms(2)] assms(3) by simp
  from sys_step_one_way[OF assms(2) this assms(3)] assms(4,5) show ?thesis
    by (simp add: moves_one_way_def)
qed

text \<open>
  C18. No owner ever holds more than 256 stored plans or more than 64 MiB of plan source.
\<close>

theorem stored_plan_quota:
  assumes "reachable k s" and "next_id (s_reg s) \<le> 2 ^ 64"
  shows "length (owner_plans session actor (entries (s_reg s))) \<le> max_stored_plans_per_owner
    \<and> source_bytes (owner_plans session actor (entries (s_reg s))) \<le> max_plan_source_bytes_per_owner"
  using reachable_inv[OF assms] by (simp add: plan_inv_def registry_ok_def within_quota_def)

text \<open>
  C4. A run that claims an approval claims one for exactly what it is about to execute: the stored
  plan is not expired, is approved, belongs to this session and principal, and its hashes are those
  of this source, syntax tree and derived plan. After the claim the plan is marked claimed.
\<close>

theorem claim_binds_execution:
  assumes "authorize_run k now live params session actor ast_json run_plan reg = (Inr (Some r), reg')"
    and "ep_plan_ref params = Some ref"
  shows "\<exists>p. map_of (entries reg) ref = Some p \<and> \<not> plan_expired now p \<and> authorization p = Approved r
    \<and> sp_plan_hash p = bound_plan_hash k (ep_src params) ast_json run_plan session actor
    \<and> sp_source_hash p = k_source_hash k (ep_src params)
    \<and> sp_session p = session \<and> sp_principal p = actor
    \<and> map_of (entries reg') ref = Some (p\<lparr>authorization := Claimed r\<rparr>)"
  using claim_plan_some[OF transaction_ok[OF claim_exec_some[OF assms]]] map_of_recover_settled
  by metis

text \<open>
  C6. Mode \<open>run\<close> starts only what the policy allows outright, and no mode starts a plan whose
  claim fails: without an approval an execution proceeds only on an \<open>Allow\<close> verdict, of the plan
  derived now or of the unexpired stored plan it names.
\<close>

theorem unapproved_run_is_allowed:
  assumes "authorize_run k now live params session actor ast_json run_plan reg = (Inr None, reg')"
    and "ep_mode params = ''run'' \<or> ep_mode params = ''approved''"
  shows "plan_verdict k actor run_plan = Allow
    \<or> (\<exists>ref p. ep_plan_ref params = Some ref \<and> map_of (recover_all now live (entries reg)) ref = Some p
         \<and> sp_plan_hash p = bound_plan_hash k (ep_src params) ast_json run_plan session actor
         \<and> sp_principal p = actor \<and> plan_verdict k actor (sp_plan p) = Allow)"
proof (cases "ep_mode params = ''run''")
  case True
  then show ?thesis
    using assms(1)
    by (auto simp: authorize_run_def claim_exec_approval_def split: verdict.splits)
next
  case False
  then have mode: "ep_mode params = ''approved''" using assms(2) by simp
  then obtain ref where ref: "ep_plan_ref params = Some ref"
    using assms(1) by (auto simp: authorize_run_def claim_exec_approval_def split: option.splits)
  let ?hash = "bound_plan_hash k (ep_src params) ast_json run_plan session actor"
  have "transaction now live (claim_plan k now ref (ep_src params) session actor ?hash) reg = (Inr None, reg')"
    using assms(1) mode ref
    by (auto simp: authorize_run_def claim_exec_approval_def split: prod.splits sum.splits)
  from transaction_ok[OF this] obtain p where p: "map_of (purge_expired now ref (recover_all now live (entries reg))) ref = Some p"
    "sp_plan_hash p = ?hash" "sp_principal p = actor"
    "claim_authorization (plan_verdict k actor (sp_plan p)) (authorization p) = Inr None"
    by (auto simp: claim_plan_def Let_def split: option.splits if_splits sum.splits)
  then have "plan_verdict k actor (sp_plan p) = Allow"
    by (cases "authorization p") (auto split: if_splits)
  then show ?thesis using p map_of_purge[OF p(1)] ref by blast
qed

section \<open>Examples\<close>

text \<open>An agent that needs approval plans, a supervisor grants, the agent runs once.\<close>

definition demo_cfg :: kernel_cfg where
  "demo_cfg =
     \<lparr>k_host = sample_host,
      k_policy = \<lparr>principals = [''a'' \<mapsto> principal_default\<lparr>session_write := True\<rparr>], fail_closed = False\<rparr>,
      k_source_hash = (\<lambda>src. ''s''), k_digest = (\<lambda>_. ''h''), allow_self_ack = False\<rparr>"

definition demo_ref :: string where
  "demo_ref = ref_name ''h'' 1"

definition demo_plan :: "string \<Rightarrow> plan" where
  "demo_plan ref = \<lparr>plan_ref = ref, effects = [SessionWrite], plan_reversibility = Reversible,
                    plan_estimates = \<lparr>est_bytes = None, est_items = None\<rparr>\<rparr>"

definition demo_stored :: "plan_authorization \<Rightarrow> stored_plan" where
  "demo_stored a = \<lparr>sp_src = ''x'', sp_session = ''m'', sp_principal = ''a'', sp_plan_hash = ''h'',
     sp_source_hash = ''s'', sp_plan = demo_plan demo_ref, authorization = a, created_at = 0\<rparr>"

definition demo_reg :: "plan_authorization \<Rightarrow> plan_registry" where
  "demo_reg a = \<lparr>entries = [(demo_ref, demo_stored a)], next_id = 2, quarantined = False, poisoned = False\<rparr>"

definition demo_record :: approval_record where
  "demo_record = \<lparr>requester = ''a'', approver = ''b'', ar_plan_ref = demo_ref, ar_plan_hash = ''h'',
     ar_source_hash = ''s'', ar_session = ''m'', scope = [''session_write''], approved_at_ns = 5,
     grant_audit_id = 0, consumed_by = None\<rparr>"

definition demo_approved :: approval_record where
  "demo_approved = demo_record\<lparr>grant_audit_id := 7\<rparr>"

definition demo_params :: exec_params where
  "demo_params = \<lparr>ep_src = ''x'', ep_mode = ''approved'', ep_plan_ref = Some demo_ref\<rparr>"

lemma demo_verdict: "plan_verdict demo_cfg ''a'' (demo_plan ref) = ApprovalRequired"
  by (simp add: plan_verdict_def demo_cfg_def evaluate_plan_def demo_plan_def evaluate_effect_def
      principal_default_def bool_verdict_def Let_def)

lemma demo_storage [simp]:
  "purge_expired 0 demo_ref [(demo_ref, demo_stored a)] = [(demo_ref, demo_stored a)]"
  "(demo_reg a)\<lparr>entries := [(demo_ref, demo_stored b)]\<rparr> = demo_reg b"
  "set_auth demo_ref b [(demo_ref, demo_stored a)] = [(demo_ref, demo_stored b)]"
  "authorization (demo_stored a) = a" "sp_plan (demo_stored a) = demo_plan demo_ref"
  "sp_principal (demo_stored a) = ''a''" "sp_session (demo_stored a) = ''m''"
  "sp_plan_hash (demo_stored a) = ''h''" "sp_source_hash (demo_stored a) = ''s''"
  by (simp_all add: purge_expired_def demo_reg_def plan_expired_def demo_stored_def set_auth_def)

lemma demo_transaction:
  "transaction 0 live op (demo_reg a) =
     (case op [(demo_ref, demo_stored a)] of (r, es) \<Rightarrow> (r, (demo_reg a)\<lparr>entries := es\<rparr>))"
  by (cases a) (simp_all add: transaction_def demo_reg_def recover_stale_grant_def demo_stored_def
      grant_reservation_ttl_def)

lemma demo_steps:
  "handle_exec_plan demo_cfg 0 {} ''x'' ''m'' ''a'' (Inr (''j'', demo_plan [])) registry_new
     = (Inr (demo_ref, ApprovalRequired), demo_reg Pending, [demo_ref])"
  "cap_request_reserve demo_cfg 0 {} 5 0 ''b'' True (Some demo_ref) [] (demo_reg Pending)
     = (Inr (Prepared demo_record), demo_reg (Granting demo_record False 0 0))"
  "cap_request_finish 0 {0} demo_ref demo_record (Inr 7) (demo_reg (Granting demo_record False 0 0))
     = (Inr demo_approved, demo_reg (Approved demo_approved))"
  "authorize_run demo_cfg 0 {} demo_params ''m'' ''a'' ''j'' (demo_plan []) (demo_reg (Approved demo_approved))
     = (Inr (Some demo_approved), demo_reg (Claimed demo_approved))"
  "settle_run 0 {} (Some demo_ref) (Some demo_approved) (Inr 8) (demo_reg (Claimed demo_approved))
     = (Inr 8, demo_reg (Consumed (demo_approved\<lparr>consumed_by := Some 8\<rparr>)))"
proof -
  have dp: "(demo_plan [])\<lparr>plan_ref := demo_ref\<rparr> = demo_plan demo_ref" by (simp add: demo_plan_def)
  have bh: "bound_plan_hash demo_cfg src j pl m a = ''h''" and sh: "k_source_hash demo_cfg src = ''s''"
    for src j pl m a
    by (simp_all add: bound_plan_hash_def demo_cfg_def)
  have al: "allocate_ref ''h'' registry_new = (demo_ref, registry_new\<lparr>next_id := 2\<rparr>)"
    by (simp add: allocate_ref_eq demo_ref_def registry_new_def)
  have st: "transaction 0 {} (store_plan 0 (demo_stored Pending)) (registry_new\<lparr>next_id := 2\<rparr>) = (Inr (), demo_reg Pending)"
    by (simp add: transaction_def registry_new_def store_plan_def owner_plans_def source_bytes_def
        max_stored_plans_per_owner_def max_plan_source_bytes_per_owner_def saturating_usize_def
        demo_reg_def demo_stored_def demo_plan_def)
  show "handle_exec_plan demo_cfg 0 {} ''x'' ''m'' ''a'' (Inr (''j'', demo_plan [])) registry_new
     = (Inr (demo_ref, ApprovalRequired), demo_reg Pending, [demo_ref])"
    using st by (simp add: handle_exec_plan_def Let_def bh sh al dp demo_verdict demo_stored_def)
  have self: "\<not> allow_self_ack demo_cfg" by (simp add: demo_cfg_def)
  show "cap_request_reserve demo_cfg 0 {} 5 0 ''b'' True (Some demo_ref) [] (demo_reg Pending)
     = (Inr (Prepared demo_record), demo_reg (Granting demo_record False 0 0))"
    by (simp add: cap_request_reserve_def demo_transaction reserve_grant_def requested_kinds_def
        demo_record_def map_filter_simps demo_verdict self Let_def)
      (simp add: demo_plan_def)
  show "cap_request_finish 0 {0} demo_ref demo_record (Inr 7) (demo_reg (Granting demo_record False 0 0))
     = (Inr demo_approved, demo_reg (Approved demo_approved))"
    by (simp add: cap_request_finish_def demo_transaction commit_grant_def demo_approved_def)
  show "authorize_run demo_cfg 0 {} demo_params ''m'' ''a'' ''j'' (demo_plan []) (demo_reg (Approved demo_approved))
     = (Inr (Some demo_approved), demo_reg (Claimed demo_approved))"
    by (simp add: authorize_run_def claim_exec_approval_def demo_params_def demo_transaction claim_plan_def
        bh sh)
  show "settle_run 0 {} (Some demo_ref) (Some demo_approved) (Inr 8) (demo_reg (Claimed demo_approved))
     = (Inr 8, demo_reg (Consumed (demo_approved\<lparr>consumed_by := Some 8\<rparr>)))"
    by (simp add: settle_run_def demo_transaction consume_claim_def)
qed

definition demo_final :: sys where
  "demo_final = \<lparr>s_reg = demo_reg (Consumed (demo_approved\<lparr>consumed_by := Some 8\<rparr>)), s_now = 0,
     s_lease = 1, s_grants = [], s_claims = [], s_audits = [(7, demo_record)],
     s_runs = [(demo_ref, demo_approved, 8)]\<rparr>"

definition demo_claimed :: sys where
  "demo_claimed = demo_final\<lparr>s_reg := demo_reg (Claimed demo_approved),
     s_claims := [(demo_ref, demo_approved)], s_runs := []\<rparr>"

lemma demo_reaches: "reachable demo_cfg demo_claimed" "sys_step demo_cfg demo_claimed demo_final"
proof -
  let ?s1 = "sys_init\<lparr>s_reg := demo_reg Pending\<rparr>"
  let ?s2 = "?s1\<lparr>s_reg := demo_reg (Granting demo_record False 0 0), s_lease := 1,
    s_grants := [(0, demo_ref, demo_record)]\<rparr>"
  let ?s3 = "?s2\<lparr>s_reg := demo_reg (Approved demo_approved), s_grants := [],
    s_audits := [(7, demo_record)]\<rparr>"
  have 1: "sys_step demo_cfg sys_init ?s1"
    using demo_steps(1) sys_step.plan[of demo_cfg sys_init] by (simp add: sys_init_def live_leases_def)
  have 2: "sys_step demo_cfg ?s1 ?s2"
    using demo_steps(2) sys_step.reserve[of demo_cfg ?s1] by (simp add: sys_init_def live_leases_def)
  have 3: "sys_step demo_cfg ?s2 ?s3"
    using demo_steps(3) sys_step.finish[of 0 demo_ref demo_record ?s2 "Inr 7" _ _ demo_cfg]
    by (simp add: sys_init_def live_leases_def)
  have 4: "sys_step demo_cfg ?s3 demo_claimed"
    using demo_steps(4) sys_step.claim[of demo_cfg ?s3 demo_params]
    by (simp add: sys_init_def live_leases_def demo_claimed_def demo_final_def demo_params_def)
  show "reachable demo_cfg demo_claimed"
    by (rule reachable.step[OF reachable.step[OF reachable.step[OF reachable.step[OF reachable.start 1] 2] 3] 4])
  show "sys_step demo_cfg demo_claimed demo_final"
    using demo_steps(5) sys_step.settle[of demo_ref demo_approved demo_claimed "Inr 8" _ _ demo_cfg]
    by (simp add: live_leases_def demo_claimed_def demo_final_def)
qed

lemma demo_final_reachable: "reachable demo_cfg demo_final" "next_id (s_reg demo_final) \<le> 2 ^ 64"
  using reachable.step[OF demo_reaches] by (simp_all add: demo_final_def demo_reg_def)

lemma approval_single_use_witness:
  "length (s_runs demo_final) = 1 \<and> distinct (map fst (s_runs demo_final))"
  using approval_single_use[OF demo_final_reachable] by (simp add: demo_final_def)

lemma approval_audited_and_separate_witness:
  "approver demo_approved \<noteq> requester demo_approved \<and> ar_plan_ref demo_approved = demo_ref"
  using approval_audited_and_separate[OF demo_final_reachable, of demo_ref demo_approved 8]
  by (auto simp: demo_final_def demo_cfg_def)

lemma authorization_one_way_witness:
  "one_way (Claimed demo_approved) (Consumed (demo_approved\<lparr>consumed_by := Some 8\<rparr>))"
proof -
  let ?c = "Claimed demo_approved" and ?d = "Consumed (demo_approved\<lparr>consumed_by := Some 8\<rparr>)"
  have "map_of (entries (s_reg demo_claimed)) demo_ref = Some (demo_stored ?c)"
    "map_of (entries (s_reg demo_final)) demo_ref = Some (demo_stored ?d)"
    by (simp_all add: demo_final_def demo_claimed_def demo_reg_def)
  from authorization_one_way[OF demo_reaches demo_final_reachable(2) this]
  show ?thesis unfolding demo_storage by (rule conjunct2)
qed

lemma stored_plan_quota_witness:
  "length (owner_plans ''m'' ''a'' (entries (s_reg demo_final))) = 1
   \<and> source_bytes (owner_plans ''m'' ''a'' (entries (s_reg demo_final))) \<le> max_plan_source_bytes_per_owner"
  using stored_plan_quota[OF demo_final_reachable, of "''m''" "''a''"]
  by (simp add: demo_final_def demo_reg_def owner_plans_def demo_stored_def)

lemma claim_binds_execution_witness:
  "\<exists>p. map_of (entries (demo_reg (Approved demo_approved))) demo_ref = Some p
     \<and> sp_source_hash p = k_source_hash demo_cfg ''x'' \<and> authorization p = Approved demo_approved"
proof -
  have "ep_plan_ref demo_params = Some demo_ref" "ep_src demo_params = ''x''"
    by (simp_all add: demo_params_def)
  then show ?thesis using claim_binds_execution[OF demo_steps(4)] by metis
qed

lemma unapproved_run_is_allowed_witness:
  "plan_verdict (demo_cfg\<lparr>k_policy := sample_policy\<rparr>) ''agent:a'' (sample_plan [EnvRead [''CI'']]) = Allow"
proof -
  let ?k = "demo_cfg\<lparr>k_policy := sample_policy\<rparr>" and ?pl = "sample_plan [EnvRead [''CI'']]"
  have "plan_verdict ?k ''agent:a'' ?pl = Allow"
    by (simp add: plan_verdict_def sample_policy_def sample_plan_def plan_new_def evaluate_plan_def
        evaluate_effect_def names_verdict_def bool_verdict_def reader_def)
  then have "authorize_run ?k 0 {} \<lparr>ep_src = [], ep_mode = ''run'', ep_plan_ref = None\<rparr> ''m'' ''agent:a''
      ''j'' ?pl registry_new = (Inr None, registry_new)"
    by (simp add: authorize_run_def claim_exec_approval_def)
  from unapproved_run_is_allowed[OF this] show ?thesis by simp
qed

end
