(* ===== verification/Kernel_Quota.thy ===== *)
theory Kernel_Quota
  imports Kernel_Plans
begin

text \<open>
  Admission control: the per-session task quota of \<open>kernel/state/tasks.rs\<close>, the three-level PTY
  quota of \<open>kernel/state/ptys.rs\<close> and the connection counter of \<open>kernel/state/connections.rs\<close>. All
  three hand out permits whose destructor gives the slot back; the locale \<open>permit_counter\<close> is the
  contract they share and what their clients may rely on.
\<close>

section \<open>Task quota\<close>

record session_quota =
  sq_counts :: "owner_key \<rightharpoonup> nat"
  sq_quarantined :: bool
  sq_poisoned :: bool

definition session_quota_default :: session_quota where
  "session_quota_default = \<lparr>sq_counts = Map.empty, sq_quarantined = False, sq_poisoned = False\<rparr>"

definition quota_count :: "owner_key \<Rightarrow> session_quota \<Rightarrow> nat" where
  "quota_count owner q = (case sq_counts q owner of Some n \<Rightarrow> n | None \<Rightarrow> 0)"

text \<open>The entry is created before the limit is looked at.\<close>

definition quota_reserve ::
  "nat \<Rightarrow> owner_key \<Rightarrow> session_quota \<Rightarrow> (rpc_error, unit) result \<times> session_quota" where
  "quota_reserve max_active owner q =
     (if sq_quarantined q \<or> sq_poisoned q
      then (Inl (internal ''task quota is quarantined; restart the kernel''),
            q\<lparr>sq_quarantined := True\<rparr>)
      else let current = quota_count owner q;
               q1 = q\<lparr>sq_counts := (sq_counts q)(owner \<mapsto> current)\<rparr>
           in if max_active \<le> current
              then (Inl (RpcError QUOTA_EXCEEDED (''session has reached the '' @ dec max_active @ ''-task limit'')), q1)
              else (Inr (), q1\<lparr>sq_counts := (sq_counts q1)(owner \<mapsto> current + 1)\<rparr>))"

definition map_release :: "'k \<Rightarrow> ('k \<rightharpoonup> nat) \<Rightarrow> ('k \<rightharpoonup> nat)" where
  "map_release k m =
     (case m k of
        None \<Rightarrow> m
      | Some n \<Rightarrow> if n - 1 = 0 then m(k := None) else m(k \<mapsto> n - 1))"

definition quota_drop :: "owner_key \<Rightarrow> session_quota \<Rightarrow> session_quota" where
  "quota_drop owner q =
     (if sq_quarantined q then q
      else if sq_poisoned q then q\<lparr>sq_quarantined := True\<rparr>
      else q\<lparr>sq_counts := map_release owner (sq_counts q)\<rparr>)"

section \<open>PTY quota\<close>

record pty_quota =
  pq_owners :: "owner_key \<rightharpoonup> nat"
  pq_principals :: "string \<rightharpoonup> nat"
  pq_global :: nat
  pq_quarantined :: bool
  pq_poisoned :: bool

definition pty_quota_default :: pty_quota where
  "pty_quota_default =
     \<lparr>pq_owners = Map.empty, pq_principals = Map.empty, pq_global = 0, pq_quarantined = False,
      pq_poisoned = False\<rparr>"

definition map_count :: "('k \<rightharpoonup> nat) \<Rightarrow> 'k \<Rightarrow> nat" where
  "map_count m k = (case m k of Some n \<Rightarrow> n | None \<Rightarrow> 0)"

definition pty_reserve ::
  "nat \<Rightarrow> nat \<Rightarrow> nat \<Rightarrow> owner_key \<Rightarrow> pty_quota \<Rightarrow> (rpc_error, unit) result \<times> pty_quota" where
  "pty_reserve max_owner max_principal max_global owner q =
     (let unavailable = internal ''PTY quota accounting invariant failed; restart the kernel'' in
      if pq_quarantined q then (Inl unavailable, q)
      else if pq_poisoned q then (Inl unavailable, q\<lparr>pq_quarantined := True\<rparr>)
      else let who = ok_principal owner;
               owner_active = map_count (pq_owners q) owner;
               principal_active = map_count (pq_principals q) who
           in if max_global \<le> pq_global q
              then (Inl (RpcError QUOTA_EXCEEDED (''kernel has reached the '' @ dec max_global @ ''-PTY global limit'')), q)
              else if max_principal \<le> principal_active
              then (Inl (RpcError QUOTA_EXCEEDED (''principal has reached the '' @ dec max_principal @ ''-PTY limit'')), q)
              else if max_owner \<le> owner_active
              then (Inl (RpcError QUOTA_EXCEEDED (''session has reached the '' @ dec max_owner @ ''-PTY limit'')), q)
              else (Inr (), q\<lparr>pq_global := pq_global q + 1,
                              pq_principals := (pq_principals q)(who \<mapsto> principal_active + 1),
                              pq_owners := (pq_owners q)(owner \<mapsto> owner_active + 1)\<rparr>))"

definition pty_drop :: "owner_key \<Rightarrow> pty_quota \<Rightarrow> pty_quota" where
  "pty_drop owner q =
     (if pq_poisoned q then q\<lparr>pq_quarantined := True\<rparr>
      else q\<lparr>pq_global := pq_global q - 1,
             pq_principals := map_release (ok_principal owner) (pq_principals q),
             pq_owners := map_release owner (pq_owners q)\<rparr>)"

section \<open>Connections\<close>

record connection_registry =
  cr_next_client :: nat
  cr_active :: nat
  cr_max :: nat
  cr_frame_read_timeout_ms :: nat

definition connections_new :: "nat \<Rightarrow> nat \<Rightarrow> connection_registry" where
  "connections_new max_conn timeout =
     \<lparr>cr_next_client = 1, cr_active = 0, cr_max = max_conn, cr_frame_read_timeout_ms = timeout\<rparr>"

definition connections_configure :: "nat \<Rightarrow> nat \<Rightarrow> connection_registry \<Rightarrow> connection_registry" where
  "connections_configure max_conn timeout r =
     r\<lparr>cr_max := max_conn, cr_frame_read_timeout_ms := timeout\<rparr>"

definition next_client :: "connection_registry \<Rightarrow> nat \<times> connection_registry" where
  "next_client r = (cr_next_client r, r\<lparr>cr_next_client := (cr_next_client r + 1) mod 2 ^ 64\<rparr>)"

definition connection_reserve ::
  "connection_registry \<Rightarrow> (unit, unit) result \<times> connection_registry" where
  "connection_reserve r =
     (if cr_active r < cr_max r then (Inr (), r\<lparr>cr_active := cr_active r + 1\<rparr>) else (Inl (), r))"

text \<open>\<open>fetch_sub\<close> wraps below zero.\<close>

definition connection_drop :: "connection_registry \<Rightarrow> connection_registry" where
  "connection_drop r =
     r\<lparr>cr_active := (if cr_active r = 0 then USIZE_MAX else cr_active r - 1)\<rparr>"

section \<open>The permit contract\<close>

text \<open>A client of a quota: a trace of admissions and releases, with the permits it holds.\<close>

datatype 'o permit_event = Admit 'o | GiveBack 'o

fun permit_step ::
  "('o \<Rightarrow> 's \<Rightarrow> ('e, unit) result \<times> 's) \<Rightarrow> ('o \<Rightarrow> 's \<Rightarrow> 's) \<Rightarrow> 's \<times> 'o list \<Rightarrow> 'o permit_event
   \<Rightarrow> 's \<times> 'o list" where
  "permit_step reserve drop_permit (s, held) (Admit ow) =
     (snd (reserve ow s), if fst (reserve ow s) = Inr () then ow # held else held)"
| "permit_step reserve drop_permit (s, held) (GiveBack ow) =
     (if ow \<in> set held then (drop_permit ow s, remove1 ow held) else (s, held))"

text \<open>
  A quota counts permits in buckets. \<open>charges ow b\<close> says that a permit of owner \<open>ow\<close> counts in
  bucket \<open>b\<close>. A reservation succeeds exactly when every bucket it charges is below its limit;
  dropping a permit that was counted undoes it.
\<close>

locale permit_counter =
  fixes reserve :: "'o \<Rightarrow> 's \<Rightarrow> ('e, unit) result \<times> 's"
    and drop_permit :: "'o \<Rightarrow> 's \<Rightarrow> 's"
    and count :: "'b \<Rightarrow> 's \<Rightarrow> nat"
    and charges :: "'o \<Rightarrow> 'b \<Rightarrow> bool"
    and limit :: "'b \<Rightarrow> nat"
    and healthy :: "'s \<Rightarrow> bool"
  assumes reserve_iff:
      "healthy s \<Longrightarrow> fst (reserve ow s) = Inr () \<longleftrightarrow> (\<forall>b. charges ow b \<longrightarrow> count b s < limit b)"
    and reserve_count: "healthy s \<Longrightarrow> count b (snd (reserve ow s)) =
      count b s + (if fst (reserve ow s) = Inr () \<and> charges ow b then 1 else 0)"
    and reserve_healthy: "healthy s \<Longrightarrow> healthy (snd (reserve ow s))"
    and drop_count: "healthy s \<Longrightarrow> (\<And>b'. charges ow b' \<Longrightarrow> 0 < count b' s) \<Longrightarrow>
      count b (drop_permit ow s) = count b s - (if charges ow b then 1 else 0)"
    and drop_healthy: "healthy s \<Longrightarrow> healthy (drop_permit ow s)"
begin

definition balanced :: "'s \<times> 'o list \<Rightarrow> bool" where
  "balanced st \<longleftrightarrow> healthy (fst st)
     \<and> (\<forall>b. count b (fst st) = length (filter (\<lambda>ow. charges ow b) (snd st))
          \<and> length (filter (\<lambda>ow. charges ow b) (snd st)) \<le> limit b)"

lemma balanced_admit:
  assumes "balanced (s, held)"
  shows "balanced (permit_step reserve drop_permit (s, held) (Admit ow))"
proof -
  have h: "healthy s" using assms by (simp add: balanced_def)
  have "count b s + 1 \<le> limit b" if "fst (reserve ow s) = Inr ()" "charges ow b" for b
    using that reserve_iff[OF h] by force
  then show ?thesis
    using assms reserve_count[OF h, of _ ow] reserve_healthy[OF h] by (auto simp: balanced_def)
qed

lemma balanced_give_back:
  assumes "balanced (s, held)"
  shows "balanced (permit_step reserve drop_permit (s, held) (GiveBack ow))"
proof (cases "ow \<in> set held")
  case True
  have h: "healthy s" using assms by (simp add: balanced_def)
  have len: "length (filter P (remove1 ow held)) = length (filter P held) - (if P ow then 1 else 0)" for P
    using True by (simp add: filter_remove1 length_remove1)
  have pos: "0 < count b s" if "charges ow b" for b
  proof -
    have "ow \<in> set (filter (\<lambda>ow. charges ow b) held)" using that True by simp
    then have "0 < length (filter (\<lambda>ow. charges ow b) held)" by (simp only: length_pos_if_in_set)
    then show ?thesis using assms by (simp add: balanced_def)
  qed
  have "count b (drop_permit ow s) = length (filter (\<lambda>ow. charges ow b) (remove1 ow held))"
    "length (filter (\<lambda>ow. charges ow b) (remove1 ow held)) \<le> limit b" for b
    using drop_count[OF h pos] assms by (auto simp: len balanced_def le_diff_conv trans_le_add1)
  then show ?thesis using True drop_healthy[OF h] by (simp add: balanced_def)
next
  case False
  then show ?thesis using assms by simp
qed

lemma balanced_trace:
  "balanced st \<Longrightarrow> balanced (foldl (permit_step reserve drop_permit) st es)"
proof (induction es arbitrary: st)
  case (Cons e es)
  have "balanced (permit_step reserve drop_permit st e)"
    using Cons.prems balanced_admit balanced_give_back by (cases st; cases e) auto
  then show ?case using Cons.IH by simp
qed simp

text \<open>No permit is lost: with the given permits returned, admission depends on the held ones only.\<close>

lemma admission_exact:
  assumes "balanced (s, held)"
  shows "fst (reserve ow s) = Inr () \<longleftrightarrow>
    (\<forall>b. charges ow b \<longrightarrow> length (filter (\<lambda>ow'. charges ow' b) held) < limit b)"
  using assms reserve_iff[of s ow] by (auto simp: balanced_def)

end

interpretation task_slots: permit_counter "quota_reserve m" quota_drop quota_count "(=)" "\<lambda>_. m"
  "\<lambda>q. \<not> sq_quarantined q \<and> \<not> sq_poisoned q" for m
  by unfold_locales
    (auto simp: quota_reserve_def quota_drop_def quota_count_def map_release_def Let_def
      split: option.splits if_splits)

datatype pty_bucket = GlobalPtys | PrincipalPtys string | SessionPtys owner_key

fun pty_count :: "pty_bucket \<Rightarrow> pty_quota \<Rightarrow> nat" where
  "pty_count GlobalPtys q = pq_global q"
| "pty_count (PrincipalPtys who) q = map_count (pq_principals q) who"
| "pty_count (SessionPtys owner) q = map_count (pq_owners q) owner"

fun pty_charges :: "owner_key \<Rightarrow> pty_bucket \<Rightarrow> bool" where
  "pty_charges owner GlobalPtys = True"
| "pty_charges owner (PrincipalPtys who) = (who = ok_principal owner)"
| "pty_charges owner (SessionPtys o') = (o' = owner)"

fun pty_limit :: "nat \<Rightarrow> nat \<Rightarrow> nat \<Rightarrow> pty_bucket \<Rightarrow> nat" where
  "pty_limit max_owner max_principal max_global GlobalPtys = max_global"
| "pty_limit max_owner max_principal max_global (PrincipalPtys _) = max_principal"
| "pty_limit max_owner max_principal max_global (SessionPtys _) = max_owner"

lemma map_count_release [simp]:
  "map_count (map_release k m) k' = (if k' = k then map_count m k - 1 else map_count m k')"
  by (auto simp: map_count_def map_release_def split: option.splits)

lemma map_count_upd [simp]: "map_count (m(k \<mapsto> n)) k' = (if k' = k then n else map_count m k')"
  by (simp add: map_count_def)

lemma all_pty_bucket:
  "(\<forall>b. P b) \<longleftrightarrow> P GlobalPtys \<and> (\<forall>w. P (PrincipalPtys w)) \<and> (\<forall>ow. P (SessionPtys ow))"
  by (metis pty_bucket.exhaust)

interpretation pty_slots: permit_counter "pty_reserve mo mp mg" pty_drop pty_count pty_charges
  "pty_limit mo mp mg" "\<lambda>q. \<not> pq_quarantined q \<and> \<not> pq_poisoned q" for mo mp mg
proof
  fix s :: pty_quota and ow b
  assume h: "\<not> pq_quarantined s \<and> \<not> pq_poisoned s"
  show "fst (pty_reserve mo mp mg ow s) = Inr () \<longleftrightarrow>
      (\<forall>b. pty_charges ow b \<longrightarrow> pty_count b s < pty_limit mo mp mg b)"
    using h by (auto simp: all_pty_bucket pty_reserve_def Let_def)
  show "pty_count b (snd (pty_reserve mo mp mg ow s)) =
      pty_count b s + (if fst (pty_reserve mo mp mg ow s) = Inr () \<and> pty_charges ow b then 1 else 0)"
    using h by (cases b) (auto simp: pty_reserve_def Let_def)
  show "pty_count b (pty_drop ow s) = pty_count b s - (if pty_charges ow b then 1 else 0)"
    using h by (cases b) (auto simp: pty_drop_def)
qed (auto simp: pty_reserve_def pty_drop_def Let_def)

interpretation connection_slots: permit_counter "\<lambda>_ :: unit. connection_reserve" "\<lambda>_. connection_drop"
  "\<lambda>_ :: unit. cr_active" "\<lambda>_ _. True" "\<lambda>_. m" "\<lambda>r. cr_max r = m" for m
  by unfold_locales (auto simp: connection_reserve_def connection_drop_def)

section \<open>Properties\<close>

text \<open>
  PTY slots are never leaked and never over-issued: after any sequence of admissions and of
  releases of held permits, the global, per-principal and per-session counters equal the permits
  held, none exceeds its limit, and the next admission succeeds exactly when all three are below
  their limits.
\<close>

theorem pty_permits_exact:
  assumes "foldl (permit_step (pty_reserve mo mp mg) pty_drop) (pty_quota_default, []) events = (q, held)"
  shows "pq_global q = length held \<and> length held \<le> mg
    \<and> (\<forall>who. map_count (pq_principals q) who = length (filter (\<lambda>ow. ok_principal ow = who) held)
             \<and> map_count (pq_principals q) who \<le> mp)
    \<and> (\<forall>ow. map_count (pq_owners q) ow = length (filter (\<lambda>ow'. ow' = ow) held)
            \<and> map_count (pq_owners q) ow \<le> mo)
    \<and> (fst (pty_reserve mo mp mg ow q) = Inr () \<longleftrightarrow>
         length held < mg \<and> map_count (pq_principals q) (ok_principal ow) < mp
         \<and> map_count (pq_owners q) ow < mo)"
proof -
  have "pty_slots.balanced mo mp mg (pty_quota_default, [])"
    by (auto simp: pty_slots.balanced_def pty_quota_default_def all_pty_bucket map_count_def)
  from pty_slots.balanced_trace[OF this, of events] assms
  have bal: "pty_slots.balanced mo mp mg (q, held)" by simp
  note facts = bal[unfolded pty_slots.balanced_def all_pty_bucket]
  have "fst (pty_reserve mo mp mg ow q) = Inr () \<longleftrightarrow>
      (\<forall>b. pty_charges ow b \<longrightarrow> pty_count b q < pty_limit mo mp mg b)"
    using facts by (intro pty_slots.reserve_iff) simp
  then show ?thesis
    using facts by (simp add: all_pty_bucket eq_commute)
qed

text \<open>
  The number of connections admitted at one time never exceeds the configured maximum, and the
  counter never wraps: it equals the number of live permits.
\<close>

theorem connections_bounded:
  assumes "foldl (permit_step (\<lambda>_ :: unit. connection_reserve) (\<lambda>_. connection_drop))
             (connections_new m timeout, []) events = (r, held)"
  shows "cr_active r = length held \<and> cr_active r \<le> m"
proof -
  have "connection_slots.balanced m (connections_new m timeout, [])"
    by (simp add: connection_slots.balanced_def connections_new_def)
  from connection_slots.balanced_trace[OF this, of events] assms show ?thesis
    by (simp add: connection_slots.balanced_def)
qed

section \<open>Examples\<close>

definition demo_owner :: owner_key where
  "demo_owner = \<lparr>ok_principal = ''a'', ok_name = ''m'', ok_scope = ''s''\<rparr>"

definition demo_events :: "owner_key permit_event list" where
  "demo_events = [Admit demo_owner, Admit demo_owner, GiveBack demo_owner, Admit demo_owner]"

definition pty_demo :: "pty_quota \<times> owner_key list" where
  "pty_demo = foldl (permit_step (pty_reserve 1 2 8) pty_drop) (pty_quota_default, []) demo_events"

lemma pty_permits_exact_witness:
  "length (snd pty_demo) = 1 \<and> pq_global (fst pty_demo) = 1
   \<and> fst (pty_reserve 1 2 8 demo_owner (fst pty_demo)) \<noteq> Inr ()"
proof -
  have "length (snd pty_demo) = 1" "map_count (pq_owners (fst pty_demo)) demo_owner = 1"
    by code_simp+
  moreover have "foldl (permit_step (pty_reserve 1 2 8) pty_drop) (pty_quota_default, []) demo_events
      = (fst pty_demo, snd pty_demo)"
    by (simp add: pty_demo_def)
  ultimately show ?thesis using pty_permits_exact[of 1 2 8 demo_events "fst pty_demo" "snd pty_demo" demo_owner]
    by simp
qed

definition connection_demo :: "connection_registry \<times> unit list" where
  "connection_demo = foldl (permit_step (\<lambda>_ :: unit. connection_reserve) (\<lambda>_. connection_drop))
     (connections_new 1 0, []) [Admit (), Admit (), GiveBack (), Admit ()]"

lemma connections_bounded_witness: "cr_active (fst connection_demo) = 1 \<and> cr_active (fst connection_demo) \<le> 1"
proof -
  have len: "length (snd connection_demo) = 1" by code_simp
  have "foldl (permit_step (\<lambda>_ :: unit. connection_reserve) (\<lambda>_. connection_drop))
      (connections_new 1 0, []) [Admit (), Admit (), GiveBack (), Admit ()]
      = (fst connection_demo, snd connection_demo)"
    by (simp add: connection_demo_def)
  from connections_bounded[OF this] len show ?thesis by simp
qed

end
