(* ===== verification/Kernel_Tasks.thy ===== *)
theory Kernel_Tasks
  imports Kernel_Quota "HOL-Library.Multiset"
begin

text \<open>
  Background tasks: \<open>kernel/state/tasks.rs\<close>, \<open>handlers_exec/task.rs\<close> with its deadline watchdog, and
  the \<open>task.*\<close> handlers of \<open>handlers_task.rs\<close>. A task entry and the state under its mutex are one
  record; each operation that takes the mutex is one definition returning the new entry and whether
  the active-quota permit was given up. Signals to process groups and condition-variable waits are
  inputs. The locale \<open>task_op\<close> is the contract of these operations; the step relation puts them
  together with the quota of \<open>Kernel_Quota\<close>, with the permits that are between a task and the quota.
  The session lease of a task goes in the step that finishes it; the source takes it right after
  it unlocked the state.
\<close>

section \<open>Entries\<close>

datatype task_state = Running | Suspended | Cancelling | Completed | Failed | Cancelled

definition active_state :: "task_state \<Rightarrow> bool" where
  "active_state st \<longleftrightarrow> st = Running \<or> st = Suspended \<or> st = Cancelling"

record task =
  t_ref :: string
  t_owner :: owner_key
  t_session :: string
  t_started :: int
  t_state :: task_state
  t_finished :: "int option"
  t_result :: "string option"
  t_exit :: "int option"
  t_error :: "rpc_error option"
  t_slot :: bool
  t_lease :: bool
  t_cancelled :: bool
  t_cancel_requested :: bool
  t_deadline_ms :: "nat option"
  t_deadline_exceeded :: bool
  t_poisoned :: bool
  t_wakeups :: nat

definition new_running :: "string \<Rightarrow> owner_key \<Rightarrow> string \<Rightarrow> int \<Rightarrow> nat option \<Rightarrow> task" where
  "new_running ref owner session now deadline =
     \<lparr>t_ref = ref, t_owner = owner, t_session = session, t_started = now, t_state = Running,
      t_finished = None, t_result = None, t_exit = None, t_error = None, t_slot = True,
      t_lease = True, t_cancelled = False, t_cancel_requested = False, t_deadline_ms = deadline,
      t_deadline_exceeded = False, t_poisoned = False, t_wakeups = 0\<rparr>"

section \<open>Operations on one entry\<close>

text \<open>\<open>reconstruct_locked\<close>, \<open>clear_poison\<close> and \<open>finish_reconstruction\<close>.\<close>

definition reconstruct :: "int \<Rightarrow> string \<Rightarrow> task \<Rightarrow> task \<times> bool" where
  "reconstruct now why t =
     (t\<lparr>t_state := Failed, t_finished := Some now, t_result := None, t_exit := None,
        t_error := Some (internal why), t_slot := False, t_lease := False, t_poisoned := False,
        t_wakeups := t_wakeups t + 1\<rparr>, t_slot t)"

definition invariant_error :: rpc_error where
  "invariant_error = internal ''task state was reconstructed after an internal failure''"

text \<open>Locking the state: the guard, or the error after a poisoned entry was reconstructed.\<close>

definition with_inner ::
  "int \<Rightarrow> (task \<Rightarrow> (rpc_error, 'a) result \<times> task \<times> bool) \<Rightarrow> task
   \<Rightarrow> (rpc_error, 'a) result \<times> task \<times> bool" where
  "with_inner now body t =
     (if t_poisoned t then (Inl invariant_error, reconstruct now ''task state mutex was poisoned'' t)
      else body t)"

text \<open>
  A cancellation is three stores: the flag before the mutex is taken, the state under the mutex, and
  the token after the mutex is released. \<open>mark_cancelling\<close> and \<open>mark_deadline\<close> are the parts under
  the mutex.
\<close>

definition mark_cancelling :: "int \<Rightarrow> task \<Rightarrow> (rpc_error, unit) result \<times> task \<times> bool" where
  "mark_cancelling now =
     with_inner now
       (\<lambda>t. (Inr (), (if t_state t = Running \<or> t_state t = Suspended
                      then t\<lparr>t_state := Cancelling\<rparr> else t), False))"

definition request_cancel :: "int \<Rightarrow> task \<Rightarrow> (rpc_error, unit) result \<times> task \<times> bool" where
  "request_cancel now t =
     (case mark_cancelling now (t\<lparr>t_cancel_requested := True\<rparr>) of
        (Inl e, t', freed) \<Rightarrow> (Inl e, t', freed)
      | (Inr _, t', freed) \<Rightarrow> (Inr (), t'\<lparr>t_cancelled := True\<rparr>, freed))"

definition mark_deadline :: "int \<Rightarrow> task \<Rightarrow> (rpc_error, bool) result \<times> task \<times> bool" where
  "mark_deadline now =
     with_inner now
       (\<lambda>t. if \<not> active_state (t_state t) then (Inr False, t, False)
            else (Inr True, t\<lparr>t_deadline_exceeded := True, t_cancel_requested := True,
                               t_state := Cancelling\<rparr>, False))"

definition request_deadline_cancel :: "int \<Rightarrow> task \<Rightarrow> (rpc_error, bool) result \<times> task \<times> bool" where
  "request_deadline_cancel now t =
     (case mark_deadline now t of
        (Inr True, t', freed) \<Rightarrow> (Inr True, t'\<lparr>t_cancelled := True\<rparr>, freed)
      | (res, t', freed) \<Rightarrow> (res, t', freed))"

definition fail_worker_panic :: "int \<Rightarrow> task \<Rightarrow> task \<times> bool" where
  "fail_worker_panic now t =
     (if t_finished t \<noteq> None
      then (t\<lparr>t_slot := False, t_lease := False, t_poisoned := False\<rparr>, t_slot t)
      else reconstruct now ''task worker panicked'' t)"

definition control_unavailable :: "string \<Rightarrow> string \<Rightarrow> rpc_error" where
  "control_unavailable action reason =
     RpcError TASK_CONTROL_UNAVAILABLE (''task '' @ action @ '' is unavailable: '' @ reason)"

text \<open>\<open>signalled\<close> is what the signal to the task's process groups returned.\<close>

definition suspend_task ::
  "int \<Rightarrow> (string, nat) result \<Rightarrow> task \<Rightarrow> (rpc_error, nat) result \<times> task \<times> bool" where
  "suspend_task now signalled =
     with_inner now
       (\<lambda>t. if t_state t \<noteq> Running \<and> t_state t \<noteq> Suspended
            then (Inl (control_unavailable ''suspend'' ''task is not running''), t, False)
            else case signalled of
                   Inl e \<Rightarrow> (Inl (control_unavailable ''suspend'' e), t, False)
                 | Inr n \<Rightarrow>
                     if n = 0 then (Inl (control_unavailable ''suspend'' ''task has no active child process group''), t, False)
                     else (Inr n, t\<lparr>t_state := Suspended\<rparr>, False))"

definition resume_task ::
  "int \<Rightarrow> (string, nat) result \<Rightarrow> task \<Rightarrow> (rpc_error, nat) result \<times> task \<times> bool" where
  "resume_task now signalled =
     with_inner now
       (\<lambda>t. if t_state t \<noteq> Suspended then (Inl (control_unavailable ''resume'' ''task is not suspended''), t, False)
            else case signalled of
                   Inl e \<Rightarrow> (Inl (control_unavailable ''resume'' e), t, False)
                 | Inr n \<Rightarrow>
                     if n = 0 then (Inl (control_unavailable ''resume'' ''task has no active child process group''), t, False)
                     else (Inr n, t\<lparr>t_state := Running\<rparr>, False))"

text \<open>
  What the worker's nested request gave: an error, or a value with its reference and exit code,
  where looking the value up may fail and the value may be a failed outcome.
\<close>

datatype response =
    RespError rpc_error
  | RespValue "string option" "int option" "(rpc_error, bool) result"

definition worker_finish :: "int \<Rightarrow> response \<Rightarrow> task \<Rightarrow> (rpc_error, unit) result \<times> task \<times> bool" where
  "worker_finish now resp =
     with_inner now
       (\<lambda>t. if t_finished t \<noteq> None then (Inr (), t, False)
            else let t1 = (case resp of
                   RespError e \<Rightarrow>
                     t\<lparr>t_finished := Some now,
                       t_state := (if t_cancel_requested t then Cancelled else Failed),
                       t_error := Some e\<rparr>
                 | RespValue ref exit_code lookup \<Rightarrow>
                     (case lookup of
                        Inl e \<Rightarrow> t\<lparr>t_finished := Some now, t_state := Failed, t_error := Some e\<rparr>
                      | Inr failed_outcome \<Rightarrow>
                          t\<lparr>t_finished := Some now,
                            t_exit := (case exit_code of
                                         Some c \<Rightarrow> if - (2 ^ 31) \<le> c \<and> c < 2 ^ 31 then Some c else None
                                       | None \<Rightarrow> None),
                            t_result := ref,
                            t_state := (if t_cancel_requested t then Cancelled
                                        else if failed_outcome then Failed else Completed)\<rparr>))
                 in (Inr (), t1\<lparr>t_slot := False, t_lease := False, t_wakeups := t_wakeups t + 1\<rparr>,
                     t_slot t))"

section \<open>Records and waits\<close>

record task_controls =
  can_cancel :: bool
  can_suspend :: bool
  can_resume :: bool
  active_process_groups :: nat

definition task_controls_of :: "nat \<Rightarrow> bool \<Rightarrow> task \<Rightarrow> task_controls" where
  "task_controls_of groups suspended t =
     \<lparr>can_cancel = active_state (t_state t),
      can_suspend = (t_state t = Running \<and> 0 < groups \<and> \<not> suspended),
      can_resume = (t_state t = Suspended \<and> 0 < groups \<and> suspended),
      active_process_groups = groups\<rparr>"

definition task_await_default_ms :: nat where "task_await_default_ms = 30000"
definition task_await_max_ms :: nat where "task_await_max_ms = 60000"
definition exec_deadline_max_ms :: nat where "exec_deadline_max_ms = 24 * 60 * 60 * 1000"

text \<open>
  The wait loops, with the clock they read in nanoseconds. A turn of a loop is given by the time that
  passes before the loop reads the clock and by what \<open>Condvar::wait_timeout\<close> does with the duration it
  is asked to wait: how long it takes, the entry as it is after the wake-up, and whether it reports a
  time-out. The turns are a list, and \<open>None\<close> means that the list ran out while the loop was still
  waiting. A result comes with the time at which the loop ends; for \<open>task.await\<close> it pairs the entry
  with \<open>timed_out\<close>. An entry found poisoned on wake-up ends the wait with an error.
\<close>

type_synonym wait_turn = "nat \<times> (nat \<Rightarrow> nat \<times> task \<times> bool)"

definition ns_of_ms :: "nat \<Rightarrow> nat" where "ns_of_ms ms = ms * 1000000"

fun await_loop ::
  "nat \<Rightarrow> nat \<Rightarrow> task \<Rightarrow> wait_turn list \<Rightarrow> (nat \<times> (rpc_error, task \<times> bool) result) option" where
  "await_loop deadline clock t [] =
     (if active_state (t_state t) then None else Some (clock, Inr (t, False)))"
| "await_loop deadline clock t ((delay, wait_timeout) # turns) =
     (if \<not> active_state (t_state t) then Some (clock, Inr (t, False))
      else let now = clock + delay in
           if deadline \<le> now then Some (now, Inr (t, True))
           else case wait_timeout (deadline - now) of
                  (took, t', timed) \<Rightarrow>
                    if t_poisoned t' then Some (now + took, Inl invariant_error)
                    else if timed \<and> active_state (t_state t') then Some (now + took, Inr (t', True))
                    else await_loop deadline (now + took) t' turns)"

definition task_await ::
  "nat option \<Rightarrow> nat \<Rightarrow> task \<Rightarrow> wait_turn list
   \<Rightarrow> (nat \<times> (rpc_error, task \<times> bool \<times> nat \<times> bool) result) option" where
  "task_await timeout_ms start t turns =
     (let requested = (case timeout_ms of Some ms \<Rightarrow> ms | None \<Rightarrow> task_await_default_ms);
          wait = min requested task_await_max_ms
      in if t_poisoned t then Some (start, Inl invariant_error)
         else map_option (map_prod id (map_sum id (\<lambda>(t', timed_out).
                  (t', timed_out, wait, task_await_max_ms < requested))))
                (await_loop (start + ns_of_ms wait) start t turns))"

text \<open>The wait of a synchronous \<open>exec\<close> with a time budget: it tests two of the three active states.\<close>

definition sync_waits :: "task_state \<Rightarrow> bool" where
  "sync_waits st \<longleftrightarrow> st = Running \<or> st = Cancelling"

fun sync_wait ::
  "nat option \<Rightarrow> nat \<Rightarrow> task \<Rightarrow> wait_turn list \<Rightarrow> (nat \<times> (rpc_error, task) result) option" where
  "sync_wait deadline clock t [] =
     (if \<not> sync_waits (t_state t) \<or> deadline = None then Some (clock, Inr t) else None)"
| "sync_wait deadline clock t ((delay, wait_timeout) # turns) =
     (if \<not> sync_waits (t_state t) then Some (clock, Inr t)
      else case deadline of
             None \<Rightarrow> Some (clock, Inr t)
           | Some d \<Rightarrow>
               let now = clock + delay in
               if d \<le> now then Some (now, Inr t)
               else case wait_timeout (d - now) of
                      (took, t', timed) \<Rightarrow>
                        if t_poisoned t' then Some (now + took, Inl invariant_error)
                        else if timed then Some (now + took, Inr t')
                        else sync_wait deadline (now + took) t' turns)"

text \<open>
  The deadline watchdog waits on any active state, stops at the deadline, and says whether it then
  asks for the cancellation.
\<close>

fun watchdog_wait :: "nat \<Rightarrow> nat \<Rightarrow> task \<Rightarrow> wait_turn list \<Rightarrow> (nat \<times> bool) option" where
  "watchdog_wait deadline clock t [] = (if active_state (t_state t) then None else Some (clock, False))"
| "watchdog_wait deadline clock t ((delay, wait_timeout) # turns) =
     (if \<not> active_state (t_state t) then Some (clock, False)
      else let now = clock + delay in
           if deadline \<le> now then Some (now, True)
           else case wait_timeout (deadline - now) of
                  (took, t', timed) \<Rightarrow>
                    if t_poisoned t' then Some (now + took, False)
                    else if timed then Some (now + took, active_state (t_state t'))
                    else watchdog_wait deadline (now + took) t' turns)"

definition deadline_watchdog :: "nat \<Rightarrow> nat \<Rightarrow> task \<Rightarrow> wait_turn list \<Rightarrow> (nat \<times> bool) option" where
  "deadline_watchdog start deadline_ms t turns =
     (if t_poisoned t then Some (start, False)
      else watchdog_wait (start + ns_of_ms deadline_ms) start t turns)"

datatype exec_reply = TimedOut | TaskError rpc_error | InlineResult string "int option" | TaskHandle

definition sync_reply :: "task \<Rightarrow> (string \<Rightarrow> bool) \<Rightarrow> exec_reply" where
  "sync_reply t in_transcript =
     (if sync_waits (t_state t) then TimedOut
      else case t_error t of
             Some e \<Rightarrow> TaskError e
           | None \<Rightarrow>
               (case t_result t of
                  Some ref \<Rightarrow> if in_transcript ref then InlineResult ref (t_exit t) else TaskHandle
                | None \<Rightarrow> TaskHandle))"

section \<open>The registry\<close>

definition max_finished_per_owner :: nat where "max_finished_per_owner = 512"
definition retention_ns :: int where "retention_ns = 24 * 60 * 60 * 1000000000"

text \<open>
  \<open>reap_finished\<close>: \<open>readable\<close> says for which entries the record could be read (an unreadable one is
  treated as unfinished).
\<close>

definition finished_of :: "(task \<Rightarrow> bool) \<Rightarrow> owner_key \<Rightarrow> task list \<Rightarrow> (task \<times> int) list" where
  "finished_of readable owner ts =
     sort_key snd (map (\<lambda>t. (t, the (t_finished t)))
       (filter (\<lambda>t. t_owner t = owner \<and> readable t \<and> t_finished t \<noteq> None) ts))"

definition reap_victims :: "int \<Rightarrow> (task \<times> int) list \<Rightarrow> (task \<times> int) list" where
  "reap_victims cutoff finished =
     (let retained = filter (\<lambda>(_, f). cutoff \<le> f) finished
      in filter (\<lambda>(_, f). f < cutoff) finished @ take (length retained - max_finished_per_owner) retained)"

definition reap_finished :: "(task \<Rightarrow> bool) \<Rightarrow> int \<Rightarrow> owner_key \<Rightarrow> task list \<Rightarrow> task list" where
  "reap_finished readable now owner ts =
     (let victims = reap_victims (saturating_i64 (now - retention_ns)) (finished_of readable owner ts)
      in filter (\<lambda>t. t_ref t \<notin> t_ref ` fst ` set victims) ts)"

definition remove_terminal_owner :: "(task \<Rightarrow> bool) \<Rightarrow> owner_key \<Rightarrow> task list \<Rightarrow> task list" where
  "remove_terminal_owner readable owner ts =
     filter (\<lambda>t. \<not> (t_owner t = owner \<and> readable t \<and> t_finished t \<noteq> None)) ts"

definition task_lookup :: "string \<Rightarrow> owner_key \<Rightarrow> task list \<Rightarrow> (rpc_error, task) result" where
  "task_lookup ref owner ts =
     (case find (\<lambda>t. t_ref t = ref) ts of
        Some t \<Rightarrow> if t_owner t \<noteq> owner then Inl (RpcError UNKNOWN_TASK ''unknown task ref'') else Inr t
      | None \<Rightarrow> Inl (RpcError UNKNOWN_TASK ''unknown task ref''))"

section \<open>The contract of an operation on a task\<close>

text \<open>A task is either active, holding its permit and its session, or finished, holding neither.\<close>

definition task_ok :: "task \<Rightarrow> bool" where
  "task_ok t \<longleftrightarrow>
     (t_finished t = None \<longleftrightarrow> active_state (t_state t))
     \<and> (t_slot t \<longleftrightarrow> active_state (t_state t)) \<and> (t_lease t \<longleftrightarrow> active_state (t_state t))
     \<and> (t_state t = Cancelling \<longrightarrow> t_cancel_requested t)"

definition task_outcome ::
  "task \<Rightarrow> task_state \<times> int option \<times> string option \<times> int option \<times> rpc_error option" where
  "task_outcome t = (t_state t, t_finished t, t_result t, t_exit t, t_error t)"

definition task_contract :: "task \<Rightarrow> task \<Rightarrow> bool \<Rightarrow> bool" where
  "task_contract t t' freed \<longleftrightarrow>
     task_ok t' \<and> t_ref t' = t_ref t \<and> t_owner t' = t_owner t
     \<and> (t_slot t' \<longleftrightarrow> t_slot t \<and> \<not> freed) \<and> (freed \<longrightarrow> t_slot t)
     \<and> (t_finished t \<noteq> None \<longrightarrow> \<not> t_poisoned t \<longrightarrow> task_outcome t' = task_outcome t)
     \<and> (t_state t = Cancelling \<longrightarrow> t_state t' \<in> {Cancelling, Cancelled, Failed})"

locale task_op =
  fixes op :: "task \<Rightarrow> task \<times> bool"
  assumes op_ok: "task_ok t \<Longrightarrow> task_ok (fst (op t))"
    and op_slot: "task_ok t \<Longrightarrow> t_slot (fst (op t)) \<longleftrightarrow> t_slot t \<and> \<not> snd (op t)"
    and op_freed: "snd (op t) \<Longrightarrow> t_slot t"
    and op_identity: "t_ref (fst (op t)) = t_ref t" "t_owner (fst (op t)) = t_owner t"
    and op_terminal: "task_ok t \<Longrightarrow> t_finished t \<noteq> None \<Longrightarrow> \<not> t_poisoned t \<Longrightarrow>
      task_outcome (fst (op t)) = task_outcome t"
    and op_cancelling: "task_ok t \<Longrightarrow> t_state t = Cancelling \<Longrightarrow>
      t_state (fst (op t)) \<in> {Cancelling, Cancelled, Failed}"
begin

lemma contract: "op t = (t', freed) \<Longrightarrow> task_ok t \<Longrightarrow> task_contract t t' freed"
  using op_ok[of t] op_slot[of t] op_freed[of t] op_identity[of t] op_terminal[of t]
    op_cancelling[of t]
  by (simp add: task_contract_def)

end

lemmas task_defs = task_ok_def task_outcome_def with_inner_def reconstruct_def active_state_def

interpretation mark_op: task_op "\<lambda>t. snd (mark_cancelling now (t\<lparr>t_cancel_requested := True\<rparr>))" for now
  by unfold_locales (auto simp: mark_cancelling_def task_defs split: if_splits)

interpretation cancel_op: task_op "\<lambda>t. snd (request_cancel now t)" for now
  by unfold_locales (auto simp: request_cancel_def mark_cancelling_def task_defs split: if_splits)

interpretation mark_deadline_op: task_op "\<lambda>t. snd (mark_deadline now t)" for now
  by unfold_locales (auto simp: mark_deadline_def task_defs split: if_splits)

interpretation deadline_op: task_op "\<lambda>t. snd (request_deadline_cancel now t)" for now
  by unfold_locales (auto simp: request_deadline_cancel_def mark_deadline_def task_defs split: if_splits)

interpretation panic_op: task_op "fail_worker_panic now" for now
  by unfold_locales (auto simp: fail_worker_panic_def task_defs split: if_splits)

interpretation suspend_op: task_op "\<lambda>t. snd (suspend_task now sig t)" for now sig
  by unfold_locales (auto simp: suspend_task_def task_defs split: sum.splits if_splits)

interpretation resume_op: task_op "\<lambda>t. snd (resume_task now sig t)" for now sig
  by unfold_locales (auto simp: resume_task_def task_defs split: sum.splits if_splits)

interpretation finish_op: task_op "\<lambda>t. snd (worker_finish now resp t)" for now resp
  by unfold_locales
    (auto simp: worker_finish_def task_defs Let_def split: response.splits sum.splits if_splits)

text \<open>Reading an entry, or waiting on it, reconstructs it when it is poisoned.\<close>

interpretation read_op: task_op "\<lambda>t. snd (with_inner now (\<lambda>t. (Inr (), t, False)) t)" for now
  by unfold_locales (auto simp: task_defs split: if_splits)

interpretation poison_op: task_op "\<lambda>t. (t\<lparr>t_poisoned := True\<rparr>, False)"
  by unfold_locales (auto simp: task_defs)

text \<open>The two atomic stores outside the mutex.\<close>

interpretation flag_op: task_op "\<lambda>t. (t\<lparr>t_cancel_requested := True\<rparr>, False)"
  by unfold_locales (auto simp: task_defs)

interpretation token_op: task_op "\<lambda>t. (t\<lparr>t_cancelled := True\<rparr>, False)"
  by unfold_locales (auto simp: task_defs)

section \<open>Tasks and their quota together\<close>

definition task_ref :: "nat \<Rightarrow> string" where
  "task_ref n = ''task:'' @ dec (n mod 2 ^ 64)"

text \<open>
  The registry with its quota. A permit is in flight between the reservation and the registration of
  its task, and again between the moment a task gives it up under its mutex and the moment it is
  dropped; a number is in flight between its allocation and the registration. Neither interval is
  under a lock the other operations take, so both are state: \<open>ks_permits\<close> and \<open>ks_refs\<close>.
\<close>

record task_sys =
  ks_tasks :: "task list"
  ks_quota :: session_quota
  ks_permits :: "owner_key list"
  ks_refs :: "nat list"
  ks_next :: nat
  ks_poisoned :: bool
  ks_quarantined :: bool

definition task_sys_init :: task_sys where
  "task_sys_init =
     \<lparr>ks_tasks = [], ks_quota = session_quota_default, ks_permits = [], ks_refs = [], ks_next = 1,
      ks_poisoned = False, ks_quarantined = False\<rparr>"

definition registry_unavailable :: rpc_error where
  "registry_unavailable = internal ''task registry is quarantined; restart the kernel''"

definition lock_entries :: "task_sys \<Rightarrow> (rpc_error, unit) result \<times> task_sys" where
  "lock_entries s =
     (if ks_quarantined s \<or> ks_poisoned s
      then (Inl registry_unavailable, s\<lparr>ks_quarantined := True\<rparr>) else (Inr (), s))"

inductive task_change :: "task \<Rightarrow> task \<Rightarrow> bool \<Rightarrow> bool" where
  cancel: "request_cancel now t = (res, t', freed) \<Longrightarrow> task_change t t' freed"
| deadline: "request_deadline_cancel now t = (res, t', freed) \<Longrightarrow> task_change t t' freed"
| suspend: "suspend_task now sig t = (res, t', freed) \<Longrightarrow> task_change t t' freed"
| resume: "resume_task now sig t = (res, t', freed) \<Longrightarrow> task_change t t' freed"
| finish: "worker_finish now resp t = (res, t', freed) \<Longrightarrow> task_change t t' freed"
| panic: "fail_worker_panic now t = (t', freed) \<Longrightarrow> task_change t t' freed"
| read: "with_inner now (\<lambda>t. (Inr (), t, False)) t = (res, t', freed) \<Longrightarrow> task_change t t' freed"
| poison: "task_change t (t\<lparr>t_poisoned := True\<rparr>) False"
| flag: "task_change t (t\<lparr>t_cancel_requested := True\<rparr>) False"
| mark: "t_cancel_requested t \<Longrightarrow> mark_cancelling now t = (res, t', freed) \<Longrightarrow> task_change t t' freed"
| mark_deadline: "mark_deadline now t = (res', t', freed) \<Longrightarrow> task_change t t' freed"
| token: "task_change t (t\<lparr>t_cancelled := True\<rparr>) False"

definition replace_task :: "task \<Rightarrow> task list \<Rightarrow> task list" where
  "replace_task t' ts = map (\<lambda>t. if t_ref t = t_ref t' then t' else t) ts"

inductive task_step :: "nat \<Rightarrow> task_sys \<Rightarrow> task_sys \<Rightarrow> bool" for max_active :: nat where
  reserve: "quota_reserve max_active owner (ks_quota s) = (Inr (), q) \<Longrightarrow>
           task_step max_active s (s\<lparr>ks_quota := q, ks_permits := owner # ks_permits s\<rparr>)"
| refuse: "quota_reserve max_active owner (ks_quota s) = (Inl e, q) \<Longrightarrow>
           task_step max_active s (s\<lparr>ks_quota := q\<rparr>)"
| allocate: "task_step max_active s (s\<lparr>ks_refs := ks_next s # ks_refs s, ks_next := ks_next s + 1\<rparr>)"
| register: "owner \<in> set (ks_permits s) \<Longrightarrow> n \<in> set (ks_refs s) \<Longrightarrow>
           task_step max_active s
             (s\<lparr>ks_tasks := new_running (task_ref n) owner session now deadline # ks_tasks s,
                ks_permits := remove1 owner (ks_permits s), ks_refs := remove1 n (ks_refs s)\<rparr>)"
| abandon: "n \<in> set (ks_refs s) \<Longrightarrow> task_step max_active s (s\<lparr>ks_refs := remove1 n (ks_refs s)\<rparr>)"
| change: "t \<in> set (ks_tasks s) \<Longrightarrow> task_change t t' freed \<Longrightarrow>
           task_step max_active s
             (s\<lparr>ks_tasks := replace_task t' (ks_tasks s),
                ks_permits := (if freed then t_owner t # ks_permits s else ks_permits s)\<rparr>)"
| release: "owner \<in> set (ks_permits s) \<Longrightarrow>
           task_step max_active s
             (s\<lparr>ks_quota := quota_drop owner (ks_quota s), ks_permits := remove1 owner (ks_permits s)\<rparr>)"
| reap: "task_step max_active s (s\<lparr>ks_tasks := reap_finished readable now owner (ks_tasks s)\<rparr>)"
| evict: "task_step max_active s (s\<lparr>ks_tasks := remove_terminal_owner readable owner (ks_tasks s)\<rparr>)"
| forget: "(\<And>t. t \<in> set (ks_tasks s) \<Longrightarrow> t_ref t = ref \<Longrightarrow> t_finished t \<noteq> None) \<Longrightarrow>
           task_step max_active s (s\<lparr>ks_tasks := filter (\<lambda>t. t_ref t \<noteq> ref) (ks_tasks s)\<rparr>)"
| quarantine: "task_step max_active s (s\<lparr>ks_poisoned := p, ks_quarantined := True\<rparr>)"
| poison: "task_step max_active s (s\<lparr>ks_poisoned := True\<rparr>)"
| poison_quota: "task_step max_active s (s\<lparr>ks_quota := (ks_quota s)\<lparr>sq_poisoned := True\<rparr>\<rparr>)"

inductive task_reachable :: "nat \<Rightarrow> task_sys \<Rightarrow> bool" for max_active :: nat where
  start: "task_reachable max_active task_sys_init"
| step: "task_reachable max_active s \<Longrightarrow> task_step max_active s s' \<Longrightarrow> task_reachable max_active s'"

text \<open>
  Applying an operation to a registered entry, and reading its record: a poisoned entry is
  reconstructed and then read. \<open>snapshot\<close> is what the process-group table answers.
\<close>

definition apply_change :: "task \<Rightarrow> task \<Rightarrow> bool \<Rightarrow> task_sys \<Rightarrow> task_sys" where
  "apply_change t t' freed s =
     s\<lparr>ks_tasks := replace_task t' (ks_tasks s),
       ks_quota := (if freed then quota_drop (t_owner t) (ks_quota s) else ks_quota s)\<rparr>"

definition run_op ::
  "(task \<Rightarrow> (rpc_error, 'a) result \<times> task \<times> bool) \<Rightarrow> task \<Rightarrow> task_sys
   \<Rightarrow> (rpc_error, 'a) result \<times> task_sys" where
  "run_op op t s = (case op t of (res, t', freed) \<Rightarrow> (res, apply_change t t' freed s))"

type_synonym task_view = "task \<times> task_controls"

definition task_record ::
  "int \<Rightarrow> (rpc_error, nat \<times> bool) result \<Rightarrow> task \<Rightarrow> (rpc_error, task_view) result \<times> task \<times> bool" where
  "task_record now snapshot t =
     (let (t', freed) = snd (with_inner now (\<lambda>t. (Inr (), t, False)) t)
      in (map_sum id (\<lambda>(groups, suspended). (t', task_controls_of groups suspended t')) snapshot, t', freed))"

fun read_records ::
  "bool \<Rightarrow> int \<Rightarrow> (task \<Rightarrow> (rpc_error, nat \<times> bool) result) \<Rightarrow> string list \<Rightarrow> task_sys
   \<Rightarrow> (rpc_error, task_view) result list \<times> task_sys" where
  "read_records stop now snapshot [] s = ([], s)"
| "read_records stop now snapshot (ref # refs) s =
     (case find (\<lambda>t. t_ref t = ref) (ks_tasks s) of
        None \<Rightarrow> read_records stop now snapshot refs s
      | Some t \<Rightarrow>
          (case run_op (task_record now (snapshot t)) t s of
             (res, s1) \<Rightarrow>
               if stop \<and> isl res then ([res], s1)
               else (case read_records stop now snapshot refs s1 of (rs, s2) \<Rightarrow> (res # rs, s2))))"

definition owner_refs :: "owner_key \<Rightarrow> task_sys \<Rightarrow> string list" where
  "owner_refs owner s = map t_ref (filter (\<lambda>t. t_owner t = owner) (ks_tasks s))"

definition reap_finished_tasks ::
  "(task \<Rightarrow> (rpc_error, nat \<times> bool) result) \<Rightarrow> int \<Rightarrow> owner_key \<Rightarrow> task_sys \<Rightarrow> task_sys" where
  "reap_finished_tasks snapshot now owner s =
     (case lock_entries s of
        (Inl _, s1) \<Rightarrow> s1
      | (Inr _, s1) \<Rightarrow>
          let s2 = snd (read_records False now snapshot (owner_refs owner s1) s1)
          in s2\<lparr>ks_tasks := reap_finished (\<lambda>t. \<not> isl (snapshot t)) now owner (ks_tasks s2)\<rparr>)"

section \<open>Handlers\<close>

definition registry_get :: "string \<Rightarrow> owner_key \<Rightarrow> task_sys \<Rightarrow> (rpc_error, task) result \<times> task_sys" where
  "registry_get ref owner s =
     (case lock_entries s of
        (Inl e, s1) \<Rightarrow> (Inl e, s1)
      | (Inr _, s1) \<Rightarrow> (task_lookup ref owner (ks_tasks s1), s1))"

text \<open>What \<open>task.get\<close>, \<open>task.cancel\<close>, \<open>task.suspend\<close> and \<open>task.resume\<close> share.\<close>

definition task_handler ::
  "(task \<Rightarrow> (rpc_error, 'a) result \<times> task \<times> bool) \<Rightarrow> (task \<Rightarrow> (rpc_error, nat \<times> bool) result) \<Rightarrow> int
   \<Rightarrow> owner_key option \<Rightarrow> string \<Rightarrow> task_sys \<Rightarrow> (rpc_error, 'a) result \<times> task_sys" where
  "task_handler op snapshot now attached ref s =
     (case attached of
        None \<Rightarrow> (Inl (RpcError NOT_ATTACHED ''attach to a session first''), s)
      | Some owner \<Rightarrow>
          (case registry_get ref owner (reap_finished_tasks snapshot now owner s) of
             (Inl e, s1) \<Rightarrow> (Inl e, s1)
           | (Inr t, s1) \<Rightarrow> run_op op t s1))"

definition handle_task_get where
  "handle_task_get snapshot now attached ref s =
     task_handler (\<lambda>t. task_record now (snapshot t) t) snapshot now attached ref s"

definition handle_task_cancel where
  "handle_task_cancel snapshot now attached ref s =
     task_handler (request_cancel now) snapshot now attached ref s"

definition handle_task_suspend where
  "handle_task_suspend signalled snapshot now attached ref s =
     task_handler (suspend_task now signalled) snapshot now attached ref s"

definition handle_task_resume where
  "handle_task_resume signalled snapshot now attached ref s =
     task_handler (resume_task now signalled) snapshot now attached ref s"

text \<open>
  \<open>task.await\<close> takes the mutex of the entry and waits. What other threads do to the registry meanwhile
  is not part of its own effect.
\<close>

definition handle_task_await where
  "handle_task_await timeout_ms start turns snapshot now attached ref s =
     task_handler (with_inner now (\<lambda>t. (Inr (task_await timeout_ms start t turns), t, False)))
       snapshot now attached ref s"

fun collect_results :: "('e, 'a) result list \<Rightarrow> ('e, 'a list) result" where
  "collect_results [] = Inr []"
| "collect_results (r # rs) =
     (case r of Inl e \<Rightarrow> Inl e | Inr x \<Rightarrow> map_sum id (\<lambda>xs. x # xs) (collect_results rs))"

definition handle_task_list ::
  "(task \<Rightarrow> (rpc_error, nat \<times> bool) result) \<Rightarrow> int \<Rightarrow> owner_key option \<Rightarrow> task_sys
   \<Rightarrow> (rpc_error, task_view list) result \<times> task_sys" where
  "handle_task_list snapshot now attached s =
     (case attached of
        None \<Rightarrow> (Inl (RpcError NOT_ATTACHED ''attach to a session first''), s)
      | Some owner \<Rightarrow>
          (case lock_entries (reap_finished_tasks snapshot now owner s) of
             (Inl e, s1) \<Rightarrow> (Inl e, s1)
           | (Inr _, s1) \<Rightarrow>
               (case read_records True now snapshot (owner_refs owner s1) s1 of
                  (rs, s2) \<Rightarrow> (collect_results rs, s2))))"

text \<open>
  Launching: \<open>spawned\<close> says whether the watchdog and worker threads could be created. An entry that
  cannot be registered is dropped with its permit.
\<close>

definition cleanup_failed_task_launch :: "int \<Rightarrow> task \<Rightarrow> task_sys \<Rightarrow> task_sys" where
  "cleanup_failed_task_launch now t s =
     (let (t', freed) = fail_worker_panic now t;
          s1 = apply_change t t' freed s
      in s1\<lparr>ks_tasks := filter (\<lambda>u. t_ref u \<noteq> t_ref t) (ks_tasks s1)\<rparr>)"

definition launch_task ::
  "nat \<Rightarrow> owner_key \<Rightarrow> string \<Rightarrow> int \<Rightarrow> nat option \<Rightarrow> bool \<Rightarrow> task_sys
   \<Rightarrow> (rpc_error, string \<times> nat option \<times> bool) result \<times> task_sys" where
  "launch_task max_active owner session now requested spawned s =
     (case quota_reserve max_active owner (ks_quota s) of
        (Inl e, q) \<Rightarrow> (Inl e, s\<lparr>ks_quota := q\<rparr>)
      | (Inr _, q) \<Rightarrow>
          let deadline = map_option (min exec_deadline_max_ms) requested;
              ref = task_ref (ks_next s);
              s1 = s\<lparr>ks_quota := q, ks_next := ks_next s + 1\<rparr>;
              t = new_running ref owner session now deadline
          in (case lock_entries s1 of
                (Inl e, s2) \<Rightarrow> (Inl e, s2\<lparr>ks_quota := quota_drop owner (ks_quota s2)\<rparr>)
              | (Inr _, s2) \<Rightarrow>
                  let s3 = s2\<lparr>ks_tasks := t # ks_tasks s2\<rparr>
                  in if spawned then (Inr (ref, deadline, requested \<noteq> deadline), s3)
                     else (Inl (internal ''spawn failed''), cleanup_failed_task_launch now t s3)))"

text \<open>The permits held by tasks of an owner.\<close>

definition slots :: "owner_key \<Rightarrow> task list \<Rightarrow> nat" where
  "slots owner ts = length (filter (\<lambda>t. t_slot t \<and> t_owner t = owner) ts)"

text \<open>All permits of an owner that exist: those its tasks hold and those in flight.\<close>

definition permits :: "owner_key \<Rightarrow> task_sys \<Rightarrow> nat" where
  "permits owner s = slots owner (ks_tasks s) + count_list (ks_permits s) owner"

definition known_refs :: "task_sys \<Rightarrow> string list" where
  "known_refs s = map t_ref (ks_tasks s) @ map task_ref (ks_refs s)"

definition tasks_inv :: "nat \<Rightarrow> task_sys \<Rightarrow> bool" where
  "tasks_inv max_active s \<longleftrightarrow>
     (\<forall>t \<in> set (ks_tasks s). task_ok t) \<and> distinct (known_refs s)
     \<and> (\<forall>r \<in> set (known_refs s). \<exists>n < ks_next s. r = task_ref n)
     \<and> (\<forall>owner. permits owner s \<le> max_active)
     \<and> (\<not> sq_quarantined (ks_quota s) \<and> \<not> sq_poisoned (ks_quota s) \<longrightarrow>
          (\<forall>owner. quota_count owner (ks_quota s) = permits owner s))"

lemma count_list_remove1:
  "count_list (remove1 x xs) y = count_list xs y - (if x = y then 1 else 0)"
proof (induction xs)
  case (Cons z zs)
  show ?case
  proof (cases "x = z \<or> x \<noteq> y \<or> y \<noteq> z")
    case False
    then show ?thesis by simp
  qed (use Cons in auto)
qed simp

lemma tasks_inv_distinct: "tasks_inv m s \<Longrightarrow> distinct (map t_ref (ks_tasks s))"
  by (simp add: tasks_inv_def known_refs_def)

lemma tasks_invI:
  assumes "\<And>t. t \<in> set (ks_tasks s) \<Longrightarrow> task_ok t" and "distinct (known_refs s)"
    and "\<And>r. r \<in> set (known_refs s) \<Longrightarrow> \<exists>n < ks_next s. r = task_ref n"
    and "\<And>owner. permits owner s \<le> m"
    and "\<And>owner. \<not> sq_quarantined (ks_quota s) \<Longrightarrow> \<not> sq_poisoned (ks_quota s)
           \<Longrightarrow> quota_count owner (ks_quota s) = permits owner s"
  shows "tasks_inv m s"
  using assms by (simp add: tasks_inv_def)

lemma task_change_contract:
  assumes "task_change t t' freed" and "task_ok t"
  shows "task_contract t t' freed"
  using assms(1)
proof (cases rule: task_change.cases)
  case (cancel now res)
  then show ?thesis using cancel_op.contract[of now] assms(2) by simp
next
  case (deadline now res)
  then show ?thesis using deadline_op.contract[of now] assms(2) by simp
next
  case (suspend now sig res)
  then show ?thesis using suspend_op.contract[of now sig] assms(2) by simp
next
  case (resume now sig res)
  then show ?thesis using resume_op.contract[of now sig] assms(2) by simp
next
  case (finish now resp res)
  then show ?thesis using finish_op.contract[of now resp] assms(2) by simp
next
  case (panic now)
  then show ?thesis using panic_op.contract[of now] assms(2) by simp
next
  case (read now res)
  then show ?thesis using read_op.contract[of now] assms(2) by simp
next
  case poison
  then show ?thesis using poison_op.contract assms(2) by simp
next
  case flag
  then show ?thesis using flag_op.contract assms(2) by simp
next
  case (mark now res)
  have "t\<lparr>t_cancel_requested := True\<rparr> = t" using mark(1) by (cases t) simp
  then show ?thesis using mark(2) mark_op.contract[of now t t' freed] assms(2) by simp
next
  case (mark_deadline now res)
  then show ?thesis using mark_deadline_op.contract[of now] assms(2) by simp
next
  case token
  then show ?thesis using token_op.contract assms(2) by simp
qed

lemma task_ref_inj: "task_ref m = task_ref n \<Longrightarrow> m < 2 ^ 64 \<Longrightarrow> n < 2 ^ 64 \<Longrightarrow> m = n"
  by (auto simp: task_ref_def dest: dec_inj)

lemma slots_replace:
  assumes "distinct (map t_ref ts)" and "t \<in> set ts" and "task_contract t t' freed"
  shows "slots owner (replace_task t' ts) = slots owner ts - (if freed \<and> t_owner t = owner then 1 else 0)"
  using assms(1,2)
proof (induction ts)
  case (Cons u us)
  have same: "t_ref t' = t_ref t" "t_owner t' = t_owner t" "t_slot t' \<longleftrightarrow> t_slot t \<and> \<not> freed"
    "freed \<longrightarrow> t_slot t"
    using assms(3) by (auto simp: task_contract_def)
  show ?case
  proof (cases "u = t")
    case True
    then have "replace_task t' us = us"
      using Cons.prems(1) same(1) unfolding replace_task_def by (intro map_idI) (auto simp: image_iff)
    moreover have "replace_task t' (u # us) = t' # replace_task t' us"
      using True same(1) by (simp add: replace_task_def)
    ultimately show ?thesis using True same by (simp add: slots_def)
  next
    case False
    then have t: "t \<in> set us" using Cons.prems by simp
    then have "t_ref u \<noteq> t_ref t'" using Cons.prems(1) same(1) by force
    moreover have "freed \<and> t_owner t = owner \<longrightarrow> 0 < slots owner us"
      using t same(4) length_pos_if_in_set[of t "filter (\<lambda>u. t_slot u \<and> t_owner u = owner) us"]
      by (simp add: slots_def)
    ultimately show ?thesis
      using Cons.IH Cons.prems t by (auto simp: slots_def replace_task_def)
  qed
qed simp

lemma slots_filter:
  assumes "\<And>t. t \<in> set ts \<Longrightarrow> \<not> P t \<Longrightarrow> \<not> t_slot t"
  shows "slots owner (filter P ts) = slots owner ts"
proof -
  have "filter (\<lambda>t. t_slot t \<and> t_owner t = owner) (filter P ts) = filter (\<lambda>t. t_slot t \<and> t_owner t = owner) ts"
    using assms by (auto simp: filter_filter intro!: filter_cong)
  then show ?thesis by (simp add: slots_def)
qed

lemma finished_of_set:
  "(t, f) \<in> set (finished_of readable owner ts) \<longleftrightarrow>
     t \<in> set ts \<and> t_owner t = owner \<and> readable t \<and> t_finished t = Some f"
  by (force simp: finished_of_def)

lemma reap_victims_subset: "set (reap_victims cutoff fs) \<subseteq> set fs"
  by (auto simp: reap_victims_def Let_def dest: in_set_takeD)

lemma reaped_finished:
  assumes "distinct (map t_ref ts)" and "t \<in> set ts" and "t \<notin> set (reap_finished readable now owner ts)"
  shows "t_finished t \<noteq> None \<and> t_owner t = owner \<and> readable t"
proof -
  let ?v = "reap_victims (saturating_i64 (now - retention_ns)) (finished_of readable owner ts)"
  from assms(2,3) obtain u f where u: "(u, f) \<in> set ?v" "t_ref u = t_ref t"
    by (auto simp: reap_finished_def Let_def)
  then have "u \<in> set ts" "t_owner u = owner" "readable u" "t_finished u = Some f"
    using reap_victims_subset finished_of_set by blast+
  moreover from this have "u = t"
    using assms(1,2) u(2) by (metis distinct_map inj_onD)
  ultimately show ?thesis by simp
qed

lemma tasks_inv_change:
  assumes inv: "tasks_inv m s" and t: "t \<in> set (ks_tasks s)" and ch: "task_change t t' freed"
  shows "tasks_inv m (s\<lparr>ks_tasks := replace_task t' (ks_tasks s),
    ks_permits := (if freed then t_owner t # ks_permits s else ks_permits s)\<rparr>)" (is "tasks_inv m ?s")
proof -
  have con: "task_contract t t' freed"
    using task_change_contract[OF ch] inv t by (simp add: tasks_inv_def)
  note same = con[unfolded task_contract_def]
  have refs: "known_refs ?s = known_refs s"
    by (auto simp: replace_task_def known_refs_def)
  have ok: "task_ok u" if "u \<in> set (ks_tasks ?s)" for u
    using that inv same by (auto simp: tasks_inv_def replace_task_def split: if_splits)
  have pos: "freed \<Longrightarrow> 0 < slots (t_owner t) (ks_tasks s)"
    using t same length_pos_if_in_set[of t "filter (\<lambda>u. t_slot u \<and> t_owner u = t_owner t) (ks_tasks s)"]
    by (simp add: slots_def)
  have "permits ow ?s = permits ow s" for ow
    using slots_replace[OF tasks_inv_distinct[OF inv] t con, of ow] pos by (auto simp: permits_def)
  then show ?thesis
    using inv ok refs by (simp add: tasks_inv_def)
qed

lemma tasks_inv_filter:
  assumes inv: "tasks_inv m s" and keep: "\<And>t. t \<in> set (ks_tasks s) \<Longrightarrow> \<not> P t \<Longrightarrow> t_finished t \<noteq> None"
  shows "tasks_inv m (s\<lparr>ks_tasks := filter P (ks_tasks s)\<rparr>)"
proof -
  have "\<not> t_slot t" if "t \<in> set (ks_tasks s)" "\<not> P t" for t
    using keep[OF that] inv that(1) by (auto simp: tasks_inv_def task_ok_def)
  then have "permits owner (s\<lparr>ks_tasks := filter P (ks_tasks s)\<rparr>) = permits owner s" for owner
    by (simp add: permits_def slots_filter)
  then show ?thesis
    using inv by (auto simp: tasks_inv_def known_refs_def distinct_map_filter)
qed

lemma tasks_inv_reserve:
  assumes inv: "tasks_inv m s" and res: "quota_reserve m owner (ks_quota s) = (Inr (), q)"
  shows "tasks_inv m (s\<lparr>ks_quota := q, ks_permits := owner # ks_permits s\<rparr>)" (is "tasks_inv m ?s")
proof -
  have h: "\<not> sq_quarantined (ks_quota s) \<and> \<not> sq_poisoned (ks_quota s)"
    using res by (auto simp: quota_reserve_def split: if_splits)
  have c: "quota_count ow (ks_quota s) = permits ow s" for ow
    using inv h by (simp add: tasks_inv_def)
  have p: "permits ow ?s = permits ow s + (if ow = owner then 1 else 0)" for ow
    by (simp add: permits_def)
  have "permits owner s < m"
    using task_slots.reserve_iff[OF h, of m owner] res by (simp add: c)
  then have "permits ow ?s \<le> m" for ow
    using inv by (simp add: p tasks_inv_def)
  moreover have "quota_count ow q = permits ow ?s" for ow
    using task_slots.reserve_count[OF h, of ow m owner] res by (auto simp: c p)
  ultimately show ?thesis
    using inv by (simp add: tasks_inv_def known_refs_def)
qed

lemma tasks_inv_allocate:
  assumes inv: "tasks_inv m s" and small: "ks_next s < 2 ^ 64"
  shows "tasks_inv m (s\<lparr>ks_refs := ks_next s # ks_refs s, ks_next := ks_next s + 1\<rparr>)"
    (is "tasks_inv m ?s")
proof -
  have "task_ref n \<noteq> task_ref (ks_next s)" if "n < ks_next s" for n
    using that small task_ref_inj[of n "ks_next s"] by auto
  then have fresh: "task_ref (ks_next s) \<notin> set (known_refs s)"
    using inv by (fastforce simp: tasks_inv_def)
  have refs: "set (known_refs ?s) = insert (task_ref (ks_next s)) (set (known_refs s))"
    "distinct (known_refs ?s) \<longleftrightarrow> task_ref (ks_next s) \<notin> set (known_refs s) \<and> distinct (known_refs s)"
    by (auto simp: known_refs_def)
  have "\<exists>n < ks_next s + 1. r = task_ref n" if "r \<in> set (known_refs ?s)" for r
    using that inv less_Suc_eq unfolding refs tasks_inv_def by (metis Suc_eq_plus1 insertE)
  moreover have "permits ow ?s = permits ow s" for ow by (simp add: permits_def)
  ultimately show ?thesis
    using inv fresh refs by (intro tasks_invI) (auto simp: tasks_inv_def)
qed

text \<open>Registering moves a number and a permit from flight into the new entry.\<close>

lemma tasks_inv_register:
  assumes inv: "tasks_inv m s" and owner: "owner \<in> set (ks_permits s)" and n: "n \<in> set (ks_refs s)"
  shows "tasks_inv m (s\<lparr>ks_tasks := new_running (task_ref n) owner session now deadline # ks_tasks s,
    ks_permits := remove1 owner (ks_permits s), ks_refs := remove1 n (ks_refs s)\<rparr>)" (is "tasks_inv m ?s")
proof -
  have new: "task_ok (new_running (task_ref n) owner session now deadline)"
    by (simp add: new_running_def task_ok_def active_state_def)
  have "image_mset task_ref (mset (ks_refs s)) = image_mset task_ref (add_mset n (mset (remove1 n (ks_refs s))))"
    using n by simp
  then have "mset (known_refs ?s) = mset (known_refs s)"
    by (simp add: known_refs_def new_running_def)
  then have refs: "set (known_refs ?s) = set (known_refs s)" "distinct (known_refs ?s) = distinct (known_refs s)"
    by (rule mset_eq_setD, rule mset_eq_imp_distinct_iff)
  have "0 < count_list (ks_permits s) owner"
    using owner by (metis count_list_0_iff gr0I)
  then have "permits ow ?s = permits ow s" for ow
    by (auto simp: permits_def slots_def new_running_def count_list_remove1)
  then show ?thesis
    using inv new refs by (intro tasks_invI) (auto simp: tasks_inv_def)
qed

lemma distinct_map_remove1: "distinct (map f xs) \<Longrightarrow> distinct (map f (remove1 x xs))"
proof (induction xs)
  case (Cons y ys)
  then show ?case using set_remove1_subset[of x ys] by auto
qed simp

lemma tasks_inv_abandon:
  assumes inv: "tasks_inv m s"
  shows "tasks_inv m (s\<lparr>ks_refs := remove1 n (ks_refs s)\<rparr>)" (is "tasks_inv m ?s")
proof -
  have "distinct (known_refs ?s)" "set (known_refs ?s) \<subseteq> set (known_refs s)"
    using inv distinct_map_remove1[of task_ref "ks_refs s" n] set_remove1_subset[of n "ks_refs s"]
    by (auto simp: tasks_inv_def known_refs_def)
  moreover have "permits ow ?s = permits ow s" for ow by (simp add: permits_def)
  ultimately show ?thesis
    using inv by (intro tasks_invI) (auto simp: tasks_inv_def)
qed

lemma tasks_inv_release:
  assumes inv: "tasks_inv m s" and owner: "owner \<in> set (ks_permits s)"
  shows "tasks_inv m (s\<lparr>ks_quota := quota_drop owner (ks_quota s), ks_permits := remove1 owner (ks_permits s)\<rparr>)"
    (is "tasks_inv m ?s")
proof -
  have pos: "0 < count_list (ks_permits s) owner"
    using owner by (metis count_list_0_iff gr0I)
  then have p: "permits ow ?s = permits ow s - (if ow = owner then 1 else 0)" for ow
    by (auto simp: permits_def count_list_remove1)
  have quota: "quota_count ow (quota_drop owner (ks_quota s)) = permits ow ?s"
    if "\<not> sq_quarantined (quota_drop owner (ks_quota s))" "\<not> sq_poisoned (quota_drop owner (ks_quota s))" for ow
  proof -
    have h: "\<not> sq_quarantined (ks_quota s) \<and> \<not> sq_poisoned (ks_quota s)"
      using that by (auto simp: quota_drop_def split: if_splits)
    then have c: "quota_count ow (ks_quota s) = permits ow s" for ow
      using inv by (simp add: tasks_inv_def)
    have "0 < quota_count owner (ks_quota s)" using pos by (simp add: c permits_def)
    then show ?thesis
      using task_slots.drop_count[OF h, of owner ow] by (auto simp: c p)
  qed
  have "permits ow ?s \<le> m" for ow
    using inv by (auto simp: p tasks_inv_def le_diff_conv trans_le_add1)
  then show ?thesis
    using inv quota by (simp add: tasks_inv_def known_refs_def)
qed

lemma tasks_inv_quota:
  assumes inv: "tasks_inv m s"
    and q: "\<not> sq_quarantined q \<Longrightarrow> \<not> sq_poisoned q \<Longrightarrow> \<not> sq_quarantined (ks_quota s) \<and> \<not> sq_poisoned (ks_quota s)
      \<and> (\<forall>ow. quota_count ow q = quota_count ow (ks_quota s))"
  shows "tasks_inv m (s\<lparr>ks_quota := q\<rparr>)"
  using inv q by (simp add: tasks_inv_def known_refs_def permits_def)

lemma tasks_inv_refuse:
  assumes inv: "tasks_inv m s" and res: "quota_reserve m owner (ks_quota s) = (Inl e, q)"
  shows "tasks_inv m (s\<lparr>ks_quota := q\<rparr>)"
  using inv
proof (rule tasks_inv_quota)
  assume "\<not> sq_quarantined q" "\<not> sq_poisoned q"
  then show "\<not> sq_quarantined (ks_quota s) \<and> \<not> sq_poisoned (ks_quota s)
      \<and> (\<forall>ow. quota_count ow q = quota_count ow (ks_quota s))"
    using res by (auto simp: quota_reserve_def quota_count_def Let_def split: if_splits)
qed

lemma tasks_inv_reap:
  assumes "tasks_inv m s"
  shows "tasks_inv m (s\<lparr>ks_tasks := reap_finished readable now owner (ks_tasks s)\<rparr>)"
proof -
  note gone = reaped_finished[OF tasks_inv_distinct[OF assms], of _ readable now owner]
  have "tasks_inv m (s\<lparr>ks_tasks := filter (\<lambda>t. t \<in> set (reap_finished readable now owner (ks_tasks s))) (ks_tasks s)\<rparr>)"
    using assms gone by (intro tasks_inv_filter) auto
  moreover have "filter (\<lambda>t. t \<in> set (reap_finished readable now owner (ks_tasks s))) (ks_tasks s)
      = reap_finished readable now owner (ks_tasks s)"
    by (auto simp: reap_finished_def Let_def intro: filter_cong)
  ultimately show ?thesis by simp
qed

lemma tasks_inv_flags: "tasks_inv m s \<Longrightarrow> tasks_inv m (s\<lparr>ks_poisoned := p, ks_quarantined := q\<rparr>)"
  by (simp add: tasks_inv_def known_refs_def permits_def)

lemma tasks_inv_step:
  assumes "task_step m s s'" and inv: "tasks_inv m s" and "ks_next s' \<le> 2 ^ 64"
  shows "tasks_inv m s'"
  using assms(1)
proof cases
  case (reserve owner q)
  then show ?thesis using tasks_inv_reserve[OF inv] by simp
next
  case (refuse owner e q)
  then show ?thesis using tasks_inv_refuse[OF inv] by simp
next
  case allocate
  then show ?thesis using tasks_inv_allocate[OF inv] assms(3) by simp
next
  case (register owner n session now deadline)
  then show ?thesis using tasks_inv_register[OF inv] by simp
next
  case (abandon n)
  then show ?thesis using tasks_inv_abandon[OF inv] by simp
next
  case (change t t' freed)
  then show ?thesis using tasks_inv_change[OF inv] by simp
next
  case (release owner)
  then show ?thesis using tasks_inv_release[OF inv] by simp
next
  case (reap readable now owner)
  then show ?thesis using tasks_inv_reap[OF inv] by simp
next
  case (evict readable owner)
  then show ?thesis
    using tasks_inv_filter[OF inv, of "\<lambda>t. \<not> (t_owner t = owner \<and> readable t \<and> t_finished t \<noteq> None)"]
    by (simp add: remove_terminal_owner_def)
next
  case (forget ref)
  then show ?thesis using tasks_inv_filter[OF inv, of "\<lambda>t. t_ref t \<noteq> ref"] by simp
next
  case (quarantine p)
  then show ?thesis using tasks_inv_flags[OF inv, where p = p and q = True] by simp
next
  case poison
  then show ?thesis using tasks_inv_flags[OF inv, where p = True and q = "ks_quarantined s"] by simp
next
  case poison_quota
  then show ?thesis
    using tasks_inv_quota[OF inv, of "(ks_quota s)\<lparr>sq_poisoned := True\<rparr>"] by simp
qed

lemma task_step_next: "task_step m s s' \<Longrightarrow> ks_next s \<le> ks_next s'"
  by (induction rule: task_step.induct) auto

lemma reachable_tasks_inv: "task_reachable m s \<Longrightarrow> ks_next s \<le> 2 ^ 64 \<Longrightarrow> tasks_inv m s"
proof (induction rule: task_reachable.induct)
  case start
  then show ?case
    by (simp add: tasks_inv_def known_refs_def permits_def task_sys_init_def slots_def
        session_quota_default_def quota_count_def)
next
  case (step s s')
  then show ?case using tasks_inv_step task_step_next by (meson le_trans)
qed

section \<open>Handlers are sequences of steps\<close>

abbreviation task_steps :: "nat \<Rightarrow> task_sys \<Rightarrow> task_sys \<Rightarrow> bool" where
  "task_steps m \<equiv> (task_step m)\<^sup>*\<^sup>*"

lemma reachable_steps: "task_steps m s s' \<Longrightarrow> task_reachable m s \<Longrightarrow> task_reachable m s'"
  by (induction rule: rtranclp_induct) (auto intro: task_reachable.step)

lemma apply_change_step:
  "t \<in> set (ks_tasks s) \<Longrightarrow> task_change t t' freed \<Longrightarrow> task_steps m s (apply_change t t' freed s)"
proof -
  assume t: "t \<in> set (ks_tasks s)" and ch: "task_change t t' freed"
  let ?s1 = "s\<lparr>ks_tasks := replace_task t' (ks_tasks s),
    ks_permits := (if freed then t_owner t # ks_permits s else ks_permits s)\<rparr>"
  have one: "task_step m s ?s1" using t ch by (rule task_step.change)
  show ?thesis
  proof (cases freed)
    case True
    then have "task_step m ?s1 (?s1\<lparr>ks_quota := quota_drop (t_owner t) (ks_quota ?s1),
        ks_permits := remove1 (t_owner t) (ks_permits ?s1)\<rparr>)"
      by (intro task_step.release) simp
    then show ?thesis
      using one True by (auto simp: apply_change_def intro: rtranclp.rtrancl_into_rtrancl)
  qed (use one in \<open>auto simp: apply_change_def\<close>)
qed

lemma run_op_steps:
  assumes "t \<in> set (ks_tasks s)" and "\<And>res t' freed. op t = (res, t', freed) \<Longrightarrow> task_change t t' freed"
  shows "task_steps m s (snd (run_op op t s))"
  using assms by (auto simp: run_op_def intro!: apply_change_step split: prod.split)

lemma task_record_change:
  assumes "task_record now sn t = (res, t', freed)"
  shows "task_change t t' freed"
proof -
  obtain r where "with_inner now (\<lambda>t. (Inr (), t, False)) t = (r :: (rpc_error, unit) result, t', freed)"
    using assms by (cases "with_inner now (\<lambda>t. (Inr (), t, False)) t" rule: prod_cases3) (auto simp: task_record_def)
  then show ?thesis by (rule task_change.read)
qed

lemma find_in_set: "find P xs = Some x \<Longrightarrow> x \<in> set xs \<and> P x"
  by (auto simp: find_Some_iff)

lemma read_records_steps: "task_steps m s (snd (read_records stop now sn refs s))"
proof (induction stop now sn refs s rule: read_records.induct)
  case (2 stop now sn ref refs s)
  show ?case
  proof (cases "find (\<lambda>t. t_ref t = ref) (ks_tasks s)")
    case None
    then show ?thesis using 2(1) by simp
  next
    case (Some t)
    obtain res s1 where op: "run_op (task_record now (sn t)) t s = (res, s1)" by fastforce
    then have one: "task_steps m s s1"
      using run_op_steps[of t s "task_record now (sn t)" m] find_in_set[OF Some] task_record_change
      by (metis snd_conv)
    show ?thesis
    proof (cases "stop \<and> isl res")
      case True
      then show ?thesis using Some op one by simp
    next
      case False
      then have "task_steps m s1 (snd (read_records stop now sn refs s1))"
        using 2(2)[OF Some op[symmetric] False] by simp
      then show ?thesis
        using Some op one False by (auto split: prod.splits)
    qed
  qed
qed simp

lemma lock_entries_steps: "task_steps m s (snd (lock_entries s))"
proof -
  have "s\<lparr>ks_quarantined := True\<rparr> = s\<lparr>ks_poisoned := ks_poisoned s, ks_quarantined := True\<rparr>" by simp
  then show ?thesis
    using task_step.quarantine[of m s "ks_poisoned s"] by (auto simp: lock_entries_def)
qed

lemma lock_entries_Inr: "lock_entries s = (Inr u, s') \<Longrightarrow> s' = s"
  by (auto simp: lock_entries_def split: if_splits)

lemma reap_finished_tasks_steps: "task_steps m s (reap_finished_tasks sn now owner s)"
proof -
  let ?s2 = "snd (read_records False now sn (owner_refs owner s) s)"
  have "task_steps m s (?s2\<lparr>ks_tasks := reap_finished (\<lambda>t. \<not> isl (sn t)) now owner (ks_tasks ?s2)\<rparr>)"
    by (rule rtranclp.rtrancl_into_rtrancl[OF read_records_steps task_step.reap])
  then show ?thesis
    using lock_entries_steps[of m s]
    by (auto simp: reap_finished_tasks_def Let_def split: prod.splits sum.splits dest: lock_entries_Inr)
qed

lemma registry_get_steps: "task_steps m s (snd (registry_get ref owner s))"
  using lock_entries_steps[of m s] by (auto simp: registry_get_def split: prod.splits sum.splits)

lemma registry_get_in: "registry_get ref owner s = (Inr t, s') \<Longrightarrow> t \<in> set (ks_tasks s')"
  by (auto simp: registry_get_def task_lookup_def split: prod.splits sum.splits option.splits if_splits
      dest: find_in_set)

lemma task_handler_steps:
  assumes "\<And>t res t' freed. op t = (res, t', freed) \<Longrightarrow> task_change t t' freed"
  shows "task_steps m s (snd (task_handler op sn now attached ref s))"
proof (cases attached)
  case (Some owner)
  let ?s1 = "reap_finished_tasks sn now owner s"
  obtain r s2 where g: "registry_get ref owner ?s1 = (r, s2)" by fastforce
  then have "task_steps m s s2"
    using registry_get_steps[of m ?s1 ref owner] reap_finished_tasks_steps[of m s sn now owner] by simp
  moreover have "task_steps m s2 (snd (run_op op t s2))" if "r = Inr t" for t
    using g that assms registry_get_in by (intro run_op_steps) auto
  ultimately show ?thesis
    using g Some by (auto simp: task_handler_def split: sum.split)
qed (simp add: task_handler_def)

lemma with_inner_read_change:
  assumes "with_inner now (\<lambda>t. (Inr (f t), t, False)) t = (res, t', freed)"
  shows "task_change t t' freed"
proof -
  obtain r where "with_inner now (\<lambda>t. (Inr (), t, False)) t = (r :: (rpc_error, unit) result, t', freed)"
    using assms by (cases "t_poisoned t") (auto simp: with_inner_def)
  then show ?thesis by (rule task_change.read)
qed

lemma cleanup_failed_task_launch_steps:
  assumes "t \<in> set (ks_tasks s)"
  shows "task_steps m s (cleanup_failed_task_launch now t s)"
proof -
  obtain t' freed where p: "fail_worker_panic now t = (t', freed)" by fastforce
  have same: "t_ref t' = t_ref t" "t_finished t' \<noteq> None"
    using p by (auto simp: fail_worker_panic_def reconstruct_def split: if_splits)
  let ?s1 = "apply_change t t' freed s"
  have "task_steps m s ?s1"
    using assms p by (intro apply_change_step task_change.panic)
  moreover have "task_step m ?s1 (?s1\<lparr>ks_tasks := filter (\<lambda>u. t_ref u \<noteq> t_ref t) (ks_tasks ?s1)\<rparr>)"
    by (rule task_step.forget) (use same in \<open>auto simp: apply_change_def replace_task_def split: if_splits\<close>)
  ultimately show ?thesis
    using p by (simp add: cleanup_failed_task_launch_def Let_def)
qed

lemma reserve_allocate_steps:
  assumes "quota_reserve m owner (ks_quota s) = (Inr (), q)"
  shows "task_steps m s (s\<lparr>ks_quota := q, ks_permits := owner # ks_permits s,
    ks_refs := ks_next s # ks_refs s, ks_next := ks_next s + 1\<rparr>)"
proof -
  let ?s1 = "s\<lparr>ks_quota := q, ks_permits := owner # ks_permits s\<rparr>"
  have "task_step m s ?s1" using assms by (rule task_step.reserve)
  moreover have "task_step m ?s1 (?s1\<lparr>ks_refs := ks_next ?s1 # ks_refs ?s1, ks_next := ks_next ?s1 + 1\<rparr>)"
    by (rule task_step.allocate)
  ultimately show ?thesis by (simp add: converse_rtranclp_into_rtranclp)
qed

lemma launch_registers_steps:
  assumes "quota_reserve m owner (ks_quota s) = (Inr (), q)"
  shows "task_steps m s (s\<lparr>ks_tasks := new_running (task_ref (ks_next s)) owner session now deadline # ks_tasks s,
    ks_quota := q, ks_next := ks_next s + 1\<rparr>)"
proof -
  let ?s2 = "s\<lparr>ks_quota := q, ks_permits := owner # ks_permits s, ks_refs := ks_next s # ks_refs s,
    ks_next := ks_next s + 1\<rparr>"
  let ?s3 = "?s2\<lparr>ks_tasks := new_running (task_ref (ks_next s)) owner session now deadline # ks_tasks ?s2,
    ks_permits := remove1 owner (ks_permits ?s2), ks_refs := remove1 (ks_next s) (ks_refs ?s2)\<rparr>"
  have "task_step m ?s2 ?s3" by (rule task_step.register) simp_all
  then have "task_steps m s ?s3"
    using reserve_allocate_steps[OF assms] by (meson rtranclp.rtrancl_into_rtrancl)
  then show ?thesis by (cases s) simp
qed

text \<open>A launch whose entry cannot be registered gives back its permit and leaves a number unused.\<close>

lemma launch_lost_steps:
  assumes "quota_reserve m owner (ks_quota s) = (Inr (), q)"
  shows "task_steps m s (s\<lparr>ks_quota := quota_drop owner q, ks_next := ks_next s + 1, ks_quarantined := True\<rparr>)"
proof -
  let ?s2 = "s\<lparr>ks_quota := q, ks_permits := owner # ks_permits s, ks_refs := ks_next s # ks_refs s,
    ks_next := ks_next s + 1\<rparr>"
  let ?s3 = "?s2\<lparr>ks_poisoned := ks_poisoned s, ks_quarantined := True\<rparr>"
  let ?s4 = "?s3\<lparr>ks_refs := remove1 (ks_next s) (ks_refs ?s3)\<rparr>"
  have "task_step m ?s2 ?s3" by (rule task_step.quarantine)
  moreover have "task_step m ?s3 ?s4" by (rule task_step.abandon) simp
  moreover have "task_step m ?s4 (?s4\<lparr>ks_quota := quota_drop owner (ks_quota ?s4),
      ks_permits := remove1 owner (ks_permits ?s4)\<rparr>)"
    by (rule task_step.release) simp
  ultimately have "task_steps m s (?s4\<lparr>ks_quota := quota_drop owner (ks_quota ?s4),
      ks_permits := remove1 owner (ks_permits ?s4)\<rparr>)"
    using reserve_allocate_steps[OF assms] by (meson rtranclp.rtrancl_into_rtrancl)
  then show ?thesis by (cases s) simp
qed

lemma launch_task_cases:
  obtains (refused) e q where "quota_reserve m owner (ks_quota s) = (Inl e, q)"
      "launch_task m owner session now requested spawned s = (Inl e, s\<lparr>ks_quota := q\<rparr>)"
  | (lost) q where "quota_reserve m owner (ks_quota s) = (Inr (), q)"
      "launch_task m owner session now requested spawned s = (Inl registry_unavailable,
        s\<lparr>ks_quota := quota_drop owner q, ks_next := ks_next s + 1, ks_quarantined := True\<rparr>)"
  | (registered) q d t s3 where "quota_reserve m owner (ks_quota s) = (Inr (), q)"
      "d = map_option (min exec_deadline_max_ms) requested"
      "t = new_running (task_ref (ks_next s)) owner session now d"
      "s3 = s\<lparr>ks_tasks := t # ks_tasks s, ks_quota := q, ks_next := ks_next s + 1\<rparr>"
      "launch_task m owner session now requested spawned s =
        (if spawned then (Inr (task_ref (ks_next s), d, requested \<noteq> d), s3)
         else (Inl (internal ''spawn failed''), cleanup_failed_task_launch now t s3))"
proof -
  obtain r q where res: "quota_reserve m owner (ks_quota s) = (r, q)" by fastforce
  let ?d = "map_option (min exec_deadline_max_ms) requested"
  have order: "s\<lparr>ks_quota := q, ks_next := n, ks_tasks := ts\<rparr> = s\<lparr>ks_tasks := ts, ks_quota := q, ks_next := n\<rparr>"
    "s\<lparr>ks_next := n, ks_quarantined := True, ks_quota := q'\<rparr> =
       s\<lparr>ks_quota := q', ks_next := n, ks_quarantined := True\<rparr>" for ts n q'
    by (cases s; simp)+
  show thesis
  proof (cases r)
    case (Inl e)
    then show thesis using res refused by (simp add: launch_task_def)
  next
    case (Inr u)
    then have q: "quota_reserve m owner (ks_quota s) = (Inr (), q)" using res by simp
    show thesis
    proof (cases "ks_quarantined s \<or> ks_poisoned s")
      case True
      with q have "launch_task m owner session now requested spawned s = (Inl registry_unavailable,
        s\<lparr>ks_quota := quota_drop owner q, ks_next := ks_next s + 1, ks_quarantined := True\<rparr>)"
        by (auto simp: launch_task_def lock_entries_def Let_def order)
      with q show thesis by (rule lost)
    next
      case False
      then show thesis
        by (intro registered[OF q refl refl refl])
          (simp add: q launch_task_def lock_entries_def Let_def order del: One_nat_def add_Suc_right)
    qed
  qed
qed

lemma launch_task_steps: "task_steps m s (snd (launch_task m owner session now requested spawned s))"
proof (cases rule: launch_task_cases[of m owner s session now requested spawned])
  case (refused e q)
  then show ?thesis using task_step.refuse[of m owner s e q] by simp
next
  case (lost q)
  then show ?thesis using launch_lost_steps by simp
next
  case (registered q d t s3)
  have "task_steps m s s3"
    unfolding registered(2-4) by (rule launch_registers_steps[OF registered(1)])
  moreover have "task_steps m s3 (cleanup_failed_task_launch now t s3)"
    using registered(4) by (intro cleanup_failed_task_launch_steps) simp
  ultimately show ?thesis using registered(5) by (simp add: rtranclp_trans[of "task_step m" s s3])
qed

lemma handle_task_list_steps: "task_steps m s (snd (handle_task_list sn now attached s))"
proof (cases attached)
  case (Some owner)
  let ?s1 = "reap_finished_tasks sn now owner s"
  have "task_steps m ?s1 (snd (read_records True now sn (owner_refs owner ?s1) ?s1))"
    by (rule read_records_steps)
  then have "task_steps m s (snd (read_records True now sn (owner_refs owner ?s1) ?s1))"
    "task_steps m s (snd (lock_entries ?s1))"
    using reap_finished_tasks_steps lock_entries_steps by (meson rtranclp_trans)+
  then show ?thesis
    using Some by (auto simp: handle_task_list_def split: prod.splits sum.splits dest: lock_entries_Inr)
qed (simp add: handle_task_list_def)

section \<open>Properties\<close>

definition active_tasks :: "owner_key \<Rightarrow> task list \<Rightarrow> task list" where
  "active_tasks owner ts = filter (\<lambda>t. t_owner t = owner \<and> t_finished t = None) ts"

lemma active_tasks_slots:
  assumes "tasks_inv m s"
  shows "length (active_tasks owner (ks_tasks s)) = slots owner (ks_tasks s)"
proof -
  have "filter (\<lambda>t. t_owner t = owner \<and> t_finished t = None) (ks_tasks s) =
      filter (\<lambda>t. t_slot t \<and> t_owner t = owner) (ks_tasks s)"
    using assms by (intro filter_cong) (auto simp: tasks_inv_def task_ok_def)
  then show ?thesis by (simp add: active_tasks_def slots_def)
qed

text \<open>
  C30. In every reachable state an owner's active tasks and the permits in flight for it (reserved for
  a task that is not yet registered, or given up by one that just finished) are together at most the
  limit, and while the quota is neither poisoned nor quarantined its count for the owner is exactly
  their number. So no owner ever has more active tasks than the limit, no permit is lost or freed
  twice, and the count is the number of active tasks whenever no permit is in flight, whatever
  launches, cancellations, deadlines, panics and poisonings interleave.
\<close>

theorem active_tasks_bounded:
  assumes "task_reachable m s" and "ks_next s \<le> 2 ^ 64"
  shows "length (active_tasks owner (ks_tasks s)) + count_list (ks_permits s) owner \<le> m
    \<and> (\<not> sq_quarantined (ks_quota s) \<and> \<not> sq_poisoned (ks_quota s) \<longrightarrow>
        quota_count owner (ks_quota s) =
          length (active_tasks owner (ks_tasks s)) + count_list (ks_permits s) owner)"
  using reachable_tasks_inv[OF assms] active_tasks_slots[of m s owner]
  by (simp add: tasks_inv_def permits_def)

text \<open>A step keeps an entry, removes it, or changes it within the contract.\<close>

lemma task_step_entry:
  assumes inv: "tasks_inv m s" and step: "task_step m s s'" and next_id: "ks_next s' \<le> 2 ^ 64"
    and t: "t \<in> set (ks_tasks s)" and t': "t' \<in> set (ks_tasks s')" and ref: "t_ref t' = t_ref t"
  shows "t' = t \<or> (\<exists>freed. task_contract t t' freed)"
proof -
  have dist: "distinct (map t_ref (ks_tasks s))" using inv by (rule tasks_inv_distinct)
  have same: "t' = t" if "t' \<in> set (ks_tasks s)"
    using dist t ref that by (metis distinct_map inj_onD)
  show ?thesis
    using step
  proof cases
    case (register owner n session now deadline)
    then show ?thesis
      using t t' ref same tasks_inv_distinct[OF tasks_inv_step[OF step inv next_id]]
      by (auto simp: new_running_def image_iff)
  next
    case (change u u' freed)
    then have con: "task_contract u u' freed"
      using inv task_change_contract by (simp add: tasks_inv_def)
    show ?thesis
    proof (cases "t' \<in> set (ks_tasks s)")
      case False
      then have "t' = u'" using change t' by (auto simp: replace_task_def split: if_splits)
      moreover have "u = t"
        using con calculation t ref change(2) dist by (metis distinct_map inj_onD task_contract_def)
      ultimately show ?thesis using con by blast
    qed (use same in simp)
  qed (use t' same in \<open>auto simp: reap_finished_def remove_terminal_owner_def Let_def\<close>)
qed

text \<open>
  C32. Every step of the task registry leaves the outcome of a task that is finished and not poisoned as
  it is: state, finish time, result, exit code and error.
\<close>

theorem finished_task_is_final:
  assumes "task_reachable m s" and "task_step m s s'" and "ks_next s' \<le> 2 ^ 64"
    and "t \<in> set (ks_tasks s)" and "t_finished t \<noteq> None" and "\<not> t_poisoned t"
    and "t' \<in> set (ks_tasks s')" and "t_ref t' = t_ref t"
  shows "task_outcome t' = task_outcome t"
proof -
  have "tasks_inv m s"
    using assms(1-3) task_step_next by (meson reachable_tasks_inv le_trans)
  from task_step_entry[OF this assms(2,3,4,7,8)] show ?thesis
    using assms(5,6) by (auto simp: task_contract_def)
qed

text \<open>
  A task that is being cancelled is never again running, suspended or completed: it stays in that
  state until it ends as cancelled, or as failed when its worker or its state broke.
\<close>

theorem cancellation_is_sticky:
  assumes "task_reachable m s" and "task_step m s s'" and "ks_next s' \<le> 2 ^ 64"
    and "t \<in> set (ks_tasks s)" and "t_state t = Cancelling"
    and "t' \<in> set (ks_tasks s')" and "t_ref t' = t_ref t"
  shows "t_state t' \<in> {Cancelling, Cancelled, Failed}"
proof -
  have "tasks_inv m s"
    using assms(1-3) task_step_next by (meson reachable_tasks_inv le_trans)
  from task_step_entry[OF this assms(2,3,4,6,7)] show ?thesis
    using assms(5) by (auto simp: task_contract_def)
qed

lemma finished_of_sorted: "sorted (map snd (finished_of readable owner ts))"
  by (simp add: finished_of_def)

text \<open>The retained entries, oldest first, and how many of them are over the cap.\<close>

definition retained :: "(task \<Rightarrow> bool) \<Rightarrow> int \<Rightarrow> owner_key \<Rightarrow> task list \<Rightarrow> (task \<times> int) list" where
  "retained readable now owner ts =
     filter (\<lambda>(_, f). saturating_i64 (now - retention_ns) \<le> f) (finished_of readable owner ts)"

definition over_cap :: "(task \<times> int) list \<Rightarrow> nat" where
  "over_cap rs = length rs - max_finished_per_owner"

lemma reap_kept:
  assumes "t \<in> set (reap_finished readable now owner ts)" and "t_owner t = owner" and "readable t"
    and "t_finished t = Some f"
  shows "(t, f) \<in> set (drop (over_cap (retained readable now owner ts)) (retained readable now owner ts))"
proof -
  let ?r = "retained readable now owner ts"
  have t: "t \<in> set ts" "t \<notin> fst ` set (reap_victims (saturating_i64 (now - retention_ns)) (finished_of readable owner ts))"
    using assms(1) by (auto simp: reap_finished_def Let_def)
  have mem: "(t, f) \<in> set (finished_of readable owner ts)"
    using assms t(1) by (simp add: finished_of_set)
  have "(t, f) \<notin> set (reap_victims (saturating_i64 (now - retention_ns)) (finished_of readable owner ts))"
    using t(2) by force
  then have "(t, f) \<in> set ?r" "(t, f) \<notin> set (take (over_cap ?r) ?r)"
    using mem by (auto simp: reap_victims_def retained_def over_cap_def Let_def)
  moreover have "set ?r = set (take (over_cap ?r) ?r) \<union> set (drop (over_cap ?r) ?r)"
    by (simp flip: set_append)
  ultimately show ?thesis by blast
qed

lemma reap_gone:
  assumes "distinct (map t_ref ts)" and "t \<in> set ts" and "t \<notin> set (reap_finished readable now owner ts)"
  obtains f where "t_finished t = Some f"
    and "f < saturating_i64 (now - retention_ns)
      \<or> (t, f) \<in> set (take (over_cap (retained readable now owner ts)) (retained readable now owner ts))"
proof -
  from assms(2,3) obtain u f where
    u: "(u, f) \<in> set (reap_victims (saturating_i64 (now - retention_ns)) (finished_of readable owner ts))"
      "t_ref u = t_ref t"
    by (auto simp: reap_finished_def Let_def)
  then have "(u, f) \<in> set (finished_of readable owner ts)" using reap_victims_subset by blast
  then have "u \<in> set ts" "t_finished u = Some f" by (simp_all add: finished_of_set)
  moreover from this have "u = t" using assms(1,2) u(2) by (metis distinct_map inj_onD)
  ultimately show ?thesis
    using u(1) that[of f] by (auto simp: reap_victims_def retained_def over_cap_def Let_def)
qed

lemma retained_order:
  assumes "(t, f) \<in> set (take k (retained readable now owner ts))"
    and "(t', f') \<in> set (drop k (retained readable now owner ts))"
  shows "f \<le> f'"
proof -
  let ?r = "retained readable now owner ts"
  have "sorted (map snd ?r)"
    using finished_of_sorted[of readable owner ts] by (simp add: retained_def sorted_map sorted_wrt_filter)
  then have "sorted (map snd (take k ?r) @ map snd (drop k ?r))"
    by (simp flip: map_append)
  then show ?thesis using assms by (force simp: sorted_append)
qed

text \<open>
  Reaping an owner's tasks removes finished tasks of that owner only; it leaves at most 512 of them,
  none finished more than 24 hours ago, and a task it removed although younger than that had
  finished no later than any it kept.
\<close>

theorem reap_keeps_newest:
  fixes readable :: "task \<Rightarrow> bool" and now :: int and owner :: owner_key and ts :: "task list"
  assumes "distinct (map t_ref ts)"
  defines "kept \<equiv> filter (\<lambda>t. t_owner t = owner \<and> readable t \<and> t_finished t \<noteq> None)
    (reap_finished readable now owner ts)"
  shows "length kept \<le> max_finished_per_owner
    \<and> (\<forall>t \<in> set kept. saturating_i64 (now - retention_ns) \<le> the (t_finished t))
    \<and> (\<forall>t \<in> set ts - set (reap_finished readable now owner ts).
         t_owner t = owner \<and> t_finished t \<noteq> None
         \<and> (saturating_i64 (now - retention_ns) \<le> the (t_finished t) \<longrightarrow>
              (\<forall>t' \<in> set kept. the (t_finished t) \<le> the (t_finished t'))))"
proof (intro conjI ballI impI)
  let ?r = "retained readable now owner ts"
  let ?d = "drop (over_cap ?r) ?r"
  have kept: "(t, the (t_finished t)) \<in> set ?d" if "t \<in> set kept" for t
    using that reap_kept[of t readable now owner ts] by (auto simp: kept_def)
  have "distinct (reap_finished readable now owner ts)"
    using assms(1) by (auto simp: reap_finished_def Let_def distinct_map)
  then have "distinct kept" unfolding kept_def by (rule distinct_filter)
  then have "length kept = card (set kept)" by (simp add: distinct_card)
  also have "set kept \<subseteq> fst ` set ?d" using kept by force
  then have "card (set kept) \<le> length ?d"
    by (meson card_image_le card_length card_mono finite_imageI finite_set le_trans)
  also have "\<dots> \<le> max_finished_per_owner" by (simp add: over_cap_def)
  finally show "length kept \<le> max_finished_per_owner" .
  show "saturating_i64 (now - retention_ns) \<le> the (t_finished t)" if "t \<in> set kept" for t
    using kept[OF that] by (auto simp: retained_def dest: in_set_dropD)
  fix t assume t: "t \<in> set ts - set (reap_finished readable now owner ts)"
  show "t_owner t = owner" "t_finished t \<noteq> None"
    using t reaped_finished[OF assms(1)] by auto
  fix t' assume young: "saturating_i64 (now - retention_ns) \<le> the (t_finished t)" and t': "t' \<in> set kept"
  then have "(t, the (t_finished t)) \<in> set (take (over_cap ?r) ?r)"
    using t reap_gone[OF assms(1), of t readable now owner] by force
  then show "the (t_finished t) \<le> the (t_finished t')"
    using retained_order kept[OF t'] by blast
qed

section \<open>The waits are timely\<close>

text \<open>
  What the loops rely on. A turn takes at least a nanosecond and at most \<open>delay\<close> up to its clock
  reading; \<open>wait_timeout\<close> comes back at most \<open>late\<close> after the duration it was given, and reports a
  time-out only when that duration has passed. \<open>delay\<close> and \<open>late\<close> are what scheduling and getting the
  mutex back add.
\<close>

definition punctual :: "nat \<Rightarrow> nat \<Rightarrow> wait_turn list \<Rightarrow> bool" where
  "punctual delay late turns \<longleftrightarrow>
     (\<forall>(d, wait_timeout) \<in> set turns. 0 < d \<and> d \<le> delay
        \<and> (\<forall>dur. fst (wait_timeout dur) \<le> dur + late
               \<and> (snd (snd (wait_timeout dur)) \<longrightarrow> dur \<le> fst (wait_timeout dur))))"

lemma punctual_Cons:
  "punctual delay late ((d, w) # turns) \<longleftrightarrow> 0 < d \<and> d \<le> delay
     \<and> (\<forall>dur. fst (w dur) \<le> dur + late \<and> (snd (snd (w dur)) \<longrightarrow> dur \<le> fst (w dur)))
     \<and> punctual delay late turns"
  by (auto simp: punctual_def)

lemma punctual_turn:
  assumes "punctual delay late ((d, w) # turns)" and "w (deadline - (clock + d)) = (took, t', timed)"
    and "clock + d < deadline" and "deadline - clock < length ((d, w) # turns)"
  shows "clock + d + took \<le> deadline + late" "timed \<Longrightarrow> deadline \<le> clock + d + took"
    "deadline - (clock + d + took) < length turns" "punctual delay late turns"
proof -
  let ?dur = "deadline - (clock + d)"
  have "0 < d" "fst (w ?dur) \<le> ?dur + late" "snd (snd (w ?dur)) \<longrightarrow> ?dur \<le> fst (w ?dur)"
    "punctual delay late turns"
    using assms(1) unfolding punctual_Cons by blast+
  then show "clock + d + took \<le> deadline + late" "timed \<Longrightarrow> deadline \<le> clock + d + took"
    "deadline - (clock + d + took) < length turns" "punctual delay late turns"
    using assms(2-4) by auto
qed

lemma await_loop_returns:
  "punctual delay late turns \<Longrightarrow> deadline - clock < length turns \<Longrightarrow> clock \<le> deadline + late \<Longrightarrow>
     \<exists>ended r. await_loop deadline clock t turns = Some (ended, r) \<and> ended \<le> deadline + late + delay
       \<and> (\<forall>t'. r = Inr (t', True) \<longrightarrow> deadline \<le> ended)"
proof (induction deadline clock t turns rule: await_loop.induct)
  case (2 deadline clock t d w turns)
  have d: "d \<le> delay" using "2.prems"(1) by (simp add: punctual_Cons)
  obtain took t' timed where w: "w (deadline - (clock + d)) = (took, t', timed)"
    by (cases "w (deadline - (clock + d))" rule: prod_cases3)
  show ?case
  proof (cases "\<not> active_state (t_state t) \<or> deadline \<le> clock + d")
    case True
    then show ?thesis using "2.prems"(3) d by auto
  next
    case False
    then have "clock + d < deadline" by simp
    note turn = punctual_turn[OF "2.prems"(1) w this "2.prems"(2)]
    show ?thesis
    proof (cases "t_poisoned t' \<or> timed \<and> active_state (t_state t')")
      case True
      then show ?thesis using False w turn by (auto simp: Let_def)
    next
      case again: False
      then have "\<exists>ended r. await_loop deadline (clock + d + took) t' turns = Some (ended, r)
          \<and> ended \<le> deadline + late + delay \<and> (\<forall>t'. r = Inr (t', True) \<longrightarrow> deadline \<le> ended)"
        using False w turn by (intro "2.IH"[OF _ refl]) auto
      then show ?thesis using False again w by (auto simp: Let_def)
    qed
  qed
qed simp

text \<open>
  C36. \<open>task.await\<close> returns in time: with \<open>wait_timeout\<close> as documented, and given one more turn than
  the wait has nanoseconds, the call ends no later than the clamped wait after its start, plus the
  lateness of one wake-up and one clock reading. The clamped wait is what was asked or 30 seconds,
  and at most 60 seconds. An answer with \<open>timed_out\<close> does not come before the clamped wait is over.
\<close>

theorem task_await_returns:
  assumes "punctual delay late turns"
    and "wait = min (case timeout_ms of Some ms \<Rightarrow> ms | None \<Rightarrow> 30000) 60000"
    and "wait * 1000000 < length turns"
  shows "\<exists>ended r. task_await timeout_ms start t turns = Some (ended, r)
    \<and> ended \<le> start + wait * 1000000 + late + delay
    \<and> (\<forall>t' w c. r = Inr (t', True, w, c) \<longrightarrow> start + wait * 1000000 \<le> ended)"
proof (cases "t_poisoned t")
  case False
  obtain ended r where r: "await_loop (start + wait * 1000000) start t turns = Some (ended, r)"
    "ended \<le> start + wait * 1000000 + late + delay"
    "\<forall>t'. r = Inr (t', True) \<longrightarrow> start + wait * 1000000 \<le> ended"
    using await_loop_returns[OF assms(1), of "start + wait * 1000000" start t] assms(3) by auto
  have wait: "min (case timeout_ms of Some ms \<Rightarrow> ms | None \<Rightarrow> task_await_default_ms) task_await_max_ms = wait"
    using assms(2) by (cases timeout_ms) (simp_all add: task_await_default_ms_def task_await_max_ms_def)
  show ?thesis
    using False r by (cases r) (auto simp: task_await_def Let_def wait ns_of_ms_def)
qed (simp add: task_await_def Let_def)

lemma await_loop_result:
  "await_loop deadline clock t turns = Some (ended, Inr (t', timed_out)) \<Longrightarrow>
     timed_out \<longleftrightarrow> active_state (t_state t')"
  by (induction deadline clock t turns rule: await_loop.induct) (auto simp: Let_def split: if_splits prod.splits)

text \<open>
  What \<open>task.await\<close> answers: \<open>timed_out\<close> exactly when the record it returns is still active, a wait
  of at most 60 seconds, and the clamping reported exactly when more was asked.
\<close>

theorem task_await_reply:
  assumes "task_await timeout_ms start t turns = Some (ended, Inr (t', timed_out, wait, clamped))"
  shows "(timed_out \<longleftrightarrow> active_state (t_state t')) \<and> wait \<le> 60000
    \<and> wait \<le> (case timeout_ms of Some ms \<Rightarrow> ms | None \<Rightarrow> 30000)
    \<and> (clamped \<longleftrightarrow> (\<exists>ms. timeout_ms = Some ms \<and> 60000 < ms))"
proof -
  let ?req = "case timeout_ms of Some ms \<Rightarrow> ms | None \<Rightarrow> task_await_default_ms"
  let ?wait = "min ?req task_await_max_ms"
  obtain r where r: "await_loop (start + ns_of_ms ?wait) start t turns = Some (ended, r)"
    "map_sum id (\<lambda>(t', timed_out). (t', timed_out, ?wait, task_await_max_ms < ?req)) r
      = Inr (t', timed_out, wait, clamped)"
    using assms by (auto simp: task_await_def Let_def split: if_splits)
  then have "r = Inr (t', timed_out)" "wait = ?wait" "clamped \<longleftrightarrow> task_await_max_ms < ?req"
    by (cases r; auto)+
  then show ?thesis
    using await_loop_result[of _ _ t turns ended t' timed_out] r(1)
    by (auto simp: task_await_max_ms_def task_await_default_ms_def split: option.splits)
qed

text \<open>
  The deadline watchdog ends in time as well, and it asks for the cancellation neither before the
  deadline nor for a task that is over.
\<close>

lemma watchdog_wait_returns:
  "punctual delay late turns \<Longrightarrow> deadline - clock < length turns \<Longrightarrow> clock \<le> deadline + late \<Longrightarrow>
     \<exists>ended ask. watchdog_wait deadline clock t turns = Some (ended, ask)
       \<and> ended \<le> deadline + late + delay \<and> (ask \<longrightarrow> deadline \<le> ended)"
proof (induction deadline clock t turns rule: watchdog_wait.induct)
  case (2 deadline clock t d w turns)
  have d: "d \<le> delay" using "2.prems"(1) by (simp add: punctual_Cons)
  obtain took t' timed where w: "w (deadline - (clock + d)) = (took, t', timed)"
    by (cases "w (deadline - (clock + d))" rule: prod_cases3)
  show ?case
  proof (cases "\<not> active_state (t_state t) \<or> deadline \<le> clock + d")
    case True
    then show ?thesis using "2.prems"(3) d by auto
  next
    case False
    then have "clock + d < deadline" by simp
    note turn = punctual_turn[OF "2.prems"(1) w this "2.prems"(2)]
    show ?thesis
    proof (cases "t_poisoned t' \<or> timed")
      case True
      then show ?thesis using False w turn by (auto simp: Let_def)
    next
      case again: False
      then have "\<exists>ended ask. watchdog_wait deadline (clock + d + took) t' turns = Some (ended, ask)
          \<and> ended \<le> deadline + late + delay \<and> (ask \<longrightarrow> deadline \<le> ended)"
        using False w turn by (intro "2.IH"[OF _ refl]) auto
      then show ?thesis using False again w by (auto simp: Let_def)
    qed
  qed
qed simp

theorem deadline_watchdog_timely:
  assumes "punctual delay late turns" and "deadline_ms * 1000000 < length turns"
  shows "\<exists>ended ask. deadline_watchdog start deadline_ms t turns = Some (ended, ask)
    \<and> ended \<le> start + deadline_ms * 1000000 + late + delay
    \<and> (ask \<longrightarrow> start + deadline_ms * 1000000 \<le> ended)"
  using watchdog_wait_returns[OF assms(1), of "start + deadline_ms * 1000000" start t] assms(2)
  by (auto simp: deadline_watchdog_def ns_of_ms_def)

text \<open>
  A synchronous \<open>exec\<close> whose task is suspended when its wait ends, at the deadline included, answers
  with a bare task handle: unlike a task that is still running it is not reported as timed out.
\<close>

theorem suspended_exec_not_timed_out:
  assumes "t_state t = Suspended" and "t_error t = None" and "t_result t = None"
  shows "sync_wait deadline clock t turns = Some (clock, Inr t) \<and> sync_reply t in_transcript = TaskHandle
    \<and> sync_reply (t\<lparr>t_state := Running\<rparr>) in_transcript = TimedOut"
  using assms by (cases turns) (auto simp: sync_waits_def sync_reply_def)

section \<open>Examples\<close>

definition task_owner :: owner_key where
  "task_owner = \<lparr>ok_principal = ''uid:1000'', ok_name = ''main'', ok_scope = ''scope''\<rparr>"

text \<open>One task, launched with a limit of one.\<close>

definition one_task :: task_sys where
  "one_task = snd (launch_task 1 task_owner ''main'' 0 None True task_sys_init)"

definition first_task :: task where
  "first_task = new_running (task_ref 1) task_owner ''main'' 0 None"

lemma one_task_reachable: "task_reachable 1 one_task"
  unfolding one_task_def by (rule reachable_steps[OF launch_task_steps task_reachable.start])

lemma one_task_fields: "ks_tasks one_task = [first_task]" "ks_next one_task = 2"
  "\<not> sq_quarantined (ks_quota one_task)" "\<not> sq_poisoned (ks_quota one_task)"
  "\<not> ks_quarantined one_task" "\<not> ks_poisoned one_task"
  by (simp_all add: one_task_def launch_task_def task_sys_init_def quota_reserve_def quota_count_def
      session_quota_default_def lock_entries_def first_task_def Let_def)

theorem active_tasks_bounded_witness:
  "length (active_tasks task_owner (ks_tasks one_task)) = 1
   \<and> quota_count task_owner (ks_quota one_task) = 1 \<and> count_list (ks_permits one_task) task_owner = 0"
proof -
  have "length (active_tasks task_owner (ks_tasks one_task)) = 1"
    by (simp add: one_task_fields active_tasks_def first_task_def new_running_def)
  then show ?thesis
    using active_tasks_bounded[OF one_task_reachable, of task_owner] by (simp add: one_task_fields)
qed

definition done_task :: task where
  "done_task = fst (snd (worker_finish 5 (RespValue (Some ''out:1'') (Some 0) (Inr False)) first_task))"

definition cancelling_task :: task where
  "cancelling_task = fst (snd (request_cancel 5 first_task))"

definition with_task :: "task \<Rightarrow> bool \<Rightarrow> task_sys" where
  "with_task t freed = apply_change first_task t freed one_task"

lemma with_task_step: "task_change first_task t freed \<Longrightarrow> task_reachable 1 (with_task t freed)"
  unfolding with_task_def
  by (intro reachable_steps[OF apply_change_step one_task_reachable]) (simp_all add: one_task_fields)

lemma with_task_tasks: "t_ref t = t_ref first_task \<Longrightarrow> ks_tasks (with_task t freed) = [t] \<and> ks_next (with_task t freed) = 2"
  by (simp add: with_task_def apply_change_def one_task_fields replace_task_def)

lemma done_task_change: "task_change first_task done_task True"
  by (rule task_change.finish[of 5 "RespValue (Some ''out:1'') (Some 0) (Inr False)"])
    (simp add: done_task_def worker_finish_def with_inner_def first_task_def new_running_def Let_def)

lemma cancelling_task_change: "task_change first_task cancelling_task False"
  by (rule task_change.cancel[of 5])
    (simp add: cancelling_task_def request_cancel_def mark_cancelling_def with_inner_def first_task_def new_running_def)

lemma done_task_fields:
  "t_ref done_task = t_ref first_task" "t_finished done_task = Some 5" "t_state done_task = Completed"
  "\<not> t_poisoned done_task" "t_owner done_task = task_owner"
  by (simp_all add: done_task_def worker_finish_def with_inner_def first_task_def new_running_def Let_def)

lemma cancelling_task_fields: "t_ref cancelling_task = t_ref first_task" "t_state cancelling_task = Cancelling"
  by (simp_all add: cancelling_task_def request_cancel_def mark_cancelling_def with_inner_def first_task_def new_running_def)

theorem finished_task_is_final_witness:
  "t_finished done_task = Some 5
   \<and> task_outcome (fst (snd (request_cancel 9 done_task))) = task_outcome done_task"
proof -
  let ?s = "with_task done_task True" and ?t = "fst (snd (request_cancel 9 done_task))"
  have ref: "t_ref ?t = t_ref done_task"
    by (simp add: request_cancel_def mark_cancelling_def with_inner_def done_task_fields)
  have "task_step 1 ?s (?s\<lparr>ks_tasks := replace_task ?t (ks_tasks ?s),
      ks_permits := (if snd (snd (request_cancel 9 done_task)) then t_owner done_task # ks_permits ?s else ks_permits ?s)\<rparr>)"
    by (intro task_step.change task_change.cancel[of 9 _ "fst (request_cancel 9 done_task)"])
      (simp_all add: with_task_tasks done_task_fields)
  from finished_task_is_final[OF with_task_step[OF done_task_change] this, of done_task ?t]
  show ?thesis
    using ref by (simp add: with_task_tasks done_task_fields replace_task_def)
qed

theorem cancellation_is_sticky_witness:
  "t_state cancelling_task = Cancelling
   \<and> t_state (fst (snd (worker_finish 9 (RespValue None (Some 0) (Inr False)) cancelling_task)))
       \<in> {Cancelling, Cancelled, Failed}"
proof -
  let ?s = "with_task cancelling_task False"
  let ?f = "worker_finish 9 (RespValue None (Some 0) (Inr False)) cancelling_task"
  have ref: "t_ref (fst (snd ?f)) = t_ref cancelling_task"
    by (simp add: worker_finish_def with_inner_def Let_def cancelling_task_def request_cancel_def mark_cancelling_def
        first_task_def new_running_def)
  have "task_step 1 ?s (?s\<lparr>ks_tasks := replace_task (fst (snd ?f)) (ks_tasks ?s),
      ks_permits := (if snd (snd ?f) then t_owner cancelling_task # ks_permits ?s else ks_permits ?s)\<rparr>)"
    by (intro task_step.change task_change.finish[of 9 "RespValue None (Some 0) (Inr False)" _ "fst ?f"])
      (simp_all add: with_task_tasks cancelling_task_fields)
  from cancellation_is_sticky[OF with_task_step[OF cancelling_task_change] this, of cancelling_task "fst (snd ?f)"]
  show ?thesis
    using ref by (simp add: with_task_tasks cancelling_task_fields replace_task_def)
qed

theorem reap_keeps_newest_witness:
  "distinct (map t_ref [done_task])
   \<and> length (filter (\<lambda>t. t_owner t = task_owner \<and> True \<and> t_finished t \<noteq> None)
       (reap_finished (\<lambda>_. True) 10 task_owner [done_task])) \<le> max_finished_per_owner"
  using reap_keeps_newest[of "[done_task]" task_owner "\<lambda>_. True" 10] by simp

text \<open>
  A wait that is woken up for nothing every millisecond, with half a millisecond of work in a turn,
  and one that times out.
\<close>

definition spurious_turns :: "nat \<Rightarrow> wait_turn list" where
  "spurious_turns n = replicate n (500000, \<lambda>dur. (min dur 1000000, first_task, dur \<le> 1000000))"

lemma spurious_turns_punctual: "punctual 500000 0 (spurious_turns n)"
  by (auto simp: punctual_def spurious_turns_def)

theorem task_await_returns_witness:
  "punctual 500000 0 (spurious_turns 60000000001)
   \<and> (\<exists>ended r. task_await (Some 99999) 7 first_task (spurious_turns 60000000001) = Some (ended, r)
        \<and> ended \<le> 7 + 60000 * 1000000 + 500000)"
  using task_await_returns[of 500000 0 "spurious_turns 60000000001" 60000 "Some 99999" 7 first_task]
    spurious_turns_punctual
  by (auto simp: spurious_turns_def)

theorem deadline_watchdog_timely_witness:
  "\<exists>ended ask. deadline_watchdog 7 5 first_task (spurious_turns 5000001) = Some (ended, ask)
     \<and> ended \<le> 7 + 5 * 1000000 + 500000"
  using deadline_watchdog_timely[of 500000 0 "spurious_turns 5000001" 5 7 first_task]
    spurious_turns_punctual
  by (auto simp: spurious_turns_def)

theorem task_await_reply_witness:
  "task_await (Some 99999) 0 first_task [(5, \<lambda>dur. (dur, first_task, True))]
     = Some (60000000000, Inr (first_task, True, 60000, True))
   \<and> active_state (t_state first_task)"
proof -
  have eval: "task_await (Some 99999) 0 first_task [(5, \<lambda>dur. (dur, first_task, True))]
      = Some (60000000000, Inr (first_task, True, 60000, True))"
    by (simp add: task_await_def task_await_max_ms_def first_task_def new_running_def active_state_def
        ns_of_ms_def)
  then show ?thesis using task_await_reply[OF eval] by simp
qed

theorem suspended_exec_not_timed_out_witness:
  "sync_reply (first_task\<lparr>t_state := Suspended\<rparr>) (\<lambda>_. False) = TaskHandle"
  using suspended_exec_not_timed_out[of "first_task\<lparr>t_state := Suspended\<rparr>" "Some 5" 0 "[]" "\<lambda>_. False"]
  by (simp add: first_task_def new_running_def)

end
