(* ===== verification/Kernel_Requests.thy ===== *)
theory Kernel_Requests
  imports Kernel_Tasks
begin

text \<open>
  The task requests of \<open>handlers_task.rs\<close> and the launch of \<open>handlers_exec/task.rs\<close> against their
  specification: the registry of \<open>Kernel_Tasks\<close> is shared by all sessions of the kernel, and a request
  must behave as if the registry held the entries of its own owner only.
\<close>

section \<open>Each owner sees a registry of its own\<close>






























section \<open>Example\<close>



end
