(* ===== verification/Proto_Frame.thy ===== *)
theory Proto_Frame
  imports Utf8
begin

text \<open>
  JSON-RPC frames: \<open>proto/frame.rs\<close>. The preflight scanner is a pushdown machine over the bytes of a
  frame that bounds nesting, values, container sizes, keys and numbers before any tree is built; its
  position in the input is modelled by the bytes that are left. Reading and writing a frame take the
  codec of \<open>serde_json\<close> as a parameter. The scanner is proved to accept exactly the JSON documents
  within the limits, given by concrete syntax trees.
\<close>

section \<open>Limits and tokens\<close>

definition max_frame_len :: nat where "max_frame_len = 16 * 1024 * 1024"
definition max_json_depth :: nat where "max_json_depth = 64"
definition max_json_nodes :: nat where "max_json_nodes = 65536"
definition max_json_container_items :: nat where "max_json_container_items = 16384"
definition max_json_key_bytes :: nat where "max_json_key_bytes = 64 * 1024"
definition max_json_number_bytes :: nat where "max_json_number_bytes = 1024"

datatype json_state =
    ArrayFirst | ArrayNext | ArrayAfterValue
  | ObjectFirstKey | ObjectNextKey | ObjectColon | ObjectValue | ObjectAfterValue

record container =
  c_state :: json_state
  c_items :: nat

datatype preflight_error = Syntax string | Complexity string

type_synonym 'a scan = "(preflight_error, 'a) result"

definition is_ws :: "char \<Rightarrow> bool" where
  "is_ws c \<longleftrightarrow> c = CHR '' '' \<or> c = CHR 0x09 \<or> c = CHR 0x0D \<or> c = CHR 0x0A"

definition skip_whitespace :: "string \<Rightarrow> string" where
  "skip_whitespace rest = dropWhile is_ws rest"

definition ascii_digit :: "char \<Rightarrow> bool" where
  "ascii_digit c \<longleftrightarrow> 48 \<le> byte_val c \<and> byte_val c \<le> 57"

definition hex_value :: "char \<Rightarrow> nat option" where
  "hex_value c =
     (let n = byte_val c in
      if 48 \<le> n \<and> n \<le> 57 then Some (n - 48)
      else if 97 \<le> n \<and> n \<le> 102 then Some (n - 97 + 10)
      else if 65 \<le> n \<and> n \<le> 70 then Some (n - 65 + 10) else None)"

fun hex_digits :: "nat \<Rightarrow> string \<Rightarrow> nat option" where
  "hex_digits v [] = Some v"
| "hex_digits v (c # cs) = (case hex_value c of Some d \<Rightarrow> hex_digits (v * 16 + d) cs | None \<Rightarrow> None)"

definition parse_hex_quad :: "string \<Rightarrow> (nat \<times> string) scan" where
  "parse_hex_quad rest =
     (if length rest < 4 then Inl (Syntax ''incomplete Unicode escape'')
      else case hex_digits 0 (take 4 rest) of
             None \<Rightarrow> Inl (Syntax ''invalid Unicode escape'')
           | Some v \<Rightarrow> Inr (v, drop 4 rest))"

definition len_utf8 :: "nat \<Rightarrow> nat" where
  "len_utf8 n = (if n < 128 then 1 else if n < 2048 then 2 else if n < 65536 then 3 else 4)"

definition high_surrogate :: "nat \<Rightarrow> bool" where
  "high_surrogate n \<longleftrightarrow> 0xd800 \<le> n \<and> n \<le> 0xdbff"

definition low_surrogate :: "nat \<Rightarrow> bool" where
  "low_surrogate n \<longleftrightarrow> 0xdc00 \<le> n \<and> n \<le> 0xdfff"

definition simple_escapes :: string where
  "simple_escapes = [CHR 0x22, CHR 0x5C, CHR ''/'', CHR ''b'', CHR ''f'', CHR ''n'', CHR ''r'', CHR ''t'']"

text \<open>An escape after its backslash: how many bytes it decodes to, and what is left.\<close>

fun parse_escape :: "string \<Rightarrow> (nat \<times> string) scan" where
  "parse_escape [] = Inl (Syntax ''invalid string escape'')"
| "parse_escape (c # cs) =
     (if c \<in> set simple_escapes then Inr (1, cs)
      else if c = CHR ''u'' then
        (case parse_hex_quad cs of
           Inl e \<Rightarrow> Inl e
         | Inr (first, r) \<Rightarrow>
             if high_surrogate first then
               (if take 2 r \<noteq> [CHR 0x5C, CHR ''u''] then Inl (Syntax ''unpaired Unicode surrogate'')
                else case parse_hex_quad (drop 2 r) of
                       Inl e \<Rightarrow> Inl e
                     | Inr (second, r') \<Rightarrow>
                         if \<not> low_surrogate second then Inl (Syntax ''unpaired Unicode surrogate'')
                         else Inr (4, r'))
             else if low_surrogate first then Inl (Syntax ''unpaired Unicode surrogate'')
             else Inr (len_utf8 first, r))
      else Inl (Syntax ''invalid string escape''))"

lemma parse_hex_quad_Inr:
  "parse_hex_quad s = Inr (v, r) \<longleftrightarrow> (\<exists>q. s = q @ r \<and> length q = 4 \<and> hex_digits 0 q = Some v)"
proof
  assume "parse_hex_quad s = Inr (v, r)"
  then show "\<exists>q. s = q @ r \<and> length q = 4 \<and> hex_digits 0 q = Some v"
    by (intro exI[of _ "take 4 s"]) (auto simp: parse_hex_quad_def split: if_splits option.splits)
qed (auto simp: parse_hex_quad_def)

lemma parse_escape_shorter: "parse_escape cs = Inr (k, r) \<Longrightarrow> length r < length cs"
proof -
  have dropped: "length ys \<le> length xs" if "drop 2 xs = q @ ys" for xs q ys :: string
    using arg_cong[OF that, of length] by simp
  assume "parse_escape cs = Inr (k, r)"
  then show ?thesis
    by (cases cs) (auto simp: parse_hex_quad_Inr split: if_splits sum.splits prod.splits dest!: dropped)
qed

function string_loop :: "string \<Rightarrow> nat \<Rightarrow> (nat \<times> string) scan" where
  "string_loop [] decoded = Inl (Syntax ''unterminated string'')"
| "string_loop (c # cs) decoded =
     (if c = CHR 0x22 then Inr (decoded, cs)
      else if byte_val c \<le> 31 then Inl (Syntax ''unescaped control in string'')
      else if c = CHR 0x5C then
        (case parse_escape cs of Inl e \<Rightarrow> Inl e | Inr (k, r) \<Rightarrow> string_loop r (decoded + k))
      else string_loop cs (decoded + 1))"
  by pat_completeness auto
termination
  by (relation "measure (length \<circ> fst)") (auto dest: parse_escape_shorter)

text \<open>Called at the opening quote.\<close>

definition parse_string :: "string \<Rightarrow> (nat \<times> string) scan" where
  "parse_string rest = string_loop (tl rest) 0"

definition parse_literal :: "string \<Rightarrow> string \<Rightarrow> string scan" where
  "parse_literal lit rest =
     (if take (length lit) rest \<noteq> lit then Inl (Syntax ''invalid literal'')
      else Inr (drop (length lit) rest))"

definition starts_with :: "(char \<Rightarrow> bool) \<Rightarrow> string \<Rightarrow> bool" where
  "starts_with P s \<longleftrightarrow> (case s of c # _ \<Rightarrow> P c | [] \<Rightarrow> False)"

definition number_integer :: "string \<Rightarrow> string scan" where
  "number_integer rest =
     (case (if starts_with (\<lambda>c. c = CHR ''-'') rest then tl rest else rest) of
        [] \<Rightarrow> Inl (Syntax ''invalid number'')
      | c # r \<Rightarrow>
          if c = CHR ''0'' then
            (if starts_with ascii_digit r then Inl (Syntax ''number has a leading zero'') else Inr r)
          else if ascii_digit c then Inr (dropWhile ascii_digit r)
          else Inl (Syntax ''invalid number''))"

definition number_fraction :: "string \<Rightarrow> string scan" where
  "number_fraction rest =
     (if starts_with (\<lambda>c. c = CHR ''.'') rest then
        (if \<not> starts_with ascii_digit (tl rest) then Inl (Syntax ''invalid number fraction'')
         else Inr (dropWhile ascii_digit (tl rest)))
      else Inr rest)"

definition number_exponent :: "string \<Rightarrow> string scan" where
  "number_exponent rest =
     (if starts_with (\<lambda>c. c = CHR ''e'' \<or> c = CHR ''E'') rest then
        (let r = (if starts_with (\<lambda>c. c = CHR ''+'' \<or> c = CHR ''-'') (tl rest) then tl (tl rest) else tl rest)
         in if \<not> starts_with ascii_digit r then Inl (Syntax ''invalid number exponent'')
            else Inr (dropWhile ascii_digit r))
      else Inr rest)"

definition parse_number :: "string \<Rightarrow> string scan" where
  "parse_number rest =
     (case number_integer rest of Inl e \<Rightarrow> Inl e | Inr r1 \<Rightarrow>
     (case number_fraction r1 of Inl e \<Rightarrow> Inl e | Inr r2 \<Rightarrow>
     (case number_exponent r2 of Inl e \<Rightarrow> Inl e | Inr r3 \<Rightarrow>
        if max_json_number_bytes < length rest - length r3
        then Inl (Complexity ''numeric token is too large'') else Inr r3)))"

section \<open>The scanner\<close>

text \<open>The stack of open containers has its top at the head.\<close>

definition push_container ::
  "json_state \<Rightarrow> container list \<Rightarrow> (container list) scan" where
  "push_container initial stk =
     (if length stk = max_json_depth then Inl (Complexity ''maximum structural depth exceeded'')
      else Inr (\<lparr>c_state = initial, c_items = 0\<rparr> # stk))"

definition admit_item :: "container \<Rightarrow> container scan" where
  "admit_item c =
     (let n = c_items c + 1 in
      if max_json_container_items < n then Inl (Complexity ''too many container items'')
      else Inr (c\<lparr>c_items := n\<rparr>))"

definition parse_key :: "string \<Rightarrow> container \<Rightarrow> (string \<times> container) scan" where
  "parse_key rest c =
     (if \<not> starts_with (\<lambda>ch. ch = CHR 0x22) rest then Inl (Syntax ''object key must be a string'')
      else case admit_item c of
             Inl e \<Rightarrow> Inl e
           | Inr c' \<Rightarrow>
               (case parse_string rest of
                  Inl e \<Rightarrow> Inl e
                | Inr (decoded, r) \<Rightarrow>
                    if max_json_key_bytes < decoded then Inl (Complexity ''object key is too large'')
                    else Inr (r, c'\<lparr>c_state := ObjectColon\<rparr>)))"

type_synonym scan_state = "container list \<times> nat \<times> string"

definition start_value :: "container list \<Rightarrow> nat \<Rightarrow> string \<Rightarrow> scan_state scan" where
  "start_value stk nodes rest =
     (let n = nodes + 1 in
      if max_json_nodes < n then Inl (Complexity ''too many JSON values'')
      else case rest of
             [] \<Rightarrow> Inl (Syntax ''unexpected end of input'')
           | c # r \<Rightarrow>
               if c = CHR ''{'' then map_sum id (\<lambda>s. (s, n, r)) (push_container ObjectFirstKey stk)
               else if c = CHR ''['' then map_sum id (\<lambda>s. (s, n, r)) (push_container ArrayFirst stk)
               else if c = CHR 0x22 then map_sum id (\<lambda>(_, r'). (stk, n, r')) (parse_string rest)
               else if c = CHR ''t'' then map_sum id (\<lambda>r'. (stk, n, r')) (parse_literal ''true'' rest)
               else if c = CHR ''f'' then map_sum id (\<lambda>r'. (stk, n, r')) (parse_literal ''false'' rest)
               else if c = CHR ''n'' then map_sum id (\<lambda>r'. (stk, n, r')) (parse_literal ''null'' rest)
               else if c = CHR ''-'' \<or> ascii_digit c then map_sum id (\<lambda>r'. (stk, n, r')) (parse_number rest)
               else Inl (Syntax ''expected JSON value''))"

text \<open>One turn of the loop inside a container, after whitespace.\<close>

definition array_item :: "container \<Rightarrow> container list \<Rightarrow> nat \<Rightarrow> string \<Rightarrow> scan_state scan" where
  "array_item c cs nodes rest =
     (case admit_item c of
        Inl e \<Rightarrow> Inl e
      | Inr c' \<Rightarrow> start_value (c'\<lparr>c_state := ArrayAfterValue\<rparr> # cs) nodes rest)"

definition container_turn :: "container \<Rightarrow> container list \<Rightarrow> nat \<Rightarrow> string \<Rightarrow> scan_state scan" where
  "container_turn c cs nodes rest =
     (let at = (\<lambda>ch. starts_with (\<lambda>x. x = ch) rest) in
      case c_state c of
        ArrayFirst \<Rightarrow> if at (CHR '']'') then Inr (cs, nodes, tl rest) else array_item c cs nodes rest
      | ArrayNext \<Rightarrow> array_item c cs nodes rest
      | ArrayAfterValue \<Rightarrow>
          if at (CHR '','') then Inr (c\<lparr>c_state := ArrayNext\<rparr> # cs, nodes, tl rest)
          else if at (CHR '']'') then Inr (cs, nodes, tl rest)
          else Inl (Syntax ''expected array comma or close'')
      | ObjectFirstKey \<Rightarrow>
          if at (CHR ''}'') then Inr (cs, nodes, tl rest)
          else map_sum id (\<lambda>(r, c'). (c' # cs, nodes, r)) (parse_key rest c)
      | ObjectNextKey \<Rightarrow> map_sum id (\<lambda>(r, c'). (c' # cs, nodes, r)) (parse_key rest c)
      | ObjectColon \<Rightarrow>
          if \<not> at (CHR '':'') then Inl (Syntax ''expected object colon'')
          else Inr (c\<lparr>c_state := ObjectValue\<rparr> # cs, nodes, tl rest)
      | ObjectValue \<Rightarrow> start_value (c\<lparr>c_state := ObjectAfterValue\<rparr> # cs) nodes rest
      | ObjectAfterValue \<Rightarrow>
          if at (CHR '','') then Inr (c\<lparr>c_state := ObjectNextKey\<rparr> # cs, nodes, tl rest)
          else if at (CHR ''}'') then Inr (cs, nodes, tl rest)
          else Inl (Syntax ''expected object comma or close''))"

lemma starts_with_simps [simp]:
  "starts_with P [] \<longleftrightarrow> False" "starts_with P (c # cs) \<longleftrightarrow> P c"
  by (simp_all add: starts_with_def)

lemma starts_withE: "starts_with P s \<Longrightarrow> \<exists>c cs. s = c # cs \<and> P c"
  by (cases s) auto

lemma string_loop_shorter: "string_loop cs n = Inr (k, r) \<Longrightarrow> length r < length cs"
proof (induction cs n arbitrary: k r rule: string_loop.induct)
  case (2 c cs n)
  then show ?case
    by (fastforce split: if_splits sum.splits dest: parse_escape_shorter)
qed simp

lemma parse_number_shorter: "parse_number s = Inr r \<Longrightarrow> length r < length s"
proof -
  have int: "length r < length s" if "number_integer s = Inr r" for s r
    using that by (cases s) (auto simp: number_integer_def length_dropWhile_le less_Suc_eq_le
        split: if_splits list.splits intro: le_SucI)
  have frac: "length r \<le> length s" if "number_fraction s = Inr r" for s r
    using that by (cases s) (auto simp: number_fraction_def length_dropWhile_le split: if_splits intro: le_SucI)
  have "length r \<le> length s" if "number_exponent s = Inr r" for s r
  proof -
    have "length (dropWhile ascii_digit (tl (tl s))) \<le> length s" "length (dropWhile ascii_digit (tl s)) \<le> length s"
      using length_dropWhile_le[of ascii_digit "tl (tl s)"] length_dropWhile_le[of ascii_digit "tl s"] by simp_all
    then show ?thesis using that by (auto simp: number_exponent_def Let_def split: if_splits)
  qed
  note this int frac
  moreover assume "parse_number s = Inr r"
  ultimately show ?thesis
    by (fastforce simp: parse_number_def split: if_splits sum.splits)
qed

lemma map_sum_Inr_iff [simp]: "map_sum id f x = Inr y \<longleftrightarrow> (\<exists>z. x = Inr z \<and> y = f z)"
  by (cases x) auto

lemma parse_string_shorter: "parse_string (c # cs) = Inr (k, r) \<Longrightarrow> length r < length (c # cs)"
  using string_loop_shorter[of cs 0 k r] by (simp add: parse_string_def)

lemma parse_literal_shorter: "parse_literal l s = Inr r \<Longrightarrow> l \<noteq> [] \<Longrightarrow> s \<noteq> [] \<Longrightarrow> length r < length s"
  by (auto simp: parse_literal_def split: if_splits)

lemma start_value_shorter: "start_value stk nodes s = Inr (stk', n', r) \<Longrightarrow> length r < length s"
proof (cases s)
  case (Cons c cs)
  assume "start_value stk nodes s = Inr (stk', n', r)"
  then consider "r = cs" | k where "parse_string s = Inr (k, r)" | l where "parse_literal l s = Inr r" "l \<noteq> []"
    | "parse_number s = Inr r"
    using Cons by (fastforce simp: start_value_def Let_def split: if_splits)
  then show ?thesis
    using Cons by cases (auto dest!: parse_string_shorter parse_literal_shorter parse_number_shorter)
qed (simp add: start_value_def Let_def split: if_splits)

lemma container_turn_shorter:
  "container_turn c cs nodes s = Inr (stk', n', r) \<Longrightarrow> length r < length s"
proof -
  have item: "length r < length s" if "array_item c cs nodes s = Inr (stk', n', r)"
    using that by (auto simp: array_item_def split: sum.splits dest: start_value_shorter)
  have key: "length r < length s" if "parse_key s c = Inr (r, c')" for c'
    using that parse_string_shorter by (cases s) (fastforce simp: parse_key_def split: if_splits sum.splits)+
  assume "container_turn c cs nodes s = Inr (stk', n', r)"
  then show ?thesis
    using item key
    by (cases s; cases "c_state c") (auto simp: container_turn_def Let_def split: if_splits dest!: start_value_shorter)
qed

function scan_loop :: "bool \<Rightarrow> container list \<Rightarrow> nat \<Rightarrow> string \<Rightarrow> unit scan" where
  "scan_loop root_done stk nodes bytes =
     (let rest = skip_whitespace bytes in
      case stk of
        [] \<Rightarrow>
          if root_done then (if rest = [] then Inr () else Inl (Syntax ''trailing content''))
          else if rest = [] then Inl (Syntax ''missing root value'')
          else (case start_value [] nodes rest of
                  Inl e \<Rightarrow> Inl e
                | Inr (s, n, r) \<Rightarrow> scan_loop True s n r)
      | c # cs \<Rightarrow>
          (case container_turn c cs nodes rest of
             Inl e \<Rightarrow> Inl e
           | Inr (s, n, r) \<Rightarrow> scan_loop root_done s n r))"
  by pat_completeness auto
termination
  by (relation "measure (\<lambda>(_, _, _, bytes). length bytes)")
    (auto simp: skip_whitespace_def dest!: start_value_shorter container_turn_shorter
    intro: less_le_trans[OF _ length_dropWhile_le])

declare scan_loop.simps [simp del]

definition preflight :: "string \<Rightarrow> unit scan" where
  "preflight bytes =
     (if \<not> valid_utf8 bytes then Inl (Syntax ''invalid UTF-8'') else scan_loop False [] 0 bytes)"

section \<open>JSON documents\<close>

text \<open>
  The grammar of JSON, independent of the scanner: token languages, and concrete syntax trees that
  carry their whitespace.
\<close>

inductive string_body :: "string \<Rightarrow> nat \<Rightarrow> bool" where
  empty: "string_body [] 0"
| plain: "byte_val c > 31 \<Longrightarrow> c \<noteq> CHR 0x22 \<Longrightarrow> c \<noteq> CHR 0x5C \<Longrightarrow> string_body b n \<Longrightarrow> string_body (c # b) (n + 1)"
| escape: "c \<in> set simple_escapes \<Longrightarrow> string_body b n \<Longrightarrow> string_body (CHR 0x5C # c # b) (n + 1)"
| scalar: "length q = 4 \<Longrightarrow> hex_digits 0 q = Some v \<Longrightarrow> \<not> high_surrogate v \<Longrightarrow> \<not> low_surrogate v \<Longrightarrow>
    string_body b n \<Longrightarrow> string_body (CHR 0x5C # CHR ''u'' # q @ b) (n + len_utf8 v)"
| pair: "length q = 4 \<Longrightarrow> hex_digits 0 q = Some v \<Longrightarrow> high_surrogate v \<Longrightarrow>
    length q' = 4 \<Longrightarrow> hex_digits 0 q' = Some v' \<Longrightarrow> low_surrogate v' \<Longrightarrow>
    string_body b n \<Longrightarrow>
    string_body (CHR 0x5C # CHR ''u'' # q @ CHR 0x5C # CHR ''u'' # q' @ b) (n + 4)"

definition string_token :: "string \<Rightarrow> nat \<Rightarrow> bool" where
  "string_token s n \<longleftrightarrow> (\<exists>b. s = CHR 0x22 # b @ [CHR 0x22] \<and> string_body b n)"

definition digit_run :: "string \<Rightarrow> bool" where
  "digit_run s \<longleftrightarrow> s \<noteq> [] \<and> (\<forall>c \<in> set s. ascii_digit c)"

definition integer_token :: "string \<Rightarrow> bool" where
  "integer_token s \<longleftrightarrow> s = ''0'' \<or> digit_run s \<and> hd s \<noteq> CHR ''0''"

definition fraction_token :: "string \<Rightarrow> bool" where
  "fraction_token s \<longleftrightarrow> s = [] \<or> (\<exists>ds. s = CHR ''.'' # ds \<and> digit_run ds)"

definition exponent_token :: "string \<Rightarrow> bool" where
  "exponent_token s \<longleftrightarrow>
     s = [] \<or> (\<exists>e sg ds. s = e # sg @ ds \<and> e \<in> {CHR ''e'', CHR ''E''} \<and> sg \<in> {[], ''+'', ''-''} \<and> digit_run ds)"

definition number_token :: "string \<Rightarrow> bool" where
  "number_token s \<longleftrightarrow>
     (\<exists>sg i f e. s = sg @ i @ f @ e \<and> sg \<in> {[], ''-''} \<and> integer_token i \<and> fraction_token f \<and> exponent_token e)"

lemma take_2_iff: "take 2 xs = [a, b] \<longleftrightarrow> (\<exists>t. xs = a # b # t)"
  by (cases xs; cases "tl xs") auto

lemma parse_escape_sound:
  assumes "parse_escape cs = Inr (k, r)" and b: "string_body b j"
  shows "\<exists>p. cs = p @ r \<and> string_body (CHR 0x5C # p @ b) (j + k)"
proof (cases cs)
  case (Cons d ds)
  consider "d \<in> set simple_escapes" "k = 1" "r = ds"
    | v where "d = CHR ''u''" "parse_hex_quad ds = Inr (v, r)" "\<not> high_surrogate v" "\<not> low_surrogate v" "k = len_utf8 v"
    | v t v' where "d = CHR ''u''" "parse_hex_quad ds = Inr (v, CHR 0x5C # CHR ''u'' # t)" "high_surrogate v"
        "parse_hex_quad t = Inr (v', r)" "low_surrogate v'" "k = 4"
    using assms(1) Cons by (auto simp: take_2_iff split: if_splits sum.splits)
  then show ?thesis
  proof cases
    case 1
    then show ?thesis using Cons string_body.escape[OF _ b] by (intro exI[of _ "[d]"]) simp
  next
    case 2
    then obtain q where "ds = q @ r" "length q = 4" "hex_digits 0 q = Some v"
      by (auto simp: parse_hex_quad_Inr)
    then show ?thesis
      using Cons 2 string_body.scalar[OF _ _ _ _ b] by (intro exI[of _ "CHR ''u'' # q"]) simp
  next
    case 3
    then obtain q q' where "ds = q @ CHR 0x5C # CHR ''u'' # q' @ r" "length q = 4" "hex_digits 0 q = Some v"
      "length q' = 4" "hex_digits 0 q' = Some v'"
      by (auto simp: parse_hex_quad_Inr)
    then show ?thesis
      using Cons 3 string_body.pair[OF _ _ _ _ _ _ b]
      by (intro exI[of _ "CHR ''u'' # q @ CHR 0x5C # CHR ''u'' # q'"]) simp
  qed
qed (use assms in simp)

lemma string_loop_sound:
  "string_loop cs n = Inr (m, rest) \<Longrightarrow> \<exists>b k. cs = b @ CHR 0x22 # rest \<and> string_body b k \<and> m = n + k"
proof (induction cs n arbitrary: m rest rule: string_loop.induct)
  case (2 c cs n)
  consider "c = CHR 0x22" | "c = CHR 0x5C" | "c \<noteq> CHR 0x22" "c \<noteq> CHR 0x5C" by blast
  then show ?case
  proof cases
    case 1
    then show ?thesis using 2(3) by (auto intro: string_body.empty)
  next
    case c: 2
    then obtain k r where esc: "parse_escape cs = Inr (k, r)" "string_loop r (n + k) = Inr (m, rest)"
      using 2(3) by (auto split: sum.splits)
    then obtain b j where b: "r = b @ CHR 0x22 # rest" "string_body b j" "m = n + k + j"
      using 2(1)[of "(k, r)" k r] c by force
    obtain p where "cs = p @ r" "string_body (CHR 0x5C # p @ b) (j + k)"
      using parse_escape_sound[OF esc(1) b(2)] by blast
    then show ?thesis using b c by (intro exI[of _ "CHR 0x5C # p @ b"] exI[of _ "j + k"]) simp
  next
    case c: 3
    then obtain b k where "cs = b @ CHR 0x22 # rest" "string_body b k" "m = n + 1 + k"
      using 2(2,3) by (auto split: if_splits)
    then show ?thesis
      using c 2(3) string_body.plain[of c b k] by (intro exI[of _ "c # b"] exI[of _ "k + 1"]) (auto split: if_splits)
  qed
qed simp

lemma string_loop_complete: "string_body b k \<Longrightarrow> string_loop (b @ CHR 0x22 # rest) n = Inr (n + k, rest)"
proof (induction arbitrary: n rule: string_body.induct)
  case (scalar q v b k)
  then have "parse_hex_quad (q @ b @ CHR 0x22 # rest) = Inr (v, b @ CHR 0x22 # rest)"
    by (auto simp: parse_hex_quad_Inr)
  then show ?case using scalar by (simp add: simple_escapes_def ac_simps)
next
  case (pair q v q' v' b k)
  then have "parse_hex_quad (q @ CHR 0x5C # CHR ''u'' # q' @ b @ CHR 0x22 # rest) =
      Inr (v, CHR 0x5C # CHR ''u'' # q' @ b @ CHR 0x22 # rest)"
    "parse_hex_quad (q' @ b @ CHR 0x22 # rest) = Inr (v', b @ CHR 0x22 # rest)"
    by (auto simp: parse_hex_quad_Inr)
  then show ?case using pair by (simp add: simple_escapes_def ac_simps)
qed auto

lemma parse_string_iff:
  "parse_string (CHR 0x22 # cs) = Inr (n, rest) \<longleftrightarrow> (\<exists>s. CHR 0x22 # cs = s @ rest \<and> string_token s n)"
  using string_loop_sound[of cs 0 n rest] string_loop_complete[of _ n rest 0]
  by (fastforce simp: parse_string_def string_token_def)

lemma digit_run_split:
  "starts_with ascii_digit s \<Longrightarrow> s = takeWhile ascii_digit s @ dropWhile ascii_digit s \<and> digit_run (takeWhile ascii_digit s)"
  by (cases s) (auto simp: digit_run_def dest: set_takeWhileD)

lemma dropWhile_digits:
  "\<forall>c \<in> set ds. ascii_digit c \<Longrightarrow> \<not> starts_with ascii_digit rest \<Longrightarrow> dropWhile ascii_digit (ds @ rest) = rest"
  by (induction ds) (cases rest, auto)+

lemma digit_run_starts: "digit_run ds \<Longrightarrow> starts_with ascii_digit (ds @ rest)"
  by (cases ds) (auto simp: digit_run_def)

text \<open>What may follow a number: nothing that would extend it.\<close>

definition number_stop :: "string \<Rightarrow> bool" where
  "number_stop s \<longleftrightarrow> \<not> starts_with (\<lambda>c. ascii_digit c \<or> c = CHR ''.'' \<or> c = CHR ''e'' \<or> c = CHR ''E'') s"

lemma number_integer_sound:
  assumes "number_integer s = Inr r"
  shows "\<exists>sg i. s = sg @ i @ r \<and> sg \<in> {[], ''-''} \<and> integer_token i"
proof -
  let ?t = "if starts_with (\<lambda>c. c = CHR ''-'') s then tl s else s"
  have sg: "\<exists>sg. s = sg @ ?t \<and> sg \<in> {[], ''-''}" by (cases s) auto
  obtain c cs where t: "?t = c # cs" using assms by (auto simp: number_integer_def split: list.splits)
  have "\<exists>i. c # cs = i @ r \<and> integer_token i"
  proof (cases "c = CHR ''0''")
    case True
    then show ?thesis using assms t
      by (auto simp: number_integer_def integer_token_def split: if_splits)
  next
    case False
    then have "ascii_digit c" "r = dropWhile ascii_digit cs"
      using assms t by (auto simp: number_integer_def split: if_splits)
    then show ?thesis
      using False by (intro exI[of _ "c # takeWhile ascii_digit cs"])
        (auto simp: integer_token_def digit_run_def dest: set_takeWhileD)
  qed
  then show ?thesis using sg t by metis
qed

lemma number_integer_complete:
  assumes "sg \<in> {[], ''-''}" and "integer_token i" and "\<not> starts_with ascii_digit rest"
  shows "number_integer (sg @ i @ rest) = Inr rest"
proof -
  obtain c cs where i: "i = c # cs" "ascii_digit c" "\<forall>x \<in> set cs. ascii_digit x" "c = CHR ''0'' \<longrightarrow> cs = []"
    using assms(2) by (cases i) (auto simp: integer_token_def digit_run_def ascii_digit_def)
  then have "c \<noteq> CHR ''-''" by (auto simp: ascii_digit_def)
  then show ?thesis
    using assms i dropWhile_digits[of cs rest] by (auto simp: number_integer_def)
qed

lemma number_fraction_sound:
  assumes "number_fraction s = Inr r"
  shows "\<exists>f. s = f @ r \<and> fraction_token f"
proof (cases "starts_with (\<lambda>c. c = CHR ''.'') s")
  case True
  then obtain t where "s = CHR ''.'' # t" by (cases s) auto
  then show ?thesis
    using assms digit_run_split[of t] unfolding fraction_token_def
    by (intro exI[of _ "CHR ''.'' # takeWhile ascii_digit t"]) (auto simp: number_fraction_def split: if_splits)
next
  case False
  then show ?thesis using assms by (auto simp: number_fraction_def fraction_token_def)
qed

lemma number_fraction_complete:
  assumes "fraction_token f" and "\<not> starts_with (\<lambda>c. ascii_digit c \<or> c = CHR ''.'') rest"
  shows "number_fraction (f @ rest) = Inr rest"
proof (cases "f = []")
  case True
  then show ?thesis using assms(2) by (cases rest) (auto simp: number_fraction_def)
next
  case False
  then obtain ds where "f = CHR ''.'' # ds" "digit_run ds" using assms(1) by (auto simp: fraction_token_def)
  then show ?thesis
    using assms(2) dropWhile_digits[of ds rest] digit_run_starts[of ds rest]
    by (cases rest) (auto simp: number_fraction_def digit_run_def)
qed

lemma number_exponent_sound:
  assumes "number_exponent s = Inr r"
  shows "\<exists>e. s = e @ r \<and> exponent_token e"
proof (cases "starts_with (\<lambda>c. c = CHR ''e'' \<or> c = CHR ''E'') s")
  case True
  then obtain c t where s: "s = c # t" "c \<in> {CHR ''e'', CHR ''E''}" by (cases s) auto
  let ?u = "if starts_with (\<lambda>c. c = CHR ''+'' \<or> c = CHR ''-'') t then tl t else t"
  have "\<exists>sg. t = sg @ ?u \<and> sg \<in> {[], ''+'', ''-''}" by (cases t) auto
  then obtain sg where sg: "t = sg @ ?u" "sg \<in> {[], ''+'', ''-''}" by blast
  have "starts_with ascii_digit ?u" "r = dropWhile ascii_digit ?u"
    using assms s by (auto simp: number_exponent_def Let_def split: if_splits)
  then have u: "?u = takeWhile ascii_digit ?u @ r" "digit_run (takeWhile ascii_digit ?u)"
    using digit_run_split[of ?u] by simp_all
  have "s = (c # sg @ takeWhile ascii_digit ?u) @ r" using s sg(1) u(1) by simp
  moreover have "exponent_token (c # sg @ takeWhile ascii_digit ?u)"
    unfolding exponent_token_def using s(2) sg(2) u(2) by blast
  ultimately show ?thesis by blast
next
  case False
  then show ?thesis using assms by (auto simp: number_exponent_def exponent_token_def)
qed

lemma number_exponent_complete:
  assumes "exponent_token e" and "number_stop rest"
  shows "number_exponent (e @ rest) = Inr rest"
proof (cases "e = []")
  case True
  then show ?thesis using assms(2) by (cases rest) (auto simp: number_exponent_def number_stop_def)
next
  case False
  then obtain c sg ds where e: "e = c # sg @ ds" "c \<in> {CHR ''e'', CHR ''E''}" "sg \<in> {[], ''+'', ''-''}" "digit_run ds"
    using assms(1) by (auto simp: exponent_token_def)
  have ds: "starts_with ascii_digit (ds @ rest)" "dropWhile ascii_digit (ds @ rest) = rest"
    using e(4) assms(2) dropWhile_digits[of ds rest] digit_run_starts[of ds rest]
    by (cases rest; auto simp: digit_run_def number_stop_def)+
  then have "\<not> starts_with (\<lambda>c. c = CHR ''+'' \<or> c = CHR ''-'') (ds @ rest)"
    by (cases "ds @ rest") (auto simp: ascii_digit_def)
  then show ?thesis using e ds by (auto simp: number_exponent_def Let_def)
qed

lemma parse_number_sound:
  assumes "parse_number s = Inr r"
  shows "\<exists>t. s = t @ r \<and> number_token t \<and> length t \<le> max_json_number_bytes"
proof -
  obtain r1 r2 where p: "number_integer s = Inr r1" "number_fraction r1 = Inr r2" "number_exponent r2 = Inr r"
    and len: "length s - length r \<le> max_json_number_bytes"
    using assms by (auto simp: parse_number_def split: sum.splits if_splits)
  obtain sg i f e where "s = sg @ i @ f @ e @ r" "sg \<in> {[], ''-''}" "integer_token i" "fraction_token f" "exponent_token e"
    using number_integer_sound[OF p(1)] number_fraction_sound[OF p(2)] number_exponent_sound[OF p(3)] by auto
  then show ?thesis
    using len unfolding number_token_def by (intro exI[of _ "sg @ i @ f @ e"]) (simp, blast)
qed

lemma parse_number_complete:
  assumes "number_token t" and "length t \<le> max_json_number_bytes" and "number_stop rest"
  shows "parse_number (t @ rest) = Inr rest"
proof -
  obtain sg i f e where t: "t = sg @ i @ f @ e" "sg \<in> {[], ''-''}" "integer_token i" "fraction_token f" "exponent_token e"
    using assms(1) by (auto simp: number_token_def)
  have stop: "\<not> starts_with (\<lambda>c. ascii_digit c \<or> c = CHR ''.'') (e @ rest)"
    using t(5) assms(3) by (cases rest) (auto simp: exponent_token_def number_stop_def ascii_digit_def)
  then have "\<not> starts_with ascii_digit (f @ e @ rest)"
    using t(4) by (cases "e @ rest") (auto simp: fraction_token_def ascii_digit_def)
  then show ?thesis
    using t assms number_integer_complete[of sg i "f @ e @ rest"] number_fraction_complete[OF t(4) stop]
      number_exponent_complete[OF t(5) assms(3)]
    by (simp add: parse_number_def)
qed

subsection \<open>Concrete syntax trees\<close>

datatype cst =
    CLiteral string
  | CNumber string
  | CString string
  | CArray string "celem list"
  | CObject string "cmember list"
and celem = Elem string cst string
and cmember = Member string string string string cst string

text \<open>The first string of an empty container is the whitespace between its brackets.\<close>

fun comma_sep :: "string list \<Rightarrow> string" where
  "comma_sep [] = []"
| "comma_sep (x # xs) = x @ concat (map (\<lambda>y. CHR '','' # y) xs)"

fun unparse :: "cst \<Rightarrow> string" and unparse_elem :: "celem \<Rightarrow> string" and unparse_member :: "cmember \<Rightarrow> string" where
  "unparse (CLiteral s) = s"
| "unparse (CNumber s) = s"
| "unparse (CString s) = s"
| "unparse (CArray w es) = ''['' @ (if es = [] then w else comma_sep (map unparse_elem es)) @ '']''"
| "unparse (CObject w ms) = ''{'' @ (if ms = [] then w else comma_sep (map unparse_member ms)) @ ''}''"
| "unparse_elem (Elem w t w') = w @ unparse t @ w'"
| "unparse_member (Member w k x y t w') = w @ k @ x @ '':'' @ y @ unparse t @ w'"

fun cst_nodes :: "cst \<Rightarrow> nat" and elem_nodes :: "celem \<Rightarrow> nat" and member_nodes :: "cmember \<Rightarrow> nat" where
  "cst_nodes (CArray w es) = 1 + sum_list (map elem_nodes es)"
| "cst_nodes (CObject w ms) = 1 + sum_list (map member_nodes ms)"
| "cst_nodes _ = 1"
| "elem_nodes (Elem w t w') = cst_nodes t"
| "member_nodes (Member w k x y t w') = cst_nodes t"

definition max_list :: "nat list \<Rightarrow> nat" where
  "max_list ns = foldr max ns 0"

fun cst_depth :: "cst \<Rightarrow> nat" and elem_depth :: "celem \<Rightarrow> nat" and member_depth :: "cmember \<Rightarrow> nat" where
  "cst_depth (CArray w es) = 1 + max_list (map elem_depth es)"
| "cst_depth (CObject w ms) = 1 + max_list (map member_depth ms)"
| "cst_depth _ = 0"
| "elem_depth (Elem w t w') = cst_depth t"
| "member_depth (Member w k x y t w') = cst_depth t"

definition ws :: "string \<Rightarrow> bool" where
  "ws s \<longleftrightarrow> list_all is_ws s"

text \<open>Well-formed tokens, containers and keys within the limits.\<close>

fun cst_ok :: "cst \<Rightarrow> bool" and elem_ok :: "celem \<Rightarrow> bool" and member_ok :: "cmember \<Rightarrow> bool" where
  "cst_ok (CLiteral s) \<longleftrightarrow> s \<in> {''true'', ''false'', ''null''}"
| "cst_ok (CNumber s) \<longleftrightarrow> number_token s \<and> length s \<le> max_json_number_bytes"
| "cst_ok (CString s) \<longleftrightarrow> (\<exists>n. string_token s n)"
| "cst_ok (CArray w es) \<longleftrightarrow> ws w \<and> list_all elem_ok es \<and> length es \<le> max_json_container_items"
| "cst_ok (CObject w ms) \<longleftrightarrow> ws w \<and> list_all member_ok ms \<and> length ms \<le> max_json_container_items"
| "elem_ok (Elem w t w') \<longleftrightarrow> ws w \<and> cst_ok t \<and> ws w'"
| "member_ok (Member w k x y t w') \<longleftrightarrow>
     ws w \<and> (\<exists>n \<le> max_json_key_bytes. string_token k n) \<and> ws x \<and> ws y \<and> cst_ok t \<and> ws w'"

definition json_document :: "string \<Rightarrow> bool" where
  "json_document bytes \<longleftrightarrow>
     (\<exists>w t w'. bytes = w @ unparse t @ w' \<and> ws w \<and> ws w' \<and> cst_ok t
        \<and> cst_nodes t \<le> max_json_nodes \<and> cst_depth t \<le> max_json_depth)"

section \<open>What an open container still needs\<close>

text \<open>
  \<open>closes st i bs m d\<close>: the bytes \<open>bs\<close> end a container that is in state \<open>st\<close> with \<open>i\<close> items, reading
  \<open>m\<close> further values of nesting at most \<open>d\<close>.
\<close>

definition elems_tail :: "celem list \<Rightarrow> string" where
  "elems_tail es = concat (map (\<lambda>e. CHR '','' # unparse_elem e) es) @ '']''"

definition members_tail :: "cmember list \<Rightarrow> string" where
  "members_tail ms = concat (map (\<lambda>e. CHR '','' # unparse_member e) ms) @ ''}''"

definition after_elem :: "nat \<Rightarrow> string \<Rightarrow> nat \<Rightarrow> nat \<Rightarrow> bool" where
  "after_elem i bs m d \<longleftrightarrow>
     (\<exists>w es. bs = w @ elems_tail es \<and> ws w \<and> list_all elem_ok es \<and> i + length es \<le> max_json_container_items
        \<and> m = sum_list (map elem_nodes es) \<and> d = max_list (map elem_depth es))"

definition after_member :: "nat \<Rightarrow> string \<Rightarrow> nat \<Rightarrow> nat \<Rightarrow> bool" where
  "after_member i bs m d \<longleftrightarrow>
     (\<exists>w ms. bs = w @ members_tail ms \<and> ws w \<and> list_all member_ok ms \<and> i + length ms \<le> max_json_container_items
        \<and> m = sum_list (map member_nodes ms) \<and> d = max_list (map member_depth ms))"

definition then_value :: "(string \<Rightarrow> nat \<Rightarrow> nat \<Rightarrow> bool) \<Rightarrow> string \<Rightarrow> nat \<Rightarrow> nat \<Rightarrow> bool" where
  "then_value K bs m d \<longleftrightarrow>
     (\<exists>w t bs' m' d'. bs = w @ unparse t @ bs' \<and> ws w \<and> cst_ok t \<and> K bs' m' d'
        \<and> m = cst_nodes t + m' \<and> d = max (cst_depth t) d')"

definition then_colon :: "nat \<Rightarrow> string \<Rightarrow> nat \<Rightarrow> nat \<Rightarrow> bool" where
  "then_colon i bs m d \<longleftrightarrow> (\<exists>w bs'. bs = w @ '':'' @ bs' \<and> ws w \<and> then_value (after_member i) bs' m d)"

definition then_key :: "nat \<Rightarrow> string \<Rightarrow> nat \<Rightarrow> nat \<Rightarrow> bool" where
  "then_key i bs m d \<longleftrightarrow>
     (\<exists>w k n bs'. bs = w @ k @ bs' \<and> ws w \<and> string_token k n \<and> n \<le> max_json_key_bytes
        \<and> i + 1 \<le> max_json_container_items \<and> then_colon (i + 1) bs' m d)"

fun closes :: "json_state \<Rightarrow> nat \<Rightarrow> string \<Rightarrow> nat \<Rightarrow> nat \<Rightarrow> bool" where
  "closes ArrayAfterValue i bs m d \<longleftrightarrow> after_elem i bs m d"
| "closes ArrayNext i bs m d \<longleftrightarrow>
     i + 1 \<le> max_json_container_items \<and> then_value (after_elem (i + 1)) bs m d"
| "closes ArrayFirst i bs m d \<longleftrightarrow>
     (\<exists>w. bs = w @ '']'' \<and> ws w \<and> m = 0 \<and> d = 0)
     \<or> i + 1 \<le> max_json_container_items \<and> then_value (after_elem (i + 1)) bs m d"
| "closes ObjectAfterValue i bs m d \<longleftrightarrow> after_member i bs m d"
| "closes ObjectValue i bs m d \<longleftrightarrow> then_value (after_member i) bs m d"
| "closes ObjectColon i bs m d \<longleftrightarrow> then_colon i bs m d"
| "closes ObjectNextKey i bs m d \<longleftrightarrow> then_key i bs m d"
| "closes ObjectFirstKey i bs m d \<longleftrightarrow>
     (\<exists>w. bs = w @ ''}'' \<and> ws w \<and> m = 0 \<and> d = 0) \<or> then_key i bs m d"

fun completes :: "container list \<Rightarrow> nat \<Rightarrow> string \<Rightarrow> bool" where
  "completes [] n rest \<longleftrightarrow> ws rest \<and> n \<le> max_json_nodes"
| "completes (c # cs) n rest \<longleftrightarrow>
     (\<exists>bs rest' m d. rest = bs @ rest' \<and> closes (c_state c) (c_items c) bs m d
        \<and> d + length (c # cs) \<le> max_json_depth \<and> completes cs (n + m) rest')"

lemma max_list_simps [simp]: "max_list [] = 0" "max_list (n # ns) = max n (max_list ns)"
  by (simp_all add: max_list_def)

lemma ws_simps [simp]: "ws []" "ws (c # s) \<longleftrightarrow> is_ws c \<and> ws s" "ws (s @ t) \<longleftrightarrow> ws s \<and> ws t"
  by (simp_all add: ws_def)

lemma ws_takeWhile [simp]: "ws (takeWhile is_ws s)"
  by (induction s) auto

lemma skip_ws_split: "s = takeWhile is_ws s @ skip_whitespace s"
  by (simp add: skip_whitespace_def)

lemma skip_ws_append [simp]: "ws w \<Longrightarrow> skip_whitespace (w @ s) = skip_whitespace s"
  by (induction w) (auto simp: skip_whitespace_def)

lemma skip_ws_id: "starts_with (\<lambda>c. \<not> is_ws c) s \<Longrightarrow> skip_whitespace s = s"
  by (cases s) (auto simp: skip_whitespace_def)

lemma skip_ws_Nil: "skip_whitespace s = [] \<longleftrightarrow> ws s"
  by (induction s) (auto simp: skip_whitespace_def)

text \<open>The first byte of a value tells what it is.\<close>

fun value_head :: "cst \<Rightarrow> char \<Rightarrow> bool" where
  "value_head (CLiteral s) c \<longleftrightarrow> s \<noteq> [] \<and> c = hd s \<and> c \<in> {CHR ''t'', CHR ''f'', CHR ''n''}"
| "value_head (CNumber s) c \<longleftrightarrow> c = CHR ''-'' \<or> ascii_digit c"
| "value_head (CString s) c \<longleftrightarrow> c = CHR 0x22"
| "value_head (CArray w es) c \<longleftrightarrow> c = CHR ''[''"
| "value_head (CObject w ms) c \<longleftrightarrow> c = CHR ''{''"

lemma number_token_head: "number_token s \<Longrightarrow> \<exists>c r. s = c # r \<and> (c = CHR ''-'' \<or> ascii_digit c)"
  by (auto simp: number_token_def integer_token_def digit_run_def ascii_digit_def neq_Nil_conv)

lemma unparse_head: "cst_ok t \<Longrightarrow> \<exists>c r. unparse t = c # r \<and> value_head t c"
  using number_token_head by (cases t) (auto simp: string_token_def)

lemma value_head_not_ws: "value_head t c \<Longrightarrow> \<not> is_ws c \<and> c \<noteq> CHR '']'' \<and> c \<noteq> CHR ''}''"
  by (cases t) (auto simp: is_ws_def ascii_digit_def)

definition value_completes :: "container list \<Rightarrow> nat \<Rightarrow> string \<Rightarrow> bool" where
  "value_completes stk n s \<longleftrightarrow>
     (\<exists>t rest. s = unparse t @ rest \<and> cst_ok t \<and> cst_depth t + length stk \<le> max_json_depth
        \<and> completes stk (n + cst_nodes t) rest)"

definition resumes :: "scan_state scan \<Rightarrow> bool" where
  "resumes r = (case r of Inl _ \<Rightarrow> False | Inr (stk, n, rest) \<Rightarrow> completes stk n rest)"

lemma resumes_simps [simp]:
  "resumes (Inl e) \<longleftrightarrow> False" "resumes (Inr (stk, n, rest)) \<longleftrightarrow> completes stk n rest"
  by (simp_all add: resumes_def)

lemma resumes_map_sum:
  "resumes (map_sum id f x) \<longleftrightarrow> (\<exists>y. x = Inr y \<and> resumes (Inr (f y)))"
  by (cases x) auto

lemma completes_nodes: "completes stk n rest \<Longrightarrow> n \<le> max_json_nodes"
  by (induction stk arbitrary: n rest) (auto intro: add_leD1)

lemma elems_tail_simps:
  "elems_tail [] = '']''" "elems_tail (e # es) = CHR '','' # unparse_elem e @ elems_tail es"
  by (simp_all add: elems_tail_def)

lemma members_tail_simps:
  "members_tail [] = ''}''" "members_tail (e # es) = CHR '','' # unparse_member e @ members_tail es"
  by (simp_all add: members_tail_def)

definition value_end :: "container list \<Rightarrow> bool" where
  "value_end stk \<longleftrightarrow> stk = [] \<or> c_state (hd stk) \<in> {ArrayAfterValue, ObjectAfterValue}"

lemma completes_stop:
  assumes "value_end stk" and "completes stk n rest"
  shows "number_stop rest"
proof -
  have ws_stop: "number_stop (w @ s)" if "ws w" "number_stop s" for w s
    using that by (cases w) (auto simp: number_stop_def is_ws_def ascii_digit_def)
  have "number_stop (elems_tail es @ s)" "number_stop (members_tail ms @ s)" for es ms s
    by (cases es; cases ms; simp add: elems_tail_simps members_tail_simps number_stop_def ascii_digit_def)+
  then show ?thesis
    using assms ws_stop ws_stop[of rest "[]"]
    by (cases stk) (auto simp: value_end_def after_elem_def after_member_def number_stop_def)
qed

lemma array_closes:
  "closes ArrayFirst 0 bs m d \<longleftrightarrow>
   (\<exists>w es. CHR ''['' # bs = unparse (CArray w es) \<and> cst_ok (CArray w es)
      \<and> cst_nodes (CArray w es) = m + 1 \<and> cst_depth (CArray w es) = d + 1)" (is "_ \<longleftrightarrow> ?r")
proof
  assume "closes ArrayFirst 0 bs m d"
  then consider w where "bs = w @ '']''" "ws w" "m = 0" "d = 0"
    | w t w' es where "bs = w @ unparse t @ w' @ elems_tail es" "ws w" "cst_ok t" "ws w'" "list_all elem_ok es"
      "1 + length es \<le> max_json_container_items" "m = cst_nodes t + sum_list (map elem_nodes es)"
      "d = max (cst_depth t) (max_list (map elem_depth es))"
    by (auto simp: then_value_def after_elem_def)
  then show ?r
  proof cases
    case (1 w)
    then show ?thesis by (intro exI[of _ w] exI[of _ "[]"]) (simp add: max_json_container_items_def)
  next
    case (2 w t w' es)
    then show ?thesis
      by (intro exI[of _ "[]"] exI[of _ "Elem w t w' # es"]) (simp add: elems_tail_def o_def)
  qed
next
  assume ?r
  then obtain w es where es: "CHR ''['' # bs = unparse (CArray w es)" "cst_ok (CArray w es)"
    "cst_nodes (CArray w es) = m + 1" "cst_depth (CArray w es) = d + 1" by blast
  show "closes ArrayFirst 0 bs m d"
  proof (cases es)
    case (Cons e es')
    then show ?thesis
      using es by (cases e) (fastforce simp: then_value_def after_elem_def elems_tail_def o_def)
  qed (use es in auto)
qed

lemma then_key_member:
  assumes "member_ok x" and "list_all member_ok ms" and "i + 1 + length ms \<le> max_json_container_items"
  shows "then_key i (unparse_member x @ members_tail ms) (member_nodes x + sum_list (map member_nodes ms))
    (max (member_depth x) (max_list (map member_depth ms)))" (is "then_key i _ ?m ?d")
proof -
  obtain v k a b t w' where x: "x = Member v k a b t w'" by (cases x)
  have "after_member (i + 1) (w' @ members_tail ms) (sum_list (map member_nodes ms)) (max_list (map member_depth ms))"
    using assms x by (auto simp: after_member_def)
  then have "then_value (after_member (i + 1)) (b @ unparse t @ w' @ members_tail ms) ?m ?d"
    using assms x unfolding then_value_def
    by (intro exI[of _ b] exI[of _ t] exI[of _ "w' @ members_tail ms"] exI[of _ "sum_list (map member_nodes ms)"]
        exI[of _ "max_list (map member_depth ms)"]) auto
  then have "then_colon (i + 1) (a @ '':'' @ b @ unparse t @ w' @ members_tail ms) ?m ?d"
    using assms x unfolding then_colon_def by auto
  then show ?thesis
    using assms x unfolding then_key_def by auto
qed

lemma object_closes:
  "closes ObjectFirstKey 0 bs m d \<longleftrightarrow>
   (\<exists>w ms. CHR ''{'' # bs = unparse (CObject w ms) \<and> cst_ok (CObject w ms)
      \<and> cst_nodes (CObject w ms) = m + 1 \<and> cst_depth (CObject w ms) = d + 1)" (is "_ \<longleftrightarrow> ?r")
proof
  assume "closes ObjectFirstKey 0 bs m d"
  then consider w where "bs = w @ ''}''" "ws w" "m = 0" "d = 0"
    | w k n x y t w' ms where "bs = w @ k @ x @ '':'' @ y @ unparse t @ w' @ members_tail ms" "ws w"
      "string_token k n" "n \<le> max_json_key_bytes" "ws x" "ws y" "cst_ok t" "ws w'" "list_all member_ok ms"
      "1 + length ms \<le> max_json_container_items" "m = cst_nodes t + sum_list (map member_nodes ms)"
      "d = max (cst_depth t) (max_list (map member_depth ms))"
    by (auto simp: then_key_def then_colon_def then_value_def after_member_def)
  then show ?r
  proof cases
    case (1 w)
    then show ?thesis by (intro exI[of _ w] exI[of _ "[]"]) (simp add: max_json_container_items_def)
  next
    case (2 w k n x y t w' ms)
    then show ?thesis
      by (intro exI[of _ "[]"] exI[of _ "Member w k x y t w' # ms"]) (auto simp: members_tail_def o_def)
  qed
next
  assume ?r
  then obtain w ms where ms: "CHR ''{'' # bs = unparse (CObject w ms)" "cst_ok (CObject w ms)"
    "cst_nodes (CObject w ms) = m + 1" "cst_depth (CObject w ms) = d + 1" by blast
  show "closes ObjectFirstKey 0 bs m d"
  proof (cases ms)
    case (Cons e ms')
    then show ?thesis
      using ms then_key_member[of e ms' 0] by (simp add: members_tail_def o_def)
  qed (use ms in auto)
qed

lemma parse_literal_iff: "parse_literal l s = Inr r \<longleftrightarrow> s = l @ r"
  by (auto simp: parse_literal_def) (metis append_take_drop_id)

lemma value_completes_open:
  assumes "c = CHR ''['' \<and> st = ArrayFirst \<or> c = CHR ''{'' \<and> st = ObjectFirstKey" and "length stk \<le> max_json_depth"
  shows "value_completes stk n (c # r) \<longleftrightarrow>
    length stk \<noteq> max_json_depth \<and> completes (\<lparr>c_state = st, c_items = 0\<rparr> # stk) (n + 1) r"
    (is "?l \<longleftrightarrow> ?r")
proof -
  have "?l \<longleftrightarrow> (\<exists>bs rest m d. r = bs @ rest \<and> closes st 0 bs m d \<and> d + 1 + length stk \<le> max_json_depth
      \<and> completes stk (n + (m + 1)) rest)" (is "_ \<longleftrightarrow> ?m")
  proof
    assume ?l
    then obtain t rest where t: "c # r = unparse t @ rest" "cst_ok t" "cst_depth t + length stk \<le> max_json_depth"
      "completes stk (n + cst_nodes t) rest" by (auto simp: value_completes_def)
    then have h: "value_head t c" using unparse_head[of t] by auto
    then obtain bs where bs: "unparse t = c # bs" using unparse_head[OF t(2)] t(1) by auto
    have "closes st 0 bs (cst_nodes t - 1) (cst_depth t - 1) \<and> 0 < cst_nodes t \<and> 0 < cst_depth t"
    proof (cases t)
      case (CArray w es)
      then show ?thesis using assms(1) h bs t(2) array_closes[of bs "cst_nodes t - 1" "cst_depth t - 1"] by fastforce
    next
      case (CObject w ms)
      then show ?thesis using assms(1) h bs t(2) object_closes[of bs "cst_nodes t - 1" "cst_depth t - 1"] by fastforce
    qed (use assms(1) h in \<open>auto simp: ascii_digit_def\<close>)
    then show ?m using t bs
      by (intro exI[of _ bs] exI[of _ rest] exI[of _ "cst_nodes t - 1"] exI[of _ "cst_depth t - 1"]) auto
  next
    assume ?m
    then obtain bs rest m d where m: "r = bs @ rest" "closes st 0 bs m d" "d + 1 + length stk \<le> max_json_depth"
      "completes stk (n + (m + 1)) rest" by blast
    obtain t where "c # bs = unparse t" "cst_ok t" "cst_nodes t = m + 1" "cst_depth t = d + 1"
      using assms(1) m(2) array_closes[of bs m d] object_closes[of bs m d] by blast
    then show ?l using m unfolding value_completes_def
      by (intro exI[of _ t] exI[of _ rest]) (auto simp flip: append_Cons)
  qed
  then show ?thesis using assms(2) by (auto simp: ac_simps)
qed

text \<open>Scalars: the tree is determined by the token the scanner reads.\<close>

lemma value_completes_scalar:
  assumes head: "\<And>t. value_head t c \<Longrightarrow> \<exists>tok. t = mk tok"
    and mk: "\<And>tok. unparse (mk tok) = tok \<and> cst_nodes (mk tok) = 1 \<and> cst_depth (mk tok) = 0"
    and "length stk \<le> max_json_depth"
  shows "value_completes stk n (c # r) \<longleftrightarrow>
    (\<exists>tok rest. c # r = tok @ rest \<and> cst_ok (mk tok) \<and> completes stk (n + 1) rest)"
proof
  assume "value_completes stk n (c # r)"
  then obtain t rest where t: "c # r = unparse t @ rest" "cst_ok t" "completes stk (n + cst_nodes t) rest"
    by (auto simp: value_completes_def)
  then have "value_head t c" using unparse_head[of t] by auto
  then show "\<exists>tok rest. c # r = tok @ rest \<and> cst_ok (mk tok) \<and> completes stk (n + 1) rest"
    using head[of t] mk t by metis
next
  assume "\<exists>tok rest. c # r = tok @ rest \<and> cst_ok (mk tok) \<and> completes stk (n + 1) rest"
  then show "value_completes stk n (c # r)"
    using mk assms(3) unfolding value_completes_def by (metis add_0)
qed

lemma value_head_scalar:
  "value_head t (CHR 0x22) \<Longrightarrow> \<exists>tok. t = CString tok"
  "value_head t c \<Longrightarrow> c \<in> {CHR ''t'', CHR ''f'', CHR ''n''} \<Longrightarrow> \<exists>tok. t = CLiteral tok"
  "value_head t c \<Longrightarrow> c = CHR ''-'' \<or> ascii_digit c \<Longrightarrow> \<exists>tok. t = CNumber tok"
  by (cases t; auto simp: ascii_digit_def)+

lemma value_completes_literal:
  assumes "length stk \<le> max_json_depth" and "lit \<in> {''true'', ''false'', ''null''}" and "c = hd lit"
  shows "value_completes stk n (c # r) \<longleftrightarrow> (\<exists>rest. parse_literal lit (c # r) = Inr rest \<and> completes stk (n + 1) rest)"
proof -
  have "value_completes stk n (c # r) \<longleftrightarrow>
      (\<exists>tok rest. c # r = tok @ rest \<and> cst_ok (CLiteral tok) \<and> completes stk (n + 1) rest)"
    using assms by (intro value_completes_scalar) (auto dest: value_head_scalar(2))
  also have "\<dots> \<longleftrightarrow> (\<exists>rest. c # r = lit @ rest \<and> completes stk (n + 1) rest)"
    using assms(2,3) by auto
  finally show ?thesis by (simp add: parse_literal_iff)
qed

lemma value_completes_number:
  assumes "length stk \<le> max_json_depth" and "c = CHR ''-'' \<or> ascii_digit c" and "value_end stk"
  shows "value_completes stk n (c # r) \<longleftrightarrow> (\<exists>rest. parse_number (c # r) = Inr rest \<and> completes stk (n + 1) rest)"
proof -
  have "value_completes stk n (c # r) \<longleftrightarrow>
      (\<exists>tok rest. c # r = tok @ rest \<and> cst_ok (CNumber tok) \<and> completes stk (n + 1) rest)"
    using assms by (intro value_completes_scalar) (auto dest: value_head_scalar(3))
  then show ?thesis
    using parse_number_sound[of "c # r"] parse_number_complete completes_stop[OF assms(3)]
    by (metis cst_ok.simps(2))
qed

lemma start_value_completes:
  assumes "length stk \<le> max_json_depth" and "value_end stk"
  shows "value_completes stk n s \<longleftrightarrow> resumes (start_value stk n s)"
proof (cases "n + 1 \<le> max_json_nodes \<and> s \<noteq> []")
  case False
  have "1 \<le> cst_nodes t" for t by (cases t) auto
  then have "\<not> value_completes stk n s"
    using False completes_nodes unparse_head unfolding value_completes_def
    by (metis add_left_mono append_is_Nil_conv le_trans list.discI)
  then show ?thesis using False by (auto simp: start_value_def Let_def split: list.splits)
next
  case True
  then obtain c r where s: "s = c # r" by (cases s) auto
  have start: "start_value stk n s =
      (if c = CHR ''{'' then map_sum id (\<lambda>s. (s, n + 1, r)) (push_container ObjectFirstKey stk)
       else if c = CHR ''['' then map_sum id (\<lambda>s. (s, n + 1, r)) (push_container ArrayFirst stk)
       else if c = CHR 0x22 then map_sum id (\<lambda>(_, r'). (stk, n + 1, r')) (parse_string s)
       else if c = CHR ''t'' then map_sum id (\<lambda>r'. (stk, n + 1, r')) (parse_literal ''true'' s)
       else if c = CHR ''f'' then map_sum id (\<lambda>r'. (stk, n + 1, r')) (parse_literal ''false'' s)
       else if c = CHR ''n'' then map_sum id (\<lambda>r'. (stk, n + 1, r')) (parse_literal ''null'' s)
       else if c = CHR ''-'' \<or> ascii_digit c then map_sum id (\<lambda>r'. (stk, n + 1, r')) (parse_number s)
       else Inl (Syntax ''expected JSON value''))"
    using True s by (simp add: start_value_def Let_def)
  consider "c = CHR ''{''" | "c = CHR ''[''" | "c = CHR 0x22" | "c = CHR ''t''" | "c = CHR ''f''" | "c = CHR ''n''"
    | "c = CHR ''-'' \<or> ascii_digit c" "c \<notin> {CHR ''{'', CHR ''['', CHR 0x22, CHR ''t'', CHR ''f'', CHR ''n''}"
    | "\<not> (c = CHR ''-'' \<or> ascii_digit c)" "c \<notin> {CHR ''{'', CHR ''['', CHR 0x22, CHR ''t'', CHR ''f'', CHR ''n''}"
    by blast
  then show ?thesis
  proof cases
    case 1
    then show ?thesis using start s assms(1) value_completes_open[of c ObjectFirstKey stk n r]
      by (simp add: push_container_def del: completes.simps)
  next
    case 2
    then show ?thesis using start s assms(1) value_completes_open[of c ArrayFirst stk n r]
      by (simp add: push_container_def del: completes.simps)
  next
    case 3
    have "value_completes stk n s \<longleftrightarrow>
        (\<exists>tok rest. c # r = tok @ rest \<and> cst_ok (CString tok) \<and> completes stk (n + 1) rest)"
      unfolding s using assms(1) 3 by (intro value_completes_scalar) (auto dest: value_head_scalar(1))
    moreover have "resumes (start_value stk n s) \<longleftrightarrow> (\<exists>k rest. parse_string (c # r) = Inr (k, rest) \<and> completes stk (n + 1) rest)"
      using start 3 s by (auto simp: resumes_map_sum)
    ultimately show ?thesis using 3 parse_string_iff[of r] by auto
  next
    case 4
    then show ?thesis using start s assms(1) value_completes_literal[of stk "''true''" c n r] by (simp add: resumes_map_sum)
  next
    case 5
    then show ?thesis using start s assms(1) value_completes_literal[of stk "''false''" c n r] by (simp add: resumes_map_sum)
  next
    case 6
    then show ?thesis using start s assms(1) value_completes_literal[of stk "''null''" c n r] by (simp add: resumes_map_sum)
  next
    case 7
    then show ?thesis using start s assms value_completes_number[of stk c n r] by (simp add: resumes_map_sum)
  next
    case 8
    have "\<not> value_head t c" for t using 8 by (cases t) auto
    then have "\<not> value_completes stk n s"
      using unparse_head s unfolding value_completes_def by (metis append_Cons list.inject)
    then show ?thesis using start 8 by simp
  qed
qed

subsection \<open>One turn of the loop against the grammar\<close>

definition completes_with ::
  "(string \<Rightarrow> nat \<Rightarrow> nat \<Rightarrow> bool) \<Rightarrow> container list \<Rightarrow> nat \<Rightarrow> string \<Rightarrow> bool" where
  "completes_with K cs n rest \<longleftrightarrow>
     (\<exists>bs rest' m d. rest = bs @ rest' \<and> K bs m d \<and> d + 1 + length cs \<le> max_json_depth
        \<and> completes cs (n + m) rest')"

lemma completes_Cons: "completes (c # cs) n rest \<longleftrightarrow> completes_with (closes (c_state c) (c_items c)) cs n rest"
  by (simp add: completes_with_def)

lemma closes_eta:
  "closes ArrayAfterValue i = after_elem i" "closes ObjectAfterValue i = after_member i"
  "closes ObjectValue i = then_value (after_member i)" "closes ObjectColon i = then_colon i"
  "closes ObjectNextKey i = then_key i"
  "closes ArrayNext i = (\<lambda>bs m d. i + 1 \<le> max_json_container_items \<and> then_value (after_elem (i + 1)) bs m d)"
  "closes ArrayFirst i = (\<lambda>bs m d. (\<exists>w. bs = w @ '']'' \<and> ws w \<and> m = 0 \<and> d = 0)
     \<or> i + 1 \<le> max_json_container_items \<and> then_value (after_elem (i + 1)) bs m d)"
  "closes ObjectFirstKey i = (\<lambda>bs m d. (\<exists>w. bs = w @ ''}'' \<and> ws w \<and> m = 0 \<and> d = 0) \<or> then_key i bs m d)"
  by (intro ext, simp)+

lemma completes_with_or:
  "completes_with (\<lambda>bs m d. A bs m d \<or> B bs m d) cs n rest \<longleftrightarrow> completes_with A cs n rest \<or> completes_with B cs n rest"
  by (auto simp: completes_with_def)

lemma completes_with_and:
  "completes_with (\<lambda>bs m d. P \<and> B bs m d) cs n rest \<longleftrightarrow> P \<and> completes_with B cs n rest"
  by (auto simp: completes_with_def)

text \<open>A container that is closed by the bracket \<open>b\<close>.\<close>

lemma completes_with_close:
  assumes "length cs < max_json_depth" and "\<not> is_ws b"
  shows "completes_with (\<lambda>bs m d. \<exists>w. bs = w @ [b] \<and> ws w \<and> m = 0 \<and> d = 0) cs n rest \<longleftrightarrow>
    (\<exists>r. skip_whitespace rest = b # r \<and> completes cs n r)" (is "?l \<longleftrightarrow> ?r")
proof
  assume ?l
  then show ?r using assms(2) by (auto simp: completes_with_def skip_ws_id)
next
  assume ?r
  then obtain r where "rest = takeWhile is_ws rest @ b # r" "completes cs n r"
    using skip_ws_split[of rest] by auto
  then show ?l unfolding completes_with_def using assms(1)
    by (intro exI[of _ "takeWhile is_ws rest @ [b]"] exI[of _ r] exI[of _ 0]) auto
qed

lemma completes_with_value:
  "completes_with (then_value (closes st i)) cs n rest \<longleftrightarrow>
   value_completes (\<lparr>c_state = st, c_items = i\<rparr> # cs) n (skip_whitespace rest)" (is "?l \<longleftrightarrow> ?r")
proof
  assume ?l
  then obtain w t bs rest' m d where l: "rest = w @ unparse t @ bs @ rest'" "ws w" "cst_ok t" "closes st i bs m d"
    "max (cst_depth t) d + 1 + length cs \<le> max_json_depth" "completes cs (n + (cst_nodes t + m)) rest'"
    by (auto simp: completes_with_def then_value_def)
  have "skip_whitespace rest = unparse t @ bs @ rest'"
    using l(1,2,3) unparse_head[OF l(3)] value_head_not_ws by (auto intro!: skip_ws_id)
  moreover have "completes (\<lparr>c_state = st, c_items = i\<rparr> # cs) (n + cst_nodes t) (bs @ rest')"
    unfolding completes.simps
    by (intro exI[of _ bs] exI[of _ rest'] exI[of _ m] exI[of _ d]) (use l in \<open>auto simp: ac_simps\<close>)
  ultimately show ?r using l unfolding value_completes_def
    by (intro exI[of _ t] exI[of _ "bs @ rest'"]) (auto simp del: completes.simps)
next
  assume ?r
  then obtain t bs rest' m d where r: "skip_whitespace rest = unparse t @ bs @ rest'" "cst_ok t"
    "cst_depth t + Suc (length cs) \<le> max_json_depth" "closes st i bs m d"
    "d + Suc (length cs) \<le> max_json_depth" "completes cs (n + cst_nodes t + m) rest'"
    by (auto simp: value_completes_def)
  have "rest = (takeWhile is_ws rest @ unparse t @ bs) @ rest'" using skip_ws_split[of rest] r(1) by simp
  moreover have "then_value (closes st i) (takeWhile is_ws rest @ unparse t @ bs) (cst_nodes t + m) (max (cst_depth t) d)"
    using r(2,4) unfolding then_value_def by (metis ws_takeWhile)
  ultimately show ?l unfolding completes_with_def using r(3,5,6)
    by (intro exI[of _ "takeWhile is_ws rest @ unparse t @ bs"] exI[of _ rest'] exI[of _ "cst_nodes t + m"] exI[of _ "max (cst_depth t) d"])
      (auto simp: ac_simps)
qed

lemma completes_with_colon:
  "completes_with (then_colon i) cs n rest \<longleftrightarrow>
   (\<exists>r. skip_whitespace rest = CHR '':'' # r \<and> completes_with (then_value (after_member i)) cs n r)" (is "?l \<longleftrightarrow> ?r")
proof
  assume ?l
  then obtain w bs rest' m d where "rest = w @ CHR '':'' # bs @ rest'" "ws w" "then_value (after_member i) bs m d"
    "d + 1 + length cs \<le> max_json_depth" "completes cs (n + m) rest'"
    by (auto simp: completes_with_def then_colon_def)
  then show ?r by (auto simp: completes_with_def skip_ws_id is_ws_def)
next
  assume ?r
  then obtain bs rest' m d where r: "skip_whitespace rest = CHR '':'' # bs @ rest'" "then_value (after_member i) bs m d"
    "d + 1 + length cs \<le> max_json_depth" "completes cs (n + m) rest'"
    by (auto simp: completes_with_def)
  have "rest = (takeWhile is_ws rest @ CHR '':'' # bs) @ rest'" using skip_ws_split[of rest] r(1) by simp
  moreover have "then_colon i (takeWhile is_ws rest @ CHR '':'' # bs) m d"
    using r(2) unfolding then_colon_def by (intro exI[of _ "takeWhile is_ws rest"] exI[of _ bs]) simp
  ultimately show ?l using r(3,4) unfolding completes_with_def by blast
qed

lemma completes_with_key:
  "completes_with (then_key i) cs n rest \<longleftrightarrow>
   i + 1 \<le> max_json_container_items
   \<and> (\<exists>tok k r. skip_whitespace rest = tok @ r \<and> string_token tok k \<and> k \<le> max_json_key_bytes
        \<and> completes_with (then_colon (i + 1)) cs n r)" (is "?l \<longleftrightarrow> ?r")
proof
  assume ?l
  then obtain w tok k bs rest' m d where l: "rest = w @ tok @ bs @ rest'" "ws w" "string_token tok k" "k \<le> max_json_key_bytes"
    "i + 1 \<le> max_json_container_items" "then_colon (i + 1) bs m d"
    "d + 1 + length cs \<le> max_json_depth" "completes cs (n + m) rest'"
    by (auto simp: completes_with_def then_key_def)
  then have "skip_whitespace rest = tok @ bs @ rest'"
    by (auto simp: string_token_def skip_ws_id is_ws_def)
  then show ?r using l unfolding completes_with_def by blast
next
  assume ?r
  then obtain tok k bs rest' m d where r: "skip_whitespace rest = tok @ bs @ rest'" "string_token tok k" "k \<le> max_json_key_bytes"
    "i + 1 \<le> max_json_container_items" "then_colon (i + 1) bs m d"
    "d + 1 + length cs \<le> max_json_depth" "completes cs (n + m) rest'"
    by (auto simp: completes_with_def)
  have "rest = (takeWhile is_ws rest @ tok @ bs) @ rest'" using skip_ws_split[of rest] r(1) by simp
  moreover have "then_key i (takeWhile is_ws rest @ tok @ bs) m d"
    using r(2-5) unfolding then_key_def
    by (intro exI[of _ "takeWhile is_ws rest"] exI[of _ tok] exI[of _ k] exI[of _ bs]) simp
  ultimately show ?l using r(6,7) unfolding completes_with_def by blast
qed

text \<open>After a value: a comma and a further item, or the closing bracket.\<close>

lemma completes_with_comma:
  assumes split: "\<And>bs m d. After bs m d \<longleftrightarrow> Close bs m d \<or> (\<exists>w bs'. bs = w @ CHR '','' # bs' \<and> ws w \<and> Next bs' m d)"
  shows "completes_with After cs n rest \<longleftrightarrow> completes_with Close cs n rest
    \<or> (\<exists>r. skip_whitespace rest = CHR '','' # r \<and> completes_with Next cs n r)"
proof -
  have "completes_with (\<lambda>bs m d. \<exists>w bs'. bs = w @ CHR '','' # bs' \<and> ws w \<and> Next bs' m d) cs n rest \<longleftrightarrow>
      (\<exists>r. skip_whitespace rest = CHR '','' # r \<and> completes_with Next cs n r)" (is "?l \<longleftrightarrow> ?r")
  proof
    assume ?l
    then obtain w bs rest' m d where "rest = w @ CHR '','' # bs @ rest'" "ws w" "Next bs m d"
      "d + 1 + length cs \<le> max_json_depth" "completes cs (n + m) rest'"
      by (auto simp: completes_with_def)
    moreover from this have "skip_whitespace rest = CHR '','' # bs @ rest'" by (simp add: skip_ws_id is_ws_def)
    ultimately show ?r unfolding completes_with_def by blast
  next
    assume ?r
    then obtain bs rest' m d where r: "skip_whitespace rest = CHR '','' # bs @ rest'" "Next bs m d"
      "d + 1 + length cs \<le> max_json_depth" "completes cs (n + m) rest'"
      by (auto simp: completes_with_def)
    have "rest = (takeWhile is_ws rest @ CHR '','' # bs) @ rest'" using skip_ws_split[of rest] r(1) by simp
    moreover have "\<exists>w bs'. takeWhile is_ws rest @ CHR '','' # bs = w @ CHR '','' # bs' \<and> ws w \<and> Next bs' m d"
      using r(2) ws_takeWhile by blast
    ultimately show ?l using r(3,4) unfolding completes_with_def by blast
  qed
  moreover have "After = (\<lambda>bs m d. Close bs m d \<or> (\<exists>w bs'. bs = w @ CHR '','' # bs' \<and> ws w \<and> Next bs' m d))"
    by (intro ext) (rule split)
  ultimately show ?thesis by (simp add: completes_with_or)
qed

lemma after_elem_split:
  assumes "i \<le> max_json_container_items"
  shows "after_elem i bs m d \<longleftrightarrow> (\<exists>w. bs = w @ '']'' \<and> ws w \<and> m = 0 \<and> d = 0)
    \<or> (\<exists>w bs'. bs = w @ CHR '','' # bs' \<and> ws w \<and> closes ArrayNext i bs' m d)" (is "_ \<longleftrightarrow> ?c \<or> ?n")
proof
  assume "after_elem i bs m d"
  then obtain w es where e: "bs = w @ elems_tail es" "ws w" "list_all elem_ok es" "i + length es \<le> max_json_container_items"
    "m = sum_list (map elem_nodes es)" "d = max_list (map elem_depth es)" by (auto simp: after_elem_def)
  show "?c \<or> ?n"
  proof (cases es)
    case (Cons x es')
    then show ?thesis using e
      by (cases x) (fastforce simp: elems_tail_simps then_value_def after_elem_def)
  qed (use e in \<open>simp add: elems_tail_simps\<close>)
next
  assume "?c \<or> ?n"
  then consider ?c | ?n by blast
  then show "after_elem i bs m d"
  proof cases
    case 1
    then obtain w where "bs = w @ '']''" "ws w" "m = 0" "d = 0" by blast
    then show ?thesis using assms unfolding after_elem_def
      by (intro exI[of _ w] exI[of _ "[]"]) (simp add: elems_tail_simps)
  next
    case 2
    then obtain w v t w' es where "bs = w @ CHR '','' # v @ unparse t @ w' @ elems_tail es" "ws w" "ws v" "cst_ok t" "ws w'"
      "list_all elem_ok es" "i + 1 + length es \<le> max_json_container_items"
      "m = cst_nodes t + sum_list (map elem_nodes es)" "d = max (cst_depth t) (max_list (map elem_depth es))"
      by (auto simp: then_value_def after_elem_def)
    then show ?thesis unfolding after_elem_def
      by (intro exI[of _ w] exI[of _ "Elem v t w' # es"]) (simp add: elems_tail_simps)
  qed
qed

lemma after_member_split:
  assumes "i \<le> max_json_container_items"
  shows "after_member i bs m d \<longleftrightarrow> (\<exists>w. bs = w @ ''}'' \<and> ws w \<and> m = 0 \<and> d = 0)
    \<or> (\<exists>w bs'. bs = w @ CHR '','' # bs' \<and> ws w \<and> then_key i bs' m d)" (is "_ \<longleftrightarrow> ?c \<or> ?n")
proof
  assume "after_member i bs m d"
  then obtain w ms where e: "bs = w @ members_tail ms" "ws w" "list_all member_ok ms" "i + length ms \<le> max_json_container_items"
    "m = sum_list (map member_nodes ms)" "d = max_list (map member_depth ms)" by (auto simp: after_member_def)
  show "?c \<or> ?n"
  proof (cases ms)
    case (Cons x ms')
    then show ?thesis
      using e then_key_member[of x ms' i]
      by (intro disjI2 exI[of _ w] exI[of _ "unparse_member x @ members_tail ms'"]) (simp add: members_tail_simps)
  qed (use e in \<open>simp add: members_tail_simps\<close>)
next
  assume "?c \<or> ?n"
  then consider ?c | ?n by blast
  then show "after_member i bs m d"
  proof cases
    case 1
    then obtain w where "bs = w @ ''}''" "ws w" "m = 0" "d = 0" by blast
    then show ?thesis using assms unfolding after_member_def
      by (intro exI[of _ w] exI[of _ "[]"]) (simp add: members_tail_simps)
  next
    case 2
    then obtain w v k n a b t w' ms where "bs = w @ CHR '','' # v @ k @ a @ '':'' @ b @ unparse t @ w' @ members_tail ms"
      "ws w" "ws v" "string_token k n" "n \<le> max_json_key_bytes" "ws a" "ws b" "cst_ok t" "ws w'"
      "list_all member_ok ms" "i + 1 + length ms \<le> max_json_container_items"
      "m = cst_nodes t + sum_list (map member_nodes ms)" "d = max (cst_depth t) (max_list (map member_depth ms))"
      by (auto simp: then_key_def then_colon_def then_value_def after_member_def)
    then show ?thesis unfolding after_member_def
      by (intro exI[of _ w] exI[of _ "Member v k a b t w' # ms"]) (auto simp: members_tail_simps)
  qed
qed

lemma parse_key_resumes:
  "resumes (map_sum id (\<lambda>(r, c'). (c' # cs, n, r)) (parse_key s c)) \<longleftrightarrow>
   c_items c + 1 \<le> max_json_container_items
   \<and> (\<exists>tok k r. s = tok @ r \<and> string_token tok k \<and> k \<le> max_json_key_bytes
        \<and> completes_with (then_colon (c_items c + 1)) cs n r)"
proof (cases "starts_with (\<lambda>ch. ch = CHR 0x22) s")
  case True
  then obtain t where s: "s = CHR 0x22 # t" by (cases s) auto
  have "resumes (map_sum id (\<lambda>(r, c'). (c' # cs, n, r)) (parse_key s c)) \<longleftrightarrow>
      c_items c + 1 \<le> max_json_container_items \<and>
      (\<exists>k r. parse_string s = Inr (k, r) \<and> k \<le> max_json_key_bytes
        \<and> completes_with (then_colon (c_items c + 1)) cs n r)"
    using s by (auto simp: parse_key_def admit_item_def Let_def completes_Cons closes_eta simp del: completes.simps split: sum.splits)
  then show ?thesis using s parse_string_iff[of t] by auto
next
  case False
  then show ?thesis by (cases s) (auto simp: parse_key_def string_token_def)
qed

lemma completes_with_bracket:
  assumes "length cs < max_json_depth" and "b \<in> {CHR '']'', CHR ''}''}"
  shows "completes_with (\<lambda>bs m d. \<exists>w. bs = w @ [b] \<and> ws w \<and> m = 0 \<and> d = 0) cs n rest \<longleftrightarrow>
    (\<exists>r. skip_whitespace rest = b # r \<and> completes cs n r)"
  using assms by (intro completes_with_close) (auto simp: is_ws_def)

lemma completes_with_after:
  assumes "length cs < max_json_depth" and "i \<le> max_json_container_items"
  shows "completes_with (after_elem i) cs n rest \<longleftrightarrow>
      (\<exists>r. skip_whitespace rest = CHR '']'' # r \<and> completes cs n r)
      \<or> (\<exists>r. skip_whitespace rest = CHR '','' # r \<and> completes_with (closes ArrayNext i) cs n r)"
    and "completes_with (after_member i) cs n rest \<longleftrightarrow>
      (\<exists>r. skip_whitespace rest = CHR ''}'' # r \<and> completes cs n r)
      \<or> (\<exists>r. skip_whitespace rest = CHR '','' # r \<and> completes_with (then_key i) cs n r)"
  unfolding completes_with_comma[OF after_elem_split[OF assms(2)]] completes_with_comma[OF after_member_split[OF assms(2)]]
  using completes_with_bracket[OF assms(1), of _ n rest] by (simp_all add: closes_eta)

lemma container_turn_completes:
  assumes len: "length (c # cs) \<le> max_json_depth" and items: "c_items c \<le> max_json_container_items"
  shows "completes (c # cs) n rest \<longleftrightarrow> resumes (container_turn c cs n (skip_whitespace rest))"
proof -
  let ?i = "c_items c" and ?s = "skip_whitespace rest"
  have cs: "length cs < max_json_depth" using len by simp
  have at: "starts_with (\<lambda>x. x = b) s \<longleftrightarrow> (\<exists>r. s = b # r)" for b s by (cases s) auto
  have val: "completes_with (then_value (closes st i)) cs n rest \<longleftrightarrow>
      resumes (start_value (\<lparr>c_state = st, c_items = i\<rparr> # cs) n ?s)"
    if "st \<in> {ArrayAfterValue, ObjectAfterValue}" for st i
    using len that by (subst start_value_completes[symmetric]) (auto simp: value_end_def completes_with_value)
  have upd: "c\<lparr>c_state := st\<rparr> = \<lparr>c_state = st, c_items = ?i\<rparr>"
    "c\<lparr>c_items := i, c_state := st\<rparr> = \<lparr>c_state = st, c_items = i\<rparr>" for st i by (cases c; simp)+
  have item: "resumes (array_item c cs n ?s) \<longleftrightarrow>
      ?i + 1 \<le> max_json_container_items \<and> completes_with (then_value (after_elem (?i + 1))) cs n rest"
    using val[of ArrayAfterValue "?i + 1"]
    by (auto simp: array_item_def admit_item_def Let_def upd closes_eta)
  note closing = completes_with_bracket[OF cs]
  have no_value: "\<not> completes_with (then_value (after_elem j)) cs n rest" if "?s = CHR '']'' # r" for r j
    using that unparse_head value_head_not_ws unfolding closes_eta(1)[symmetric] completes_with_value value_completes_def
    by (metis append_Cons list.inject)
  have no_key: "\<not> completes_with (then_key j) cs n rest" if "?s = CHR ''}'' # r" for r j
    using that unfolding completes_with_key by (auto simp: string_token_def)
  note simps = completes_Cons container_turn_def Let_def closes_eta at completes_with_or completes_with_and
  show ?thesis
  proof (cases "c_state c")
    case ArrayFirst
    then show ?thesis using closing[of "CHR '']''"] no_value item by (auto simp: simps simp del: completes.simps)
  next
    case ArrayNext
    then show ?thesis using item by (auto simp: simps simp del: completes.simps)
  next
    case ArrayAfterValue
    then show ?thesis using completes_with_after(1)[OF cs items] by (auto simp: simps simp del: completes.simps)
  next
    case ObjectFirstKey
    then show ?thesis using closing[of "CHR ''}''"] no_key parse_key_resumes[of cs n ?s c] completes_with_key[of ?i cs n rest]
      by (auto simp: simps simp del: completes.simps)
  next
    case ObjectNextKey
    then show ?thesis using parse_key_resumes[of cs n ?s c] completes_with_key[of ?i cs n rest]
      by (auto simp: simps simp del: completes.simps)
  next
    case ObjectColon
    then show ?thesis using completes_with_colon[of ?i cs n rest] by (auto simp: simps simp del: completes.simps)
  next
    case ObjectValue
    then show ?thesis using val[of ObjectAfterValue ?i] by (auto simp: simps upd simp del: completes.simps)
  next
    case ObjectAfterValue
    then show ?thesis using completes_with_after(2)[OF cs items] by (auto simp: simps simp del: completes.simps)
  qed
qed

section \<open>The scanner accepts exactly the bounded documents\<close>

definition scan_inv :: "container list \<Rightarrow> nat \<Rightarrow> bool" where
  "scan_inv stk n \<longleftrightarrow>
     length stk \<le> max_json_depth \<and> (\<forall>c \<in> set stk. c_items c \<le> max_json_container_items) \<and> n \<le> max_json_nodes"

lemma start_value_inv: "start_value stk n s = Inr (stk', n', r) \<Longrightarrow> scan_inv stk n \<Longrightarrow> scan_inv stk' n'"
  by (cases s) (auto simp: start_value_def Let_def scan_inv_def push_container_def split: if_splits)

lemma container_turn_inv:
  assumes "container_turn c cs n s = Inr (stk', n', r)" and inv: "scan_inv (c # cs) n"
  shows "scan_inv stk' n'"
proof -
  have admit: "scan_inv (c'\<lparr>c_state := st\<rparr> # cs) n" if "admit_item c = Inr c'" for c' st
    using that inv by (auto simp: admit_item_def Let_def scan_inv_def split: if_splits)
  have item: "scan_inv stk' n'" if "array_item c cs n s = Inr (stk', n', r)"
    using that admit start_value_inv by (auto simp: array_item_def split: sum.splits)
  have key: "scan_inv (c' # cs) n" if "parse_key s c = Inr (r, c')" for c'
    using that admit by (auto simp: parse_key_def split: if_splits sum.splits)
  have same: "scan_inv (c\<lparr>c_state := st\<rparr> # cs) n" "scan_inv cs n" for st
    using inv by (auto simp: scan_inv_def)
  show ?thesis
    using assms(1) item key same start_value_inv
    by (cases "c_state c") (auto simp: container_turn_def Let_def split: if_splits)
qed

lemma scan_loop_Cons:
  "scan_loop root_done (c # cs) n bytes =
     (case container_turn c cs n (skip_whitespace bytes) of
        Inl e \<Rightarrow> Inl e | Inr (s, n', r) \<Rightarrow> scan_loop root_done s n' r)"
  by (subst scan_loop.simps) simp

lemma scan_loop_completes: "scan_inv stk n \<Longrightarrow> scan_loop True stk n bytes = Inr () \<longleftrightarrow> completes stk n bytes"
proof (induction bytes arbitrary: stk n rule: measure_induct_rule[of length])
  case (less bytes)
  show ?case
  proof (cases stk)
    case Nil
    then show ?thesis using less.prems by (subst scan_loop.simps) (simp add: skip_ws_Nil scan_inv_def)
  next
    case (Cons c cs)
    have turn: "completes stk n bytes \<longleftrightarrow> resumes (container_turn c cs n (skip_whitespace bytes))"
      unfolding Cons using less.prems Cons by (intro container_turn_completes) (auto simp: scan_inv_def)
    show ?thesis
    proof (cases "container_turn c cs n (skip_whitespace bytes)")
      case (Inl e)
      then show ?thesis using turn Cons by (simp add: scan_loop_Cons)
    next
      case (Inr x)
      obtain stk' n' r where x: "x = (stk', n', r)" by (cases x)
      have "length r < length bytes"
        using container_turn_shorter[of c cs n "skip_whitespace bytes"] Inr x length_dropWhile_le[of is_ws bytes]
        by (auto simp: skip_whitespace_def intro: less_le_trans)
      then have "scan_loop True stk' n' r = Inr () \<longleftrightarrow> completes stk' n' r"
        using less Inr x Cons container_turn_inv by blast
      then show ?thesis using turn Inr x Cons by (simp add: scan_loop_Cons)
    qed
  qed
qed

lemma preflight_iff: "preflight bytes = Inr () \<longleftrightarrow> valid_utf8 bytes \<and> json_document bytes"
proof -
  have "scan_loop False [] 0 bytes = Inr () \<longleftrightarrow> value_completes [] 0 (skip_whitespace bytes)"
  proof (cases "skip_whitespace bytes = []")
    case True
    then have "\<not> value_completes [] 0 (skip_whitespace bytes)"
      using unparse_head by (force simp: value_completes_def)
    then show ?thesis using True by (subst scan_loop.simps) simp
  next
    case False
    have inv: "scan_inv [] 0" by (simp add: scan_inv_def)
    have start: "value_completes [] 0 (skip_whitespace bytes) \<longleftrightarrow> resumes (start_value [] 0 (skip_whitespace bytes))"
      by (rule start_value_completes) (simp_all add: value_end_def)
    show ?thesis
      unfolding start using False scan_loop_completes start_value_inv[OF _ inv]
      by (subst scan_loop.simps) (auto split: sum.splits)
  qed
  also have "\<dots> \<longleftrightarrow> json_document bytes"
  proof
    assume "value_completes [] 0 (skip_whitespace bytes)"
    then obtain t rest where "skip_whitespace bytes = unparse t @ rest" "cst_ok t" "cst_depth t \<le> max_json_depth"
      "ws rest" "cst_nodes t \<le> max_json_nodes" by (auto simp: value_completes_def)
    then show "json_document bytes"
      using skip_ws_split[of bytes] ws_takeWhile unfolding json_document_def by metis
  next
    assume "json_document bytes"
    then obtain w t w' where t: "bytes = w @ unparse t @ w'" "ws w" "ws w'" "cst_ok t"
      "cst_nodes t \<le> max_json_nodes" "cst_depth t \<le> max_json_depth" by (auto simp: json_document_def)
    moreover have "skip_whitespace bytes = unparse t @ w'"
      using t unparse_head[OF t(4)] value_head_not_ws by (auto intro!: skip_ws_id)
    ultimately show "value_completes [] 0 (skip_whitespace bytes)" by (auto simp: value_completes_def)
  qed
  finally show ?thesis by (simp add: preflight_def)
qed

section \<open>Frames\<close>

datatype frame_error =
    FrameTooLarge
  | FrameNotUtf8
  | FramePreflight preflight_error
  | FrameEnvelope
  | FrameSerialize

definition validate_json_frame :: "string \<Rightarrow> (frame_error, unit) result" where
  "validate_json_frame bytes = map_sum FramePreflight id (preflight bytes)"

text \<open>\<open>read_line\<close>: up to and including the first newline, or all there is.\<close>

definition read_line :: "string \<Rightarrow> string" where
  "read_line input =
     takeWhile (\<lambda>c. c \<noteq> CHR 0x0A) input @ take 1 (dropWhile (\<lambda>c. c \<noteq> CHR 0x0A) input)"

definition trim_newlines :: "string \<Rightarrow> string" where
  "trim_newlines s = rev (dropWhile (\<lambda>c. c = CHR 0x0D \<or> c = CHR 0x0A) (rev s))"

text \<open>\<open>from_str\<close> is the decoder; the second component is the input that is left.\<close>

definition read_json_frame ::
  "(string \<Rightarrow> 'a option) \<Rightarrow> string \<Rightarrow> (frame_error, 'a option) result \<times> string" where
  "read_json_frame from_str input =
     (let line = read_line (take (max_frame_len + 2) input);
          rest = drop (length line) input;
          body = trim_newlines line
      in if line = [] then (Inr None, rest)
         else if \<not> valid_utf8 line then (Inl FrameNotUtf8, rest)
         else if max_frame_len < length body then (Inl FrameTooLarge, rest)
         else case validate_json_frame body of
                Inl e \<Rightarrow> (Inl e, rest)
              | Inr _ \<Rightarrow>
                  (case from_str body of
                     None \<Rightarrow> (Inl FrameEnvelope, rest)
                   | Some x \<Rightarrow> (Inr (Some x), rest)))"

text \<open>
  The serializer writes its output in pieces to a bounded buffer; \<open>chunks x\<close> are the pieces it
  writes and whether it ends without an error of its own.
\<close>

fun buffer_write :: "string \<Rightarrow> string list \<Rightarrow> string option" where
  "buffer_write buf [] = Some buf"
| "buffer_write buf (c # cs) =
     (if max_frame_len - length buf < length c then None else buffer_write (buf @ c) cs)"

definition write_frame ::
  "('a \<Rightarrow> string list \<times> bool) \<Rightarrow> 'a \<Rightarrow> (frame_error, string) result" where
  "write_frame chunks x =
     (case buffer_write [] (fst (chunks x)) of
        None \<Rightarrow> Inl FrameTooLarge
      | Some bytes \<Rightarrow>
          if \<not> snd (chunks x) then Inl FrameSerialize
          else case validate_json_frame bytes of
                 Inl e \<Rightarrow> Inl e
               | Inr _ \<Rightarrow> Inr (bytes @ [CHR 0x0A]))"

lemma buffer_write_Some:
  "buffer_write buf cs = Some bytes \<Longrightarrow> length buf \<le> max_frame_len \<Longrightarrow>
   bytes = buf @ concat cs \<and> length bytes \<le> max_frame_len"
proof (induction buf cs rule: buffer_write.induct)
  case (2 buf c cs)
  then have "length c \<le> max_frame_len - length buf" "buffer_write (buf @ c) cs = Some bytes"
    by (simp_all split: if_splits)
  moreover from this have "length (buf @ c) \<le> max_frame_len" using 2(3) by simp
  ultimately show ?case using 2(1) by auto
qed simp

lemma write_frame_Inr:
  assumes "write_frame chunks x = Inr out"
  shows "out = concat (fst (chunks x)) @ [CHR 0x0A] \<and> length (concat (fst (chunks x))) \<le> max_frame_len
    \<and> preflight (concat (fst (chunks x))) = Inr ()"
  using assms buffer_write_Some[of "[]" "fst (chunks x)"]
  by (auto simp: write_frame_def validate_json_frame_def map_sum_def split: option.splits if_splits sum.splits)

lemma read_line_newline: "\<forall>c \<in> set b. c \<noteq> CHR 0x0A \<Longrightarrow> read_line (b @ CHR 0x0A # rest) = b @ [CHR 0x0A]"
  by (simp add: read_line_def takeWhile_append dropWhile_append)

lemma read_line_prefix: "\<exists>t. s = read_line s @ t"
  by (auto simp: read_line_def) (metis append_take_drop_id takeWhile_dropWhile_id)

lemma trim_newlines_line:
  "\<forall>c \<in> set b. c \<noteq> CHR 0x0A \<and> c \<noteq> CHR 0x0D \<Longrightarrow> trim_newlines (b @ [CHR 0x0A]) = b"
  by (cases "rev b") (auto simp: trim_newlines_def)

lemma document_nonempty: "json_document b \<Longrightarrow> b \<noteq> []"
  using unparse_head by (force simp: json_document_def)

lemma read_written_frame:
  assumes out: "write_frame chunks x = Inr out"
    and line: "\<forall>c \<in> set (concat (fst (chunks x))). c \<noteq> CHR 0x0A \<and> c \<noteq> CHR 0x0D"
    and dec: "from_str (concat (fst (chunks x))) = Some x"
  shows "read_json_frame from_str (out @ rest) = (Inr (Some x), rest)"
proof -
  let ?b = "concat (fst (chunks x))"
  have b: "out = ?b @ [CHR 0x0A]" "length ?b \<le> max_frame_len" "preflight ?b = Inr ()"
    using write_frame_Inr[OF out] by auto
  then have utf: "valid_utf8 ?b" using preflight_iff by blast
  have "take (max_frame_len + 2) (out @ rest) = ?b @ CHR 0x0A # take (max_frame_len + 1 - length ?b) rest"
    using b(1,2) by (simp add: take_Cons' Suc_diff_le)
  then have "read_line (take (max_frame_len + 2) (out @ rest)) = out"
    using read_line_newline line b(1) by simp
  moreover have "valid_utf8 out" using utf b(1) valid_utf8_append[of ?b "[CHR 0x0A]"] by (simp add: lead_width_def)
  moreover have "trim_newlines out = ?b" using trim_newlines_line line b(1) by simp
  ultimately show ?thesis
    using b dec by (simp add: read_json_frame_def Let_def validate_json_frame_def)
qed

text \<open>Reading a number of frames from a connection.\<close>

fun read_frames ::
  "(string \<Rightarrow> 'a option) \<Rightarrow> nat \<Rightarrow> string \<Rightarrow> (frame_error, 'a option) result list \<times> string" where
  "read_frames from_str 0 input = ([], input)"
| "read_frames from_str (Suc n) input =
     (let (r, input1) = read_json_frame from_str input;
          (rs, input2) = read_frames from_str n input1
      in (r # rs, input2))"

section \<open>Properties\<close>

text \<open>
  C5. The preflight scanner, which keeps no tree, accepts a frame exactly when it is valid UTF-8 and the
  text of a JSON value with optional surrounding whitespace whose nesting, number of values, items per
  container, key lengths and number lengths are all within the limits.
\<close>

theorem preflight_exact: "preflight bytes = Inr () \<longleftrightarrow> valid_utf8 bytes \<and> json_document bytes"
  by (rule preflight_iff)

text \<open>
  C10. Frames round-trip: any sequence of messages that one side managed to write is read back by the other
  side in order and with nothing left over, for a serializer whose output has no line break and that
  the decoder inverts.
\<close>

theorem frames_roundtrip:
  assumes "map (write_frame chunks) xs = map Inr outs"
    and "\<forall>x \<in> set xs. from_str (concat (fst (chunks x))) = Some x"
    and "\<forall>x \<in> set xs. \<forall>c \<in> set (concat (fst (chunks x))). c \<noteq> CHR 0x0A \<and> c \<noteq> CHR 0x0D"
  shows "read_frames from_str (length xs) (concat outs @ rest) = (map (\<lambda>x. Inr (Some x)) xs, rest)"
  using assms
proof (induction xs arbitrary: outs)
  case (Cons x xs)
  then obtain out outs' where outs: "outs = out # outs'" "write_frame chunks x = Inr out"
    "map (write_frame chunks) xs = map Inr outs'" by (cases outs) auto
  then have "read_json_frame from_str (out @ concat outs' @ rest) = (Inr (Some x), concat outs' @ rest)"
    using Cons.prems by (intro read_written_frame) auto
  then show ?case using Cons outs by simp
qed simp

text \<open>
  What reaches the decoder is bounded: a frame that is read has a body of at most 16 MiB that is a
  JSON document within all limits, and one call never takes more than 16 MiB and two bytes from the
  connection.
\<close>

theorem decoded_frames_bounded:
  assumes "read_json_frame from_str input = (Inr (Some x), rest)"
  shows "\<exists>line. input = line @ rest \<and> length line \<le> max_frame_len + 2
    \<and> from_str (trim_newlines line) = Some x \<and> length (trim_newlines line) \<le> max_frame_len
    \<and> json_document (trim_newlines line)"
proof -
  let ?l = "read_line (take (max_frame_len + 2) input)"
  obtain t where t: "take (max_frame_len + 2) input = ?l @ t" using read_line_prefix by blast
  have "length ?l \<le> max_frame_len + 2"
    using arg_cong[OF t, of length] by simp
  moreover have "input = ?l @ drop (length ?l) input"
    using t by (metis append_assoc append_eq_conv_conj append_take_drop_id)
  ultimately show ?thesis
    using assms preflight_iff[of "trim_newlines ?l"]
    by (intro exI[of _ ?l]) (auto simp: read_json_frame_def Let_def validate_json_frame_def map_sum_def
        split: if_splits sum.splits option.splits)
qed

section \<open>Examples\<close>

definition null_chunks :: "unit \<Rightarrow> string list \<times> bool" where
  "null_chunks x = ([''nu'', ''ll''], True)"

definition null_decode :: "string \<Rightarrow> unit option" where
  "null_decode s = (if s = ''null'' then Some () else None)"

lemma null_document: "json_document ''null''"
  unfolding json_document_def
  by (intro exI[of _ "[]"] exI[of _ "CLiteral ''null''"]) (simp add: max_json_nodes_def)

lemma null_written: "write_frame null_chunks () = Inr (''null'' @ [CHR 0x0A])"
proof -
  have "valid_utf8 ''null''" by (rule valid_utf8_ascii) simp
  then have "preflight ''null'' = Inr ()" using null_document preflight_iff by blast
  then show ?thesis
    by (simp add: write_frame_def null_chunks_def max_frame_len_def validate_json_frame_def)
qed

lemma frames_roundtrip_witness:
  "write_frame null_chunks () = Inr (''null'' @ [CHR 0x0A])
   \<and> read_frames null_decode 2 (''null'' @ [CHR 0x0A] @ ''null'' @ [CHR 0x0A] @ ''{'')
       = ([Inr (Some ()), Inr (Some ())], ''{'')"
  using frames_roundtrip[of null_chunks "[(), ()]" "[''null'' @ [CHR 0x0A], ''null'' @ [CHR 0x0A]]" null_decode "''{''"]
    null_written
  by (simp add: null_chunks_def null_decode_def numeral_2_eq_2)

lemma decoded_frames_bounded_witness:
  "\<exists>line. ''null'' @ [CHR 0x0A] @ ''{'' = line @ ''{'' \<and> length (trim_newlines line) \<le> max_frame_len
     \<and> json_document (trim_newlines line)"
proof -
  have "read_json_frame null_decode ((''null'' @ [CHR 0x0A]) @ ''{'') = (Inr (Some ()), ''{'')"
    by (rule read_written_frame[OF null_written]) (simp_all add: null_chunks_def null_decode_def)
  from decoded_frames_bounded[OF this] show ?thesis by auto
qed

end
