(* ===== verification/Reef_Version.thy ===== *)
theory Reef_Version
  imports Shoal_Prelude "HOL-Library.Product_Lexorder"
begin

text \<open>
  Tool versions and version constraints: \<open>reef/version.rs\<close>. Parsing never fails; a version is unknown,
  opaque text, or a numeric release with an optional pre-release tag. The order of versions is shown
  to satisfy the contract \<open>total_cmp\<close> of a Rust \<open>Ord\<close> instance, which candidate selection relies on.
\<close>

section \<open>Versions\<close>

record version =
  v_parts :: "nat list"
  v_pre :: "string option"
  v_raw :: string
  v_unknown :: bool

definition version_unknown :: version where
  "version_unknown = \<lparr>v_parts = [], v_pre = None, v_raw = [], v_unknown = True\<rparr>"

definition strip_v :: "string \<Rightarrow> string" where
  "strip_v s = (case strip_prefix ''v'' s of Some r \<Rightarrow> r | None \<Rightarrow> s)"

text \<open>The leading segments that parse as a \<open>u64\<close>.\<close>

fun leading_numbers :: "string list \<Rightarrow> nat list" where
  "leading_numbers [] = []"
| "leading_numbers (seg # segs) =
     (case parse_u64 seg of Some n \<Rightarrow> n # leading_numbers segs | None \<Rightarrow> [])"

definition version_parse :: "string \<Rightarrow> version" where
  "version_parse s =
     (let raw = trim s in
      if raw = [] then version_unknown
      else let body = strip_v raw;
               release = takeWhile (\<lambda>c. c \<noteq> CHR ''-'' \<and> c \<noteq> CHR ''+'') body;
               rest = drop (length release) body;
               pre = (case rest of [] \<Rightarrow> None | _ # r \<Rightarrow> Some r)
           in \<lparr>v_parts = leading_numbers (split_on (CHR ''.'') release), v_pre = pre, v_raw = raw,
               v_unknown = False\<rparr>)"

definition version_display :: "version \<Rightarrow> string" where
  "version_display v = (if v_unknown v then ''unknown'' else v_raw v)"

text \<open>The component comparison, the shorter list padded with zeros.\<close>

definition part_at :: "nat list \<Rightarrow> nat \<Rightarrow> nat" where
  "part_at ps i = (if i < length ps then ps ! i else 0)"

fun parts_loop :: "nat list \<Rightarrow> nat list \<Rightarrow> nat list \<Rightarrow> ordering" where
  "parts_loop a b [] = Equal"
| "parts_loop a b (i # is) =
     (case cmp_of (part_at a i) (part_at b i) of Equal \<Rightarrow> parts_loop a b is | ne \<Rightarrow> ne)"

fun pre_cmp :: "string option \<Rightarrow> string option \<Rightarrow> ordering" where
  "pre_cmp None None = Equal"
| "pre_cmp None (Some _) = Greater"
| "pre_cmp (Some _) None = Less"
| "pre_cmp (Some a) (Some b) = cmp_of a b"

definition version_cmp :: "version \<Rightarrow> version \<Rightarrow> ordering" where
  "version_cmp a b =
     (if v_unknown a \<and> v_unknown b then Equal
      else if v_unknown a then Less
      else if v_unknown b then Greater
      else if v_parts a = [] \<and> v_parts b = [] then cmp_of (v_raw a) (v_raw b)
      else if v_parts a = [] then Less
      else if v_parts b = [] then Greater
      else case parts_loop (v_parts a) (v_parts b) [0..<max (length (v_parts a)) (length (v_parts b))] of
             Equal \<Rightarrow> pre_cmp (v_pre a) (v_pre b)
           | ne \<Rightarrow> ne)"

section \<open>Constraints\<close>

datatype constr = AnyVersion | Latest | Prefix "nat list" | RawPrefix string

definition constr_parse :: "string \<Rightarrow> constr" where
  "constr_parse s =
     (let t = trim s in
      if t = ''*'' \<or> t = [] then AnyVersion
      else if t = ''latest'' then Latest
      else let segs = split_on (CHR ''.'') (strip_v t);
               parts = leading_numbers segs
           in if length parts = length segs \<and> parts \<noteq> [] then Prefix parts else RawPrefix t)"

definition needs_version :: "constr \<Rightarrow> bool" where
  "needs_version c = (case c of Prefix _ \<Rightarrow> True | RawPrefix _ \<Rightarrow> True | _ \<Rightarrow> False)"

fun satisfies :: "constr \<Rightarrow> version \<Rightarrow> bool" where
  "satisfies AnyVersion v = True"
| "satisfies Latest v = True"
| "satisfies (Prefix want) v =
     (if length (v_parts v) < length want then False else take (length want) (v_parts v) = want)"
| "satisfies (RawPrefix p) v = prefix p (v_raw v)"

fun compatible :: "constr \<Rightarrow> constr \<Rightarrow> bool" where
  "compatible AnyVersion _ = True"
| "compatible _ AnyVersion = True"
| "compatible Latest _ = True"
| "compatible _ Latest = True"
| "compatible (Prefix a) (Prefix b) =
     (let n = min (length a) (length b) in take n a = take n b)"
| "compatible (RawPrefix a) (RawPrefix b) = (prefix b a \<or> prefix a b)"
| "compatible _ _ = False"

fun refine :: "constr \<Rightarrow> constr \<Rightarrow> constr" where
  "refine AnyVersion other = other"
| "refine Latest other = other"
| "refine self AnyVersion = self"
| "refine self Latest = self"
| "refine (Prefix a) (Prefix b) = (if length a < length b then Prefix b else Prefix a)"
| "refine (RawPrefix a) (RawPrefix b) = (if length a < length b then RawPrefix b else RawPrefix a)"
| "refine self _ = self"

fun constr_display :: "constr \<Rightarrow> string" where
  "constr_display AnyVersion = ''*''"
| "constr_display Latest = ''latest''"
| "constr_display (Prefix p) = join_with ''.'' (map dec p)"
| "constr_display (RawPrefix s) = s"

section \<open>The order of versions\<close>

definition pad :: "nat \<Rightarrow> nat list \<Rightarrow> nat list" where
  "pad n ps = map (part_at ps) [0..<n]"

lemma parts_loop_cmp: "parts_loop a b is = cmp_of (map (part_at a) is) (map (part_at b) is)"
  by (induction "is") (auto simp: cmp_of_def split: ordering.splits)

lemma cmp_of_append:
  "length xs = length ys \<Longrightarrow> cmp_of (xs @ zs) (ys @ zs) = cmp_of xs (ys :: 'a :: linorder list)"
  by (induction xs ys rule: list_induct2) (auto simp: cmp_of_def split: if_splits)

lemma pad_split: "length ps \<le> m \<Longrightarrow> m \<le> n \<Longrightarrow> pad n ps = pad m ps @ replicate (n - m) 0"
  by (rule nth_equalityI) (auto simp: pad_def part_at_def nth_append)

lemma parts_loop_pad:
  assumes "length a \<le> n" and "length b \<le> n"
  shows "parts_loop a b [0..<max (length a) (length b)] = cmp_of (pad n a) (pad n b)"
proof -
  let ?m = "max (length a) (length b)"
  have "pad n a = pad ?m a @ replicate (n - ?m) 0" "pad n b = pad ?m b @ replicate (n - ?m) 0"
    using assms by (auto intro!: pad_split)
  then show ?thesis by (simp add: cmp_of_append pad_def parts_loop_cmp)
qed

text \<open>Versions with up to \<open>n\<close> components compare like keys in the lexicographic order.\<close>

definition version_key :: "nat \<Rightarrow> version \<Rightarrow> nat \<times> string \<times> nat list \<times> nat \<times> string" where
  "version_key n v =
     (if v_unknown v then (0, [], [], 0, [])
      else if v_parts v = [] then (1, v_raw v, [], 0, [])
      else (2, [], pad n (v_parts v), (case v_pre v of None \<Rightarrow> (1, []) | Some p \<Rightarrow> (0, p))))"

lemma version_cmp_key:
  assumes "length (v_parts a) \<le> n" and "length (v_parts b) \<le> n"
  shows "version_cmp a b = cmp_of (version_key n a) (version_key n b)"
  using parts_loop_pad[OF assms]
  by (cases "v_pre a"; cases "v_pre b") (auto simp: version_cmp_def version_key_def cmp_of_def split: ordering.splits)

interpretation ver_ord: total_cmp version_cmp
proof unfold_locales
  fix a b c :: version
  let ?n = "length (v_parts a) + length (v_parts b) + length (v_parts c)"
  note key = version_cmp_key[of _ ?n]
  show "version_cmp a a = Equal" by (simp add: key)
  show "version_cmp b a = reverse_ordering (version_cmp a b)"
    by (simp add: key linorder_cmp.cmp_reverse[of "version_key ?n b"])
  show "version_cmp a b \<noteq> Greater \<Longrightarrow> version_cmp b c \<noteq> Greater \<Longrightarrow> version_cmp a c \<noteq> Greater"
    using linorder_cmp.cmp_trans[of "version_key ?n a" "version_key ?n b" "version_key ?n c"] by (simp add: key)
qed

section \<open>Constraints on a version\<close>

lemma Prefix_satisfies: "satisfies (Prefix want) v \<longleftrightarrow> prefix want (v_parts v)"
  by (auto simp: prefix_def) (metis append_take_drop_id)

lemma Prefix_compatible: "compatible (Prefix a) (Prefix b) \<longleftrightarrow> prefix a b \<or> prefix b a"
proof -
  have "take (min (length a) (length b)) a = take (min (length a) (length b)) b \<longleftrightarrow> prefix a b \<or> prefix b a"
    by (auto simp: min_def prefix_def) (metis append_take_drop_id)+
  then show ?thesis by (simp add: Let_def)
qed

lemma prefix_longest:
  assumes "prefix x y \<or> prefix y x"
  shows "prefix (if length x < length y then y else x) z \<longleftrightarrow> prefix x z \<and> prefix y z"
proof (cases "length x < length y")
  case True
  then have "prefix x y" using assms prefix_length_le by fastforce
  then show ?thesis using True prefix_order.trans by auto
next
  case False
  then have "prefix y x"
    using assms by (metis le_neq_implies_less linorder_le_less_linear not_equal_is_parallel parallelE prefix_length_le)
  then show ?thesis using False prefix_order.trans by auto
qed

lemma refine_satisfies:
  assumes "compatible a b"
  shows "satisfies (refine a b) v \<longleftrightarrow> satisfies a v \<and> satisfies b v"
proof (cases "\<exists>x y. a = Prefix x \<and> b = Prefix y")
  case True
  then obtain x y where ab: "a = Prefix x" "b = Prefix y" by blast
  then have "prefix x y \<or> prefix y x" using assms unfolding ab Prefix_compatible by simp
  then show ?thesis
    using prefix_longest[of x y "v_parts v"] unfolding ab refine.simps
    by (cases "length x < length y") (simp_all add: Prefix_satisfies del: satisfies.simps(3))
next
  case False
  then show ?thesis
    using assms prefix_longest[of _ _ "v_raw v"]
    by (cases a; cases b) (fastforce split: if_splits)+
qed

text \<open>Two constraints of the same kind are compatible exactly when some version satisfies both.\<close>

lemma compatible_exact:
  "(\<exists>v :: version. satisfies (Prefix a) v \<and> satisfies (Prefix b) v) \<longleftrightarrow> compatible (Prefix a) (Prefix b)"
  "(\<exists>v :: version. satisfies (RawPrefix s) v \<and> satisfies (RawPrefix t) v) \<longleftrightarrow> compatible (RawPrefix s) (RawPrefix t)"
proof -
  have "\<exists>v :: version. v_parts v = ps \<and> v_raw v = r" for ps r
    by (rule exI[of _ "\<lparr>v_parts = ps, v_pre = None, v_raw = r, v_unknown = False\<rparr>"]) simp
  then show "(\<exists>v :: version. satisfies (Prefix a) v \<and> satisfies (Prefix b) v) \<longleftrightarrow> compatible (Prefix a) (Prefix b)"
    "(\<exists>v :: version. satisfies (RawPrefix s) v \<and> satisfies (RawPrefix t) v) \<longleftrightarrow> compatible (RawPrefix s) (RawPrefix t)"
    unfolding Prefix_satisfies Prefix_compatible by (auto dest: prefix_same_cases) (metis prefix_order.refl)+
qed

section \<open>Printing and parsing\<close>

lemma strip_all_id: "(\<forall>w \<in> set ws. w \<noteq> [] \<longrightarrow> \<not> prefix w s) \<Longrightarrow> strip_all ws s = s"
  by (subst strip_all.simps) (auto split: option.split simp: find_None_iff find_Some_iff)

lemma strip_all_suffix: "\<exists>p. s = p @ strip_all ws s"
proof (induction ws s rule: strip_all.induct)
  case (1 ws s)
  show ?case
  proof (cases "find (\<lambda>w. w \<noteq> [] \<and> prefix w s) ws")
    case None
    then show ?thesis by (simp add: strip_all.simps[of ws s])
  next
    case (Some w)
    then have "prefix w s" by (auto simp: find_Some_iff)
    then have "s = w @ drop (length w) s" by (auto simp: prefix_def)
    then show ?thesis using 1[OF Some] Some by (simp add: strip_all.simps[of ws s]) (metis append.assoc)
  qed
qed

lemma strip_all_stripped: "w \<in> set ws \<Longrightarrow> w \<noteq> [] \<Longrightarrow> \<not> prefix w (strip_all ws s)"
proof (induction ws s rule: strip_all.induct)
  case (1 ws s)
  then show ?case by (subst strip_all.simps) (auto split: option.split simp: find_None_iff)
qed

lemma trim_idem: "trim (trim s) = trim s"
proof -
  let ?a = "strip_all ws_encodings s"
  let ?b = "strip_all (map rev ws_encodings) (rev ?a)"
  obtain p where p: "rev ?a = p @ ?b" using strip_all_suffix by blast
  then have "?a = rev ?b @ rev p" by (metis rev_append rev_rev_ident)
  then have "prefix (rev ?b) ?a" by (rule prefixI)
  then have "\<not> prefix w (rev ?b)" if "w \<in> set ws_encodings" "w \<noteq> []" for w
    using strip_all_stripped[OF that] prefix_order.trans by blast
  then have "strip_all ws_encodings (rev ?b) = rev ?b" by (intro strip_all_id) auto
  moreover have "strip_all (map rev ws_encodings) ?b = ?b"
    using strip_all_stripped[of _ "map rev ws_encodings" "rev ?a"] by (intro strip_all_id) auto
  ultimately show ?thesis by (simp add: trim_def)
qed

lemma version_reparse: "version_parse (version_display (version_parse s)) = version_parse s \<or> version_parse s = version_unknown"
  by (cases "trim s = []") (auto simp: version_parse_def version_display_def Let_def trim_idem)

lemma leading_numbers_dec: "\<forall>n \<in> set ns. n \<le> U64_MAX \<Longrightarrow> leading_numbers (map dec ns) = ns"
  by (induction ns) (simp_all add: parse_uint_dec)

lemma leading_numbers_le: "n \<in> set (leading_numbers segs) \<Longrightarrow> n \<le> U64_MAX"
  by (induction segs) (auto split: option.splits dest: parse_uint_le[OF sym] parse_uint_le)

lemma trim_digits:
  assumes "s \<noteq> []" and "is_digit (hd s)" and "is_digit (last s)"
  shows "trim s = s"
proof -
  have "strip_all ws_encodings s = s"
    using assms(1,2) by (intro strip_all_id) (cases s; auto simp: ws_encodings_def is_digit_def less_eq_char_def)
  moreover have "strip_all (map rev ws_encodings) (rev s) = rev s"
  proof (intro strip_all_id)
    obtain c r where "rev s = c # r" "is_digit c"
      using assms by (cases "rev s") (auto simp: last_rev[symmetric] hd_rev simp flip: rev_swap)
    then show "\<forall>w \<in> set (map rev ws_encodings). w \<noteq> [] \<longrightarrow> \<not> prefix w (rev s)"
      by (auto simp: ws_encodings_def is_digit_def less_eq_char_def)
  qed
  ultimately show ?thesis by (simp add: trim_def)
qed

lemma join_dec_ends:
  assumes "ns \<noteq> []"
  shows "join_with ''.'' (map dec ns) \<noteq> [] \<and> is_digit (hd (join_with ''.'' (map dec ns)))
    \<and> is_digit (last (join_with ''.'' (map dec ns)))"
  using assms
proof (induction ns rule: list_nonempty_induct)
  case (single n)
  then show ?case using dec_digits[of n] by (cases "dec n") (auto simp: list_all_iff)
next
  case (cons n ns)
  then obtain m ms where "ns = m # ms" by (cases ns) auto
  then show ?case using cons dec_digits[of n] by (cases "dec n") auto
qed

text \<open>A constraint survives printing and parsing.\<close>

lemma constr_reparse: "constr_parse (constr_display (constr_parse s)) = constr_parse s"
proof (cases "\<exists>ns. constr_parse s = Prefix ns")
  case True
  then obtain ns where ns: "constr_parse s = Prefix ns" by blast
  then have "ns \<noteq> []" and le: "\<forall>n \<in> set ns. n \<le> U64_MAX"
    using leading_numbers_le by (auto simp: constr_parse_def Let_def split: if_splits)
  let ?t = "join_with ''.'' (map dec ns)"
  have ends: "?t \<noteq> []" "is_digit (hd ?t)" "is_digit (last ?t)" using join_dec_ends[OF \<open>ns \<noteq> []\<close>] by auto
  have "?t \<noteq> ''*''" "?t \<noteq> ''latest''" "strip_v ?t = ?t"
    using ends(1,2) by (auto simp: is_digit_def less_eq_char_def strip_v_def strip_prefix_def; cases ?t; auto)+
  moreover have "split_on (CHR ''.'') ?t = map dec ns"
  proof (rule split_join)
    show "map dec ns \<noteq> []" using \<open>ns \<noteq> []\<close> by simp
    show "\<forall>x \<in> set (map dec ns). CHR ''.'' \<notin> set x"
      using dec_digits by (fastforce simp: list_all_iff is_digit_def less_eq_char_def)
  qed
  ultimately show ?thesis
    using ns ends(1) trim_digits[OF ends] leading_numbers_dec[OF le] \<open>ns \<noteq> []\<close>
    by (simp add: constr_parse_def[of ?t] Let_def)
next
  case False
  then consider "constr_parse s = AnyVersion" | "constr_parse s = Latest"
    | "constr_parse s = RawPrefix (trim s)"
    by (cases "constr_parse s") (auto simp: constr_parse_def Let_def split: if_splits)
  then show ?thesis
  proof cases
    case 1
    have "trim ''*'' = ''*''" by code_simp
    then show ?thesis using 1 by (simp add: constr_parse_def[of "''*''"])
  next
    case 2
    have "trim ''latest'' = ''latest''" by code_simp
    then show ?thesis using 2 by (simp add: constr_parse_def[of "''latest''"])
  next
    case 3
    then have "constr_parse (trim s) = constr_parse s"
      unfolding constr_parse_def trim_idem by simp
    then show ?thesis using 3 by simp
  qed
qed

section \<open>Properties\<close>

text \<open>
  Printing loses nothing that parsing found: a parsed constraint is read back from its text as the same
  constraint, and a parsed version that is not unknown as the same version.
\<close>

theorem reef_text_roundtrip:
  "constr_parse (constr_display (constr_parse s)) = constr_parse s
   \<and> (version_parse (version_display (version_parse t)) = version_parse t \<or> version_parse t = version_unknown)"
  using constr_reparse version_reparse by blast

end
