(* ===== verification/Reef_Resolve.thy ===== *)
theory Reef_Resolve
  imports Reef_Version Unix_Path "HOL-Library.AList"
begin

text \<open>
  Tool resolution: \<open>reef/resolve.rs\<close> with the lock of \<open>reef/lock.rs\<close>, the hash cache of
  \<open>reef/hashcache.rs\<close> and the bounded discovery of \<open>reef/provider/mod.rs\<close>. Providers, the file
  system, the content hash, the authority check before a probe and the clock are parameters.
\<close>

section \<open>Candidates\<close>

record candidate =
  cd_tool :: string
  cd_version :: version
  cd_path :: string
  cd_provider :: string
  cd_ambient :: bool

definition max_discovery_candidates :: nat where "max_discovery_candidates = 4096"
definition max_discovery_retained_bytes :: nat where "max_discovery_retained_bytes = 16 * 1024 * 1024"
definition max_discovery_visited_paths :: nat where "max_discovery_visited_paths = 4096"
definition max_discovery_visited_path_bytes :: nat where "max_discovery_visited_path_bytes = 16 * 1024 * 1024"

record discovery =
  dc_provider :: string
  dc_candidates :: "candidate list"
  dc_retained :: nat
  dc_visited :: nat
  dc_visited_bytes :: nat

definition discovery_new :: "string \<Rightarrow> discovery" where
  "discovery_new p =
     \<lparr>dc_provider = p, dc_candidates = [], dc_retained = 0, dc_visited = 0, dc_visited_bytes = 0\<rparr>"

definition checked_usize_add :: "nat \<Rightarrow> nat \<Rightarrow> nat option" where
  "checked_usize_add a b = (if a + b \<le> USIZE_MAX then Some (a + b) else None)"

definition visit_path :: "string \<Rightarrow> discovery \<Rightarrow> (string, discovery) result" where
  "visit_path path d =
     (if max_discovery_visited_paths \<le> dc_visited d then Inl ''filesystem visit limit reached''
      else case checked_usize_add (dc_visited_bytes d) (length path) of
             None \<Rightarrow> Inl ''path accounting overflowed''
           | Some next \<Rightarrow>
               if max_discovery_visited_path_bytes < next then Inl ''visited path state exceeds the limit''
               else Inr (d\<lparr>dc_visited := dc_visited d + 1, dc_visited_bytes := next\<rparr>))"

definition discovery_push :: "candidate \<Rightarrow> discovery \<Rightarrow> (string, discovery) result" where
  "discovery_push c d =
     (if max_discovery_candidates \<le> length (dc_candidates d) then Inl ''candidate identity limit reached''
      else case Option.bind (checked_usize_add (length (cd_tool c)) (length (version_display (cd_version c))))
                  (\<lambda>b. Option.bind (checked_usize_add b (length (cd_path c)))
                  (\<lambda>b. Option.bind (checked_usize_add b (length (cd_provider c)))
                  (\<lambda>b. checked_usize_add b 128))) of
             None \<Rightarrow> Inl ''candidate accounting overflowed''
           | Some retained \<Rightarrow>
               (case checked_usize_add (dc_retained d) retained of
                  None \<Rightarrow> Inl ''candidate aggregate accounting overflowed''
                | Some next \<Rightarrow>
                    if max_discovery_retained_bytes < next then Inl ''candidate retained state exceeds the limit''
                    else Inr (d\<lparr>dc_retained := next, dc_candidates := dc_candidates d @ [c]\<rparr>)))"

fun from_candidates :: "candidate list \<Rightarrow> discovery \<Rightarrow> (string, discovery) result" where
  "from_candidates [] d = Inr d"
| "from_candidates (c # cs) d = bindR (discovery_push c d) (from_candidates cs)"

section \<open>Hashes of files\<close>

record disk_file =
  f_regular :: bool
  f_key :: "nat \<times> nat \<times> int \<times> int \<times> int \<times> int \<times> nat"
  f_bytes :: string

type_synonym hash_cache = "((nat \<times> nat \<times> int \<times> int \<times> int \<times> int \<times> nat) \<times> string) list"

definition max_hash_cache_entries :: nat where "max_hash_cache_entries = 4096"

text \<open>\<open>fs\<close> gives the file at a path, \<open>hash\<close> its hex digest.\<close>

definition hash_file ::
  "(string \<Rightarrow> string) \<Rightarrow> (string \<Rightarrow> (string, disk_file) result) \<Rightarrow> string \<Rightarrow> hash_cache
   \<Rightarrow> (string, string) result \<times> hash_cache" where
  "hash_file hash fs path cache =
     (case fs path of
        Inl e \<Rightarrow> (Inl e, cache)
      | Inr f \<Rightarrow>
          if \<not> f_regular f then (Inl ''hash target is not a regular file'', cache)
          else case map_of cache (f_key f) of
                 Some h \<Rightarrow> (Inr h, cache)
               | None \<Rightarrow>
                   let hex = hash (f_bytes f);
                       cache1 = (if max_hash_cache_entries \<le> length cache then [] else cache)
                   in (Inr hex, AList.update (f_key f) hex cache1))"

section \<open>The lock\<close>

record lock_entry =
  le_name :: string
  le_version :: string
  le_provider :: string
  le_path :: string
  le_blake3 :: string
  le_resolved_at :: string

type_synonym lockfile = "(string \<times> lock_entry) list"

definition reef_lock_max_tools :: nat where "reef_lock_max_tools = 4096"
definition reef_max_string_bytes :: nat where "reef_max_string_bytes = 4 * 1024"

definition validate_string :: "string \<Rightarrow> string \<Rightarrow> (string, unit) result" where
  "validate_string kind s =
     (if reef_max_string_bytes < length s then Inl (kind @ '' is too long'') else Inr ())"

text \<open>Paths are taken to be valid UTF-8, so that their lossy text is the path itself.\<close>

definition validate_entry :: "lock_entry \<Rightarrow> (string, unit) result" where
  "validate_entry e =
     eachR (\<lambda>(kind, s). validate_string kind s)
       [(''lock name'', le_name e), (''lock version'', le_version e), (''lock provider'', le_provider e),
        (''lock path'', le_path e), (''lock hash'', le_blake3 e), (''lock timestamp'', le_resolved_at e)]"

definition try_insert :: "lock_entry \<Rightarrow> lockfile \<Rightarrow> (string, lockfile) result" where
  "try_insert e lock =
     (if map_of lock (le_name e) = None \<and> reef_lock_max_tools \<le> length lock
      then Inl ''lock tool identity limit reached''
      else bindR (validate_entry e) (\<lambda>_. Inr (AList.update (le_name e) e lock)))"

definition validate_lock :: "lockfile \<Rightarrow> (string, unit) result" where
  "validate_lock lock =
     (if reef_lock_max_tools < length lock then Inl ''lock has too many tools''
      else eachR validate_entry (map snd lock))"

section \<open>The effective decision\<close>

record tool_req =
  tr_constr :: constr
  tr_provider :: "string option"

record scope_entry =
  sc_label :: string
  sc_source :: string
  sc_tools :: "string \<rightharpoonup> tool_req"

datatype reef_error =
    ReefConflict string
  | ReefUnlocked string
  | ReefDrift string
  | ReefNotFound string
  | ReefProvider string
  | ReefProbeDenied string

record decision =
  de_constr :: constr
  de_pin :: "string option"
  de_label :: string
  de_source :: string
  de_constrained :: bool

text \<open>Folding the farther scopes into the nearest one.\<close>

fun merge_reqs ::
  "string \<Rightarrow> constr \<Rightarrow> string option \<Rightarrow> tool_req list \<Rightarrow> (reef_error, constr \<times> string option) result" where
  "merge_reqs name eff pin [] = Inr (eff, pin)"
| "merge_reqs name eff pin (req # reqs) =
     (if \<not> compatible eff (tr_constr req) then Inl (ReefConflict name)
      else let eff' = refine eff (tr_constr req) in
           case tr_provider req of
             None \<Rightarrow> merge_reqs name eff' pin reqs
           | Some p \<Rightarrow>
               (case pin of
                  Some existing \<Rightarrow>
                    if existing \<noteq> p then Inl (ReefConflict name) else merge_reqs name eff' pin reqs
                | None \<Rightarrow> merge_reqs name eff' (Some p) reqs))"

definition effective_decision :: "scope_entry list \<Rightarrow> string \<Rightarrow> (reef_error, decision) result" where
  "effective_decision scopes name =
     (case filter (\<lambda>s. sc_tools s name \<noteq> None) scopes of
        [] \<Rightarrow> Inr \<lparr>de_constr = AnyVersion, de_pin = None, de_label = ''system'', de_source = [],
                    de_constrained = False\<rparr>
      | nearest # farther \<Rightarrow>
          let base = the (sc_tools nearest name)
          in bindR (merge_reqs name (tr_constr base) (tr_provider base)
                     (map (\<lambda>s. the (sc_tools s name)) farther))
               (\<lambda>(eff, pin). Inr \<lparr>de_constr = eff, de_pin = pin, de_label = sc_label nearest,
                                  de_source = sc_source nearest, de_constrained = True\<rparr>))"

definition lock_entry_valid :: "lock_entry \<Rightarrow> decision \<Rightarrow> bool" where
  "lock_entry_valid e d =
     (if (case de_pin d of Some pin \<Rightarrow> le_provider e \<noteq> pin | None \<Rightarrow> False) then False
      else satisfies (de_constr d) (version_parse (le_version e)))"

section \<open>The best candidate\<close>

record provider =
  pv_name :: string
  pv_discover :: "string \<Rightarrow> (string, discovery) result"
  pv_version_of :: "candidate \<Rightarrow> version"

definition path_less :: "string \<Rightarrow> string \<Rightarrow> bool" where
  "path_less p q \<longleftrightarrow> components p < components q"

definition better :: "nat \<Rightarrow> candidate \<Rightarrow> nat \<times> candidate \<Rightarrow> bool" where
  "better idx cand best =
     (case best of
        (best_idx, current) \<Rightarrow>
          version_cmp (cd_version cand) (cd_version current) = Greater
          \<or> version_cmp (cd_version cand) (cd_version current) = Equal
            \<and> (idx < best_idx \<or> idx = best_idx \<and> path_less (cd_path cand) (cd_path current)))"

text \<open>
  \<open>guard\<close> is asked before a provider is run to find the version of a candidate. The source takes it as
  a closure that may keep state; here its answer depends on the candidate only.
\<close>

definition fill_version ::
  "(candidate \<Rightarrow> (reef_error, unit) result) \<Rightarrow> constr \<Rightarrow> provider \<Rightarrow> candidate \<Rightarrow> (reef_error, candidate) result" where
  "fill_version guard con p cand =
     (if needs_version con \<and> v_unknown (cd_version cand)
      then bindR (guard cand) (\<lambda>_. Inr (cand\<lparr>cd_version := pv_version_of p cand\<rparr>))
      else Inr cand)"

definition keep_better :: "constr \<Rightarrow> nat \<Rightarrow> candidate \<Rightarrow> (nat \<times> candidate) option \<Rightarrow> (nat \<times> candidate) option" where
  "keep_better con idx cand best =
     (if satisfies con (cd_version cand)
         \<and> (case best of None \<Rightarrow> True | Some b \<Rightarrow> better idx cand b)
      then Some (idx, cand) else best)"

fun scan_candidates ::
  "(candidate \<Rightarrow> (reef_error, unit) result) \<Rightarrow> constr \<Rightarrow> nat \<Rightarrow> provider \<Rightarrow> (nat \<times> candidate) option
   \<Rightarrow> candidate list \<Rightarrow> (reef_error, (nat \<times> candidate) option) result" where
  "scan_candidates guard con idx p best [] = Inr best"
| "scan_candidates guard con idx p best (cand # cands) =
     bindR (fill_version guard con p cand)
       (\<lambda>cand'. scan_candidates guard con idx p (keep_better con idx cand' best) cands)"

fun scan_providers ::
  "(candidate \<Rightarrow> (reef_error, unit) result) \<Rightarrow> constr \<Rightarrow> string option \<Rightarrow> string \<Rightarrow> nat
   \<Rightarrow> (nat \<times> candidate) option \<Rightarrow> provider list \<Rightarrow> (reef_error, (nat \<times> candidate) option) result" where
  "scan_providers guard con pin name idx best [] = Inr best"
| "scan_providers guard con pin name idx best (p # ps) =
     (if (case pin of Some n \<Rightarrow> pv_name p \<noteq> n | None \<Rightarrow> False)
      then scan_providers guard con pin name (idx + 1) best ps
      else case pv_discover p name of
             Inl e \<Rightarrow> Inl (ReefProvider e)
           | Inr found \<Rightarrow>
               bindR (scan_candidates guard con idx p best (dc_candidates found))
                 (\<lambda>best'. scan_providers guard con pin name (idx + 1) best' ps))"

definition best_candidate ::
  "provider list \<Rightarrow> (candidate \<Rightarrow> (reef_error, unit) result) \<Rightarrow> string \<Rightarrow> constr \<Rightarrow> string option
   \<Rightarrow> (reef_error, candidate option) result" where
  "best_candidate ps guard name con pin =
     bindR (scan_providers guard con pin name 0 None ps) (\<lambda>best. Inr (map_option snd best))"

section \<open>Resolution\<close>

datatype reef_policy = Interactive | Script

record scope_decision =
  sd_scope :: string
  sd_source :: string
  sd_constr :: "string option"
  sd_outcome :: string

record resolution_report =
  rp_name :: string
  rp_scope :: string
  rp_constr :: string
  rp_version :: string
  rp_path :: string
  rp_hash :: string
  rp_provider :: string
  rp_chain :: "scope_decision list"

record resolution =
  rs_report :: resolution_report
  rs_path :: string
  rs_version :: version
  rs_provider :: string
  rs_hash :: string
  rs_constrained :: bool
  rs_locked_now :: bool

record lock_notice =
  ln_name :: string
  ln_version :: string
  ln_provider :: string
  ln_path :: string

text \<open>What a resolver runs with; the state it changes is the lock, the hash cache and the notices.\<close>

record resolver =
  rv_providers :: "provider list"
  rv_hash :: "string \<Rightarrow> string"
  rv_fs :: "string \<Rightarrow> (string, disk_file) result"
  rv_guard :: "candidate \<Rightarrow> (reef_error, unit) result"
  rv_now :: string

record reef_state =
  st_lock :: lockfile
  st_cache :: hash_cache
  st_notices :: "lock_notice list"

definition lift_hash ::
  "resolver \<Rightarrow> string \<Rightarrow> reef_state \<Rightarrow> (string, string) result \<times> reef_state" where
  "lift_hash rv path st =
     (case hash_file (rv_hash rv) (rv_fs rv) path (st_cache st) of (r, c) \<Rightarrow> (r, st\<lparr>st_cache := c\<rparr>))"

fun mark_scopes :: "string \<Rightarrow> bool \<Rightarrow> scope_entry list \<Rightarrow> scope_decision list" where
  "mark_scopes name marked [] = []"
| "mark_scopes name marked (s # ss) =
     (case sc_tools s name of
        Some req \<Rightarrow>
          \<lparr>sd_scope = sc_label s, sd_source = sc_source s, sd_constr = Some (constr_display (tr_constr req)),
           sd_outcome = (if marked then ''shadowed'' else ''selected'')\<rparr> # mark_scopes name True ss
      | None \<Rightarrow>
          \<lparr>sd_scope = sc_label s, sd_source = sc_source s, sd_constr = None, sd_outcome = ''absent''\<rparr>
            # mark_scopes name marked ss)"

definition chain_decisions :: "scope_entry list \<Rightarrow> string \<Rightarrow> string \<Rightarrow> bool \<Rightarrow> scope_decision list" where
  "chain_decisions scopes name selected constrained =
     mark_scopes name False scopes
       @ (if constrained then []
          else [\<lparr>sd_scope = selected, sd_source = [], sd_constr = None, sd_outcome = ''selected''\<rparr>])"

definition resolution_from_lock ::
  "resolver \<Rightarrow> scope_entry list \<Rightarrow> string \<Rightarrow> decision \<Rightarrow> lock_entry \<Rightarrow> reef_state
   \<Rightarrow> (reef_error, resolution) result \<times> reef_state" where
  "resolution_from_lock rv scopes name d e st =
     (case lift_hash rv (le_path e) st of
        (Inl _, st1) \<Rightarrow> (Inl (ReefNotFound name), st1)
      | (Inr current, st1) \<Rightarrow>
          if current \<noteq> le_blake3 e then (Inl (ReefDrift name), st1)
          else (Inr \<lparr>rs_report = \<lparr>rp_name = name, rp_scope = de_label d,
                       rp_constr = constr_display (de_constr d), rp_version = le_version e,
                       rp_path = le_path e, rp_hash = le_blake3 e, rp_provider = le_provider e,
                       rp_chain = chain_decisions scopes name (de_label d) True\<rparr>,
                     rs_path = le_path e, rs_version = version_parse (le_version e),
                     rs_provider = le_provider e, rs_hash = le_blake3 e,
                     rs_constrained = de_constrained d, rs_locked_now = False\<rparr>, st1))"

definition finish_fresh ::
  "resolver \<Rightarrow> scope_entry list \<Rightarrow> string \<Rightarrow> decision \<Rightarrow> candidate \<Rightarrow> string \<Rightarrow> reef_state
   \<Rightarrow> (reef_error, resolution) result \<times> reef_state" where
  "finish_fresh rv scopes name d chosen h st =
     (let label = (if de_constrained d then de_label d
                   else if cd_ambient chosen then ''ambient'' else ''system'');
          vstr = version_display (cd_version chosen);
          res = (\<lambda>now. \<lparr>rs_report = \<lparr>rp_name = name, rp_scope = label,
                     rp_constr = constr_display (de_constr d), rp_version = vstr,
                     rp_path = cd_path chosen, rp_hash = h, rp_provider = cd_provider chosen,
                     rp_chain = chain_decisions scopes name label (de_constrained d)\<rparr>,
                   rs_path = cd_path chosen, rs_version = cd_version chosen,
                   rs_provider = cd_provider chosen, rs_hash = h,
                   rs_constrained = de_constrained d, rs_locked_now = now\<rparr>)
      in if de_constrained d
         then (let e = \<lparr>le_name = name, le_version = vstr, le_provider = cd_provider chosen,
                        le_path = cd_path chosen, le_blake3 = h, le_resolved_at = rv_now rv\<rparr>
               in case try_insert e (st_lock st) of
                    Inl m \<Rightarrow> (Inl (ReefProvider m), st)
                  | Inr lock' \<Rightarrow>
                      (Inr (res True),
                       st\<lparr>st_lock := lock',
                          st_notices := st_notices st @
                            [\<lparr>ln_name = name, ln_version = vstr, ln_provider = cd_provider chosen,
                              ln_path = cd_path chosen\<rparr>]\<rparr>))
         else (Inr (res False), st))"

definition resolve_fresh ::
  "resolver \<Rightarrow> scope_entry list \<Rightarrow> string \<Rightarrow> decision \<Rightarrow> reef_state
   \<Rightarrow> (reef_error, resolution) result \<times> reef_state" where
  "resolve_fresh rv scopes name d st =
     (case best_candidate (rv_providers rv) (rv_guard rv) name (de_constr d) (de_pin d) of
        Inl e \<Rightarrow> (Inl e, st)
      | Inr None \<Rightarrow> (Inl (ReefNotFound name), st)
      | Inr (Some chosen) \<Rightarrow>
          (case lift_hash rv (cd_path chosen) st of
             (Inl m, st1) \<Rightarrow> (Inl (ReefProvider m), st1)
           | (Inr h, st1) \<Rightarrow> finish_fresh rv scopes name d chosen h st1))"

definition resolve ::
  "resolver \<Rightarrow> scope_entry list \<Rightarrow> reef_policy \<Rightarrow> string \<Rightarrow> reef_state
   \<Rightarrow> (reef_error, resolution) result \<times> reef_state" where
  "resolve rv scopes pol name st =
     (case effective_decision scopes name of
        Inl e \<Rightarrow> (Inl e, st)
      | Inr d \<Rightarrow>
          (case map_of (st_lock st) name of
             Some e \<Rightarrow>
               if lock_entry_valid e d then resolution_from_lock rv scopes name d e st
               else if de_constrained d \<and> pol = Script then (Inl (ReefUnlocked name), st)
               else resolve_fresh rv scopes name d st
           | None \<Rightarrow>
               if de_constrained d \<and> pol = Script then (Inl (ReefUnlocked name), st)
               else resolve_fresh rv scopes name d st))"

definition refresh_lock ::
  "resolver \<Rightarrow> scope_entry list \<Rightarrow> string \<Rightarrow> reef_state \<Rightarrow> (reef_error, resolution) result \<times> reef_state" where
  "refresh_lock rv scopes name st =
     (case effective_decision scopes name of
        Inl e \<Rightarrow> (Inl e, st)
      | Inr d \<Rightarrow> resolve_fresh rv scopes name d (st\<lparr>st_lock := AList.delete name (st_lock st)\<rparr>))"

section \<open>The decision is the conjunction of the scopes\<close>

lemma merge_reqs_satisfies:
  "merge_reqs name eff pin reqs = Inr (c, p) \<Longrightarrow>
   satisfies c v \<longleftrightarrow> satisfies eff v \<and> (\<forall>r \<in> set reqs. satisfies (tr_constr r) v)"
  by (induction name eff pin reqs rule: merge_reqs.induct)
    (auto simp: Let_def refine_satisfies split: if_splits option.splits)

lemma merge_reqs_pin:
  "merge_reqs name eff pin reqs = Inr (c, p) \<Longrightarrow>
   (pin = Some x \<longrightarrow> p = Some x) \<and> (\<forall>r \<in> set reqs. tr_provider r = Some x \<longrightarrow> p = Some x)"
proof (induction name eff pin reqs rule: merge_reqs.induct)
  case (2 name eff pin req reqs)
  have ok: "compatible eff (tr_constr req)" using 2(4) by (simp split: if_splits)
  show ?case
  proof (cases "tr_provider req")
    case None
    then show ?thesis using 2(1)[OF _ refl None] 2(4) ok by simp
  next
    case (Some q)
    then show ?thesis
      using 2(2)[OF _ refl Some] 2(3)[OF _ refl Some] 2(4) ok
      by (cases pin) (simp_all split: if_splits)
  qed
qed simp

lemma effective_decision_cases:
  assumes "effective_decision scopes name = Inr d"
  obtains "\<forall>s \<in> set scopes. sc_tools s name = None" "de_constr d = AnyVersion" "de_pin d = None" "\<not> de_constrained d"
  | nearest farther where "filter (\<lambda>s. sc_tools s name \<noteq> None) scopes = nearest # farther"
    "merge_reqs name (tr_constr (the (sc_tools nearest name))) (tr_provider (the (sc_tools nearest name)))
       (map (\<lambda>s. the (sc_tools s name)) farther) = Inr (de_constr d, de_pin d)" "de_constrained d"
proof (cases "filter (\<lambda>s. sc_tools s name \<noteq> None) scopes")
  case Nil
  then show ?thesis using assms that(1) by (auto simp: effective_decision_def filter_empty_conv)
next
  case (Cons nearest farther)
  then show ?thesis using assms that(2)[OF Cons]
    by (auto simp: effective_decision_def Let_def result_simps split: prod.splits)
qed

lemma decision_conjunction:
  assumes "effective_decision scopes name = Inr d"
  shows "satisfies (de_constr d) v \<longleftrightarrow>
      (\<forall>s \<in> set scopes. \<forall>r. sc_tools s name = Some r \<longrightarrow> satisfies (tr_constr r) v)"
    and "s \<in> set scopes \<Longrightarrow> sc_tools s name = Some r \<Longrightarrow> tr_provider r = Some x \<Longrightarrow> de_pin d = Some x"
    and "de_constrained d \<longleftrightarrow> (\<exists>s \<in> set scopes. sc_tools s name \<noteq> None)"
proof -
  have mention: "s \<in> set (nearest # farther) \<longleftrightarrow> s \<in> set scopes \<and> sc_tools s name \<noteq> None"
    if "filter (\<lambda>s. sc_tools s name \<noteq> None) scopes = nearest # farther" for nearest farther s
    using that by (metis (mono_tags, lifting) mem_Collect_eq set_filter)
  from assms show "satisfies (de_constr d) v \<longleftrightarrow>
      (\<forall>s \<in> set scopes. \<forall>r. sc_tools s name = Some r \<longrightarrow> satisfies (tr_constr r) v)"
  proof (cases rule: effective_decision_cases)
    case (2 nearest farther)
    have "satisfies (de_constr d) v \<longleftrightarrow> (\<forall>s \<in> set (nearest # farther). satisfies (tr_constr (the (sc_tools s name))) v)"
      using merge_reqs_satisfies[OF 2(2), of v] by simp
    then show ?thesis using mention[OF 2(1)] by (metis (no_types, lifting) option.distinct(1) option.exhaust_sel option.sel)
  qed simp
  from assms show "s \<in> set scopes \<Longrightarrow> sc_tools s name = Some r \<Longrightarrow> tr_provider r = Some x \<Longrightarrow> de_pin d = Some x"
  proof (cases rule: effective_decision_cases)
    case (2 nearest farther)
    assume s: "s \<in> set scopes" "sc_tools s name = Some r" "tr_provider r = Some x"
    then consider "s = nearest" | "s \<in> set farther" using mention[OF 2(1), of s] by auto
    then show ?thesis
      using s merge_reqs_pin[OF 2(2), of x] by cases force+
  qed simp
  from assms show "de_constrained d \<longleftrightarrow> (\<exists>s \<in> set scopes. sc_tools s name \<noteq> None)"
  proof (cases rule: effective_decision_cases)
    case (2 nearest farther)
    then show ?thesis using mention[OF 2(1), of nearest] by auto
  qed simp
qed

section \<open>The chosen candidate is the best\<close>

lemma better_irrefl: "\<not> better i c (i, c)"
  by (simp add: better_def ver_ord.cmp_refl path_less_def)

lemma better_trans:
  assumes "better i a (j, b)" and "better j b (k, c)"
  shows "better i a (k, c)"
proof -
  let ?a = "cd_version a" and ?b = "cd_version b" and ?c = "cd_version c"
  have rev: "version_cmp x y = Greater \<longleftrightarrow> version_cmp y x = Less" for x y by (rule ver_ord.cmp_greater_iff)
  show ?thesis
  proof (cases "version_cmp ?a ?b = Equal \<and> version_cmp ?b ?c = Equal")
    case True
    then have "version_cmp ?a ?c = Equal" using ver_ord.cmp_equal_trans by blast
    then show ?thesis using assms True unfolding better_def path_less_def by auto
  next
    case False
    then have "version_cmp ?c ?b = Less \<and> version_cmp ?b ?a \<noteq> Greater \<or> version_cmp ?c ?b \<noteq> Greater \<and> version_cmp ?b ?a = Less"
      using assms rev[of ?a ?b] rev[of ?b ?c] rev[of ?b ?a] rev[of ?c ?b] unfolding better_def
      by (auto dest: ver_ord.cmp_equal_sym)
    then have "version_cmp ?c ?a = Less"
      using ver_ord.cmp_less_le_trans ver_ord.cmp_le_less_trans by blast
    then show ?thesis using rev by (simp add: better_def)
  qed
qed

definition optimal :: "(nat \<times> candidate) option \<Rightarrow> (nat \<times> candidate) set \<Rightarrow> bool" where
  "optimal best seen \<longleftrightarrow>
     (case best of None \<Rightarrow> seen = {} | Some b \<Rightarrow> b \<in> seen \<and> (\<forall>(i, c) \<in> seen. \<not> better i c b))"

lemma keep_better_optimal:
  assumes "optimal best seen"
  shows "optimal (keep_better con idx cand best)
    (if satisfies con (cd_version cand) then insert (idx, cand) seen else seen)"
proof (cases "satisfies con (cd_version cand)")
  case sat: True
  show ?thesis
  proof (cases best)
    case None
    then show ?thesis using assms sat by (simp add: keep_better_def optimal_def better_irrefl)
  next
    case (Some b)
    obtain j cur where b: "b = (j, cur)" by (cases b)
    have old: "b \<in> seen" "\<And>i c. (i, c) \<in> seen \<Longrightarrow> \<not> better i c b" using assms Some by (auto simp: optimal_def)
    show ?thesis
    proof (cases "better idx cand b")
      case True
      then have "\<not> better i c (idx, cand)" if "(i, c) \<in> seen" for i c
        using old(2)[OF that] better_trans b by blast
      then show ?thesis using True sat Some by (auto simp: keep_better_def optimal_def better_irrefl)
    next
      case False
      then show ?thesis using sat Some old by (auto simp: keep_better_def optimal_def)
    qed
  qed
qed (use assms in \<open>simp add: keep_better_def\<close>)

definition filled ::
  "(candidate \<Rightarrow> (reef_error, unit) result) \<Rightarrow> constr \<Rightarrow> nat \<Rightarrow> provider \<Rightarrow> candidate list \<Rightarrow> (nat \<times> candidate) set" where
  "filled guard con idx p cands =
     {(idx, c') | c c'. c \<in> set cands \<and> fill_version guard con p c = Inr c' \<and> satisfies con (cd_version c')}"

lemma scan_candidates_optimal:
  "scan_candidates guard con idx p best cands = Inr best' \<Longrightarrow> optimal best seen \<Longrightarrow>
   optimal best' (seen \<union> filled guard con idx p cands)"
proof (induction cands arbitrary: best seen)
  case (Cons c cands)
  then obtain c' where c': "fill_version guard con p c = Inr c'"
    "scan_candidates guard con idx p (keep_better con idx c' best) cands = Inr best'"
    by (auto simp: result_simps)
  let ?seen = "if satisfies con (cd_version c') then insert (idx, c') seen else seen"
  have "optimal best' (?seen \<union> filled guard con idx p cands)"
    using Cons.IH[OF c'(2) keep_better_optimal[OF Cons.prems(2)]] .
  moreover have "?seen \<union> filled guard con idx p cands = seen \<union> filled guard con idx p (c # cands)"
    using c'(1) by (auto simp: filled_def)
  ultimately show ?case by simp
qed (simp add: filled_def)

text \<open>
  \<open>offers ps guard name con pin\<close>: the candidates in play, each with the index of its provider and
  its version filled in, that satisfy the constraint.
\<close>

definition pin_excludes :: "string option \<Rightarrow> provider \<Rightarrow> bool" where
  "pin_excludes pin p = (case pin of Some n \<Rightarrow> pv_name p \<noteq> n | None \<Rightarrow> False)"

definition offers ::
  "provider list \<Rightarrow> (candidate \<Rightarrow> (reef_error, unit) result) \<Rightarrow> string \<Rightarrow> constr \<Rightarrow> string option
   \<Rightarrow> (nat \<times> candidate) set" where
  "offers ps guard name con pin =
     {(i, c') | i found c c'. i < length ps \<and> \<not> pin_excludes pin (ps ! i) \<and> pv_discover (ps ! i) name = Inr found
        \<and> c \<in> set (dc_candidates found) \<and> fill_version guard con (ps ! i) c = Inr c' \<and> satisfies con (cd_version c')}"

definition provider_offers ::
  "(candidate \<Rightarrow> (reef_error, unit) result) \<Rightarrow> string \<Rightarrow> constr \<Rightarrow> string option \<Rightarrow> nat \<Rightarrow> provider
   \<Rightarrow> (nat \<times> candidate) set" where
  "provider_offers guard name con pin idx p =
     (if pin_excludes pin p then {}
      else case pv_discover p name of Inl _ \<Rightarrow> {} | Inr found \<Rightarrow> filled guard con idx p (dc_candidates found))"

lemma scan_providers_optimal:
  "scan_providers guard con pin name idx best ps = Inr best' \<Longrightarrow> optimal best seen \<Longrightarrow>
   optimal best' (seen \<union> (\<Union>i < length ps. provider_offers guard name con pin (idx + i) (ps ! i)))"
proof (induction ps arbitrary: idx best seen)
  case (Cons p ps)
  let ?rest = "\<Union>i < length ps. provider_offers guard name con pin (idx + 1 + i) (ps ! i)"
  have split: "(\<Union>i < length (p # ps). provider_offers guard name con pin (idx + i) ((p # ps) ! i)) =
      provider_offers guard name con pin idx p \<union> ?rest"
    by (simp add: lessThan_Suc_eq_insert_0 image_image)
  show ?case
  proof (cases "pin_excludes pin p")
    case True
    then have "scan_providers guard con pin name (idx + 1) best ps = Inr best'"
      using Cons.prems(1) by (simp add: pin_excludes_def)
    moreover have "provider_offers guard name con pin idx p = {}" using True by (simp add: provider_offers_def)
    ultimately show ?thesis using Cons.IH[of "idx + 1" best seen] Cons.prems(2) unfolding split by simp
  next
    case False
    then obtain found mid where f: "pv_discover p name = Inr found"
      "scan_candidates guard con idx p best (dc_candidates found) = Inr mid"
      "scan_providers guard con pin name (idx + 1) mid ps = Inr best'"
      using Cons.prems(1) by (auto simp: pin_excludes_def result_simps split: sum.splits)
    have "optimal mid (seen \<union> provider_offers guard name con pin idx p)"
      using scan_candidates_optimal[OF f(2) Cons.prems(2)] f(1) False by (simp add: provider_offers_def)
    from Cons.IH[OF f(3) this] show ?thesis unfolding split by (simp add: Un_assoc)
  qed
qed simp

lemma provider_offers_iff:
  "(j, c') \<in> provider_offers guard name con pin idx p \<longleftrightarrow>
   j = idx \<and> \<not> pin_excludes pin p \<and> satisfies con (cd_version c')
   \<and> (\<exists>found c. pv_discover p name = Inr found \<and> c \<in> set (dc_candidates found) \<and> fill_version guard con p c = Inr c')"
  by (cases "pv_discover p name") (auto simp: provider_offers_def filled_def)

lemma offers_providers:
  "offers ps guard name con pin = (\<Union>i < length ps. provider_offers guard name con pin i (ps ! i))"
proof (rule set_eqI)
  fix x :: "nat \<times> candidate"
  show "x \<in> offers ps guard name con pin \<longleftrightarrow> x \<in> (\<Union>i < length ps. provider_offers guard name con pin i (ps ! i))"
    by (cases x) (auto simp: offers_def provider_offers_iff)
qed

lemma best_candidate_optimal:
  assumes "best_candidate ps guard name con pin = Inr r"
  shows "\<exists>best. r = map_option snd best \<and> optimal best (offers ps guard name con pin)"
proof -
  obtain best where best: "scan_providers guard con pin name 0 None ps = Inr best" "r = map_option snd best"
    using assms by (auto simp: best_candidate_def result_simps)
  have "optimal None {}" by (simp add: optimal_def)
  from scan_providers_optimal[OF best(1) this] show ?thesis
    using best(2) by (auto simp: offers_providers)
qed

section \<open>Hash cache\<close>

text \<open>The cache agrees with the file system, and a file's identity determines its bytes.\<close>

definition identities_faithful :: "(string \<Rightarrow> (string, disk_file) result) \<Rightarrow> bool" where
  "identities_faithful fs \<longleftrightarrow>
     (\<forall>p q f g. fs p = Inr f \<longrightarrow> fs q = Inr g \<longrightarrow> f_key f = f_key g \<longrightarrow> f_bytes f = f_bytes g)"

definition cache_ok :: "resolver \<Rightarrow> hash_cache \<Rightarrow> bool" where
  "cache_ok rv cache \<longleftrightarrow>
     (\<forall>p f h. rv_fs rv p = Inr f \<longrightarrow> map_of cache (f_key f) = Some h \<longrightarrow> h = rv_hash rv (f_bytes f))"

lemma hash_file_ok:
  assumes "hash_file (rv_hash rv) (rv_fs rv) path cache = (r, cache')" and ok: "cache_ok rv cache"
    and "identities_faithful (rv_fs rv)"
  shows "cache_ok rv cache'
    \<and> (\<forall>h. r = Inr h \<longleftrightarrow> (\<exists>f. rv_fs rv path = Inr f \<and> f_regular f \<and> h = rv_hash rv (f_bytes f)))"
proof (cases "\<exists>f. rv_fs rv path = Inr f \<and> f_regular f")
  case True
  then obtain f where f: "rv_fs rv path = Inr f" "f_regular f" by blast
  show ?thesis
  proof (cases "map_of cache (f_key f)")
    case None
    let ?c = "if max_hash_cache_entries \<le> length cache then [] else cache"
    have upd: "r = Inr (rv_hash rv (f_bytes f))" "cache' = AList.update (f_key f) (rv_hash rv (f_bytes f)) ?c"
      using assms(1) f None by (auto simp: hash_file_def Let_def)
    have "cache_ok rv cache'"
      unfolding cache_ok_def
    proof (intro allI impI)
      fix p g h assume g: "rv_fs rv p = Inr g" "map_of cache' (f_key g) = Some h"
      show "h = rv_hash rv (f_bytes g)"
      proof (cases "f_key g = f_key f")
        case True
        then have "f_bytes g = f_bytes f" using assms(3) f(1) g(1) unfolding identities_faithful_def by blast
        then show ?thesis using g(2) True upd(2) by (simp add: update_conv')
      next
        case False
        then have "map_of ?c (f_key g) = Some h" using g(2) upd(2) by (simp add: update_conv')
        then have "map_of cache (f_key g) = Some h" by (simp split: if_splits)
        then show ?thesis using g(1) ok unfolding cache_ok_def by blast
      qed
    qed
    then show ?thesis using upd(1) f by auto
  next
    case (Some h)
    then have "r = Inr h" "cache' = cache" "h = rv_hash rv (f_bytes f)"
      using assms(1) ok f by (auto simp: hash_file_def cache_ok_def)
    then show ?thesis using f ok by auto
  qed
next
  case False
  then have "cache' = cache" "\<forall>h. r \<noteq> Inr h"
    using assms(1) by (auto simp: hash_file_def split: sum.splits if_splits)
  then show ?thesis using False ok by auto
qed

lemma lift_hash_ok:
  assumes "lift_hash rv path st = (r, st')" and "cache_ok rv (st_cache st)" and "identities_faithful (rv_fs rv)"
  shows "st_lock st' = st_lock st \<and> st_notices st' = st_notices st \<and> cache_ok rv (st_cache st')
    \<and> (\<forall>h. r = Inr h \<longleftrightarrow> (\<exists>f. rv_fs rv path = Inr f \<and> f_regular f \<and> h = rv_hash rv (f_bytes f)))"
  using assms hash_file_ok[OF _ assms(2,3)] by (auto simp: lift_hash_def split: prod.splits)

section \<open>Outcomes of a resolution\<close>

lemma resolution_from_lock_Inr:
  assumes "resolution_from_lock rv scopes name d e st = (Inr res, st')"
    and "cache_ok rv (st_cache st)" and "identities_faithful (rv_fs rv)"
  shows "rs_path res = le_path e \<and> rs_provider res = le_provider e \<and> rs_hash res = le_blake3 e
    \<and> rs_version res = version_parse (le_version e) \<and> \<not> rs_locked_now res
    \<and> st_lock st' = st_lock st \<and> st_notices st' = st_notices st \<and> cache_ok rv (st_cache st')
    \<and> (\<exists>f. rv_fs rv (le_path e) = Inr f \<and> f_regular f \<and> le_blake3 e = rv_hash rv (f_bytes f))"
proof -
  obtain r st1 where h: "lift_hash rv (le_path e) st = (r, st1)" by fastforce
  note ok = lift_hash_ok[OF h assms(2,3)]
  from assms(1) h have "r = Inr (le_blake3 e)" "st' = st1"
    by (auto simp: resolution_from_lock_def split: sum.splits if_splits)
  with ok assms(1) h show ?thesis by (auto simp: resolution_from_lock_def)
qed

lemma resolve_fresh_Inr:
  assumes "resolve_fresh rv scopes name d st = (Inr res, st')"
    and "cache_ok rv (st_cache st)" and "identities_faithful (rv_fs rv)"
  obtains chosen f where "best_candidate (rv_providers rv) (rv_guard rv) name (de_constr d) (de_pin d) = Inr (Some chosen)"
    "rv_fs rv (cd_path chosen) = Inr f" "f_regular f" "rs_hash res = rv_hash rv (f_bytes f)"
    "rs_path res = cd_path chosen" "rs_version res = cd_version chosen" "rs_provider res = cd_provider chosen"
    "rs_locked_now res = de_constrained d" "cache_ok rv (st_cache st')"
    "de_constrained d \<longrightarrow> map_of (st_lock st') name =
       Some \<lparr>le_name = name, le_version = version_display (cd_version chosen), le_provider = cd_provider chosen,
         le_path = cd_path chosen, le_blake3 = rs_hash res, le_resolved_at = rv_now rv\<rparr>"
    "\<not> de_constrained d \<longrightarrow> st_lock st' = st_lock st"
proof -
  obtain chosen where c: "best_candidate (rv_providers rv) (rv_guard rv) name (de_constr d) (de_pin d) = Inr (Some chosen)"
    using assms(1) by (auto simp: resolve_fresh_def split: sum.splits option.splits)
  obtain r st1 where h: "lift_hash rv (cd_path chosen) st = (r, st1)" by fastforce
  note ok = lift_hash_ok[OF h assms(2,3)]
  obtain hx where r: "r = Inr hx" using assms(1) c h by (auto simp: resolve_fresh_def split: sum.splits)
  then obtain f where f: "rv_fs rv (cd_path chosen) = Inr f" "f_regular f" "hx = rv_hash rv (f_bytes f)" using ok by blast
  have fin: "finish_fresh rv scopes name d chosen hx st1 = (Inr res, st')"
    using assms(1) c h r by (simp add: resolve_fresh_def)
  then have "rs_hash res = hx" "rs_path res = cd_path chosen" "rs_version res = cd_version chosen"
    "rs_provider res = cd_provider chosen" "rs_locked_now res = de_constrained d" "st_cache st' = st_cache st1"
    by (auto simp: finish_fresh_def Let_def split: if_splits sum.splits)
  moreover have "\<not> de_constrained d \<longrightarrow> st_lock st' = st_lock st"
    using fin ok by (auto simp: finish_fresh_def Let_def)
  moreover have "de_constrained d \<longrightarrow> map_of (st_lock st') name =
       Some \<lparr>le_name = name, le_version = version_display (cd_version chosen), le_provider = cd_provider chosen,
         le_path = cd_path chosen, le_blake3 = hx, le_resolved_at = rv_now rv\<rparr>"
    using fin by (auto simp: finish_fresh_def Let_def try_insert_def result_simps update_conv' split: if_splits sum.splits)
  ultimately show ?thesis using that[OF c f(1,2)] f(3) ok by simp
qed

lemma resolve_cases:
  assumes "resolve rv scopes pol name st = (res, st')"
  obtains e where "effective_decision scopes name = Inl e" "res = Inl e" "st' = st"
  | d e where "effective_decision scopes name = Inr d" "map_of (st_lock st) name = Some e" "lock_entry_valid e d"
      "resolution_from_lock rv scopes name d e st = (res, st')"
  | d where "effective_decision scopes name = Inr d" "de_constrained d" "pol = Script"
      "res = Inl (ReefUnlocked name)" "st' = st"
  | d where "effective_decision scopes name = Inr d" "\<not> (de_constrained d \<and> pol = Script)"
      "resolve_fresh rv scopes name d st = (res, st')"
proof (cases "effective_decision scopes name")
  case (Inl e)
  then show ?thesis using assms that(1) by (simp add: resolve_def)
next
  case (Inr d)
  show ?thesis
  proof (cases "\<exists>e. map_of (st_lock st) name = Some e \<and> lock_entry_valid e d")
    case True
    then show ?thesis using assms that(2)[OF Inr] Inr by (auto simp: resolve_def)
  next
    case False
    then show ?thesis using assms that(3,4)[OF Inr] Inr
      by (auto simp: resolve_def split: option.splits if_splits)
  qed
qed

lemma best_candidate_satisfies:
  assumes "best_candidate ps guard name con pin = Inr (Some c)"
  obtains i found c0 where "i < length ps" "\<not> pin_excludes pin (ps ! i)" "pv_discover (ps ! i) name = Inr found"
    "c0 \<in> set (dc_candidates found)" "fill_version guard con (ps ! i) c0 = Inr c" "satisfies con (cd_version c)"
proof -
  obtain best where b: "Some c = map_option snd best" "optimal best (offers ps guard name con pin)"
    using best_candidate_optimal[OF assms] by blast
  then obtain j where "(j, c) \<in> offers ps guard name con pin" by (cases best) (auto simp: optimal_def)
  then show ?thesis using that by (auto simp: offers_def)
qed

section \<open>Properties\<close>

text \<open>
  The effective constraint of a tool is the conjunction of what all scopes of the chain ask: a version
  satisfies it exactly when it satisfies the requirement of every scope that mentions the tool, every
  provider pin is respected, and the tool counts as constrained exactly when some scope mentions it.
\<close>

theorem decision_is_conjunction:
  assumes "effective_decision scopes name = Inr d"
  shows "(\<forall>v. satisfies (de_constr d) v \<longleftrightarrow>
        (\<forall>s \<in> set scopes. \<forall>r. sc_tools s name = Some r \<longrightarrow> satisfies (tr_constr r) v))
    \<and> (\<forall>s \<in> set scopes. \<forall>r p. sc_tools s name = Some r \<longrightarrow> tr_provider r = Some p \<longrightarrow> de_pin d = Some p)
    \<and> (de_constrained d \<longleftrightarrow> (\<exists>s \<in> set scopes. sc_tools s name \<noteq> None))"
  using decision_conjunction[OF assms] by blast

text \<open>
  C20. Candidate selection is optimal: it returns a candidate that the providers in play offer and that
  satisfies the constraint, such that no offered candidate has a higher version, or the same version
  from a provider of higher precedence, or both from the same provider at a smaller path; it returns
  none only when no candidate satisfies the constraint.
\<close>

theorem chosen_candidate_best:
  assumes "best_candidate ps guard name con pin = Inr r"
  shows "(case r of
            None \<Rightarrow> offers ps guard name con pin = {}
          | Some c \<Rightarrow> (\<exists>i. (i, c) \<in> offers ps guard name con pin
              \<and> (\<forall>(j, c') \<in> offers ps guard name con pin.
                   version_cmp (cd_version c') (cd_version c) \<noteq> Greater
                   \<and> (version_cmp (cd_version c') (cd_version c) = Equal \<longrightarrow>
                        i \<le> j \<and> (i = j \<longrightarrow> \<not> path_less (cd_path c') (cd_path c))))))"
proof -
  obtain best where best: "r = map_option snd best" "optimal best (offers ps guard name con pin)"
    using best_candidate_optimal[OF assms] by blast
  show ?thesis
  proof (cases best)
    case (Some b)
    obtain i c where b: "b = (i, c)" by (cases b)
    then have "(i, c) \<in> offers ps guard name con pin" "\<forall>(j, c') \<in> offers ps guard name con pin. \<not> better j c' (i, c)"
      using best(2) Some by (auto simp: optimal_def)
    then show ?thesis using best(1) Some b by (fastforce simp: better_def)
  qed (use best in \<open>simp add: optimal_def\<close>)
qed

text \<open>Candidates carry the name of the provider that found them.\<close>

definition providers_named :: "resolver \<Rightarrow> bool" where
  "providers_named rv \<longleftrightarrow>
     (\<forall>p \<in> set (rv_providers rv). \<forall>name found. pv_discover p name = Inr found \<longrightarrow>
        (\<forall>c \<in> set (dc_candidates found). cd_provider c = pv_name p))"

lemma best_candidate_pinned:
  assumes "best_candidate (rv_providers rv) guard name con (Some p) = Inr (Some c)" and "providers_named rv"
  shows "cd_provider c = p"
proof -
  obtain i found c0 where i: "i < length (rv_providers rv)" "\<not> pin_excludes (Some p) (rv_providers rv ! i)"
    "pv_discover (rv_providers rv ! i) name = Inr found" "c0 \<in> set (dc_candidates found)"
    "fill_version guard con (rv_providers rv ! i) c0 = Inr c"
    using best_candidate_satisfies[OF assms(1)] by metis
  have "cd_provider c0 = pv_name (rv_providers rv ! i)"
    using assms(2) i(1,3,4) by (simp add: providers_named_def)
  moreover have "cd_provider c = cd_provider c0"
    using i(5) by (auto simp: fill_version_def result_simps split: if_splits)
  ultimately show ?thesis using i(2) by (simp add: pin_excludes_def)
qed

text \<open>
  C19. A tool that is resolved, from the lock or freshly, has a version that satisfies every scope of the
  chain, comes from the pinned provider if some scope pins one, and the reported hash is that of the
  bytes the reported path holds.
\<close>

theorem resolved_tool_satisfies_scopes:
  assumes "resolve rv scopes pol name st = (Inr res, st')"
    and "cache_ok rv (st_cache st)" and "identities_faithful (rv_fs rv)" and "providers_named rv"
    and "s \<in> set scopes" and "sc_tools s name = Some r"
  shows "satisfies (tr_constr r) (rs_version res)
    \<and> (\<forall>p. tr_provider r = Some p \<longrightarrow> rs_provider res = p)
    \<and> (\<exists>f. rv_fs rv (rs_path res) = Inr f \<and> f_regular f \<and> rs_hash res = rv_hash rv (f_bytes f))"
  using assms(1)
proof (cases rule: resolve_cases)
  case (2 d e)
  have "satisfies (tr_constr r) (version_parse (le_version e))"
    using 2(1,3) decision_conjunction(1)[OF 2(1)] assms(5,6) by (auto simp: lock_entry_valid_def split: if_splits)
  moreover have "\<forall>p. tr_provider r = Some p \<longrightarrow> le_provider e = p"
    using 2(3) decision_conjunction(2)[OF 2(1) assms(5,6)] by (auto simp: lock_entry_valid_def split: if_splits)
  ultimately show ?thesis using resolution_from_lock_Inr[OF 2(4) assms(2,3)] by auto
next
  case (4 d)
  obtain chosen f where c: "best_candidate (rv_providers rv) (rv_guard rv) name (de_constr d) (de_pin d) = Inr (Some chosen)"
    "rv_fs rv (cd_path chosen) = Inr f" "f_regular f" "rs_hash res = rv_hash rv (f_bytes f)"
    "rs_path res = cd_path chosen" "rs_version res = cd_version chosen" "rs_provider res = cd_provider chosen"
    by (rule resolve_fresh_Inr[OF 4(3) assms(2,3)])
  have "satisfies (de_constr d) (cd_version chosen)" using best_candidate_satisfies[OF c(1)] by blast
  then have "satisfies (tr_constr r) (cd_version chosen)"
    using decision_conjunction(1)[OF 4(1)] assms(5,6) by blast
  moreover have "\<forall>p. tr_provider r = Some p \<longrightarrow> cd_provider chosen = p"
    using best_candidate_pinned[of rv _ name _ _ chosen] c(1) decision_conjunction(2)[OF 4(1) assms(5,6)] assms(4) by metis
  ultimately show ?thesis using c by simp
qed auto

text \<open>
  Under the script policy a constrained tool is never guessed: the lock and the notices stay as they
  are, and a resolution, if there is one, is exactly the binding of the lock entry, whose recorded hash
  is that of the bytes on disk.
\<close>

theorem script_never_guesses:
  assumes "resolve rv scopes Script name st = (res, st')" and "\<exists>s \<in> set scopes. sc_tools s name \<noteq> None"
    and "cache_ok rv (st_cache st)" and "identities_faithful (rv_fs rv)"
  shows "(\<forall>r. res = Inr r \<longrightarrow> (\<exists>e f. map_of (st_lock st) name = Some e \<and> rs_path r = le_path e
        \<and> rs_hash r = le_blake3 e \<and> rv_fs rv (le_path e) = Inr f \<and> le_blake3 e = rv_hash rv (f_bytes f)))
    \<and> st_lock st' = st_lock st \<and> st_notices st' = st_notices st"
  using assms(1)
proof (cases rule: resolve_cases)
  case (2 d e)
  obtain r1 st1 where h: "lift_hash rv (le_path e) st = (r1, st1)" by fastforce
  have "st' = st1" using 2(4) h by (auto simp: resolution_from_lock_def split: sum.splits if_splits)
  then have "st_lock st' = st_lock st \<and> st_notices st' = st_notices st"
    using lift_hash_ok[OF h assms(3,4)] by simp
  then show ?thesis using 2 resolution_from_lock_Inr[OF _ assms(3,4)] by blast
next
  case (4 d)
  then show ?thesis using decision_conjunction(3)[OF 4(1)] assms(2) by simp
qed auto

text \<open>Versions are made by the constructors of the module only.\<close>

definition version_made :: "version \<Rightarrow> bool" where
  "version_made v \<longleftrightarrow> v = version_unknown \<or> (\<exists>s. v = version_parse s)"

definition versions_made :: "resolver \<Rightarrow> bool" where
  "versions_made rv \<longleftrightarrow>
     (\<forall>p \<in> set (rv_providers rv). (\<forall>c. version_made (pv_version_of p c))
        \<and> (\<forall>name found. pv_discover p name = Inr found \<longrightarrow>
             (\<forall>c \<in> set (dc_candidates found). version_made (cd_version c))))"

lemma locked_version_satisfies:
  assumes "version_made v" and "satisfies con v"
  shows "satisfies con (version_parse (version_display v))"
proof (cases "v = version_unknown")
  case True
  then show ?thesis
    using assms(2) by (cases con) (auto simp: version_unknown_def Prefix_satisfies simp del: satisfies.simps(3))
next
  case False
  then obtain s where "v = version_parse s" using assms(1) by (auto simp: version_made_def)
  then show ?thesis using version_reparse[of s] False assms(2) by metis
qed

lemma best_candidate_made:
  assumes "best_candidate (rv_providers rv) guard name con pin = Inr (Some c)" and "versions_made rv"
  shows "version_made (cd_version c)"
proof -
  obtain i found c0 where i: "i < length (rv_providers rv)" "pv_discover (rv_providers rv ! i) name = Inr found"
    "c0 \<in> set (dc_candidates found)" "fill_version guard con (rv_providers rv ! i) c0 = Inr c"
    using best_candidate_satisfies[OF assms(1)] by metis
  have "rv_providers rv ! i \<in> set (rv_providers rv)" using i(1) by simp
  then show ?thesis
    using assms(2) i(2-) unfolding versions_made_def fill_version_def
    by (auto simp: result_simps split: if_splits)
qed

text \<open>
  C21. Locking is stable: after a resolution that wrote the lock, resolving the tool again in the same
  scopes, under either policy, succeeds from the lock with the same path, provider and hash, and
  leaves the lock and the notices alone.
\<close>

theorem relock_stable:
  assumes "resolve rv scopes pol name st = (Inr res, st')" and "rs_locked_now res"
    and "cache_ok rv (st_cache st)" and "identities_faithful (rv_fs rv)"
    and "providers_named rv" and "versions_made rv"
  shows "\<exists>res2 st2. resolve rv scopes pol2 name st' = (Inr res2, st2)
    \<and> rs_path res2 = rs_path res \<and> rs_provider res2 = rs_provider res \<and> rs_hash res2 = rs_hash res
    \<and> \<not> rs_locked_now res2 \<and> st_lock st2 = st_lock st' \<and> st_notices st2 = st_notices st'"
  using assms(1)
proof (cases rule: resolve_cases)
  case (2 d e)
  then show ?thesis using resolution_from_lock_Inr[OF 2(4) assms(3,4)] assms(2) by simp
next
  case (4 d)
  obtain c f where c: "best_candidate (rv_providers rv) (rv_guard rv) name (de_constr d) (de_pin d) = Inr (Some c)"
    "rv_fs rv (cd_path c) = Inr f" "f_regular f" "rs_hash res = rv_hash rv (f_bytes f)"
    "rs_path res = cd_path c" "rs_version res = cd_version c" "rs_provider res = cd_provider c"
    "rs_locked_now res = de_constrained d" "cache_ok rv (st_cache st')"
    "de_constrained d \<longrightarrow> map_of (st_lock st') name =
       Some \<lparr>le_name = name, le_version = version_display (cd_version c), le_provider = cd_provider c,
         le_path = cd_path c, le_blake3 = rs_hash res, le_resolved_at = rv_now rv\<rparr>"
    by (rule resolve_fresh_Inr[OF 4(3) assms(3,4)])
  define e where "e = \<lparr>le_name = name, le_version = version_display (cd_version c), le_provider = cd_provider c,
         le_path = cd_path c, le_blake3 = rs_hash res, le_resolved_at = rv_now rv\<rparr>"
  have e: "map_of (st_lock st') name = Some e" using c(8,10) assms(2) by (simp add: e_def)
  have sat: "satisfies (de_constr d) (cd_version c)" using best_candidate_satisfies[OF c(1)] by blast
  have "lock_entry_valid e d"
    using locked_version_satisfies[OF best_candidate_made[OF c(1) assms(6)] sat] best_candidate_pinned[of rv _ name _ _ c] c(1) assms(5)
    by (auto simp: lock_entry_valid_def e_def split: option.splits)
  then have again: "resolve rv scopes pol2 name st' = resolution_from_lock rv scopes name d e st'"
    using 4(1) e by (simp add: resolve_def)
  obtain h st2 where h: "lift_hash rv (le_path e) st' = (h, st2)" by fastforce
  note ok = lift_hash_ok[OF h c(9) assms(4)]
  have "h = Inr (le_blake3 e)" using ok c(2-4) by (simp add: e_def)
  then show ?thesis unfolding again using h ok c by (auto simp: resolution_from_lock_def e_def)
qed auto

section \<open>Examples\<close>

text \<open>A provider with a candidate of unknown version and one labelled \<open>lts\<close>, which the scope asks for.\<close>

definition lts :: version where
  "lts = \<lparr>v_parts = [], v_pre = None, v_raw = ''lts'', v_unknown = False\<rparr>"

lemma lts_parse: "version_parse ''lts'' = lts"
proof -
  have "trim ''lts'' = ''lts''" "split_on (CHR ''.'') ''lts'' = [''lts'']" by code_simp+
  moreover have "parse_uint m ''lts'' = None" for m
    by (simp add: parse_uint_def is_digit_def less_eq_char_def)
  ultimately show ?thesis by (simp add: version_parse_def strip_v_def strip_prefix_def lts_def)
qed

definition node :: "version \<Rightarrow> string \<Rightarrow> candidate" where
  "node v path = \<lparr>cd_tool = ''node'', cd_version = v, cd_path = path, cd_provider = ''mise'', cd_ambient = False\<rparr>"

definition demo_provider :: provider where
  "demo_provider =
     \<lparr>pv_name = ''mise'',
      pv_discover = (\<lambda>_. from_candidates [node version_unknown ''/a/node'', node lts ''/b/node''] (discovery_new ''mise'')),
      pv_version_of = (\<lambda>_. version_unknown)\<rparr>"

definition demo_file :: disk_file where
  "demo_file = \<lparr>f_regular = True, f_key = (1, 1, 0, 0, 0, 0, 1), f_bytes = ''x''\<rparr>"

definition demo_resolver :: resolver where
  "demo_resolver = \<lparr>rv_providers = [demo_provider], rv_hash = (\<lambda>b. ''h'' @ b), rv_fs = (\<lambda>_. Inr demo_file),
     rv_guard = (\<lambda>_. Inr ()), rv_now = ''now''\<rparr>"

definition demo_scope :: scope_entry where
  "demo_scope = \<lparr>sc_label = ''project'', sc_source = ''/p/.reef.toml'',
     sc_tools = [''node'' \<mapsto> \<lparr>tr_constr = RawPrefix ''lts'', tr_provider = Some ''mise''\<rparr>]\<rparr>"

definition demo_state :: reef_state where
  "demo_state = \<lparr>st_lock = [], st_cache = [], st_notices = []\<rparr>"

lemma demo_discover:
  "pv_discover demo_provider name = Inr \<lparr>dc_provider = ''mise'',
     dc_candidates = [node version_unknown ''/a/node'', node lts ''/b/node''], dc_retained = 296,
     dc_visited = 0, dc_visited_bytes = 0\<rparr>"
  by (simp add: demo_provider_def discovery_push_def discovery_new_def node_def version_display_def lts_def
      version_unknown_def checked_usize_add_def max_discovery_candidates_def max_discovery_retained_bytes_def)

lemma demo_best:
  "best_candidate [demo_provider] (\<lambda>_. Inr ()) ''node'' (RawPrefix ''lts'') (Some ''mise'') = Inr (Some (node lts ''/b/node''))"
  by (simp add: best_candidate_def demo_discover fill_version_def keep_better_def needs_version_def node_def
      version_unknown_def lts_def) (simp add: demo_provider_def version_unknown_def)

lemma demo_decision:
  "effective_decision [demo_scope] ''node'' = Inr \<lparr>de_constr = RawPrefix ''lts'', de_pin = Some ''mise'',
     de_label = ''project'', de_source = ''/p/.reef.toml'', de_constrained = True\<rparr>"
  by (simp add: effective_decision_def demo_scope_def)

lemma demo_ok:
  "cache_ok demo_resolver (st_cache demo_state)" "identities_faithful (rv_fs demo_resolver)"
  "providers_named demo_resolver" "versions_made demo_resolver"
proof -
  have "version_made lts" "version_made version_unknown" using lts_parse unfolding version_made_def by metis+
  then show "versions_made demo_resolver"
    by (auto simp: versions_made_def demo_resolver_def demo_discover node_def) (simp add: demo_provider_def)
qed (auto simp: cache_ok_def demo_state_def identities_faithful_def demo_resolver_def providers_named_def demo_discover
    node_def, simp add: demo_provider_def)

lemma demo_resolve:
  "\<exists>res st'. resolve demo_resolver [demo_scope] Interactive ''node'' demo_state = (Inr res, st')
     \<and> rs_locked_now res \<and> rs_path res = ''/b/node''"
  by (simp add: resolve_def demo_decision demo_state_def resolve_fresh_def lift_hash_def hash_file_def Let_def
      finish_fresh_def try_insert_def validate_entry_def validate_string_def reef_max_string_bytes_def
      reef_lock_max_tools_def demo_file_def node_def version_display_def lts_def demo_best demo_resolver_def)

theorem decision_is_conjunction_witness:
  "satisfies (RawPrefix ''lts'') lts"
  using decision_is_conjunction[OF demo_decision] by (auto simp: demo_scope_def lts_def)

theorem chosen_candidate_best_witness:
  "\<exists>i. (i, node lts ''/b/node'') \<in> offers [demo_provider] (\<lambda>_. Inr ()) ''node'' (RawPrefix ''lts'') (Some ''mise'')"
  using chosen_candidate_best[OF demo_best] by auto

theorem resolved_tool_satisfies_scopes_witness:
  "\<exists>res st'. resolve demo_resolver [demo_scope] Interactive ''node'' demo_state = (Inr res, st')
     \<and> satisfies (RawPrefix ''lts'') (rs_version res) \<and> rs_provider res = ''mise'' \<and> rs_hash res = ''hx''"
proof -
  obtain res st' where r: "resolve demo_resolver [demo_scope] Interactive ''node'' demo_state = (Inr res, st')"
    using demo_resolve by blast
  from resolved_tool_satisfies_scopes[OF r demo_ok(1-3), of demo_scope]
  have "satisfies (RawPrefix ''lts'') (rs_version res) \<and> rs_provider res = ''mise'' \<and> rs_hash res = ''hx''"
    by (simp add: demo_scope_def demo_resolver_def demo_file_def del: satisfies.simps)
  then show ?thesis using r by blast
qed

theorem script_never_guesses_witness:
  "\<exists>res st'. resolve demo_resolver [demo_scope] Script ''node'' demo_state = (res, st') \<and> st_lock st' = []"
proof -
  obtain res st' where r: "resolve demo_resolver [demo_scope] Script ''node'' demo_state = (res, st')" by fastforce
  from script_never_guesses[OF r _ demo_ok(1,2)] have "st_lock st' = []"
    by (simp add: demo_scope_def demo_state_def)
  then show ?thesis using r by blast
qed

theorem relock_stable_witness:
  "\<exists>res st' res2 st2. resolve demo_resolver [demo_scope] Interactive ''node'' demo_state = (Inr res, st')
     \<and> resolve demo_resolver [demo_scope] Script ''node'' st' = (Inr res2, st2) \<and> rs_path res2 = ''/b/node''"
proof -
  obtain res st' where r: "resolve demo_resolver [demo_scope] Interactive ''node'' demo_state = (Inr res, st')"
    "rs_locked_now res" "rs_path res = ''/b/node''"
    using demo_resolve by blast
  from relock_stable[OF r(1,2) demo_ok, of Script] r(3) show ?thesis using r(1) by auto
qed

end
