(* ===== verification/Event_Ring.thy ===== *)
theory Event_Ring
  imports Kernel_Plans
begin

text \<open>
  The replay half of the event bus: the admission checks of \<open>kernel/eventbus.rs\<close>, the per-channel
  rings of \<open>kernel/eventbus/channels.rs\<close> and the durable pointer indexes of
  \<open>kernel/eventbus/durable.rs\<close>. Every operation takes and returns the registry and the indexes, with
  the poison flags of their locks as fields. The bytes that the JSON serializer writes are an
  argument (\<open>serde\<close>); clocks are arguments. A ghost log of what was published states what the rings
  and the indexes retain.
\<close>

section \<open>Events and their size\<close>

datatype json =
    JNull | JBool bool | JNumber string | JString string
  | JArray "json list" | JObject "(string \<times> json) list"

record event =
  ev_channel :: string
  ev_seq :: nat
  ev_ts :: int
  ev_payload :: json

definition event_ring_cap :: nat where
  "event_ring_cap = 1024"

definition event_channel_max_bytes :: nat where
  "event_channel_max_bytes = 128"

definition user_channels_per_owner_max :: nat where
  "user_channels_per_owner_max = 256"

definition user_event_payload_max_bytes :: nat where
  "user_event_payload_max_bytes = 64 * 1024"

definition event_payload_max_depth :: nat where
  "event_payload_max_depth = 64"

definition event_ring_max_bytes :: nat where
  "event_ring_max_bytes = 2 * 1024 * 1024"

text \<open>The pieces that the serializer passes to its writer, one call of \<open>write\<close> each.\<close>

record serde =
  json_chunks :: "json \<Rightarrow> string list"
  event_chunks :: "event \<Rightarrow> string list"

fun size_write_all :: "nat \<Rightarrow> nat \<Rightarrow> string list \<Rightarrow> nat option" where
  "size_write_all maxb bytes [] = Some bytes"
| "size_write_all maxb bytes (buf # bufs) =
     (if USIZE_MAX < bytes + length buf then None
      else if maxb < bytes + length buf then None
      else size_write_all maxb (bytes + length buf) bufs)"

definition json_encoded_len :: "serde \<Rightarrow> json \<Rightarrow> nat \<Rightarrow> (rpc_error, nat) result" where
  "json_encoded_len ser v maxb =
     (case size_write_all maxb 0 (json_chunks ser v) of
        None \<Rightarrow> Inl (RpcError INVALID_PARAMS
                  (''event payload exceeds the '' @ dec maxb @ ''-byte encoded limit''))
      | Some n \<Rightarrow> Inr n)"

definition event_retained_bytes :: "serde \<Rightarrow> event \<Rightarrow> nat" where
  "event_retained_bytes ser e =
     (case size_write_all USIZE_MAX 0 (event_chunks ser e) of
        None \<Rightarrow> USIZE_MAX
      | Some n \<Rightarrow> n)"

definition depth_error :: rpc_error where
  "depth_error = RpcError INVALID_PARAMS
     (''event payload nesting exceeds the '' @ dec event_payload_max_depth @ ''-level limit'')"

fun json_depth :: "json \<Rightarrow> nat \<Rightarrow> (rpc_error, unit) result"
and json_depth_items :: "json list \<Rightarrow> nat \<Rightarrow> (rpc_error, unit) result"
and json_depth_fields :: "(string \<times> json) list \<Rightarrow> nat \<Rightarrow> (rpc_error, unit) result" where
  "json_depth v depth =
     (if event_payload_max_depth < depth then Inl depth_error
      else case v of
          JArray items \<Rightarrow> json_depth_items items (depth + 1)
        | JObject flds \<Rightarrow> json_depth_fields flds (depth + 1)
        | _ \<Rightarrow> Inr ())"
| "json_depth_items [] depth = Inr ()"
| "json_depth_items (item # items) depth =
     bindR (json_depth item depth) (\<lambda>_. json_depth_items items depth)"
| "json_depth_fields [] depth = Inr ()"
| "json_depth_fields ((_, item) # flds) depth =
     bindR (json_depth item depth) (\<lambda>_. json_depth_fields flds depth)"

definition channel_byte :: "char \<Rightarrow> bool" where
  "channel_byte c \<longleftrightarrow> CHR ''A'' \<le> c \<and> c \<le> CHR ''Z'' \<or> CHR ''a'' \<le> c \<and> c \<le> CHR ''z''
     \<or> is_digit c \<or> c = CHR ''.'' \<or> c = CHR ''_'' \<or> c = CHR ''-''"

definition validate_channel_name :: "string \<Rightarrow> (rpc_error, unit) result" where
  "validate_channel_name channel =
     (if channel = [] \<or> event_channel_max_bytes < length channel \<or> \<not> list_all channel_byte channel
      then Inl (RpcError INVALID_PARAMS
             (''channel must be 1..='' @ dec event_channel_max_bytes
              @ '' ASCII bytes using [A-Za-z0-9._-]''))
      else Inr ())"

definition validate_user_event :: "serde \<Rightarrow> string \<Rightarrow> json \<Rightarrow> (rpc_error, unit) result" where
  "validate_user_event ser channel payload =
     bindR (validate_channel_name channel) (\<lambda>_.
     if \<not> prefix ''user.'' channel \<or> length channel = length ''user.''
     then Inl (RpcError INVALID_PARAMS ''only non-empty user.* channels may be published to'')
     else bindR (json_depth payload 0) (\<lambda>_.
     bindR (json_encoded_len ser payload user_event_payload_max_bytes) (\<lambda>_. Inr ())))"

section \<open>Durable pointer indexes\<close>

datatype durable_channel = Journal | Transcript

definition durable_pointer_cap :: nat where
  "durable_pointer_cap = event_ring_cap"

record durable_index =
  dx_published :: nat
  dx_base_seq :: nat
  dx_tail :: "int list"

definition durable_index_default :: durable_index where
  "durable_index_default = \<lparr>dx_published = 0, dx_base_seq = 0, dx_tail = []\<rparr>"

record durable_indexes =
  di_journal :: "owner_key \<rightharpoonup> durable_index"
  di_transcript :: "owner_key \<rightharpoonup> durable_index"
  di_journal_poisoned :: bool
  di_transcript_poisoned :: bool
  di_quarantined :: bool

definition durable_indexes_default :: durable_indexes where
  "durable_indexes_default = \<lparr>di_journal = Map.empty, di_transcript = Map.empty,
     di_journal_poisoned = False, di_transcript_poisoned = False, di_quarantined = False\<rparr>"

definition durable_is_quarantined :: "durable_indexes \<Rightarrow> bool" where
  "durable_is_quarantined di \<longleftrightarrow>
     di_quarantined di \<or> di_journal_poisoned di \<or> di_transcript_poisoned di"

fun selected :: "durable_channel \<Rightarrow> durable_indexes \<Rightarrow> (owner_key \<rightharpoonup> durable_index)" where
  "selected Journal di = di_journal di"
| "selected Transcript di = di_transcript di"

fun selected_poisoned :: "durable_channel \<Rightarrow> durable_indexes \<Rightarrow> bool" where
  "selected_poisoned Journal di = di_journal_poisoned di"
| "selected_poisoned Transcript di = di_transcript_poisoned di"

fun set_selected ::
  "durable_channel \<Rightarrow> (owner_key \<rightharpoonup> durable_index) \<Rightarrow> durable_indexes \<Rightarrow> durable_indexes" where
  "set_selected Journal m di = di\<lparr>di_journal := m\<rparr>"
| "set_selected Transcript m di = di\<lparr>di_transcript := m\<rparr>"

definition index_or_default :: "(owner_key \<rightharpoonup> durable_index) \<Rightarrow> owner_key \<Rightarrow> durable_index" where
  "index_or_default m owner = (case m owner of Some x \<Rightarrow> x | None \<Rightarrow> durable_index_default)"

text \<open>The loop that drops the oldest pointers while the tail is over its cap.\<close>

fun cap_tail :: "'a list \<Rightarrow> 'a list" where
  "cap_tail [] = []"
| "cap_tail (x # xs) = (if durable_pointer_cap < length (x # xs) then cap_tail xs else x # xs)"

definition durable_append ::
  "durable_channel \<Rightarrow> owner_key \<Rightarrow> nat \<Rightarrow> int \<Rightarrow> durable_indexes \<Rightarrow> bool \<times> durable_indexes" where
  "durable_append ch owner seq entry_id di =
     (if durable_is_quarantined di then (False, di)
      else if selected_poisoned ch di then (False, di\<lparr>di_quarantined := True\<rparr>)
      else let index = index_or_default (selected ch di) owner;
               di1 = set_selected ch ((selected ch di)(owner \<mapsto> index)) di
           in if dx_published index \<noteq> seq then (False, di1\<lparr>di_quarantined := True\<rparr>)
              else if U64_MAX < dx_published index + 1 then (False, di1\<lparr>di_quarantined := True\<rparr>)
              else let tail' = cap_tail (dx_tail index @ [entry_id]);
                       index' = \<lparr>dx_published = dx_published index + 1,
                                 dx_base_seq = dx_published index + 1 - length tail',
                                 dx_tail = tail'\<rparr>
                   in (True, set_selected ch ((selected ch di)(owner \<mapsto> index')) di))"

definition durable_seed ::
  "durable_channel \<Rightarrow> owner_key \<Rightarrow> nat \<Rightarrow> int list \<Rightarrow> durable_indexes
   \<Rightarrow> nat option \<times> durable_indexes" where
  "durable_seed ch owner published entry_ids di =
     (if durable_is_quarantined di then (None, di)
      else if selected_poisoned ch di then (None, di\<lparr>di_quarantined := True\<rparr>)
      else case selected ch di owner of
          Some index \<Rightarrow>
            if dx_published index = published then (Some (dx_published index), di)
            else (None, di\<lparr>di_quarantined := True\<rparr>)
        | None \<Rightarrow>
            let keep = min (length entry_ids) durable_pointer_cap
            in if published < keep then (None, di\<lparr>di_quarantined := True\<rparr>)
               else (Some published,
                     set_selected ch ((selected ch di)(owner \<mapsto>
                       \<lparr>dx_published = published, dx_base_seq = published - keep,
                        dx_tail = drop (length entry_ids - keep) entry_ids\<rparr>)) di))"

definition durable_len ::
  "durable_channel \<Rightarrow> owner_key \<Rightarrow> durable_indexes \<Rightarrow> nat \<times> durable_indexes" where
  "durable_len ch owner di =
     (if durable_is_quarantined di then (0, di)
      else if selected_poisoned ch di then (0, di\<lparr>di_quarantined := True\<rparr>)
      else (case selected ch di owner of Some x \<Rightarrow> dx_published x | None \<Rightarrow> 0, di))"

definition durable_is_initialized ::
  "durable_channel \<Rightarrow> owner_key \<Rightarrow> durable_indexes \<Rightarrow> bool \<times> durable_indexes" where
  "durable_is_initialized ch owner di =
     (if durable_is_quarantined di then (False, di)
      else if selected_poisoned ch di then (False, di\<lparr>di_quarantined := True\<rparr>)
      else (selected ch di owner \<noteq> None, di))"

definition saturating_succ :: "nat \<Rightarrow> nat" where
  "saturating_succ n = min U64_MAX (n + 1)"

definition durable_range ::
  "durable_channel \<Rightarrow> owner_key \<Rightarrow> nat option \<Rightarrow> nat \<Rightarrow> durable_indexes
   \<Rightarrow> (nat \<times> int) list \<times> durable_indexes" where
  "durable_range ch owner since upto_seq di =
     (if durable_is_quarantined di then ([], di)
      else if selected_poisoned ch di then ([], di\<lparr>di_quarantined := True\<rparr>)
      else case selected ch di owner of
          None \<Rightarrow> ([], di)
        | Some index \<Rightarrow>
            let start = max (case since of Some s \<Rightarrow> saturating_succ s | None \<Rightarrow> 0) (dx_base_seq index);
                upper = min upto_seq (dx_published index)
            in (List.map_filter (\<lambda>seq. let offset = seq - dx_base_seq index
                     in if offset < length (dx_tail index) then Some (seq, dx_tail index ! offset)
                        else None) [start..<upper], di))"

definition durable_remove_owner :: "owner_key \<Rightarrow> durable_indexes \<Rightarrow> durable_indexes" where
  "durable_remove_owner owner di =
     (if durable_is_quarantined di then di
      else if di_journal_poisoned di \<or> di_transcript_poisoned di then di\<lparr>di_quarantined := True\<rparr>
      else di\<lparr>di_journal := (di_journal di)(owner := None),
              di_transcript := (di_transcript di)(owner := None)\<rparr>)"

section \<open>Channel rings\<close>

record retained_event =
  re_event :: event
  re_bytes :: nat

datatype publish_failure = Quarantined | UserIdentityLimit

record channel_buf =
  cb_next_seq :: nat
  cb_ring :: "retained_event list"
  cb_ring_bytes :: nat

definition channel_buf_default :: channel_buf where
  "channel_buf_default = \<lparr>cb_next_seq = 0, cb_ring = [], cb_ring_bytes = 0\<rparr>"

type_synonym buffers = "((owner_key \<times> string) \<times> channel_buf) list"

record channel_registry =
  ch_buffers :: buffers
  ch_coordination_poisoned :: bool
  ch_buffers_poisoned :: bool
  ch_quarantined :: bool

definition channel_registry_default :: channel_registry where
  "channel_registry_default = \<lparr>ch_buffers = [], ch_coordination_poisoned = False,
     ch_buffers_poisoned = False, ch_quarantined = False\<rparr>"

definition channels_is_quarantined :: "channel_registry \<Rightarrow> bool" where
  "channels_is_quarantined reg \<longleftrightarrow>
     ch_quarantined reg \<or> ch_coordination_poisoned reg \<or> ch_buffers_poisoned reg"

text \<open>
  The eviction loop: whether it has to quarantine the registry, and the ring it leaves.
\<close>

fun evict :: "retained_event list \<Rightarrow> nat \<Rightarrow> bool \<times> retained_event list \<times> nat" where
  "evict ring bytes =
     (if event_ring_cap < length ring \<or> event_ring_max_bytes < bytes
      then (case ring of
              [] \<Rightarrow> (False, [], 0)
            | x # xs \<Rightarrow> if bytes < re_bytes x then (True, xs, 0) else evict xs (bytes - re_bytes x))
      else (False, ring, bytes))"

declare evict.simps [simp del]

definition ring_append :: "serde \<Rightarrow> event \<Rightarrow> channel_buf \<Rightarrow> bool \<times> channel_buf" where
  "ring_append ser e b =
     (let n = event_retained_bytes ser e;
          b1 = b\<lparr>cb_ring := cb_ring b @ [\<lparr>re_event = e, re_bytes = n\<rparr>]\<rparr>
      in if n \<le> event_ring_max_bytes \<and> USIZE_MAX < cb_ring_bytes b + n then (True, b1)
         else let (ring, bytes) = (if n \<le> event_ring_max_bytes
                                   then (cb_ring b1, cb_ring_bytes b + n)
                                   else (cb_ring b, cb_ring_bytes b));
                  (bad, ring', bytes') = evict ring bytes
              in (bad, b\<lparr>cb_ring := ring', cb_ring_bytes := bytes'\<rparr>))"

definition user_identities :: "owner_key \<Rightarrow> buffers \<Rightarrow> nat" where
  "user_identities owner bufs =
     length (filter (\<lambda>((ow, name), _). ow = owner \<and> prefix ''user.'' name) bufs)"

definition buffer_of :: "buffers \<Rightarrow> owner_key \<times> string \<Rightarrow> channel_buf" where
  "buffer_of bufs key = (case map_of bufs key of Some b \<Rightarrow> b | None \<Rightarrow> channel_buf_default)"

type_synonym replay = "channel_registry \<times> durable_indexes"

definition channel_publish ::
  "serde \<Rightarrow> int \<Rightarrow> owner_key \<Rightarrow> string \<Rightarrow> json \<Rightarrow> (durable_channel \<times> int) option \<Rightarrow> bool \<Rightarrow> replay
   \<Rightarrow> (publish_failure, event) result \<times> replay" where
  "channel_publish ser ts owner channel payload durable enforce_user_identity_cap =
     (\<lambda>(reg, di).
      if channels_is_quarantined reg \<or> durable_is_quarantined di then (Inl Quarantined, reg, di)
      else if ch_coordination_poisoned reg \<or> ch_buffers_poisoned reg
      then (Inl Quarantined, reg\<lparr>ch_quarantined := True\<rparr>, di)
      else let key = (owner, channel)
      in if enforce_user_identity_cap \<and> map_of (ch_buffers reg) key = None
            \<and> user_channels_per_owner_max \<le> user_identities owner (ch_buffers reg)
      then (Inl UserIdentityLimit, reg, di)
      else let buf = buffer_of (ch_buffers reg) key;
               reg1 = reg\<lparr>ch_buffers := AList.update key buf (ch_buffers reg)\<rparr>;
               seq = cb_next_seq buf
      in if U64_MAX < seq + 1 then (Inl Quarantined, reg1\<lparr>ch_quarantined := True\<rparr>, di)
      else let (appended, di1) =
                 (case durable of
                    None \<Rightarrow> (True, di)
                  | Some (which, entry_id) \<Rightarrow> durable_append which owner seq entry_id di)
      in if \<not> appended then (Inl Quarantined, reg1\<lparr>ch_quarantined := True\<rparr>, di1)
      else let e = \<lparr>ev_channel = channel, ev_seq = seq, ev_ts = ts, ev_payload = payload\<rparr>;
               (bad, buf1) = ring_append ser e (buf\<lparr>cb_next_seq := seq + 1\<rparr>);
               reg2 = reg1\<lparr>ch_buffers := AList.update key buf1 (ch_buffers reg1)\<rparr>
      in (Inr e, if bad then reg2\<lparr>ch_quarantined := True\<rparr> else reg2, di1))"

definition oldest_seq ::
  "owner_key \<Rightarrow> string \<Rightarrow> channel_registry \<Rightarrow> nat option \<times> channel_registry" where
  "oldest_seq owner channel reg =
     (if channels_is_quarantined reg then (None, reg)
      else if ch_coordination_poisoned reg \<or> ch_buffers_poisoned reg
      then (None, reg\<lparr>ch_quarantined := True\<rparr>)
      else (case map_of (ch_buffers reg) (owner, channel) of
              None \<Rightarrow> None
            | Some b \<Rightarrow> (case cb_ring b of [] \<Rightarrow> None | r # _ \<Rightarrow> Some (ev_seq (re_event r))), reg))"

definition after :: "nat option \<Rightarrow> event \<Rightarrow> bool" where
  "after since e \<longleftrightarrow> (case since of None \<Rightarrow> True | Some seq \<Rightarrow> seq < ev_seq e)"

definition channel_read ::
  "owner_key \<Rightarrow> string \<Rightarrow> nat option \<Rightarrow> nat option \<Rightarrow> channel_registry
   \<Rightarrow> event list \<times> channel_registry" where
  "channel_read owner channel since limit reg =
     (if channels_is_quarantined reg then ([], reg)
      else if ch_coordination_poisoned reg \<or> ch_buffers_poisoned reg
      then ([], reg\<lparr>ch_quarantined := True\<rparr>)
      else (case map_of (ch_buffers reg) (owner, channel) of
              None \<Rightarrow> []
            | Some b \<Rightarrow> take (case limit of Some n \<Rightarrow> n | None \<Rightarrow> USIZE_MAX)
                          (filter (after since) (map re_event (cb_ring b))), reg))"

definition channel_next_seq ::
  "owner_key \<Rightarrow> string \<Rightarrow> channel_registry \<Rightarrow> nat \<times> channel_registry" where
  "channel_next_seq owner channel reg =
     (if channels_is_quarantined reg then (0, reg)
      else if ch_coordination_poisoned reg \<or> ch_buffers_poisoned reg
      then (0, reg\<lparr>ch_quarantined := True\<rparr>)
      else (case map_of (ch_buffers reg) (owner, channel) of Some b \<Rightarrow> cb_next_seq b | None \<Rightarrow> 0, reg))"

definition channel_remove_owner :: "owner_key \<Rightarrow> replay \<Rightarrow> replay" where
  "channel_remove_owner owner =
     (\<lambda>(reg, di).
      if channels_is_quarantined reg \<or> durable_is_quarantined di then (reg, di)
      else if ch_coordination_poisoned reg \<or> ch_buffers_poisoned reg
      then (reg\<lparr>ch_quarantined := True\<rparr>, di)
      else (reg\<lparr>ch_buffers := filter (\<lambda>((ow, _), _). ow \<noteq> owner) (ch_buffers reg)\<rparr>,
            durable_remove_owner owner di))"

definition seed_durable ::
  "durable_channel \<Rightarrow> owner_key \<Rightarrow> string \<Rightarrow> nat \<Rightarrow> int list \<Rightarrow> replay \<Rightarrow> bool \<times> replay" where
  "seed_durable ch owner channel published entry_ids =
     (\<lambda>(reg, di).
      if channels_is_quarantined reg \<or> durable_is_quarantined di then (False, reg, di)
      else if ch_coordination_poisoned reg \<or> ch_buffers_poisoned reg
      then (False, reg\<lparr>ch_quarantined := True\<rparr>, di)
      else case durable_seed ch owner published entry_ids di of
          (None, di1) \<Rightarrow> (False, reg\<lparr>ch_quarantined := True\<rparr>, di1)
        | (Some next_seq, di1) \<Rightarrow>
            (True, reg\<lparr>ch_buffers := AList.update (owner, channel)
                      ((buffer_of (ch_buffers reg) (owner, channel))\<lparr>cb_next_seq := next_seq\<rparr>)
                      (ch_buffers reg)\<rparr>, di1))"

definition reg_durable_len ::
  "durable_channel \<Rightarrow> owner_key \<Rightarrow> replay \<Rightarrow> nat \<times> replay" where
  "reg_durable_len ch owner =
     (\<lambda>(reg, di).
      if channels_is_quarantined reg \<or> durable_is_quarantined di then (0, reg, di)
      else if ch_coordination_poisoned reg then (0, reg\<lparr>ch_quarantined := True\<rparr>, di)
      else let (n, di1) = durable_len ch owner di in (n, reg, di1))"

definition reg_durable_is_initialized ::
  "durable_channel \<Rightarrow> owner_key \<Rightarrow> replay \<Rightarrow> bool \<times> replay" where
  "reg_durable_is_initialized ch owner =
     (\<lambda>(reg, di).
      if channels_is_quarantined reg \<or> durable_is_quarantined di then (False, reg, di)
      else if ch_coordination_poisoned reg then (False, reg\<lparr>ch_quarantined := True\<rparr>, di)
      else let (b, di1) = durable_is_initialized ch owner di in (b, reg, di1))"

definition reg_durable_range ::
  "durable_channel \<Rightarrow> owner_key \<Rightarrow> nat option \<Rightarrow> nat \<Rightarrow> replay \<Rightarrow> (nat \<times> int) list \<times> replay" where
  "reg_durable_range ch owner since upto_seq =
     (\<lambda>(reg, di).
      if channels_is_quarantined reg \<or> durable_is_quarantined di then ([], reg, di)
      else if ch_coordination_poisoned reg then ([], reg\<lparr>ch_quarantined := True\<rparr>, di)
      else let (ps, di1) = durable_range ch owner since upto_seq di in (ps, reg, di1))"

section \<open>The size writer\<close>

lemma size_write_all_eq:
  "size_write_all maxb bytes bufs =
     (if bufs = [] \<or> bytes + sum_list (map length bufs) \<le> min USIZE_MAX maxb
      then Some (bytes + sum_list (map length bufs)) else None)"
proof (induction bufs arbitrary: bytes)
  case (Cons buf bufs)
  let ?total = "bytes + length buf + sum_list (map length bufs)"
  show ?case
  proof (cases "bytes + length buf \<le> min USIZE_MAX maxb")
    case True
    then have "size_write_all maxb bytes (buf # bufs) = size_write_all maxb (bytes + length buf) bufs"
      by simp
    also have "\<dots> = (if bufs = [] \<or> ?total \<le> min USIZE_MAX maxb then Some ?total else None)"
      by (rule Cons)
    finally show ?thesis using True by (cases "bufs = []") (simp_all add: add.assoc)
  next
    case False
    then have "\<not> ?total \<le> min USIZE_MAX maxb" by linarith
    moreover have "size_write_all maxb bytes (buf # bufs) = None" using False by auto
    ultimately show ?thesis by (simp add: add.assoc)
  qed
qed simp

lemma event_retained_bytes_eq:
  "event_retained_bytes ser e = min USIZE_MAX (sum_list (map length (event_chunks ser e)))"
  by (simp add: event_retained_bytes_def size_write_all_eq)

section \<open>What a ring retains\<close>

text \<open>
  The specification of a ring: the longest suffix of the events that fits both walls.
\<close>

definition fits :: "(event \<Rightarrow> nat) \<Rightarrow> event list \<Rightarrow> bool" where
  "fits w es \<longleftrightarrow> length es \<le> event_ring_cap \<and> sum_list (map w es) \<le> event_ring_max_bytes"

fun recent :: "(event \<Rightarrow> nat) \<Rightarrow> event list \<Rightarrow> event list" where
  "recent w [] = []"
| "recent w (e # es) = (if fits w (e # es) then e # es else recent w es)"

lemma fits_Nil [simp]: "fits w []"
  by (simp add: fits_def)

lemma fits_suffix: "suffix xs ys \<Longrightarrow> fits w ys \<Longrightarrow> fits w xs"
  by (auto simp: fits_def suffix_def)

lemma recent_suffix: "suffix (recent w es) es"
  by (induction es) (auto intro: suffix_ConsI)

lemma recent_fits: "fits w (recent w es)"
  by (induction es) auto

lemma recent_id: "fits w es \<Longrightarrow> recent w es = es"
  by (cases es) auto

lemma recent_greatest: "suffix xs es \<Longrightarrow> fits w xs \<Longrightarrow> suffix xs (recent w es)"
  by (induction es) (auto simp: suffix_Cons)

lemma recent_snoc: "recent w (es @ [e]) = recent w (recent w es @ [e])"
proof (induction es)
  case (Cons x xs)
  show ?case
  proof (cases "fits w (x # xs)")
    case False
    then have "\<not> fits w ((x # xs) @ [e])" by (auto simp: fits_def)
    then show ?thesis using False Cons by simp
  qed simp
qed simp

abbreviation weight :: "serde \<Rightarrow> event \<Rightarrow> nat" where
  "weight \<equiv> event_retained_bytes"

definition retain :: "serde \<Rightarrow> event \<Rightarrow> retained_event" where
  "retain ser e = \<lparr>re_event = e, re_bytes = weight ser e\<rparr>"

lemma retain_sel [simp]: "re_event (retain ser e) = e" "re_bytes (retain ser e) = weight ser e"
  by (simp_all add: retain_def)

lemma evict_recent:
  "evict (map (retain ser) es) (sum_list (map (weight ser) es)) =
     (False, map (retain ser) (recent (weight ser) es), sum_list (map (weight ser) (recent (weight ser) es)))"
proof (induction es)
  case Nil
  then show ?case by (simp add: evict.simps)
next
  case (Cons e es)
  then show ?case by (subst evict.simps) (auto simp: fits_def not_le)
qed

text \<open>What the registry keeps of a channel whose whole history is \<open>es\<close>.\<close>

definition ring_spec :: "serde \<Rightarrow> event list \<Rightarrow> event list" where
  "ring_spec ser es = recent (weight ser) (filter (\<lambda>e. weight ser e \<le> event_ring_max_bytes) es)"

definition ring_of :: "serde \<Rightarrow> event list \<Rightarrow> channel_buf \<Rightarrow> bool" where
  "ring_of ser es b \<longleftrightarrow> cb_ring b = map (retain ser) (ring_spec ser es)
     \<and> cb_ring_bytes b = sum_list (map (weight ser) (ring_spec ser es))"

lemma ring_spec_fits: "fits (weight ser) (ring_spec ser es)"
  by (simp add: ring_spec_def recent_fits)

lemma ring_append_spec:
  assumes "ring_of ser es b"
  obtains b' where "ring_append ser e b = (False, b')" "ring_of ser (es @ [e]) b'"
    "cb_next_seq b' = cb_next_seq b"
proof (cases "weight ser e \<le> event_ring_max_bytes")
  case True
  let ?es = "ring_spec ser es @ [e]"
  have bytes: "cb_ring_bytes b + weight ser e = sum_list (map (weight ser) ?es)"
    and ring: "cb_ring b @ [\<lparr>re_event = e, re_bytes = weight ser e\<rparr>] = map (retain ser) ?es"
    using assms by (simp_all add: ring_of_def retain_def)
  have "cb_ring_bytes b \<le> event_ring_max_bytes"
    using assms ring_spec_fits[of ser es] by (simp add: ring_of_def fits_def)
  with True have no_ovf: "\<not> USIZE_MAX < cb_ring_bytes b + weight ser e"
    by (simp add: event_ring_max_bytes_def)
  have spec: "ring_spec ser (es @ [e]) = recent (weight ser) ?es"
    using True by (simp add: ring_spec_def recent_snoc[symmetric])
  have app: "ring_append ser e b = (False, b\<lparr>cb_ring := map (retain ser) (ring_spec ser (es @ [e])),
      cb_ring_bytes := sum_list (map (weight ser) (ring_spec ser (es @ [e])))\<rparr>)"
    using True no_ovf evict_recent[of ser ?es] bytes ring
    by (simp add: ring_append_def Let_def spec del: map_append)
  show ?thesis by (rule that[OF app]) (simp_all add: ring_of_def)
next
  case False
  then have spec: "ring_spec ser (es @ [e]) = ring_spec ser es" by (simp add: ring_spec_def)
  have app: "ring_append ser e b = (False, b\<lparr>cb_ring := map (retain ser) (ring_spec ser es),
      cb_ring_bytes := sum_list (map (weight ser) (ring_spec ser es))\<rparr>)"
    using False assms evict_recent[of ser "ring_spec ser es"] recent_id[OF ring_spec_fits]
    by (simp add: ring_append_def ring_of_def Let_def)
  show ?thesis by (rule that[OF app]) (simp_all add: ring_of_def spec)
qed

lemma cap_tail_eq: "cap_tail xs = drop (length xs - durable_pointer_cap) xs"
  by (induction xs) (auto simp: Suc_diff_le)

section \<open>Traces and their history\<close>

text \<open>
  The bus calls the registry with a discipline: the two journal-backed channels are published with a
  pointer of their own index and with no identity check, every other channel without a pointer, and
  the identity check is on exactly for user channels (\<open>EventBus::publish_inner\<close> and
  \<open>EventBus::publish_user\<close>).
\<close>

fun durable_name :: "durable_channel \<Rightarrow> string" where
  "durable_name Journal = ''journal''"
| "durable_name Transcript = ''session.transcript''"

datatype replay_op =
    Publish owner_key string json int "(durable_channel \<times> int) option" bool
  | Seed durable_channel owner_key nat "int list"
  | RemoveOwner owner_key

fun disciplined :: "replay_op \<Rightarrow> bool" where
  "disciplined (Publish owner channel payload ts durable enforce) \<longleftrightarrow>
     (case durable of
        Some (which, _) \<Rightarrow> channel = durable_name which \<and> \<not> enforce
      | None \<Rightarrow> (\<forall>which \<in> {Journal, Transcript}. channel \<noteq> durable_name which)
                \<and> enforce = prefix ''user.'' channel)"
| "disciplined (Seed which owner published ids) \<longleftrightarrow> published \<le> U64_MAX"
| "disciplined (RemoveOwner owner) \<longleftrightarrow> True"

text \<open>
  The history: every event published on a channel since its owner was last removed, and for a
  journal-backed channel the entries behind its sequence numbers, from the given offset on.
\<close>

record history =
  h_log :: "owner_key \<times> string \<Rightarrow> event list"
  h_entries :: "durable_channel \<Rightarrow> owner_key \<Rightarrow> nat \<times> int list"

definition no_history :: history where
  "no_history = \<lparr>h_log = \<lambda>_. [], h_entries = \<lambda>_ _. (0, [])\<rparr>"

definition log_event :: "owner_key \<Rightarrow> (durable_channel \<times> int) option \<Rightarrow> event \<Rightarrow> history \<Rightarrow> history" where
  "log_event owner durable e h =
     h\<lparr>h_log := (h_log h)((owner, ev_channel e) := h_log h (owner, ev_channel e) @ [e]),
       h_entries := (case durable of
          None \<Rightarrow> h_entries h
        | Some (which, entry_id) \<Rightarrow> (h_entries h)(which := (h_entries h which)(owner :=
            (fst (h_entries h which owner), snd (h_entries h which owner) @ [entry_id]))))\<rparr>"

fun replay_step :: "serde \<Rightarrow> replay \<times> history \<Rightarrow> replay_op \<Rightarrow> replay \<times> history" where
  "replay_step ser (st, h) (Publish owner channel payload ts durable enforce) =
     (let (r, st') = channel_publish ser ts owner channel payload durable enforce st
      in (st', case r of Inl _ \<Rightarrow> h | Inr e \<Rightarrow> log_event owner durable e h))"
| "replay_step ser (st, h) (Seed which owner published ids) =
     (let (done, st') = seed_durable which owner (durable_name which) published ids st;
          keep = min (length ids) durable_pointer_cap
      in (st', if done \<and> selected which (snd st) owner = None
               then h\<lparr>h_entries := (h_entries h)(which := (h_entries h which)(owner :=
                      (published - keep, drop (length ids - keep) ids)))\<rparr>
               else h))"
| "replay_step ser (st, h) (RemoveOwner owner) =
     (channel_remove_owner owner st,
      \<lparr>h_log = (\<lambda>(ow, name). if ow = owner then [] else h_log h (ow, name)),
       h_entries = (\<lambda>which ow. if ow = owner then (0, []) else h_entries h which ow)\<rparr>)"

definition replay_quarantined :: "replay \<Rightarrow> bool" where
  "replay_quarantined st \<longleftrightarrow> channels_is_quarantined (fst st) \<or> durable_is_quarantined (snd st)"

definition buf_inv :: "serde \<Rightarrow> string \<Rightarrow> event list \<Rightarrow> channel_buf \<Rightarrow> bool" where
  "buf_inv ser name es b \<longleftrightarrow> ring_of ser es b \<and> cb_next_seq b \<le> U64_MAX
     \<and> length es \<le> cb_next_seq b
     \<and> map ev_seq es = [cb_next_seq b - length es..<cb_next_seq b]
     \<and> list_all (\<lambda>e. ev_channel e = name) es"

definition index_inv :: "nat \<Rightarrow> nat \<times> int list \<Rightarrow> durable_index \<Rightarrow> bool" where
  "index_inv next_seq ents x \<longleftrightarrow> dx_published x = next_seq
     \<and> fst ents + length (snd ents) = next_seq
     \<and> dx_tail x = cap_tail (snd ents)
     \<and> dx_base_seq x = next_seq - length (dx_tail x)"

definition replay_inv :: "serde \<Rightarrow> replay \<times> history \<Rightarrow> bool" where
  "replay_inv ser = (\<lambda>((reg, di), h).
     distinct (map fst (ch_buffers reg))
     \<and> (\<forall>ow name. buf_inv ser name (h_log h (ow, name)) (buffer_of (ch_buffers reg) (ow, name)))
     \<and> (\<forall>which owner. index_inv (cb_next_seq (buffer_of (ch_buffers reg) (owner, durable_name which)))
            (h_entries h which owner) (index_or_default (selected which di) owner))
     \<and> (\<forall>owner. user_identities owner (ch_buffers reg) \<le> user_channels_per_owner_max))"

lemma replay_invD:
  assumes "replay_inv ser ((reg, di), h)"
  shows "distinct (map fst (ch_buffers reg))"
    and "buf_inv ser (snd key) (h_log h key) (buffer_of (ch_buffers reg) key)"
    and "index_inv (cb_next_seq (buffer_of (ch_buffers reg) (owner, durable_name which)))
           (h_entries h which owner) (index_or_default (selected which di) owner)"
    and "user_identities owner (ch_buffers reg) \<le> user_channels_per_owner_max"
  using assms unfolding replay_inv_def prod.case by (blast, cases key, simp, blast+)

lemma selected_set [simp]:
  "selected w (set_selected w' m di) = (if w = w' then m else selected w di)"
  by (cases w; cases w') simp_all

lemma durable_name_inj [simp]: "durable_name w = durable_name w' \<longleftrightarrow> w = w'"
  by (cases w; cases w') simp_all

lemma durable_name_not_user [simp]: "\<not> prefix ''user.'' (durable_name w)"
  by (cases w) simp_all

lemma quarantine_set [simp]:
  "durable_is_quarantined (set_selected w m di) = durable_is_quarantined di"
  "durable_is_quarantined (di\<lparr>di_quarantined := True\<rparr>)"
  "channels_is_quarantined (reg\<lparr>ch_quarantined := True\<rparr>)"
  "channels_is_quarantined (reg\<lparr>ch_buffers := bufs\<rparr>) = channels_is_quarantined reg"
  by (cases w) (simp_all add: durable_is_quarantined_def channels_is_quarantined_def)

lemma not_poisoned:
  "\<not> durable_is_quarantined di \<Longrightarrow> \<not> selected_poisoned w di"
  by (cases w) (simp_all add: durable_is_quarantined_def)

lemma buffer_of_update:
  "buffer_of (AList.update key b bufs) key' = (if key' = key then b else buffer_of bufs key')"
  by (simp add: buffer_of_def update_conv')

lemma buffer_of_filter:
  "buffer_of (filter (\<lambda>((ow, _), _). ow \<noteq> owner) bufs) key =
     (if fst key = owner then channel_buf_default else buffer_of bufs key)"
  by (induction bufs) (auto simp: buffer_of_def split: option.splits)

lemma index_or_default_upd:
  "index_or_default (m(owner \<mapsto> x)) ow = (if ow = owner then x else index_or_default m ow)"
  by (simp add: index_or_default_def)

lemma user_identities_update:
  assumes "distinct (map fst bufs)"
  shows "user_identities owner (AList.update (ow, name) b bufs) = user_identities owner bufs
    + (if map_of bufs (ow, name) = None \<and> ow = owner \<and> prefix ''user.'' name then 1 else 0)"
  using assms by (induction bufs) (auto simp: user_identities_def)

lemma user_identities_filter:
  "user_identities owner (filter P bufs) \<le> user_identities owner bufs"
  by (induction bufs) (auto simp: user_identities_def)

lemma cap_tail_length: "length (cap_tail xs) = min (length xs) durable_pointer_cap"
  by (simp add: cap_tail_eq)

lemma cap_tail_keep: "cap_tail xs = drop (length xs - min (length xs) durable_pointer_cap) xs"
  by (simp add: cap_tail_eq min_def)

lemma cap_tail_snoc: "cap_tail (cap_tail xs @ [x]) = cap_tail (xs @ [x])"
  by (induction xs) (auto simp: Suc_diff_le cap_tail_length)

lemma durable_append_spec:
  assumes "\<not> durable_is_quarantined di" and "n < U64_MAX"
    and "index_inv n ents (index_or_default (selected w di) owner)"
  obtains x where
    "durable_append w owner n entry_id di = (True, set_selected w ((selected w di)(owner \<mapsto> x)) di)"
    "index_inv (n + 1) (fst ents, snd ents @ [entry_id]) x"
proof -
  let ?old = "index_or_default (selected w di) owner"
  let ?tail = "cap_tail (dx_tail ?old @ [entry_id])"
  let ?x = "\<lparr>dx_published = n + 1, dx_base_seq = n + 1 - length ?tail, dx_tail = ?tail\<rparr>"
  have "durable_append w owner n entry_id di = (True, set_selected w ((selected w di)(owner \<mapsto> ?x)) di)"
    using assms not_poisoned[of di w] by (simp add: durable_append_def index_inv_def Let_def)
  moreover have "index_inv (n + 1) (fst ents, snd ents @ [entry_id]) ?x"
    using assms(3) by (simp add: index_inv_def cap_tail_snoc)
  ultimately show ?thesis by (rule that)
qed

text \<open>The three cases of a publication in a healthy registry.\<close>

lemma publish_cases:
  assumes inv: "replay_inv ser ((reg, di), h)" and healthy: "\<not> replay_quarantined (reg, di)"
    and disc: "disciplined (Publish owner channel payload ts durable enforce)"
    and pub: "channel_publish ser ts owner channel payload durable enforce (reg, di) = (r, st')"
  defines "n \<equiv> cb_next_seq (buffer_of (ch_buffers reg) (owner, channel))"
  obtains (limit) "r = Inl UserIdentityLimit" "st' = (reg, di)" "prefix ''user.'' channel"
      "map_of (ch_buffers reg) (owner, channel) = None"
      "user_identities owner (ch_buffers reg) = user_channels_per_owner_max"
  | (exhausted) "r = Inl Quarantined" "n = U64_MAX" "replay_quarantined st'"
  | (published) b e di' where "r = Inr e" "n < U64_MAX"
      "e = \<lparr>ev_channel = channel, ev_seq = n, ev_ts = ts, ev_payload = payload\<rparr>"
      "st' = (reg\<lparr>ch_buffers := AList.update (owner, channel) b (ch_buffers reg)\<rparr>, di')"
      "ring_of ser (h_log h (owner, channel) @ [e]) b" "cb_next_seq b = n + 1"
      "case durable of None \<Rightarrow> di' = di
       | Some (w, i) \<Rightarrow> \<exists>x. di' = set_selected w ((selected w di)(owner \<mapsto> x)) di
            \<and> index_inv (n + 1) (fst (h_entries h w owner), snd (h_entries h w owner) @ [i]) x"
      "enforce \<Longrightarrow> map_of (ch_buffers reg) (owner, channel) \<noteq> None
          \<or> user_identities owner (ch_buffers reg) < user_channels_per_owner_max"
proof -
  let ?key = "(owner, channel)"
  let ?b = "buffer_of (ch_buffers reg) ?key"
  let ?e = "\<lparr>ev_channel = channel, ev_seq = n, ev_ts = ts, ev_payload = payload\<rparr>"
  have q: "\<not> channels_is_quarantined reg" "\<not> durable_is_quarantined di"
    "\<not> ch_coordination_poisoned reg" "\<not> ch_buffers_poisoned reg"
    using healthy by (auto simp: replay_quarantined_def channels_is_quarantined_def)
  have binv: "buf_inv ser channel (h_log h ?key) ?b"
    using replay_invD(2)[OF inv, of ?key] by simp
  have iinv: "index_inv (cb_next_seq (buffer_of (ch_buffers reg) (owner, durable_name w)))
      (h_entries h w owner) (index_or_default (selected w di) owner)" for w
    by (rule replay_invD(3)[OF inv])
  let ?lim = "enforce \<and> map_of (ch_buffers reg) ?key = None
    \<and> user_channels_per_owner_max \<le> user_identities owner (ch_buffers reg)"
  consider (L) ?lim | (E) "\<not> ?lim" "U64_MAX \<le> n" | (P) "\<not> ?lim" "n < U64_MAX" by linarith
  then show ?thesis
  proof cases
    case L
    have "user_identities owner (ch_buffers reg) \<le> user_channels_per_owner_max"
      using inv by (simp add: replay_inv_def)
    then show ?thesis
      using L pub q disc by (intro limit)
        (auto simp: channel_publish_def split: option.splits)
  next
    case E
    then show ?thesis
      using pub q binv by (intro exhausted)
        (auto simp: channel_publish_def Let_def n_def buf_inv_def replay_quarantined_def)
  next
    case P
    obtain di' where app: "(case durable of None \<Rightarrow> (True, di)
          | Some (w, i) \<Rightarrow> durable_append w owner n i di) = (True, di')"
      and di': "case durable of None \<Rightarrow> di' = di
       | Some (w, i) \<Rightarrow> \<exists>x. di' = set_selected w ((selected w di)(owner \<mapsto> x)) di
            \<and> index_inv (n + 1) (fst (h_entries h w owner), snd (h_entries h w owner) @ [i]) x"
    proof (cases durable)
      case (Some p)
      obtain w i where p: "p = (w, i)" by (cases p)
      have "channel = durable_name w" using disc Some p by simp
      then have "index_inv n (h_entries h w owner) (index_or_default (selected w di) owner)"
        using iinv[of w] by (simp add: n_def)
      from durable_append_spec[OF q(2) P(2) this, of i] show ?thesis
        using that Some p by fastforce
    qed (use that in simp)
    obtain b where ring: "ring_append ser ?e (?b\<lparr>cb_next_seq := n + 1\<rparr>) = (False, b)"
      "ring_of ser (h_log h ?key @ [?e]) b" "cb_next_seq b = n + 1"
      using ring_append_spec[of ser "h_log h ?key" "?b\<lparr>cb_next_seq := n + 1\<rparr>" ?e] binv
      by (auto simp: buf_inv_def ring_of_def)
    have upd: "AList.update ?key b (AList.update ?key ?b (ch_buffers reg)) =
        AList.update ?key b (ch_buffers reg)" for b
      by (induction "ch_buffers reg") (auto simp: AList.update.simps)
    have "r = Inr ?e"
      "st' = (reg\<lparr>ch_buffers := AList.update ?key b (ch_buffers reg)\<rparr>, di')"
      using pub q P app ring(1) unfolding n_def
      by (simp_all add: channel_publish_def Let_def upd)
    then show ?thesis using P di' ring by (intro published) auto
  qed
qed

lemma log_event_sel:
  "h_log (log_event owner durable e h) key =
     (if key = (owner, ev_channel e) then h_log h key @ [e] else h_log h key)"
  "h_entries (log_event owner durable e h) w ow =
     (case durable of
        Some (w', i) \<Rightarrow> if w = w' \<and> ow = owner then (fst (h_entries h w ow), snd (h_entries h w ow) @ [i])
                        else h_entries h w ow
      | None \<Rightarrow> h_entries h w ow)"
  by (auto simp: log_event_def split: option.splits)

lemma buf_inv_snoc:
  assumes "buf_inv ser name es b" "ring_of ser (es @ [e]) b'" "cb_next_seq b' = cb_next_seq b + 1"
    "ev_seq e = cb_next_seq b" "ev_channel e = name" "cb_next_seq b < U64_MAX"
  shows "buf_inv ser name (es @ [e]) b'"
  using assms by (simp add: buf_inv_def)

lemma publish_inv:
  assumes inv: "replay_inv ser ((reg, di), h)" and healthy: "\<not> replay_quarantined (reg, di)"
    and disc: "disciplined (Publish owner channel payload ts durable enforce)"
    and step: "replay_step ser ((reg, di), h) (Publish owner channel payload ts durable enforce) = (st', h')"
    and healthy': "\<not> replay_quarantined st'"
  shows "replay_inv ser (st', h')"
proof -
  obtain r where pub: "channel_publish ser ts owner channel payload durable enforce (reg, di) = (r, st')"
    and h': "h' = (case r of Inl _ \<Rightarrow> h | Inr e \<Rightarrow> log_event owner durable e h)"
    using step by (auto simp: Let_def split: prod.splits)
  from inv healthy disc pub show ?thesis
  proof (cases rule: publish_cases)
    case limit
    then show ?thesis using inv h' by simp
  next
    case exhausted
    then show ?thesis using healthy' by simp
  next
    case (published b e di')
    let ?bufs = "AList.update (owner, channel) b (ch_buffers reg)"
    have dist: "distinct (map fst (ch_buffers reg))" using inv by (simp add: replay_inv_def)
    have bufs: "buf_inv ser (snd key) (h_log h' key) (buffer_of ?bufs key)" for key
    proof -
      have "buf_inv ser (snd key) (h_log h key) (buffer_of (ch_buffers reg) key)"
        by (rule replay_invD(2)[OF inv])
      then show ?thesis
        using published h' by (auto simp: buffer_of_update log_event_sel intro!: buf_inv_snoc)
    qed
    have idx: "index_inv (cb_next_seq (buffer_of ?bufs (ow, durable_name w)))
        (h_entries h' w ow) (index_or_default (selected w di') ow)" for w ow
    proof -
      have "index_inv (cb_next_seq (buffer_of (ch_buffers reg) (ow, durable_name w)))
        (h_entries h w ow) (index_or_default (selected w di) ow)"
        by (rule replay_invD(3)[OF inv])
      note old = this
      show ?thesis
      proof (cases durable)
        case None
        then have "channel \<noteq> durable_name w" using disc by (cases w) auto
        then show ?thesis
          using old None published(1, 7) h' by (simp add: buffer_of_update log_event_sel)
      next
        case (Some p)
        obtain w' i where p: "p = (w', i)" by (cases p)
        then have chan: "channel = durable_name w'" using disc Some by simp
        obtain x where x: "di' = set_selected w' ((selected w' di)(owner \<mapsto> x)) di"
          "index_inv (cb_next_seq b) (fst (h_entries h w' owner), snd (h_entries h w' owner) @ [i]) x"
          using published(6, 7) Some p by auto
        have ents: "h_entries h' w ow = (if w = w' \<and> ow = owner
            then (fst (h_entries h w ow), snd (h_entries h w ow) @ [i]) else h_entries h w ow)"
          using published(1) h' Some p by (simp add: log_event_sel)
        show ?thesis
        proof (cases "w = w' \<and> ow = owner")
          case True
          then show ?thesis
            using x ents by (simp add: buffer_of_update chan index_or_default_upd)
        next
          case False
          then have "index_or_default (selected w di') ow = index_or_default (selected w di) ow"
            by (auto simp: x(1) index_or_default_upd)
          then show ?thesis
            using False old by (auto simp: buffer_of_update chan ents)
        qed
      qed
    qed
    have "user_identities ow ?bufs \<le> user_channels_per_owner_max" for ow
    proof -
      have "user_identities ow (ch_buffers reg) \<le> user_channels_per_owner_max"
        using inv by (simp add: replay_inv_def)
      then show ?thesis
        using published(8) disc user_identities_update[OF dist, of ow owner channel b]
        by (auto split: option.splits if_splits)
    qed
    with bufs[of "(_, _)"] idx show ?thesis using published(4) dist by (simp add: replay_inv_def distinct_update)
  qed
qed

lemma seed_inv:
  assumes inv: "replay_inv ser ((reg, di), h)" and healthy: "\<not> replay_quarantined (reg, di)"
    and disc: "disciplined (Seed which owner published ids)"
    and step: "replay_step ser ((reg, di), h) (Seed which owner published ids) = (st', h')"
    and healthy': "\<not> replay_quarantined st'"
  shows "replay_inv ser (st', h')"
proof -
  let ?key = "(owner, durable_name which)"
  let ?b = "buffer_of (ch_buffers reg) ?key"
  have q: "\<not> channels_is_quarantined reg" "\<not> durable_is_quarantined di"
    "\<not> ch_coordination_poisoned reg" "\<not> ch_buffers_poisoned reg" "\<not> selected_poisoned which di"
    using healthy not_poisoned[of di which]
    by (auto simp: replay_quarantined_def channels_is_quarantined_def)
  have binv: "buf_inv ser (snd key) (h_log h key) (buffer_of (ch_buffers reg) key)" for key
    by (rule replay_invD(2)[OF inv])
  have iinv: "index_inv (cb_next_seq (buffer_of (ch_buffers reg) (ow, durable_name w)))
      (h_entries h w ow) (index_or_default (selected w di) ow)" for w ow
    by (rule replay_invD(3)[OF inv])
  have dist: "distinct (map fst (ch_buffers reg))" using inv by (simp add: replay_inv_def)
  have users: "user_identities ow (AList.update ?key b (ch_buffers reg)) \<le> user_channels_per_owner_max" for ow b
    using inv user_identities_update[OF dist, of ow owner "durable_name which" b]
    by (simp add: replay_inv_def)
  show ?thesis
  proof (cases "selected which di owner")
    case (Some x)
    then have pub: "dx_published x = cb_next_seq ?b"
      using iinv[of owner which] by (simp add: index_inv_def index_or_default_def)
    then have same: "?b\<lparr>cb_next_seq := dx_published x\<rparr> = ?b" by simp
    have "st' = (reg\<lparr>ch_buffers := AList.update ?key (?b\<lparr>cb_next_seq := dx_published x\<rparr>) (ch_buffers reg)\<rparr>, di)"
      "h' = h"
      using step healthy' q Some
      by (auto simp: seed_durable_def durable_seed_def replay_quarantined_def Let_def
          split: if_splits)
    then show ?thesis
      using binv iinv users dist
      by (auto simp: same replay_inv_def buffer_of_update distinct_update)
  next
    case None
    let ?keep = "min (length ids) durable_pointer_cap"
    let ?x = "\<lparr>dx_published = published, dx_base_seq = published - ?keep,
               dx_tail = drop (length ids - ?keep) ids\<rparr>"
    have zero: "cb_next_seq ?b = 0"
      using iinv[of owner which] None
      by (simp add: index_inv_def index_or_default_def durable_index_default_def)
    have st': "st' = (reg\<lparr>ch_buffers := AList.update ?key (?b\<lparr>cb_next_seq := published\<rparr>) (ch_buffers reg)\<rparr>,
        set_selected which ((selected which di)(owner \<mapsto> ?x)) di)"
      and h': "h' = h\<lparr>h_entries := (h_entries h)(which := (h_entries h which)(owner :=
          (published - ?keep, drop (length ids - ?keep) ids)))\<rparr>"
      and keep: "?keep \<le> published"
      using step healthy' q None
      by (auto simp: seed_durable_def durable_seed_def replay_quarantined_def Let_def
          split: if_splits)
    have "buf_inv ser (durable_name which) (h_log h ?key) (?b\<lparr>cb_next_seq := published\<rparr>)"
      using binv[of ?key] zero disc by (simp add: buf_inv_def ring_of_def)
    moreover have "index_inv published (published - ?keep, drop (length ids - ?keep) ids) ?x"
      using keep by (auto simp: index_inv_def cap_tail_eq)
    ultimately show ?thesis
      using st' h' binv iinv users dist
      by (auto simp: replay_inv_def buffer_of_update distinct_update index_or_default_upd)
  qed
qed

lemma default_inv:
  "buf_inv ser name [] channel_buf_default" "cb_next_seq channel_buf_default = 0"
  "index_inv 0 (0, []) durable_index_default"
  by (simp_all add: buf_inv_def ring_of_def ring_spec_def channel_buf_default_def index_inv_def
      durable_index_default_def)

lemma remove_inv:
  assumes inv: "replay_inv ser ((reg, di), h)" and healthy: "\<not> replay_quarantined (reg, di)"
    and step: "replay_step ser ((reg, di), h) (RemoveOwner owner) = (st', h')"
  shows "replay_inv ser (st', h')"
proof -
  let ?bufs = "filter (\<lambda>((ow, _), _). ow \<noteq> owner) (ch_buffers reg)"
  let ?di = "durable_remove_owner owner di"
  have q: "\<not> channels_is_quarantined reg" "\<not> durable_is_quarantined di"
    "\<not> ch_coordination_poisoned reg" "\<not> ch_buffers_poisoned reg"
    "\<not> di_journal_poisoned di" "\<not> di_transcript_poisoned di"
    using healthy
    by (auto simp: replay_quarantined_def channels_is_quarantined_def durable_is_quarantined_def)
  have st': "st' = (reg\<lparr>ch_buffers := ?bufs\<rparr>, ?di)"
    and h': "h' = \<lparr>h_log = (\<lambda>(ow, name). if ow = owner then [] else h_log h (ow, name)),
        h_entries = (\<lambda>which ow. if ow = owner then (0, []) else h_entries h which ow)\<rparr>"
    using step q by (auto simp: channel_remove_owner_def)
  have di: "index_or_default (selected w ?di) ow =
      (if ow = owner then durable_index_default else index_or_default (selected w di) ow)" for w ow
    using q by (cases w) (auto simp: durable_remove_owner_def index_or_default_def)
  have "user_identities ow ?bufs \<le> user_channels_per_owner_max" for ow
    using inv user_identities_filter[of ow _ "ch_buffers reg"] order_trans
    by (fastforce simp: replay_inv_def)
  moreover have "distinct (map fst ?bufs)"
    using inv distinct_map_filter by (auto simp: replay_inv_def)
  ultimately show ?thesis
    using inv st' h' default_inv by (auto simp: replay_inv_def buffer_of_filter di)
qed

lemma replay_quarantine_sticky:
  "replay_quarantined st \<Longrightarrow> replay_quarantined (fst (replay_step ser (st, h) op))"
  by (cases op; cases st)
    (auto simp: replay_quarantined_def channel_publish_def seed_durable_def channel_remove_owner_def)

definition replay_default :: replay where
  "replay_default = (channel_registry_default, durable_indexes_default)"

definition replay_run :: "serde \<Rightarrow> replay_op list \<Rightarrow> replay \<times> history" where
  "replay_run ser ops = foldl (replay_step ser) (replay_default, no_history) ops"

lemma replay_run_inv:
  assumes "replay_run ser ops = (st, h)"
    and "list_all disciplined ops" and "\<not> replay_quarantined st"
  shows "replay_inv ser (st, h)"
  using assms unfolding replay_run_def
proof (induction ops arbitrary: st h rule: rev_induct)
  case Nil
  have "buffer_of [] key = channel_buf_default" for key by (simp add: buffer_of_def)
  moreover have "index_or_default (selected w durable_indexes_default) owner = durable_index_default" for w owner
    by (cases w) (simp_all add: index_or_default_def durable_indexes_default_def)
  moreover have "st = replay_default" "h = no_history" using Nil by simp_all
  ultimately show ?case
    using default_inv
    by (simp add: replay_inv_def replay_default_def no_history_def channel_registry_default_def
        user_identities_def)
next
  case (snoc op ops)
  obtain reg di h0 where run: "foldl (replay_step ser) (replay_default, no_history) ops = ((reg, di), h0)"
    by (metis surj_pair)
  have step: "replay_step ser ((reg, di), h0) op = (st, h)" using snoc.prems(1) run by simp
  then have healthy: "\<not> replay_quarantined (reg, di)"
    using replay_quarantine_sticky[of "(reg, di)" ser h0 op] snoc.prems(3) by auto
  have "replay_inv ser ((reg, di), h0)" using snoc.IH[OF run] snoc.prems(2) healthy by simp
  with step healthy snoc.prems(2, 3) show ?case
    by (cases op) (auto simp del: replay_step.simps disciplined.simps
      intro: publish_inv seed_inv remove_inv)
qed

lemma read_ring_spec:
  assumes "replay_inv ser ((reg, di), h)" and "\<not> replay_quarantined (reg, di)"
  shows "fst (channel_read owner channel since limit reg) =
    take (case limit of Some n \<Rightarrow> n | None \<Rightarrow> USIZE_MAX)
      (filter (after since) (ring_spec ser (h_log h (owner, channel))))"
proof -
  have "ring_of ser (h_log h (owner, channel)) (buffer_of (ch_buffers reg) (owner, channel))"
    using replay_invD(2)[OF assms(1), of "(owner, channel)"] by (simp add: buf_inv_def)
  then have "map re_event (cb_ring (buffer_of (ch_buffers reg) (owner, channel))) =
      ring_spec ser (h_log h (owner, channel))"
    by (simp add: ring_of_def comp_def)
  moreover have "\<not> channels_is_quarantined reg" "\<not> ch_coordination_poisoned reg" "\<not> ch_buffers_poisoned reg"
    using assms(2) by (auto simp: replay_quarantined_def channels_is_quarantined_def)
  ultimately show ?thesis
    by (auto simp: channel_read_def buffer_of_def channel_buf_default_def split: option.splits)
qed

lemma durable_range_spec:
  fixes which :: durable_channel and owner :: owner_key
  assumes "replay_inv ser ((reg, di), h)" and "\<not> replay_quarantined (reg, di)"
  defines "off \<equiv> fst (h_entries h which owner)" and "ids \<equiv> snd (h_entries h which owner)"
  shows "fst (durable_range which owner since upto_seq di) =
    map (\<lambda>seq. (seq, ids ! (seq - off)))
      [max (case since of Some s \<Rightarrow> saturating_succ s | None \<Rightarrow> 0)
           (off + length ids - min (length ids) durable_pointer_cap) ..< min upto_seq (off + length ids)]"
proof (cases "selected which di owner")
  case None
  then have "off + length ids = 0"
    using replay_invD(3)[OF assms(1), where owner = owner and which = which]
    by (simp add: index_inv_def index_or_default_def durable_index_default_def off_def ids_def)
  then show ?thesis
    using assms(2) None not_poisoned[of di which] by (simp add: durable_range_def replay_quarantined_def)
next
  case (Some x)
  let ?cap = "min (length ids) durable_pointer_cap"
  let ?base = "off + length ids - ?cap"
  have x: "dx_published x = off + length ids" "dx_tail x = drop (length ids - ?cap) ids"
    "dx_base_seq x = ?base"
    using replay_invD(3)[OF assms(1), where owner = owner and which = which] Some
    by (auto simp: index_inv_def index_or_default_def off_def ids_def cap_tail_keep)
  have pick: "List.map_filter (\<lambda>seq. let offset = seq - ?base
      in if offset < length (dx_tail x) then Some (seq, dx_tail x ! offset) else None) [a..<b] =
    map (\<lambda>seq. (seq, ids ! (seq - off))) [a..<b]" if "?base \<le> a" "b \<le> off + length ids" for a b
  proof -
    have "(let offset = seq - ?base
        in if offset < length (dx_tail x) then Some (seq, dx_tail x ! offset) else None) =
      Some (seq, ids ! (seq - off))" if "seq \<in> set [a..<b]" for seq
    proof -
      have bounds: "?base \<le> seq" "seq < off + length ids" using that \<open>?base \<le> a\<close> \<open>b \<le> _\<close> by auto
      then have "length ids - ?cap + (seq - ?base) = seq - off" by linarith
      moreover have "seq - ?base < length (dx_tail x)" using bounds x(2) by simp linarith
      ultimately show ?thesis using x(2) by (simp add: Let_def)
    qed
    then show ?thesis by (simp add: List.map_filter_def cong: map_cong filter_cong)
  qed
  show ?thesis
    using assms(2) Some not_poisoned[of di which] x pick
    by (simp add: durable_range_def replay_quarantined_def Let_def)
qed

section \<open>A sample run\<close>

definition sample_serde :: serde where
  "sample_serde = \<lparr>json_chunks = \<lambda>_. [''null''], event_chunks = \<lambda>e. [''0123'', ev_channel e]\<rparr>"

definition sample_owner :: owner_key where
  "sample_owner = \<lparr>ok_principal = ''human'', ok_name = ''main'', ok_scope = ''local''\<rparr>"

definition sample_ops :: "replay_op list" where
  "sample_ops =
     [Seed Journal sample_owner 2 [40, 41],
      Publish sample_owner ''user.a'' JNull 5 None True,
      Publish sample_owner ''journal'' JNull 6 (Some (Journal, 42)) False,
      Publish sample_owner ''journal'' (JBool True) 7 (Some (Journal, 43)) False]"

lemmas replay_eval =
  replay_run_def sample_ops_def sample_serde_def sample_owner_def replay_default_def no_history_def
  channel_registry_default_def durable_indexes_default_def seed_durable_def channel_publish_def
  durable_seed_def durable_append_def index_or_default_def durable_index_default_def
  durable_pointer_cap_def event_ring_cap_def event_ring_max_bytes_def user_identities_def
  user_channels_per_owner_max_def buffer_of_def channel_buf_default_def ring_append_def evict.simps
  event_retained_bytes_eq log_event_def replay_quarantined_def channels_is_quarantined_def
  durable_is_quarantined_def channel_next_seq_def Let_def

lemma sample_run:
  "list_all disciplined sample_ops"
  "\<not> replay_quarantined (fst (replay_run sample_serde sample_ops))"
  by (simp_all add: replay_eval)

section \<open>Properties\<close>

text \<open>
  C11. Ring refinement: after any disciplined sequence of publications, hydrations and owner
  removals that leaves the bus healthy, a read returns, from the longest suffix of the channel's
  published events (those of admissible size) that fits 1024 events and two MiB, the events after
  the cursor, up to the limit; and the published events carry consecutive sequence numbers that end
  just below the channel's cursor.
\<close>

theorem ring_reads_recent_history:
  assumes "replay_run ser ops = ((reg, di), h)" and "list_all disciplined ops"
    and "\<not> replay_quarantined (reg, di)"
  shows "fst (channel_read owner channel since limit reg) =
      take (case limit of Some n \<Rightarrow> n | None \<Rightarrow> USIZE_MAX)
        (filter (after since)
          (recent (event_retained_bytes ser)
            (filter (\<lambda>e. event_retained_bytes ser e \<le> event_ring_max_bytes) (h_log h (owner, channel)))))
    \<and> (let n = fst (channel_next_seq owner channel reg)
       in map ev_seq (h_log h (owner, channel)) = [n - length (h_log h (owner, channel))..<n])"
proof -
  have inv: "replay_inv ser ((reg, di), h)" by (rule replay_run_inv[OF assms])
  have "fst (channel_next_seq owner channel reg) = cb_next_seq (buffer_of (ch_buffers reg) (owner, channel))"
    using assms(3)
    by (auto simp: channel_next_seq_def replay_quarantined_def channels_is_quarantined_def
        buffer_of_def channel_buf_default_def split: option.splits)
  then show ?thesis
    using replay_invD(2)[OF inv, of "(owner, channel)"] read_ring_spec[OF inv assms(3)]
    by (simp add: buf_inv_def ring_spec_def Let_def)
qed

theorem ring_reads_recent_history_witness:
  "list_all disciplined sample_ops \<and> \<not> replay_quarantined (fst (replay_run sample_serde sample_ops))
    \<and> map ev_seq (fst (channel_read sample_owner ''journal'' None None
         (fst (fst (replay_run sample_serde sample_ops))))) = [2, 3]"
proof -
  obtain reg di h where run: "replay_run sample_serde sample_ops = ((reg, di), h)"
    by (metis surj_pair)
  have "map ev_seq (recent (event_retained_bytes sample_serde)
      (filter (\<lambda>e. event_retained_bytes sample_serde e \<le> event_ring_max_bytes)
        (h_log (snd (replay_run sample_serde sample_ops)) (sample_owner, ''journal'')))) = [2, 3]"
    by (simp add: replay_eval fits_def)
  then show ?thesis
    using ring_reads_recent_history[OF run sample_run(1), of sample_owner "''journal''" None None]
      sample_run run
    by (simp add: take_map[symmetric] after_def)
qed

text \<open>
  C33. In every healthy reachable state a publication succeeds with the channel's next sequence number
  and leaves the bus healthy, unless the channel is a new user channel of an owner that already has
  256 of them (the state is unchanged) or the sequence numbers are exhausted: the replay invariant
  between cursors and pointers never trips by itself.
\<close>

theorem publication_never_trips:
  assumes "replay_run ser ops = ((reg, di), h)" and "list_all disciplined ops"
    and "\<not> replay_quarantined (reg, di)"
    and "disciplined (Publish owner channel payload ts durable enforce)"
    and "channel_publish ser ts owner channel payload durable enforce (reg, di) = (r, st')"
  shows "(if enforce \<and> map_of (ch_buffers reg) (owner, channel) = None
             \<and> user_identities owner (ch_buffers reg) = user_channels_per_owner_max
          then r = Inl UserIdentityLimit \<and> st' = (reg, di)
          else if fst (channel_next_seq owner channel reg) = U64_MAX then r = Inl Quarantined
          else r = Inr \<lparr>ev_channel = channel, ev_seq = fst (channel_next_seq owner channel reg),
                        ev_ts = ts, ev_payload = payload\<rparr>
               \<and> \<not> replay_quarantined st')"
proof -
  have inv: "replay_inv ser ((reg, di), h)" by (rule replay_run_inv[OF assms(1-3)])
  have next_seq: "fst (channel_next_seq owner channel reg) =
      cb_next_seq (buffer_of (ch_buffers reg) (owner, channel))"
    using assms(3)
    by (auto simp: channel_next_seq_def replay_quarantined_def channels_is_quarantined_def
        buffer_of_def channel_buf_default_def split: option.splits)
  from inv assms(3-5) show ?thesis
  proof (cases rule: publish_cases)
    case limit
    then show ?thesis using assms(4) by (auto split: option.splits)
  next
    case exhausted
    then show ?thesis
      using assms(3, 5) next_seq
      by (auto simp: channel_publish_def replay_quarantined_def channels_is_quarantined_def split: if_splits)
  next
    case (published b e di')
    have "durable_is_quarantined di' = durable_is_quarantined di"
      using published(7) by (auto split: option.splits)
    then show ?thesis
      using published assms(3) next_seq by (auto simp: replay_quarantined_def)
  qed
qed

theorem publication_never_trips_witness:
  "fst (channel_publish sample_serde 8 sample_owner ''user.a'' JNull None True
      (fst (replay_run sample_serde sample_ops))) =
     Inr \<lparr>ev_channel = ''user.a'', ev_seq = 1, ev_ts = 8, ev_payload = JNull\<rparr>"
proof -
  obtain reg di h where run: "replay_run sample_serde sample_ops = ((reg, di), h)"
    by (metis surj_pair)
  obtain r st' where pub: "channel_publish sample_serde 8 sample_owner ''user.a'' JNull None True
      (reg, di) = (r, st')" by (metis surj_pair)
  have "fst (channel_next_seq sample_owner ''user.a'' (fst (fst (replay_run sample_serde sample_ops)))) = 1"
    "map_of (ch_buffers (fst (fst (replay_run sample_serde sample_ops)))) (sample_owner, ''user.a'') \<noteq> None"
    by (simp_all add: replay_eval)
  then show ?thesis
    using publication_never_trips[OF run sample_run(1) _ _ pub] sample_run(2) run pub by simp
qed

text \<open>
  Retained memory is bounded in every healthy reachable state: each ring holds at most 1024
  events and two MiB of encoded events with exact accounting, an owner has at most 256 user
  channels, and each pointer index keeps at most 1024 pointers, whose first and last belong to the
  sequence numbers it says.
\<close>

theorem event_bus_memory_bounded:
  assumes "replay_run ser ops = ((reg, di), h)" and "list_all disciplined ops"
    and "\<not> replay_quarantined (reg, di)"
  shows "(\<forall>(key, b) \<in> set (ch_buffers reg).
        length (cb_ring b) \<le> 1024 \<and> cb_ring_bytes b \<le> 2 * 1024 * 1024
        \<and> cb_ring_bytes b = sum_list (map (\<lambda>r. event_retained_bytes ser (re_event r)) (cb_ring b)))
    \<and> user_identities owner (ch_buffers reg) \<le> 256
    \<and> (\<forall>which x. selected which di owner = Some x \<longrightarrow>
          length (dx_tail x) \<le> 1024 \<and> dx_base_seq x + length (dx_tail x) = dx_published x)"
proof -
  have inv: "replay_inv ser ((reg, di), h)" by (rule replay_run_inv[OF assms])
  have ring: "length (cb_ring b) \<le> 1024 \<and> cb_ring_bytes b \<le> 2 * 1024 * 1024
      \<and> cb_ring_bytes b = sum_list (map (\<lambda>r. event_retained_bytes ser (re_event r)) (cb_ring b))"
    if "(key, b) \<in> set (ch_buffers reg)" for key b
  proof -
    have "buffer_of (ch_buffers reg) key = b"
      using that replay_invD(1)[OF inv] by (simp add: buffer_of_def)
    then have "ring_of ser (h_log h key) b" using replay_invD(2)[OF inv, of key] by (simp add: buf_inv_def)
    then show ?thesis
      using ring_spec_fits[of ser "h_log h key"]
      by (simp add: ring_of_def fits_def comp_def event_ring_cap_def event_ring_max_bytes_def)
  qed
  have idx: "length (dx_tail x) \<le> 1024 \<and> dx_base_seq x + length (dx_tail x) = dx_published x"
    if "selected which di owner = Some x" for which x
    using replay_invD(3)[OF inv, where owner = owner and which = which] that
    by (auto simp: index_inv_def index_or_default_def cap_tail_length durable_pointer_cap_def event_ring_cap_def)
  show ?thesis
    using ring idx replay_invD(4)[OF inv, of owner] by (auto simp: user_channels_per_owner_max_def)
qed

theorem event_bus_memory_bounded_witness:
  "list_all (\<lambda>(key, b). length (cb_ring b) \<le> 1024)
     (ch_buffers (fst (fst (replay_run sample_serde sample_ops))))"
proof -
  obtain reg di h where run: "replay_run sample_serde sample_ops = ((reg, di), h)"
    by (metis surj_pair)
  then show ?thesis
    using event_bus_memory_bounded[OF run sample_run(1), of sample_owner] sample_run(2)
    by (fastforce simp: list_all_iff)
qed

end
