(* ===== verification/Event_Queue.thy ===== *)
theory Event_Queue
  imports Event_Ring
begin

text \<open>
  The per-subscription queue of \<open>kernel/eventbus/subscriptions.rs\<close> (\<open>SubQueue\<close>): live events are staged
  by sequence number until the replay snapshot is merged, drained in order into a bounded queue, and
  coalesced into a summary when a wall is reached. The tree map of staged events is a list sorted by
  key; the mutex's poison flag is a field. The lemmas show the order and the bounds of what is
  delivered, that no staged event disappears uncounted, and when merging is exact.
\<close>

section \<open>The queue\<close>

definition sub_queue_cap :: nat where
  "sub_queue_cap = 256"

definition sub_queue_max_bytes :: nat where
  "sub_queue_max_bytes = 512 * 1024"

definition staged_event_cap :: nat where
  "staged_event_cap = event_ring_cap + sub_queue_cap"

definition staged_event_max_bytes :: nat where
  "staged_event_max_bytes = sub_queue_max_bytes"

record sub_queue =
  q_channel :: string
  q_ready :: "event list"
  q_ready_bytes :: nat
  q_pending :: "(nat \<times> event) list"
  q_pending_bytes :: nat
  q_replaying :: bool
  q_next_seq :: "nat option"
  q_overflow_from :: "nat option"
  q_overflow_through :: "nat option"
  q_overflow_dropped :: nat
  q_overflow_dropped_bytes :: nat
  q_dropped :: nat
  q_dropped_bytes :: nat
  q_latest_dropped_seq :: nat
  q_closed :: bool
  q_poisoned :: bool

definition sub_queue_new :: "string \<Rightarrow> sub_queue" where
  "sub_queue_new channel =
     \<lparr>q_channel = channel, q_ready = [], q_ready_bytes = 0, q_pending = [], q_pending_bytes = 0,
      q_replaying = True, q_next_seq = None, q_overflow_from = None, q_overflow_through = None,
      q_overflow_dropped = 0, q_overflow_dropped_bytes = 0, q_dropped = 0, q_dropped_bytes = 0,
      q_latest_dropped_seq = 0, q_closed = False, q_poisoned = False\<rparr>"

definition bt_insert :: "nat \<Rightarrow> event \<Rightarrow> (nat \<times> event) list \<Rightarrow> (nat \<times> event) list" where
  "bt_insert k v m = filter (\<lambda>(k', _). k' < k) m @ (k, v) # filter (\<lambda>(k', _). k < k') m"

definition bt_remove :: "nat \<Rightarrow> (nat \<times> event) list \<Rightarrow> (nat \<times> event) list" where
  "bt_remove k m = filter (\<lambda>(k', _). k' \<noteq> k) m"

definition saturating_u64_add :: "nat \<Rightarrow> nat \<Rightarrow> nat" where
  "saturating_u64_add a b = min U64_MAX (a + b)"

definition lock_or_close :: "sub_queue \<Rightarrow> sub_queue" where
  "lock_or_close q =
     (if q_poisoned q
      then q\<lparr>q_ready := [], q_ready_bytes := 0, q_pending := [], q_pending_bytes := 0,
             q_closed := True, q_poisoned := False\<rparr>
      else q)"

definition stage :: "serde \<Rightarrow> event \<Rightarrow> sub_queue \<Rightarrow> sub_queue" where
  "stage ser e q =
     (if (case q_next_seq q of Some n \<Rightarrow> ev_seq e < n | None \<Rightarrow> False)
         \<or> map_of (q_pending q) (ev_seq e) \<noteq> None
      then q
      else let event_bytes = event_retained_bytes ser e;
               pending_bytes = q_pending_bytes q + event_bytes
      in if staged_event_cap \<le> length (q_pending q) \<or> USIZE_MAX < pending_bytes
            \<or> staged_event_max_bytes < pending_bytes
      then q\<lparr>q_overflow_from := Some (case q_overflow_from q of
                 None \<Rightarrow> ev_seq e | Some from_seq \<Rightarrow> min from_seq (ev_seq e)),
             q_overflow_through := Some (case q_overflow_through q of
                 None \<Rightarrow> ev_seq e | Some through \<Rightarrow> max through (ev_seq e)),
             q_overflow_dropped := saturating_u64_add (q_overflow_dropped q) 1,
             q_overflow_dropped_bytes := saturating_u64_add (q_overflow_dropped_bytes q) event_bytes\<rparr>
      else q\<lparr>q_pending_bytes := pending_bytes,
             q_pending := bt_insert (ev_seq e) e (q_pending q)\<rparr>)"

definition push_ready :: "serde \<Rightarrow> event \<Rightarrow> sub_queue \<Rightarrow> sub_queue" where
  "push_ready ser e q =
     (let event_bytes = event_retained_bytes ser e;
          ready_bytes = q_ready_bytes q + event_bytes
      in if length (q_ready q) < sub_queue_cap
            \<and> (ready_bytes \<le> USIZE_MAX \<and> ready_bytes \<le> sub_queue_max_bytes)
            \<and> q_dropped q = 0
         then q\<lparr>q_ready_bytes := ready_bytes, q_ready := q_ready q @ [e]\<rparr>
         else q\<lparr>q_dropped := saturating_u64_add (q_dropped q) 1,
                q_dropped_bytes := saturating_u64_add (q_dropped_bytes q) event_bytes,
                q_latest_dropped_seq := ev_seq e\<rparr>)"

text \<open>The cursor when none is set: the smaller of the first staged and the first overflowed.\<close>

definition first_cursor :: "sub_queue \<Rightarrow> nat option" where
  "first_cursor q =
     (case (case q_pending q of [] \<Rightarrow> None | (k, _) # _ \<Rightarrow> Some k, q_overflow_from q) of
        (Some p, Some ov) \<Rightarrow> Some (min p ov)
      | (Some p, None) \<Rightarrow> Some p
      | (None, ov) \<Rightarrow> ov)"

text \<open>One turn of the drain loop on an overflowed range that the cursor has reached.\<close>

definition skip_overflow :: "serde \<Rightarrow> nat \<Rightarrow> sub_queue \<Rightarrow> sub_queue" where
  "skip_overflow ser through q =
     (let gone = filter (\<lambda>(seq, _). seq \<le> through) (q_pending q);
          kept = filter (\<lambda>(seq, _). \<not> seq \<le> through) (q_pending q)
      in q\<lparr>q_overflow_through := None, q_overflow_from := None,
           q_overflow_dropped := 0, q_overflow_dropped_bytes := 0,
           q_latest_dropped_seq := through,
           q_dropped := saturating_u64_add (saturating_u64_add (q_dropped q) (q_overflow_dropped q))
              (fold (\<lambda>_ n. saturating_u64_add n 1) gone 0),
           q_dropped_bytes := saturating_u64_add
              (saturating_u64_add (q_dropped_bytes q) (q_overflow_dropped_bytes q))
              (fold (\<lambda>(_, e) n. saturating_u64_add n (event_retained_bytes ser e)) gone 0),
           q_pending := kept,
           q_pending_bytes := sum_list (map (\<lambda>(_, e). event_retained_bytes ser e) kept),
           q_next_seq := Some (saturating_succ through)\<rparr>)"

definition take_pending :: "serde \<Rightarrow> nat \<Rightarrow> event \<Rightarrow> sub_queue \<Rightarrow> sub_queue" where
  "take_pending ser n e q =
     (push_ready ser e (q\<lparr>q_pending := bt_remove n (q_pending q),
        q_pending_bytes := q_pending_bytes q - event_retained_bytes ser e\<rparr>))
     \<lparr>q_next_seq := Some (saturating_succ n)\<rparr>"

lemma bt_remove_shorter: "map_of m k = Some v \<Longrightarrow> length (bt_remove k m) < length m"
proof -
  assume "map_of m k = Some v"
  then have "(k, v) \<in> set m" by (rule map_of_SomeD)
  then have "\<exists>x \<in> set m. \<not> (\<lambda>(k', _). k' \<noteq> k) x" by force
  then show ?thesis unfolding bt_remove_def by (meson length_filter_less)
qed

lemma push_ready_keeps [simp]:
  "q_pending (push_ready ser e q) = q_pending q"
  "q_pending_bytes (push_ready ser e q) = q_pending_bytes q"
  "q_overflow_through (push_ready ser e q) = q_overflow_through q"
  "q_overflow_from (push_ready ser e q) = q_overflow_from q"
  "q_overflow_dropped (push_ready ser e q) = q_overflow_dropped q"
  "q_next_seq (push_ready ser e q) = q_next_seq q"
  "q_replaying (push_ready ser e q) = q_replaying q"
  "q_closed (push_ready ser e q) = q_closed q"
  "q_poisoned (push_ready ser e q) = q_poisoned q"
  "q_channel (push_ready ser e q) = q_channel q"
  by (simp_all add: push_ready_def Let_def)

function drain_loop :: "serde \<Rightarrow> sub_queue \<Rightarrow> sub_queue" where
  "drain_loop ser q =
     (case q_next_seq q of
        None \<Rightarrow> q
      | Some n \<Rightarrow>
          (case map_of (q_pending q) n of
             Some e \<Rightarrow> drain_loop ser (take_pending ser n e q)
           | None \<Rightarrow>
               (case q_overflow_through q of
                  None \<Rightarrow> q
                | Some through \<Rightarrow>
                    if n \<le> through then drain_loop ser (skip_overflow ser through q) else q)))"
  by pat_completeness auto
termination
  by (relation "measure (\<lambda>(ser, q). length (q_pending q) +
        (case q_overflow_through q of None \<Rightarrow> 0 | Some _ \<Rightarrow> 1))")
    (auto simp: take_pending_def skip_overflow_def Let_def bt_remove_shorter le_imp_less_Suc)

declare drain_loop.simps [simp del]

definition drain_pending :: "serde \<Rightarrow> sub_queue \<Rightarrow> sub_queue" where
  "drain_pending ser q =
     drain_loop ser (if q_next_seq q = None then q\<lparr>q_next_seq := first_cursor q\<rparr> else q)"

definition push_live :: "serde \<Rightarrow> event \<Rightarrow> sub_queue \<Rightarrow> sub_queue" where
  "push_live ser e q =
     (let q = lock_or_close q
      in if q_closed q then q
         else let q = stage ser e q in if \<not> q_replaying q then drain_pending ser q else q)"

definition finish_replay :: "serde \<Rightarrow> event list \<Rightarrow> sub_queue \<Rightarrow> sub_queue" where
  "finish_replay ser replay q =
     (let q = lock_or_close q
      in if q_closed q \<or> \<not> q_replaying q then q
         else let q = fold (stage ser) replay q;
                  q = q\<lparr>q_replaying := False\<rparr>;
                  q = q\<lparr>q_next_seq := first_cursor q\<rparr>
              in drain_pending ser q)"

definition drop_summary :: "sub_queue \<Rightarrow> int \<Rightarrow> event" where
  "drop_summary q ts =
     \<lparr>ev_channel = q_channel q, ev_seq = q_latest_dropped_seq q, ev_ts = ts,
      ev_payload = JObject [(''dropped'', JNumber (dec (q_dropped q))),
        (''dropped_bytes'', JNumber (dec (q_dropped_bytes q))),
        (''latest_seq'', JNumber (dec (q_latest_dropped_seq q)))]\<rparr>"

definition pop :: "serde \<Rightarrow> int \<Rightarrow> sub_queue \<Rightarrow> event option \<times> sub_queue" where
  "pop ser ts q =
     (let q = lock_or_close q
      in if q_replaying q \<or> q_closed q then (None, q)
         else case q_ready q of
             e # es \<Rightarrow> (Some e, q\<lparr>q_ready := es, q_ready_bytes := q_ready_bytes q - event_retained_bytes ser e\<rparr>)
           | [] \<Rightarrow>
               if 0 < q_dropped q
               then (Some (drop_summary q ts), q\<lparr>q_dropped := 0, q_dropped_bytes := 0\<rparr>)
               else (None, q))"

definition close_queue :: "sub_queue \<Rightarrow> sub_queue" where
  "close_queue q = (lock_or_close q)\<lparr>q_closed := True\<rparr>"

section \<open>Draining\<close>

definition drained :: "sub_queue \<Rightarrow> bool" where
  "drained q \<longleftrightarrow> (case q_next_seq q of
      None \<Rightarrow> True
    | Some n \<Rightarrow> map_of (q_pending q) n = None
        \<and> (case q_overflow_through q of None \<Rightarrow> True | Some through \<Rightarrow> through < n))"

lemma drain_turn:
  obtains (take) n e where "q_next_seq q = Some n" "map_of (q_pending q) n = Some e"
  | (skip) n through where "q_next_seq q = Some n" "map_of (q_pending q) n = None"
      "q_overflow_through q = Some through" "n \<le> through"
  | (stop) "drained q"
  by (cases "q_next_seq q"; cases "map_of (q_pending q) (the (q_next_seq q))"; cases "q_overflow_through q")
    (auto simp: drained_def not_le[symmetric])

lemma drain_loop_take: "q_next_seq q = Some n \<Longrightarrow> map_of (q_pending q) n = Some e \<Longrightarrow>
    drain_loop ser q = drain_loop ser (take_pending ser n e q)"
  by (subst drain_loop.simps) simp

lemma drain_loop_skip: "q_next_seq q = Some n \<Longrightarrow> map_of (q_pending q) n = None \<Longrightarrow>
    q_overflow_through q = Some through \<Longrightarrow> n \<le> through \<Longrightarrow>
    drain_loop ser q = drain_loop ser (skip_overflow ser through q)"
  by (subst drain_loop.simps) simp

lemma drain_loop_stop: "drained q \<Longrightarrow> drain_loop ser q = q"
  by (subst drain_loop.simps) (auto simp: drained_def split: option.splits)

text \<open>What one turn of the loop keeps, the loop keeps; when it stops there is nothing to take.\<close>

lemma drain_loop_invariant:
  assumes "P q"
    and take: "\<And>q n e. P q \<Longrightarrow> q_next_seq q = Some n \<Longrightarrow> map_of (q_pending q) n = Some e
          \<Longrightarrow> P (take_pending ser n e q)"
    and skip: "\<And>q n through. P q \<Longrightarrow> q_next_seq q = Some n \<Longrightarrow> map_of (q_pending q) n = None
          \<Longrightarrow> q_overflow_through q = Some through \<Longrightarrow> n \<le> through \<Longrightarrow> P (skip_overflow ser through q)"
  shows "P (drain_loop ser q) \<and> drained (drain_loop ser q)"
  using assms
proof (induction ser q rule: drain_loop.induct)
  case (1 ser q)
  show ?case
  proof (cases q rule: drain_turn)
    case (take n e)
    then show ?thesis using "1.IH"(2)[OF take] "1.prems" by (simp add: drain_loop_take)
  next
    case (skip n through)
    then show ?thesis using "1.IH"(1)[OF skip] "1.prems" by (simp add: drain_loop_skip)
  next
    case stop
    then show ?thesis using "1.prems" by (simp add: drain_loop_stop)
  qed
qed


section \<open>Sorted maps\<close>

definition bt_wf :: "(nat \<times> event) list \<Rightarrow> bool" where
  "bt_wf m \<longleftrightarrow> sorted_wrt (<) (map fst m) \<and> list_all (\<lambda>(k, e). ev_seq e = k \<and> k < U64_MAX) m"

abbreviation bt_bytes :: "serde \<Rightarrow> (nat \<times> event) list \<Rightarrow> nat" where
  "bt_bytes ser m \<equiv> sum_list (map (\<lambda>(_, e). event_retained_bytes ser e) m)"

lemma bt_wf_filter: "bt_wf m \<Longrightarrow> bt_wf (filter P m)"
  by (auto simp: bt_wf_def list_all_iff sorted_wrt_map intro: sorted_wrt_filter)

lemma bt_wf_insert: "bt_wf m \<Longrightarrow> ev_seq e < U64_MAX \<Longrightarrow> bt_wf (bt_insert (ev_seq e) e m)"
  by (auto simp: bt_wf_def bt_insert_def list_all_iff sorted_wrt_map sorted_wrt_append
      intro: sorted_wrt_filter dest: order.strict_trans)

lemma bt_split:
  assumes "bt_wf m" and "map_of m k = None"
  shows "m = filter (\<lambda>(k', _). k' < k) m @ filter (\<lambda>(k', _). k < k') m"
  using assms
proof (induction m)
  case (Cons x m)
  obtain k' e where x: "x = (k', e)" by (cases x)
  have wf: "bt_wf m" "k' < fst y" if "y \<in> set m" for y
    using Cons.prems(1) that by (auto simp: bt_wf_def x)
  have ih: "m = filter (\<lambda>(k', _). k' < k) m @ filter (\<lambda>(k', _). k < k') m"
    using Cons x by (auto simp: bt_wf_def split: if_splits)
  show ?case
  proof (cases "k' < k")
    case True
    then show ?thesis using ih x by simp
  next
    case False
    then have "k < k'" using Cons.prems(2) x by (auto split: if_splits)
    then have "filter (\<lambda>(k', _). k' < k) m = []" "filter (\<lambda>(k', _). k < k') m = m"
      using wf by (force simp: filter_empty_conv filter_id_conv)+
    then show ?thesis using \<open>k < k'\<close> x by simp
  qed
qed simp

lemma bt_insert_new:
  assumes "bt_wf m" and "map_of m (ev_seq e) = None"
  shows "length (bt_insert (ev_seq e) e m) = Suc (length m)"
    and "bt_bytes ser (bt_insert (ev_seq e) e m) = bt_bytes ser m + event_retained_bytes ser e"
    and "set (bt_insert (ev_seq e) e m) = insert (ev_seq e, e) (set m)"
proof -
  obtain lo hi where ins: "bt_insert (ev_seq e) e m = lo @ (ev_seq e, e) # hi" and m: "m = lo @ hi"
    using bt_split[OF assms] unfolding bt_insert_def by metis
  show "length (bt_insert (ev_seq e) e m) = Suc (length m)"
    "bt_bytes ser (bt_insert (ev_seq e) e m) = bt_bytes ser m + event_retained_bytes ser e"
    "set (bt_insert (ev_seq e) e m) = insert (ev_seq e, e) (set m)"
    unfolding ins unfolding m by simp_all
qed

lemma bt_remove_absent: "k \<notin> fst ` set m \<Longrightarrow> filter (\<lambda>(k', _). k' \<noteq> k) m = m"
  by (force simp: filter_id_conv)

lemma bt_remove_split:
  assumes "bt_wf m" and "map_of m k = Some e"
  shows "length m = Suc (length (bt_remove k m))"
    and "bt_bytes ser m = bt_bytes ser (bt_remove k m) + event_retained_bytes ser e"
    and "set (bt_remove k m) = set m - {(k, e)}" and "ev_seq e = k" and "k < U64_MAX"
  using assms
proof -
  have "distinct (map fst m)" using assms(1) by (simp add: bt_wf_def strict_sorted_iff)
  then show "length m = Suc (length (bt_remove k m))"
    "bt_bytes ser m = bt_bytes ser (bt_remove k m) + event_retained_bytes ser e"
    "set (bt_remove k m) = set m - {(k, e)}"
    using assms(2)
    by (induction m) (auto simp: bt_remove_def bt_remove_absent rev_image_eqI split: if_splits)
  show "ev_seq e = k" "k < U64_MAX"
    using assms map_of_SomeD[of m k e] by (auto simp: bt_wf_def list_all_iff)
qed

section \<open>The queue invariant\<close>

definition queue_inv :: "serde \<Rightarrow> sub_queue \<Rightarrow> bool" where
  "queue_inv ser q \<longleftrightarrow> bt_wf (q_pending q)
     \<and> q_pending_bytes q = bt_bytes ser (q_pending q)
     \<and> length (q_pending q) \<le> staged_event_cap \<and> q_pending_bytes q \<le> staged_event_max_bytes
     \<and> sorted_wrt (<) (map ev_seq (q_ready q))
     \<and> q_ready_bytes q = sum_list (map (event_retained_bytes ser) (q_ready q))
     \<and> length (q_ready q) \<le> sub_queue_cap \<and> q_ready_bytes q \<le> sub_queue_max_bytes
     \<and> (\<forall>through. q_overflow_through q = Some through \<longrightarrow> through < U64_MAX \<and> 0 < q_overflow_dropped q)
     \<and> (q_overflow_through q = None \<longrightarrow> q_overflow_from q = None \<and> q_overflow_dropped q = 0)
     \<and> (case q_next_seq q of
          None \<Rightarrow> q_ready q = [] \<and> q_dropped q = 0
        | Some n \<Rightarrow> \<not> q_replaying q \<and> (\<forall>e \<in> set (q_ready q). ev_seq e < n)
            \<and> (\<forall>(k, _) \<in> set (q_pending q). n \<le> k)
            \<and> (0 < q_dropped q \<longrightarrow> q_latest_dropped_seq q < n
                \<and> (\<forall>e \<in> set (q_ready q). ev_seq e < q_latest_dropped_seq q)))"

text \<open>The number of events a queue holds or has still to report as dropped.\<close>

definition held :: "sub_queue \<Rightarrow> nat" where
  "held q = length (q_ready q) + q_dropped q + length (q_pending q) + q_overflow_dropped q"

lemma saturating_succ_eq [simp]: "n < U64_MAX \<Longrightarrow> saturating_succ n = Suc n"
  by (simp add: saturating_succ_def)

lemma fold_count: "fold (\<lambda>_ n. saturating_u64_add n 1) xs 0 = min U64_MAX (length xs)"
proof -
  have "fold (\<lambda>_ n. saturating_u64_add n 1) xs a = min U64_MAX (a + length xs)" if "a \<le> U64_MAX" for a
    using that by (induction xs arbitrary: a) (auto simp: saturating_u64_add_def)
  then show ?thesis by simp
qed

lemma push_ready_inv:
  assumes "queue_inv ser q" and "q_next_seq q = Some n" and "ev_seq e = n" and "n < U64_MAX"
    and "\<forall>(k, _) \<in> set (q_pending q). n < k"
  shows "queue_inv ser ((push_ready ser e q)\<lparr>q_next_seq := Some (Suc n)\<rparr>)"
  using assms
  by (auto simp: queue_inv_def push_ready_def Let_def sorted_wrt_append saturating_u64_add_def
      less_Suc_eq Suc_le_eq split: prod.splits)

lemma take_pending_inv:
  assumes inv: "queue_inv ser q" and n: "q_next_seq q = Some n" and e: "map_of (q_pending q) n = Some e"
  shows "queue_inv ser (take_pending ser n e q)"
proof -
  let ?q = "q\<lparr>q_pending := bt_remove n (q_pending q),
        q_pending_bytes := q_pending_bytes q - event_retained_bytes ser e\<rparr>"
  have wf: "bt_wf (q_pending q)" using inv by (simp add: queue_inv_def)
  note rem = bt_remove_split[OF wf e]
  have keys: "\<forall>(k, _) \<in> set (bt_remove n (q_pending q)). n < k"
    using inv n by (fastforce simp: queue_inv_def bt_remove_def)
  have "queue_inv ser ?q"
    using inv n rem keys bt_wf_filter[OF wf, of "\<lambda>(k', _). k' \<noteq> n"]
    by (auto simp: queue_inv_def bt_remove_def)
  from push_ready_inv[OF this, of n e] show ?thesis
    using n rem(4, 5) keys by (simp add: take_pending_def)
qed

lemma skip_overflow_inv:
  assumes inv: "queue_inv ser q" and n: "q_next_seq q = Some n"
    and t: "q_overflow_through q = Some through" "n \<le> through"
  shows "queue_inv ser (skip_overflow ser through q)"
proof -
  let ?kept = "filter (\<lambda>(seq, _). \<not> seq \<le> through) (q_pending q)"
  have "bt_bytes ser ?kept \<le> bt_bytes ser (q_pending q)"
    by (intro subseq_sum_list subseq_filter_left)
  moreover have "length ?kept \<le> staged_event_cap"
    using inv by (intro order_trans[OF length_filter_le]) (simp add: queue_inv_def)
  moreover have "through < U64_MAX" using inv t by (simp add: queue_inv_def)
  moreover have "bt_wf ?kept" using inv by (intro bt_wf_filter) (simp add: queue_inv_def)
  ultimately show ?thesis
    using inv n t
    by (auto simp: queue_inv_def skip_overflow_def Let_def)
qed

lemma drain_loop_inv: "queue_inv ser q \<Longrightarrow> queue_inv ser (drain_loop ser q)"
  using drain_loop_invariant[of "queue_inv ser" q ser] take_pending_inv skip_overflow_inv by blast

lemma push_ready_held: "held q < U64_MAX \<Longrightarrow> held (push_ready ser e q) = Suc (held q)"
  by (auto simp: held_def push_ready_def Let_def saturating_u64_add_def)

lemma drain_loop_held:
  assumes "queue_inv ser q" and "held q \<le> U64_MAX"
  shows "held (drain_loop ser q) = held q"
proof -
  let ?P = "\<lambda>q'. queue_inv ser q' \<and> held q' = held q"
  have take: "held (take_pending ser n e q') = held q'"
    if inv: "queue_inv ser q'" "held q' \<le> U64_MAX" and e: "map_of (q_pending q') n = Some e" for q' n e
  proof -
    have "length (q_pending q') = Suc (length (bt_remove n (q_pending q')))"
      using inv e by (intro bt_remove_split(1)) (auto simp: queue_inv_def)
    then show ?thesis
      using inv(2) push_ready_held[of "q'\<lparr>q_pending := bt_remove n (q_pending q'),
        q_pending_bytes := q_pending_bytes q' - event_retained_bytes ser e\<rparr>" ser e]
      by (simp add: take_pending_def held_def)
  qed
  have skip: "held (skip_overflow ser through q') = held q'" if "held q' \<le> U64_MAX" for q' through
    using that sum_length_filter_compl[of "\<lambda>(seq, _). seq \<le> through" "q_pending q'"]
    unfolding held_def skip_overflow_def Let_def fold_count
    by (simp add: saturating_u64_add_def split_def)
  have "?P (drain_loop ser q) \<and> drained (drain_loop ser q)"
    by (rule drain_loop_invariant[of ?P])
      (use assms take skip take_pending_inv skip_overflow_inv in auto)
  then show ?thesis by simp
qed

definition accepts :: "event \<Rightarrow> sub_queue \<Rightarrow> bool" where
  "accepts e q \<longleftrightarrow> (case q_next_seq q of Some n \<Rightarrow> n \<le> ev_seq e | None \<Rightarrow> True)
     \<and> map_of (q_pending q) (ev_seq e) = None"

lemma stage_inv:
  assumes inv: "queue_inv ser q" and e: "ev_seq e < U64_MAX"
  shows "queue_inv ser (stage ser e q)"
proof (cases "accepts e q")
  case True
  then have new: "map_of (q_pending q) (ev_seq e) = None" by (simp add: accepts_def)
  have wf: "bt_wf (q_pending q)" using inv by (simp add: queue_inv_def)
  show ?thesis
    using inv e True bt_insert_new[OF wf new] bt_wf_insert[OF wf e]
    by (auto simp: queue_inv_def stage_def accepts_def Let_def not_less saturating_u64_add_def max_def
        split: option.splits)
next
  case False
  then show ?thesis using inv by (auto simp: stage_def accepts_def not_le split: option.splits)
qed

lemma stage_held:
  assumes "queue_inv ser q" and "held q < U64_MAX"
  shows "held (stage ser e q) = held q + (if accepts e q then 1 else 0)"
proof (cases "accepts e q")
  case True
  then show ?thesis
    using assms bt_insert_new(1)[of "q_pending q" e]
    by (auto simp: stage_def held_def accepts_def Let_def queue_inv_def saturating_u64_add_def
        split: option.splits)
next
  case False
  then show ?thesis by (auto simp: stage_def accepts_def not_le split: option.splits)
qed

lemma stage_keeps [simp]:
  "q_next_seq (stage ser e q) = q_next_seq q" "q_ready (stage ser e q) = q_ready q"
  "q_replaying (stage ser e q) = q_replaying q" "q_closed (stage ser e q) = q_closed q"
  "q_poisoned (stage ser e q) = q_poisoned q" "q_dropped (stage ser e q) = q_dropped q"
  "q_latest_dropped_seq (stage ser e q) = q_latest_dropped_seq q"
  by (simp_all add: stage_def Let_def)

fun accepted_all :: "serde \<Rightarrow> event list \<Rightarrow> sub_queue \<Rightarrow> nat" where
  "accepted_all ser [] q = 0"
| "accepted_all ser (e # es) q = (if accepts e q then 1 else 0) + accepted_all ser es (stage ser e q)"

lemma stage_all:
  assumes "queue_inv ser q" and "list_all (\<lambda>e. ev_seq e < U64_MAX) es"
  shows "queue_inv ser (fold (stage ser) es q)
    \<and> (held q + accepted_all ser es q \<le> U64_MAX \<longrightarrow>
        held (fold (stage ser) es q) = held q + accepted_all ser es q)
    \<and> q_next_seq (fold (stage ser) es q) = q_next_seq q
    \<and> q_ready (fold (stage ser) es q) = q_ready q \<and> q_dropped (fold (stage ser) es q) = q_dropped q"
  using assms
proof (induction es arbitrary: q)
  case (Cons e es)
  have "held (stage ser e q) = held q + (if accepts e q then 1 else 0)"
    if "held q + accepted_all ser (e # es) q \<le> U64_MAX"
  proof (cases "accepts e q")
    case True
    then show ?thesis using that Cons.prems by (intro stage_held) auto
  next
    case False
    then show ?thesis by (auto simp: stage_def accepts_def not_le split: option.splits)
  qed
  then show ?case using Cons stage_inv by auto
qed simp

lemma first_cursor_inv:
  assumes "queue_inv ser q" and "q_next_seq q = None" and "\<not> q_replaying q"
  shows "queue_inv ser (q\<lparr>q_next_seq := first_cursor q\<rparr>)"
proof -
  have "first_cursor q = Some n \<Longrightarrow> \<forall>(k, _) \<in> set (q_pending q). n \<le> k" for n
    using assms(1)
    by (auto simp: first_cursor_def queue_inv_def bt_wf_def min_def split: list.splits option.splits if_splits)
  then show ?thesis
    using assms by (auto simp: queue_inv_def split: option.splits)
qed

lemma drain_pending_inv:
  assumes "queue_inv ser q" and "\<not> q_replaying q"
  shows "queue_inv ser (drain_pending ser q)"
    and "held q \<le> U64_MAX \<Longrightarrow> held (drain_pending ser q) = held q"
proof -
  let ?q = "if q_next_seq q = None then q\<lparr>q_next_seq := first_cursor q\<rparr> else q"
  have "queue_inv ser ?q" using assms first_cursor_inv by simp
  moreover have "held ?q = held q" by (simp add: held_def)
  ultimately show "queue_inv ser (drain_pending ser q)"
    "held q \<le> U64_MAX \<Longrightarrow> held (drain_pending ser q) = held q"
    using drain_loop_inv[of ser ?q] drain_loop_held[of ser ?q] by (simp_all add: drain_pending_def)
qed

lemma lock_or_close_inv: "queue_inv ser q \<Longrightarrow> queue_inv ser (lock_or_close q)"
  by (auto simp: lock_or_close_def queue_inv_def bt_wf_def split: option.splits)

section \<open>Traces of a queue\<close>

text \<open>Everything a queue has still to deliver lies above \<open>s\<close>.\<close>

definition above :: "nat \<Rightarrow> sub_queue \<Rightarrow> bool" where
  "above s q \<longleftrightarrow> (case q_next_seq q of None \<Rightarrow> False | Some n \<Rightarrow> s < n)
     \<and> (\<forall>e \<in> set (q_ready q). s < ev_seq e) \<and> (0 < q_dropped q \<longrightarrow> s < q_latest_dropped_seq q)"

lemma above_take:
  assumes "queue_inv ser q" "above s q" "q_next_seq q = Some n" "map_of (q_pending q) n = Some e"
  shows "above s (take_pending ser n e q)"
proof -
  have "ev_seq e = n" "n < U64_MAX"
    using assms(1, 4) bt_remove_split(4, 5)[of "q_pending q" n e] by (simp_all add: queue_inv_def)
  then show ?thesis
    using assms(2, 3) by (auto simp: above_def take_pending_def push_ready_def Let_def)
qed

lemma above_skip:
  assumes "queue_inv ser q" "above s q" "q_next_seq q = Some n"
    "q_overflow_through q = Some through" "n \<le> through"
  shows "above s (skip_overflow ser through q)"
  using assms by (auto simp: above_def skip_overflow_def Let_def queue_inv_def)

lemma above_drain:
  assumes "queue_inv ser q" "above s q"
  shows "above s (drain_pending ser q)"
proof -
  have "queue_inv ser (drain_loop ser q) \<and> above s (drain_loop ser q)"
    using drain_loop_invariant[of "\<lambda>q. queue_inv ser q \<and> above s q" q ser] assms
      take_pending_inv skip_overflow_inv above_take above_skip
    by blast
  then show ?thesis using assms(2) by (auto simp: drain_pending_def above_def split: option.splits)
qed

datatype queue_op = Live event | Replay "event list" | Pop int | CloseQueue | PoisonQueue

record queue_trace =
  tr_queue :: sub_queue
  tr_out :: "event list"
  tr_delivered :: nat
  tr_reported :: nat
  tr_accepted :: nat

definition queue_start :: "string \<Rightarrow> queue_trace" where
  "queue_start channel = \<lparr>tr_queue = sub_queue_new channel, tr_out = [], tr_delivered = 0,
     tr_reported = 0, tr_accepted = 0\<rparr>"

text \<open>
  A trace counts what the queue accepts (what staging does not recognise as old or as a duplicate),
  what is delivered as a concrete event and what summaries report as dropped.
\<close>

fun queue_step :: "serde \<Rightarrow> queue_trace \<Rightarrow> queue_op \<Rightarrow> queue_trace" where
  "queue_step ser tr (Live e) =
     (let q = lock_or_close (tr_queue tr)
      in tr\<lparr>tr_queue := push_live ser e (tr_queue tr),
            tr_accepted := tr_accepted tr + (if \<not> q_closed q \<and> accepts e q then 1 else 0)\<rparr>)"
| "queue_step ser tr (Replay es) =
     (let q = lock_or_close (tr_queue tr)
      in tr\<lparr>tr_queue := finish_replay ser es (tr_queue tr),
            tr_accepted := tr_accepted tr +
              (if \<not> q_closed q \<and> q_replaying q then accepted_all ser es q else 0)\<rparr>)"
| "queue_step ser tr (Pop ts) =
     (let q = lock_or_close (tr_queue tr); (r, q') = pop ser ts (tr_queue tr)
      in case r of
          None \<Rightarrow> tr\<lparr>tr_queue := q'\<rparr>
        | Some e \<Rightarrow> tr\<lparr>tr_queue := q', tr_out := tr_out tr @ [e],
            tr_delivered := tr_delivered tr + (if q_ready q = [] then 0 else 1),
            tr_reported := tr_reported tr + (if q_ready q = [] then q_dropped q else 0)\<rparr>)"
| "queue_step ser tr CloseQueue = tr\<lparr>tr_queue := close_queue (tr_queue tr)\<rparr>"
| "queue_step ser tr PoisonQueue = tr\<lparr>tr_queue := (tr_queue tr)\<lparr>q_poisoned := True\<rparr>\<rparr>"

fun valid_queue_op :: "queue_op \<Rightarrow> bool" where
  "valid_queue_op (Live e) \<longleftrightarrow> ev_seq e < U64_MAX"
| "valid_queue_op (Replay es) \<longleftrightarrow> list_all (\<lambda>e. ev_seq e < U64_MAX) es"
| "valid_queue_op _ \<longleftrightarrow> True"

definition queue_run :: "serde \<Rightarrow> string \<Rightarrow> queue_op list \<Rightarrow> queue_trace" where
  "queue_run ser channel ops = foldl (queue_step ser) (queue_start channel) ops"

definition order_inv :: "serde \<Rightarrow> queue_trace \<Rightarrow> bool" where
  "order_inv ser tr \<longleftrightarrow> queue_inv ser (tr_queue tr)
     \<and> sorted_wrt (<) (map ev_seq (tr_out tr))
     \<and> (\<forall>e \<in> set (tr_out tr). above (ev_seq e) (tr_queue tr))"

lemma above_lock: "above s q \<Longrightarrow> queue_inv ser q \<Longrightarrow> above s (lock_or_close q)"
  by (auto simp: above_def lock_or_close_def)

lemma push_live_inv:
  assumes "queue_inv ser q" and "ev_seq e < U64_MAX"
  shows "queue_inv ser (push_live ser e q)" and "above s q \<Longrightarrow> above s (push_live ser e q)"
proof -
  let ?q = "lock_or_close q"
  have st: "queue_inv ser (stage ser e ?q)" using assms lock_or_close_inv stage_inv by blast
  show "queue_inv ser (push_live ser e q)"
    using st drain_pending_inv(1)[OF st] lock_or_close_inv[OF assms(1)] by (simp add: push_live_def Let_def)
  assume "above s q"
  then have ab: "above s ?q" using above_lock assms(1) by blast
  then have "above s (stage ser e ?q)" by (simp add: above_def)
  then show "above s (push_live ser e q)"
    using above_drain[OF st] ab by (simp add: push_live_def Let_def)
qed

lemma flag_inv:
  assumes "queue_inv ser q"
  shows stop_replaying_inv: "queue_inv ser (q\<lparr>q_replaying := False\<rparr>)"
    and "queue_inv ser (q\<lparr>q_closed := c\<rparr>)" and "queue_inv ser (q\<lparr>q_poisoned := c\<rparr>)"
  using assms by (simp_all add: queue_inv_def split: option.splits)

lemma flag_above:
  "above s (q\<lparr>q_closed := c\<rparr>) = above s q" "above s (q\<lparr>q_poisoned := c\<rparr>) = above s q"
  by (simp_all add: above_def)

lemma finish_replay_inv:
  assumes inv: "queue_inv ser q" and es: "list_all (\<lambda>e. ev_seq e < U64_MAX) es"
  shows "queue_inv ser (finish_replay ser es q)" and "above s q \<Longrightarrow> above s (finish_replay ser es q)"
proof -
  let ?q = "lock_or_close q"
  let ?s = "(fold (stage ser) es ?q)\<lparr>q_replaying := False\<rparr>"
  have lock: "queue_inv ser ?q" by (rule lock_or_close_inv[OF inv])
  show "queue_inv ser (finish_replay ser es q)"
  proof (cases "q_closed ?q \<or> \<not> q_replaying ?q")
    case False
    then have none: "q_next_seq ?q = None" using lock by (auto simp: queue_inv_def split: option.splits)
    have "queue_inv ser ?s"
      using stage_all[OF lock es] by (intro stop_replaying_inv) blast
    then have "queue_inv ser (?s\<lparr>q_next_seq := first_cursor ?s\<rparr>)"
      using stage_all[OF lock es] none by (intro first_cursor_inv) simp_all
    then show ?thesis
      using drain_pending_inv(1) False by (simp add: finish_replay_def Let_def)
  qed (use lock in \<open>simp add: finish_replay_def Let_def\<close>)
  assume "above s q"
  then have ab: "above s ?q" using above_lock inv by blast
  then have "\<not> q_replaying ?q" using lock by (auto simp: above_def queue_inv_def split: option.splits)
  then show "above s (finish_replay ser es q)" using ab by (simp add: finish_replay_def Let_def)
qed

lemma pop_cases:
  assumes "pop ser ts q = (r, q')"
  obtains (none) "r = None" "q' = lock_or_close q"
  | (event) e es where "r = Some e" "q_ready (lock_or_close q) = e # es"
      "q' = (lock_or_close q)\<lparr>q_ready := es,
        q_ready_bytes := q_ready_bytes (lock_or_close q) - event_retained_bytes ser e\<rparr>"
  | (summary) "r = Some (drop_summary (lock_or_close q) ts)" "q_ready (lock_or_close q) = []"
      "0 < q_dropped (lock_or_close q)"
      "q' = (lock_or_close q)\<lparr>q_dropped := 0, q_dropped_bytes := 0\<rparr>"
proof -
  let ?q = "lock_or_close q"
  consider (A) "q_replaying ?q \<or> q_closed ?q"
    | (B) e es where "\<not> (q_replaying ?q \<or> q_closed ?q)" "q_ready ?q = e # es"
    | (C) "\<not> (q_replaying ?q \<or> q_closed ?q)" "q_ready ?q = []" "0 < q_dropped ?q"
    | (D) "\<not> (q_replaying ?q \<or> q_closed ?q)" "q_ready ?q = []" "\<not> 0 < q_dropped ?q"
    by (cases "q_ready ?q") blast+
  then show thesis
  proof cases
    case A
    then have "pop ser ts q = (None, ?q)" by (simp add: pop_def Let_def)
    with assms show thesis by (intro none) simp_all
  next
    case (B e es)
    then have "pop ser ts q = (Some e, ?q\<lparr>q_ready := es,
        q_ready_bytes := q_ready_bytes ?q - event_retained_bytes ser e\<rparr>)"
      by (simp add: pop_def Let_def)
    with assms B(2) show thesis by (intro event) auto
  next
    case C
    then have "pop ser ts q = (Some (drop_summary ?q ts), ?q\<lparr>q_dropped := 0, q_dropped_bytes := 0\<rparr>)"
      by (simp add: pop_def Let_def)
    with assms C(2, 3) show thesis by (intro summary) auto
  next
    case D
    then have "pop ser ts q = (None, ?q)" by (simp add: pop_def Let_def)
    with assms show thesis by (intro none) simp_all
  qed
qed

lemma pop_event_inv:
  assumes "queue_inv ser q" and "q_ready q = e # es"
  defines "q' \<equiv> q\<lparr>q_ready := es, q_ready_bytes := q_ready_bytes q - event_retained_bytes ser e\<rparr>"
  shows "queue_inv ser q'" and "above (ev_seq e) q'" and "above s q \<Longrightarrow> above s q' \<and> s < ev_seq e"
proof -
  obtain n where n: "q_next_seq q = Some n"
    using assms(1, 2) by (cases "q_next_seq q") (auto simp: queue_inv_def)
  show "queue_inv ser q'" using assms(1, 2) n by (simp add: q'_def queue_inv_def)
  show "above (ev_seq e) q'" using assms(1, 2) n by (simp add: q'_def queue_inv_def above_def)
  show "above s q' \<and> s < ev_seq e" if "above s q" using that assms(2) n by (simp add: q'_def above_def)
qed

lemma pop_summary_inv:
  assumes "queue_inv ser q" and "q_ready q = []" and "0 < q_dropped q"
  defines "q' \<equiv> q\<lparr>q_dropped := 0, q_dropped_bytes := 0\<rparr>"
  shows "queue_inv ser q'" and "above (q_latest_dropped_seq q) q'"
    and "above s q \<Longrightarrow> above s q' \<and> s < q_latest_dropped_seq q"
proof -
  obtain n where n: "q_next_seq q = Some n"
    using assms(1, 3) by (cases "q_next_seq q") (auto simp: queue_inv_def)
  show "queue_inv ser q'" using assms(1, 2) n by (simp add: q'_def queue_inv_def)
  show "above (q_latest_dropped_seq q) q'"
    using assms(1-3) n by (simp add: q'_def queue_inv_def above_def)
  show "above s q' \<and> s < q_latest_dropped_seq q" if "above s q"
    using that assms(2, 3) n by (simp add: q'_def above_def)
qed

lemma pop_inv:
  assumes inv: "queue_inv ser q" and p: "pop ser ts q = (r, q')"
  shows "queue_inv ser q'" and "above s q \<Longrightarrow> above s q'"
    and "r = Some e \<Longrightarrow> above (ev_seq e) q' \<and> (above s q \<longrightarrow> s < ev_seq e)"
proof -
  have lock: "queue_inv ser (lock_or_close q)" by (rule lock_or_close_inv[OF inv])
  note ab = above_lock[OF _ inv, of s]
  have "queue_inv ser q' \<and> (above s q \<longrightarrow> above s q')
      \<and> (r = Some e \<longrightarrow> above (ev_seq e) q' \<and> (above s q \<longrightarrow> s < ev_seq e))"
    using p
  proof (cases rule: pop_cases)
    case none
    then show ?thesis using lock ab by simp
  next
    case (event e es)
    then show ?thesis using pop_event_inv[OF lock event(2)] ab by blast
  next
    case summary
    then show ?thesis
      using pop_summary_inv[OF lock summary(2, 3)] ab by (auto simp: drop_summary_def)
  qed
  then show "queue_inv ser q'" "above s q \<Longrightarrow> above s q'"
    "r = Some e \<Longrightarrow> above (ev_seq e) q' \<and> (above s q \<longrightarrow> s < ev_seq e)" by blast+
qed

lemma order_step:
  assumes ord: "order_inv ser tr" and op: "valid_queue_op op"
  shows "order_inv ser (queue_step ser tr op)"
proof -
  have inv: "queue_inv ser (tr_queue tr)" and ab: "above (ev_seq e) (tr_queue tr)" if "e \<in> set (tr_out tr)" for e
    using ord that by (auto simp: order_inv_def)
  have inv: "queue_inv ser (tr_queue tr)" using ord by (simp add: order_inv_def)
  show ?thesis
  proof (cases op)
    case (Live e)
    then show ?thesis
      using ord op push_live_inv[OF inv] ab by (simp add: order_inv_def Let_def)
  next
    case (Replay es)
    then show ?thesis
      using ord op finish_replay_inv[OF inv] ab by (simp add: order_inv_def Let_def)
  next
    case (Pop ts)
    obtain r q' where p: "pop ser ts (tr_queue tr) = (r, q')" by (cases "pop ser ts (tr_queue tr)")
    show ?thesis
      using ord Pop p pop_inv[OF inv p] ab
      by (cases r) (simp_all add: order_inv_def sorted_wrt_append Let_def)
  next
    case CloseQueue
    then show ?thesis
      using ord lock_or_close_inv[OF inv] above_lock[OF _ inv] ab
      by (simp add: order_inv_def close_queue_def flag_inv flag_above)
  next
    case PoisonQueue
    then show ?thesis using ord by (simp add: order_inv_def flag_inv flag_above)
  qed
qed

lemma order_run:
  assumes "list_all valid_queue_op ops"
  shows "order_inv ser (queue_run ser channel ops)"
  using assms unfolding queue_run_def
proof (induction ops rule: rev_induct)
  case Nil
  then show ?case by (simp add: order_inv_def queue_start_def sub_queue_new_def queue_inv_def bt_wf_def)
next
  case (snoc op ops)
  then show ?case using order_step by simp
qed

lemma drain_flags [simp]:
  "q_closed (drain_pending ser q) = q_closed q" "q_poisoned (drain_pending ser q) = q_poisoned q"
  "q_replaying (drain_pending ser q) = q_replaying q"
proof -
  let ?q = "if q_next_seq q = None then q\<lparr>q_next_seq := first_cursor q\<rparr> else q"
  let ?P = "\<lambda>q'. q_closed q' = q_closed q \<and> q_poisoned q' = q_poisoned q \<and> q_replaying q' = q_replaying q"
  have "?P (drain_loop ser ?q) \<and> drained (drain_loop ser ?q)"
    by (rule drain_loop_invariant[of ?P]) (simp_all add: take_pending_def skip_overflow_def Let_def)
  then show "q_closed (drain_pending ser q) = q_closed q" "q_poisoned (drain_pending ser q) = q_poisoned q"
    "q_replaying (drain_pending ser q) = q_replaying q"
    by (simp_all add: drain_pending_def)
qed

lemma fold_stage_flags [simp]:
  "q_closed (fold (stage ser) es q) = q_closed q" "q_poisoned (fold (stage ser) es q) = q_poisoned q"
  by (induction es arbitrary: q) simp_all

lemma lock_flags [simp]: "\<not> q_poisoned (lock_or_close q)" "q_poisoned q \<Longrightarrow> q_closed (lock_or_close q)"
  "\<not> q_poisoned q \<Longrightarrow> lock_or_close q = q"
  by (simp_all add: lock_or_close_def)

definition count_inv :: "queue_trace \<Rightarrow> bool" where
  "count_inv tr \<longleftrightarrow> (\<not> q_closed (tr_queue tr) \<and> \<not> q_poisoned (tr_queue tr) \<and> tr_accepted tr \<le> U64_MAX \<longrightarrow>
     tr_accepted tr = tr_delivered tr + tr_reported tr + held (tr_queue tr))"

lemma count_step:
  assumes ord: "order_inv ser tr" and cnt: "count_inv tr" and op: "valid_queue_op op"
  shows "count_inv (queue_step ser tr op)"
proof -
  let ?q = "tr_queue tr"
  have inv: "queue_inv ser ?q" using ord by (simp add: order_inv_def)
  show ?thesis
  proof (cases "q_poisoned ?q")
    case True
    then have "q_closed (lock_or_close ?q)" by simp
    then show ?thesis
      using True by (cases op)
        (auto simp: count_inv_def push_live_def finish_replay_def pop_def close_queue_def Let_def)
  next
    case healthy: False
    show ?thesis
    proof (cases op)
      case (Live e)
      then have e: "list_all (\<lambda>e. ev_seq e < U64_MAX) [e]" using op by simp
      show ?thesis
        using Live healthy cnt stage_all[OF inv e] drain_pending_inv(2)[of ser "stage ser e ?q"]
        by (auto simp: count_inv_def push_live_def Let_def)
    next
      case (Replay es)
      show ?thesis
      proof (cases "q_closed ?q \<or> \<not> q_replaying ?q")
        case True
        then show ?thesis
          using Replay healthy cnt by (auto simp: count_inv_def finish_replay_def Let_def)
      next
        case False
        let ?s = "(fold (stage ser) es ?q)\<lparr>q_replaying := False\<rparr>"
        let ?t = "?s\<lparr>q_next_seq := first_cursor ?s\<rparr>"
        have es: "list_all (\<lambda>e. ev_seq e < U64_MAX) es" using Replay op by simp
        note st = stage_all[OF inv es]
        have none: "q_next_seq ?q = None" using inv False by (auto simp: queue_inv_def split: option.splits)
        have "queue_inv ser ?t"
          using st none by (intro first_cursor_inv stop_replaying_inv) simp_all
        then have "held (drain_pending ser ?t) = held ?t" if "held ?t \<le> U64_MAX"
          using drain_pending_inv(2)[of ser ?t] that by simp
        moreover have "held ?t = held (fold (stage ser) es ?q)" by (simp add: held_def)
        moreover have "finish_replay ser es ?q = drain_pending ser ?t"
          using False healthy by (simp add: finish_replay_def Let_def)
        ultimately show ?thesis
          using Replay False healthy cnt st by (auto simp: count_inv_def Let_def)
      qed
    next
      case (Pop ts)
      obtain r q' where p: "pop ser ts ?q = (r, q')" by (cases "pop ser ts ?q")
      from p show ?thesis
        by (cases rule: pop_cases)
          (use Pop p healthy cnt in \<open>auto simp: count_inv_def held_def Let_def\<close>)
    qed (use healthy in \<open>auto simp: count_inv_def close_queue_def\<close>)
  qed
qed

lemma count_run:
  assumes "list_all valid_queue_op ops"
  shows "count_inv (queue_run ser channel ops)"
  using assms unfolding queue_run_def
proof (induction ops rule: rev_induct)
  case Nil
  then show ?case by (simp add: count_inv_def queue_start_def sub_queue_new_def held_def)
next
  case (snoc op ops)
  then show ?case using count_step order_run[of ops ser channel] by (simp add: queue_run_def)
qed

section \<open>Sample events\<close>

definition sample_event :: "nat \<Rightarrow> event" where
  "sample_event k = \<lparr>ev_channel = ''user.a'', ev_seq = k, ev_ts = 0, ev_payload = JNull\<rparr>"

lemma sample_weight: "event_retained_bytes sample_serde (sample_event k) = 10"
  by (simp add: event_retained_bytes_eq sample_serde_def sample_event_def)

lemma sample_seq [simp]: "ev_seq (sample_event k) = k"
  by (simp add: sample_event_def)

definition sample_queue_ops :: "queue_op list" where
  "sample_queue_ops = [Live (sample_event 4), Live (sample_event 3), Live (sample_event 4)]"

lemma sample_queue_run:
  "list_all valid_queue_op sample_queue_ops"
  "\<not> q_closed (tr_queue (queue_run sample_serde ''user.a'' sample_queue_ops))"
  "\<not> q_poisoned (tr_queue (queue_run sample_serde ''user.a'' sample_queue_ops))"
  "tr_accepted (queue_run sample_serde ''user.a'' sample_queue_ops) = 2"
  by (simp_all add: sample_queue_ops_def queue_run_def queue_start_def sub_queue_new_def push_live_def
      stage_def accepts_def bt_insert_def sample_weight staged_event_cap_def event_ring_cap_def
      staged_event_max_bytes_def sub_queue_max_bytes_def Let_def)

section \<open>Properties\<close>

text \<open>
  C12. Whatever is staged, replayed, popped, closed or lost to a poisoned lock, and in whatever order,
  the sequence numbers a subscriber receives (events and drop summaries alike) strictly increase, and
  the queue stays within 256 ready events and 512 KiB, and 1280 staged events and 512 KiB, with exact
  byte accounting.
\<close>

theorem deliveries_in_order:
  assumes "list_all valid_queue_op ops"
  shows "sorted_wrt (<) (map ev_seq (tr_out (queue_run ser channel ops)))
    \<and> (let q = tr_queue (queue_run ser channel ops)
       in length (q_ready q) \<le> 256 \<and> q_ready_bytes q \<le> 512 * 1024
          \<and> q_ready_bytes q = sum_list (map (event_retained_bytes ser) (q_ready q))
          \<and> length (q_pending q) \<le> 1280 \<and> q_pending_bytes q \<le> 512 * 1024)"
  using order_run[OF assms, of ser channel]
  by (simp add: order_inv_def queue_inv_def Let_def sub_queue_cap_def sub_queue_max_bytes_def
      staged_event_cap_def event_ring_cap_def staged_event_max_bytes_def)

theorem deliveries_in_order_witness:
  "list_all valid_queue_op (sample_queue_ops @ [Replay [sample_event 2], Pop 0, Pop 0])
   \<and> sorted_wrt (<) (map ev_seq (tr_out (queue_run sample_serde ''user.a''
        (sample_queue_ops @ [Replay [sample_event 2], Pop 0, Pop 0]))))"
proof -
  have "list_all valid_queue_op (sample_queue_ops @ [Replay [sample_event 2], Pop 0, Pop 0])"
    using sample_queue_run(1) by simp
  then show ?thesis using deliveries_in_order by blast
qed

text \<open>
  C13. No accepted event disappears: on an open queue, the events accepted for staging are exactly
  those delivered, those that drop summaries have reported, and those the queue still holds or has
  still to report (as long as fewer than \<open>2^64\<close> events are accepted, where the counters saturate).
\<close>

theorem no_event_uncounted:
  assumes "list_all valid_queue_op ops"
    and "\<not> q_closed (tr_queue (queue_run ser channel ops))"
    and "\<not> q_poisoned (tr_queue (queue_run ser channel ops))"
    and "tr_accepted (queue_run ser channel ops) \<le> U64_MAX"
  shows "tr_accepted (queue_run ser channel ops) =
      tr_delivered (queue_run ser channel ops) + tr_reported (queue_run ser channel ops)
      + (let q = tr_queue (queue_run ser channel ops)
         in length (q_ready q) + q_dropped q + length (q_pending q) + q_overflow_dropped q)"
  using count_run[OF assms(1), of ser channel] assms(2-)
  by (simp add: count_inv_def held_def Let_def)

theorem no_event_uncounted_witness:
  "2 = tr_delivered (queue_run sample_serde ''user.a'' sample_queue_ops)
     + tr_reported (queue_run sample_serde ''user.a'' sample_queue_ops)
     + (let q = tr_queue (queue_run sample_serde ''user.a'' sample_queue_ops)
        in length (q_ready q) + q_dropped q + length (q_pending q) + q_overflow_dropped q)"
  using no_event_uncounted[OF sample_queue_run(1-3)] sample_queue_run(4) by simp

section \<open>What draining delivers\<close>







lemma fold_push_ready_keeps [simp]:
  "q_pending (fold (push_ready ser) run q) = q_pending q"
  "q_pending_bytes (fold (push_ready ser) run q) = q_pending_bytes q"
  "q_overflow_through (fold (push_ready ser) run q) = q_overflow_through q"
  by (induction run arbitrary: q) simp_all













end
