(* ===== verification/Event_Merge.thy ===== *)
theory Event_Merge
  imports Event_Queue
begin

text \<open>
  When merging replay and live delivery is exact. A subscription sees a finite run of sequence
  numbers, each possibly staged several times and in any order; within the walls of the queue
  it delivers every one exactly once and in order, provided the first one is staged by the time the
  replay snapshot is merged.
\<close>

section \<open>A run of events\<close>

definition event_run :: "(nat \<Rightarrow> event) \<Rightarrow> nat \<Rightarrow> nat \<Rightarrow> bool" where
  "event_run f a b \<longleftrightarrow> (\<forall>k \<in> {a..<b}. ev_seq (f k) = k) \<and> b \<le> U64_MAX"

definition within_walls :: "serde \<Rightarrow> (nat \<Rightarrow> event) \<Rightarrow> nat \<Rightarrow> nat \<Rightarrow> bool" where
  "within_walls ser f a b \<longleftrightarrow> b - a \<le> sub_queue_cap
     \<and> sum_list (map (\<lambda>k. event_retained_bytes ser (f k)) [a..<b]) \<le> sub_queue_max_bytes"

definition cursor :: "nat \<Rightarrow> sub_queue \<Rightarrow> nat" where
  "cursor a q = (case q_next_seq q of None \<Rightarrow> a | Some n \<Rightarrow> n)"

text \<open>
  The queue has staged the sequence numbers \<open>S\<close> of the run and delivered \<open>outs\<close>: everything below the
  cursor is delivered or ready, the rest of \<open>S\<close> is pending.
\<close>

definition merged ::
  "serde \<Rightarrow> (nat \<Rightarrow> event) \<Rightarrow> nat \<Rightarrow> nat \<Rightarrow> nat set \<Rightarrow> event list \<Rightarrow> sub_queue \<Rightarrow> bool" where
  "merged ser f a b S outs q \<longleftrightarrow> queue_inv ser q \<and> \<not> q_closed q \<and> \<not> q_poisoned q
     \<and> q_dropped q = 0 \<and> q_overflow_through q = None
     \<and> a \<le> cursor a q \<and> {a..<cursor a q} \<subseteq> S \<and> S \<subseteq> {a..<b}
     \<and> outs @ q_ready q = map f [a..<cursor a q]
     \<and> set (q_pending q) = (\<lambda>k. (k, f k)) ` (S \<inter> {cursor a q..})"

lemma run_bytes:
  assumes "within_walls ser f a b" and "K \<subseteq> {a..<b}"
  shows "card K \<le> sub_queue_cap"
    and "(\<Sum>k\<in>K. event_retained_bytes ser (f k)) \<le> sub_queue_max_bytes"
proof -
  have "card K \<le> b - a" using card_mono[OF _ assms(2)] by simp
  then show "card K \<le> sub_queue_cap" using assms(1) by (simp add: within_walls_def)
  have "(\<Sum>k\<in>K. event_retained_bytes ser (f k)) \<le> (\<Sum>k\<in>{a..<b}. event_retained_bytes ser (f k))"
    by (rule sum_mono2) (use assms(2) in auto)
  also have "\<dots> = sum_list (map (\<lambda>k. event_retained_bytes ser (f k)) [a..<b])"
    by (simp add: sum_list_distinct_conv_sum_set)
  finally show "(\<Sum>k\<in>K. event_retained_bytes ser (f k)) \<le> sub_queue_max_bytes"
    using assms(1) by (simp add: within_walls_def)
qed

lemma pending_of_run:
  assumes "bt_wf m" and "set m = (\<lambda>k. (k, f k)) ` K"
  shows "length m = card K" and "bt_bytes ser m = (\<Sum>k\<in>K. event_retained_bytes ser (f k))"
    and "map_of m k = (if k \<in> K then Some (f k) else None)"
proof -
  have dist: "distinct m" "distinct (map fst m)"
    using assms(1) distinct_map[of fst m] by (auto simp: bt_wf_def strict_sorted_iff)
  have inj: "inj_on (\<lambda>k. (k, f k)) K" by (simp add: inj_on_def)
  show "length m = card K"
    using distinct_card[OF dist(1)] assms(2) card_image[OF inj] by simp
  have "bt_bytes ser m = (\<Sum>(_, e)\<in>set m. event_retained_bytes ser e)"
    using dist(1) by (simp add: sum_list_distinct_conv_sum_set)
  also have "\<dots> = (\<Sum>k\<in>K. event_retained_bytes ser (f k))"
    unfolding assms(2) by (subst sum.reindex[OF inj]) (simp add: comp_def)
  finally show "bt_bytes ser m = (\<Sum>k\<in>K. event_retained_bytes ser (f k))" .
  show "map_of m k = (if k \<in> K then Some (f k) else None)"
    using dist(2) assms(2) by (auto simp: map_of_eq_None_iff image_iff)
qed

lemma merged_pending:
  assumes "merged ser f a b S outs q"
  shows "map_of (q_pending q) k = (if k \<in> S \<and> cursor a q \<le> k then Some (f k) else None)"
    and "length (q_pending q) = card (S \<inter> {cursor a q..})"
    and "q_pending_bytes q = (\<Sum>k \<in> S \<inter> {cursor a q..}. event_retained_bytes ser (f k))"
proof -
  have wf: "bt_wf (q_pending q)" and set: "set (q_pending q) = (\<lambda>k. (k, f k)) ` (S \<inter> {cursor a q..})"
    and bytes: "q_pending_bytes q = bt_bytes ser (q_pending q)"
    using assms by (auto simp: merged_def queue_inv_def)
  show "map_of (q_pending q) k = (if k \<in> S \<and> cursor a q \<le> k then Some (f k) else None)"
    "length (q_pending q) = card (S \<inter> {cursor a q..})"
    "q_pending_bytes q = (\<Sum>k \<in> S \<inter> {cursor a q..}. event_retained_bytes ser (f k))"
    using pending_of_run[OF wf set] bytes by auto
qed

lemma merged_stage:
  assumes m: "merged ser f a b S outs q" and run: "event_run f a b" and walls: "within_walls ser f a b"
    and k: "k \<in> {a..<b}"
  shows "merged ser f a b (insert k S) outs (stage ser (f k) q)"
proof -
  let ?n = "cursor a q" and ?e = "f k"
  have e: "ev_seq ?e = k" and lt: "ev_seq ?e < U64_MAX" using run k by (auto simp: event_run_def)
  have sub: "insert k S \<subseteq> {a..<b}" using m k by (simp add: merged_def)
  have inv: "queue_inv ser (stage ser ?e q)" using m lt stage_inv by (simp add: merged_def)
  show ?thesis
  proof (cases "?n \<le> k \<and> k \<notin> S")
    case False
    then have "k \<in> S" using m k by (auto simp: merged_def)
    moreover have "stage ser ?e q = q"
      using False \<open>k \<in> S\<close> merged_pending(1)[OF m, of k] k
      by (auto simp: stage_def e cursor_def split: option.splits)
    ultimately show ?thesis using m by (simp add: insert_absorb)
  next
    case True
    let ?K = "insert k S \<inter> {?n..}"
    have K: "?K = insert k (S \<inter> {?n..})" "k \<notin> S \<inter> {?n..}" "?K \<subseteq> {a..<b}" "finite (S \<inter> {?n..})"
      using True sub finite_subset[of S "{a..<b}"] m by (auto simp: merged_def)
    have "q_pending_bytes q + event_retained_bytes ser ?e = (\<Sum>k\<in>?K. event_retained_bytes ser (f k))"
      using K merged_pending(3)[OF m] by (simp add: add.commute)
    then have bytes: "q_pending_bytes q + event_retained_bytes ser ?e \<le> sub_queue_max_bytes"
      using run_bytes(2)[OF walls K(3)] by simp
    have "card (S \<inter> {?n..}) \<le> sub_queue_cap" using sub by (intro run_bytes(1)[OF walls]) auto
    then have len: "length (q_pending q) < staged_event_cap"
      using merged_pending(2)[OF m] by (simp add: staged_event_cap_def event_ring_cap_def)
    have new: "map_of (q_pending q) (ev_seq ?e) = None"
      using True merged_pending(1)[OF m] e by simp
    have st: "stage ser ?e q = q\<lparr>q_pending_bytes := q_pending_bytes q + event_retained_bytes ser ?e,
        q_pending := bt_insert (ev_seq ?e) ?e (q_pending q)\<rparr>"
      using True new len bytes
      by (auto simp: stage_def e cursor_def Let_def staged_event_max_bytes_def sub_queue_max_bytes_def
          split: option.splits)
    have "set (bt_insert (ev_seq ?e) ?e (q_pending q)) = (\<lambda>k. (k, f k)) ` ?K"
      using m bt_insert_new(3)[OF _ new] e K(1) by (simp add: merged_def queue_inv_def)
    then show ?thesis
      using m st inv sub by (auto simp: merged_def cursor_def)
  qed
qed

lemma merged_take:
  assumes m: "merged ser f a b S outs q" and run: "event_run f a b" and walls: "within_walls ser f a b"
    and n: "q_next_seq q = Some n" and e: "map_of (q_pending q) n = Some e"
  shows "merged ser f a b S outs (take_pending ser n e q)"
proof -
  have c: "cursor a q = n" using n by (simp add: cursor_def)
  have S: "n \<in> S" "e = f n" using merged_pending(1)[OF m, of n] e c by (auto split: if_splits)
  then have rng: "n \<in> {a..<b}" using m by (auto simp: merged_def)
  have inv: "queue_inv ser q" using m by (simp add: merged_def)
  have "ev_seq e = n" "n < U64_MAX" using run rng S(2) by (auto simp: event_run_def)
  have rdy: "outs @ q_ready q = map f [a..<n]" using m c by (simp add: merged_def)
  then have suf: "length (q_ready q) \<le> n - a"
    by (metis length_append length_map length_upt le_add2)
  have "sum_list (map (event_retained_bytes ser) (q_ready q))
      \<le> sum_list (map (event_retained_bytes ser) (outs @ q_ready q))" by simp
  also have "\<dots> = (\<Sum>k\<in>{a..<n}. event_retained_bytes ser (f k))"
    unfolding rdy by (simp add: comp_def sum_list_distinct_conv_sum_set)
  finally have "q_ready_bytes q + event_retained_bytes ser e \<le> (\<Sum>k\<in>{a..<Suc n}. event_retained_bytes ser (f k))"
    using inv S(2) rng by (simp add: queue_inv_def)
  also have "\<dots> \<le> sub_queue_max_bytes" using rng by (intro run_bytes(2)[OF walls]) auto
  finally have bytes: "q_ready_bytes q + event_retained_bytes ser e \<le> sub_queue_max_bytes" .
  have len: "length (q_ready q) < sub_queue_cap"
    using suf rng walls by (auto simp: within_walls_def)
  let ?q = "take_pending ser n e q"
  have q': "?q = q\<lparr>q_pending := bt_remove n (q_pending q),
      q_pending_bytes := q_pending_bytes q - event_retained_bytes ser e,
      q_ready_bytes := q_ready_bytes q + event_retained_bytes ser e, q_ready := q_ready q @ [e],
      q_next_seq := Some (Suc n)\<rparr>"
    using bytes len m \<open>n < U64_MAX\<close>
    by (simp add: take_pending_def push_ready_def Let_def merged_def sub_queue_max_bytes_def)
  have pend: "set (bt_remove n (q_pending q)) = (\<lambda>k. (k, f k)) ` (S \<inter> {Suc n..})"
    using m c by (auto simp: merged_def bt_remove_def Suc_le_eq order_less_le)
  have "outs @ q_ready ?q = map f [a..<Suc n]" using rdy rng S(2) q' by simp
  moreover have "{a..<Suc n} \<subseteq> S" using m c S(1) by (auto simp: merged_def less_Suc_eq)
  ultimately show ?thesis
    using m take_pending_inv[OF inv n e] q' pend rng by (simp add: merged_def cursor_def)
qed

lemma merged_drain:
  assumes m: "merged ser f a b S outs q" and run: "event_run f a b" and walls: "within_walls ser f a b"
    and n: "q_next_seq q \<noteq> None"
  shows "merged ser f a b S outs (drain_loop ser q)" and "drained (drain_loop ser q)"
    and "q_next_seq (drain_loop ser q) \<noteq> None"
proof -
  let ?P = "\<lambda>q. merged ser f a b S outs q \<and> q_next_seq q \<noteq> None"
  have "?P (drain_loop ser q) \<and> drained (drain_loop ser q)"
  proof (rule drain_loop_invariant[of ?P])
    fix q n e
    assume "?P q" "q_next_seq q = Some n" "map_of (q_pending q) n = Some e"
    then show "?P (take_pending ser n e q)"
      using merged_take[OF _ run walls] by (auto simp: take_pending_def)
  qed (use m n in \<open>auto simp: merged_def\<close>)
  then show "merged ser f a b S outs (drain_loop ser q)" "drained (drain_loop ser q)"
    "q_next_seq (drain_loop ser q) \<noteq> None" by auto
qed

lemma merged_first_cursor:
  assumes m: "merged ser f a b S outs q" and none: "q_next_seq q = None" and "\<not> q_replaying q"
    and S: "S = {} \<or> a \<in> S"
  shows "first_cursor q = (if S = {} then None else Some a)"
    and "merged ser f a b S outs (q\<lparr>q_next_seq := first_cursor q\<rparr>)"
proof -
  have c: "cursor a q = a" using none by (simp add: cursor_def)
  have ov: "q_overflow_from q = None" using m by (simp add: merged_def queue_inv_def)
  have set: "set (q_pending q) = (\<lambda>k. (k, f k)) ` S" "S \<subseteq> {a..<b}"
    using m c by (auto simp: merged_def)
  show first: "first_cursor q = (if S = {} then None else Some a)"
  proof (cases "q_pending q")
    case Nil
    then show ?thesis using set(1) ov by (simp add: first_cursor_def)
  next
    case (Cons x xs)
    obtain k e where x: "x = (k, e)" by (cases x)
    have srt: "sorted_wrt (<) (map fst (q_pending q))" using m by (simp add: merged_def queue_inv_def bt_wf_def)
    have "k \<in> S" using set(1) Cons x by auto
    then have "a \<in> S" "a \<le> k" using S set(2) by auto
    then have "(a, f a) \<in> set (q_pending q)" using set(1) by auto
    then have "k \<le> a" using srt Cons x by auto
    then show ?thesis using \<open>a \<le> k\<close> \<open>k \<in> S\<close> Cons x ov by (auto simp: first_cursor_def)
  qed
  have "queue_inv ser (q\<lparr>q_next_seq := first_cursor q\<rparr>)"
    using m none assms(3) first_cursor_inv by (simp add: merged_def)
  then show "merged ser f a b S outs (q\<lparr>q_next_seq := first_cursor q\<rparr>)"
    using m first c by (auto simp: merged_def cursor_def)
qed

section \<open>Live queues\<close>

text \<open>A queue whose replay is merged: the cursor stands at the first number not yet staged.\<close>

definition live_queue ::
  "serde \<Rightarrow> (nat \<Rightarrow> event) \<Rightarrow> nat \<Rightarrow> nat \<Rightarrow> nat set \<Rightarrow> event list \<Rightarrow> sub_queue \<Rightarrow> bool" where
  "live_queue ser f a b S outs q \<longleftrightarrow> merged ser f a b S outs q \<and> \<not> q_replaying q
     \<and> cursor a q \<notin> S \<and> (q_next_seq q = None \<longrightarrow> S = {})"

lemma live_after_drain:
  assumes m: "merged ser f a b S outs q" and run: "event_run f a b" and walls: "within_walls ser f a b"
    and replaying: "\<not> q_replaying q" and S: "q_next_seq q = None \<longrightarrow> S = {} \<or> a \<in> S"
  shows "live_queue ser f a b S outs (drain_pending ser q)"
proof (cases "q_next_seq q = None \<and> S = {}")
  case True
  then have "first_cursor q = None" using merged_first_cursor[OF m _ replaying] by simp
  then have same: "q\<lparr>q_next_seq := first_cursor q\<rparr> = q" using True by simp
  have "drain_pending ser q = q"
    using True by (simp add: drain_pending_def same drain_loop_stop drained_def)
  then show ?thesis using m replaying True by (simp add: live_queue_def)
next
  case False
  let ?q = "if q_next_seq q = None then q\<lparr>q_next_seq := first_cursor q\<rparr> else q"
  have m': "merged ser f a b S outs ?q" and next': "q_next_seq ?q \<noteq> None"
    using m False S merged_first_cursor[OF m _ replaying] by auto
  note d = merged_drain[OF m' run walls next']
  obtain n where n: "q_next_seq (drain_loop ser ?q) = Some n" using d(3) by auto
  then have "map_of (q_pending (drain_loop ser ?q)) n = None" using d(2) by (simp add: drained_def)
  then have "n \<notin> S" using merged_pending(1)[OF d(1), of n] n by (auto simp: cursor_def split: if_splits)
  moreover have "\<not> q_replaying (drain_loop ser ?q)"
    using replaying drain_flags(3)[of ser q] by (simp add: drain_pending_def)
  ultimately show ?thesis using d(1) n by (simp add: live_queue_def drain_pending_def cursor_def)
qed

lemma live_push:
  assumes l: "live_queue ser f a b S outs q" and run: "event_run f a b" and walls: "within_walls ser f a b"
    and k: "k \<in> {a..<b}" and S: "S = {} \<longrightarrow> k = a"
  shows "live_queue ser f a b (insert k S) outs (push_live ser (f k) q)"
proof -
  have m: "merged ser f a b S outs q" using l by (simp add: live_queue_def)
  have flags: "\<not> q_closed q" "\<not> q_poisoned q" using m by (simp_all add: merged_def)
  have "live_queue ser f a b (insert k S) outs (drain_pending ser (stage ser (f k) q))"
  proof (rule live_after_drain[OF merged_stage[OF m run walls k] run walls])
    show "\<not> q_replaying (stage ser (f k) q)" using l by (simp add: live_queue_def)
    show "q_next_seq (stage ser (f k) q) = None \<longrightarrow> insert k S = {} \<or> a \<in> insert k S"
      using l S by (auto simp: live_queue_def)
  qed
  then show ?thesis using l flags by (simp add: push_live_def Let_def live_queue_def)
qed

lemma live_push_all:
  assumes "live_queue ser f a b S outs q" and run: "event_run f a b" and walls: "within_walls ser f a b"
    and "ks \<subseteq> {a..<b}" and "set es = f ` ks" and "S = {} \<longrightarrow> es = [] \<or> hd es = f a \<and> a < b"
  shows "live_queue ser f a b (S \<union> ev_seq ` set es) outs (fold (push_live ser) es q)"
  using assms(1, 4-)
proof (induction es arbitrary: S q ks)
  case (Cons e es)
  have "e \<in> f ` ks" using Cons.prems(3) by auto
  then obtain k where k: "k \<in> {a..<b}" "e = f k" using Cons.prems(2) by auto
  have seq: "ev_seq e = k" using run k by (simp add: event_run_def)
  have "S = {} \<longrightarrow> k = a"
    using Cons.prems(4) seq run by (auto simp: event_run_def)
  then have l: "live_queue ser f a b (insert k S) outs (push_live ser e q)"
    using live_push[OF Cons.prems(1) run walls k(1)] k(2) by simp
  have sub: "ev_seq ` set es \<subseteq> {a..<b}" "set es = f ` (ev_seq ` set es)"
  proof -
    have "ev_seq x \<in> {a..<b} \<and> f (ev_seq x) = x" if "x \<in> set es" for x
    proof -
      have "x \<in> f ` ks" using Cons.prems(3) that by auto
      then obtain j where "j \<in> ks" "x = f j" by auto
      then show ?thesis using Cons.prems(2) run by (auto simp: event_run_def)
    qed
    then show "ev_seq ` set es \<subseteq> {a..<b}" "set es = f ` (ev_seq ` set es)" by (auto simp: image_image)
  qed
  show ?case using Cons.IH[OF l sub] seq by (simp add: insert_commute)
qed simp

definition of_run :: "(nat \<Rightarrow> event) \<Rightarrow> nat \<Rightarrow> nat \<Rightarrow> event list \<Rightarrow> bool" where
  "of_run f a b es \<longleftrightarrow> list_all (\<lambda>e. e = f (ev_seq e) \<and> ev_seq e \<in> {a..<b}) es"

lemma merged_stage_all:
  assumes "merged ser f a b S outs q" and run: "event_run f a b" and walls: "within_walls ser f a b"
    and "of_run f a b es"
  shows "merged ser f a b (S \<union> ev_seq ` set es) outs (fold (stage ser) es q)"
  using assms(1, 4)
proof (induction es arbitrary: S q)
  case (Cons e es)
  then have "merged ser f a b (insert (ev_seq e) S) outs (stage ser e q)"
    using merged_stage[OF Cons.prems(1) run walls, of "ev_seq e"] by (simp add: of_run_def)
  from Cons.IH[OF this] Cons.prems(2) show ?case by (simp add: of_run_def)
qed simp

lemma push_while_replaying:
  "q_replaying q \<Longrightarrow> \<not> q_closed q \<Longrightarrow> \<not> q_poisoned q \<Longrightarrow>
    fold (push_live ser) es q = fold (stage ser) es q"
  by (induction es arbitrary: q) (simp_all add: push_live_def Let_def)

lemma fold_stage_replaying: "q_replaying (fold (stage ser) es q) = q_replaying q"
  by (induction es arbitrary: q) simp_all

lemma merged_new: "merged ser f a b {} [] (sub_queue_new channel)"
  by (simp add: merged_def sub_queue_new_def queue_inv_def bt_wf_def cursor_def)

lemma live_after_replay:
  assumes run: "event_run f a b" and walls: "within_walls ser f a b"
    and es: "of_run f a b (early @ replay)" and first: "early @ replay = [] \<or> a \<in> ev_seq ` set (early @ replay)"
  shows "live_queue ser f a b (ev_seq ` set (early @ replay)) []
    (finish_replay ser replay (fold (push_live ser) early (sub_queue_new channel)))"
proof -
  let ?S = "ev_seq ` set (early @ replay)"
  let ?q = "fold (stage ser) (early @ replay) (sub_queue_new channel)"
  let ?r = "?q\<lparr>q_replaying := False\<rparr>"
  have m: "merged ser f a b ?S [] ?q"
    using merged_stage_all[OF merged_new run walls es] by simp
  have none: "q_next_seq ?q = None"
  proof -
    have "q_replaying ?q" by (simp add: fold_stage_replaying sub_queue_new_def)
    then show ?thesis using m by (auto simp: merged_def queue_inv_def split: option.splits)
  qed
  have mr: "merged ser f a b ?S [] ?r"
    using m stop_replaying_inv by (simp add: merged_def cursor_def)
  have S: "?S = {} \<or> a \<in> ?S" using first by auto
  note fc = merged_first_cursor[OF mr _ _ S]
  have eq: "finish_replay ser replay (fold (push_live ser) early (sub_queue_new channel))
      = drain_pending ser (?r\<lparr>q_next_seq := first_cursor ?r\<rparr>)"
    by (simp add: push_while_replaying finish_replay_def Let_def fold_stage_replaying sub_queue_new_def)
  show ?thesis
    unfolding eq using fc none S by (intro live_after_drain run walls) auto
qed

lemma live_pop:
  assumes "live_queue ser f a b S outs q" and "pop ser ts q = (r, q')"
  shows "r = None \<and> q_ready q = [] \<and> live_queue ser f a b S outs q'
    \<or> (\<exists>e es. r = Some e \<and> q_ready q = e # es \<and> q_ready q' = es \<and> live_queue ser f a b S (outs @ [e]) q')"
proof -
  have flags: "\<not> q_poisoned q" "\<not> q_closed q" "q_dropped q = 0" and inv: "queue_inv ser q"
    using assms(1) by (simp_all add: live_queue_def merged_def)
  show ?thesis
  proof (cases "q_ready q")
    case Nil
    then show ?thesis using assms flags by (auto simp: pop_def Let_def live_queue_def)
  next
    case (Cons e es)
    then have "r = Some e" "q' = q\<lparr>q_ready := es, q_ready_bytes := q_ready_bytes q - event_retained_bytes ser e\<rparr>"
      using assms flags by (auto simp: pop_def Let_def live_queue_def)
    then show ?thesis
      using assms(1) Cons pop_event_inv(1)[OF inv Cons] by (simp add: live_queue_def merged_def cursor_def)
  qed
qed

lemma run_lives:
  "tr_queue (foldl (queue_step ser) tr (map Live es)) = fold (push_live ser) es (tr_queue tr)"
  "tr_out (foldl (queue_step ser) tr (map Live es)) = tr_out tr"
  by (induction es arbitrary: tr) (simp_all add: Let_def)

lemma run_pops:
  assumes "live_queue ser f a b S (tr_out tr) (tr_queue tr)" and "length (q_ready (tr_queue tr)) \<le> length tss"
  shows "tr_out (foldl (queue_step ser) tr (map Pop tss)) = tr_out tr @ q_ready (tr_queue tr)"
  using assms
proof (induction tss arbitrary: tr)
  case (Cons ts tss)
  obtain r q' where p: "pop ser ts (tr_queue tr) = (r, q')" by (cases "pop ser ts (tr_queue tr)")
  from live_pop[OF Cons.prems(1) p] show ?case
  proof (elim disjE exE conjE)
    assume r: "r = None" "q_ready (tr_queue tr) = []" "live_queue ser f a b S (tr_out tr) q'"
    have "q_ready q' = []"
      using p r Cons.prems(1) by (auto simp: pop_def Let_def live_queue_def merged_def split: if_splits)
    then show ?thesis using Cons.IH[of "tr\<lparr>tr_queue := q'\<rparr>"] r p by simp
  next
    fix e es
    assume r: "r = Some e" "q_ready (tr_queue tr) = e # es" "q_ready q' = es"
      "live_queue ser f a b S (tr_out tr @ [e]) q'"
    have "tr_queue (queue_step ser tr (Pop ts)) = q'" "tr_out (queue_step ser tr (Pop ts)) = tr_out tr @ [e]"
      using p r(1) by (simp_all add: Let_def)
    then show ?thesis using Cons.IH[of "queue_step ser tr (Pop ts)"] Cons.prems(2) r by simp
  qed
qed simp

section \<open>Missing numbers\<close>

text \<open>A queue that waits at a number which is never staged.\<close>

definition waiting :: "nat \<Rightarrow> sub_queue \<Rightarrow> bool" where
  "waiting n q \<longleftrightarrow> \<not> q_closed q \<and> \<not> q_poisoned q \<and> \<not> q_replaying q \<and> q_next_seq q = Some n
     \<and> q_ready q = [] \<and> q_dropped q = 0 \<and> q_overflow_through q = None \<and> map_of (q_pending q) n = None"

lemma waiting_push:
  assumes w: "waiting n q" and inv: "queue_inv ser q" and e: "n < ev_seq e" "ev_seq e < U64_MAX"
    and len: "length (q_pending q) < staged_event_cap"
    and bytes: "q_pending_bytes q + event_retained_bytes ser e \<le> staged_event_max_bytes"
  shows "waiting n (push_live ser e q)" and "queue_inv ser (push_live ser e q)"
    and "length (q_pending (push_live ser e q)) \<le> Suc (length (q_pending q))"
    and "q_pending_bytes (push_live ser e q) \<le> q_pending_bytes q + event_retained_bytes ser e"
proof -
  let ?q = "stage ser e q"
  have wf: "bt_wf (q_pending q)" using inv by (simp add: queue_inv_def)
  have stage: "?q = q \<or> ?q = q\<lparr>q_pending_bytes := q_pending_bytes q + event_retained_bytes ser e,
      q_pending := bt_insert (ev_seq e) e (q_pending q)\<rparr> \<and> map_of (q_pending q) (ev_seq e) = None"
    using len bytes by (auto simp: stage_def Let_def staged_event_max_bytes_def sub_queue_max_bytes_def)
  have st: "waiting n ?q \<and> length (q_pending ?q) \<le> Suc (length (q_pending q))
      \<and> q_pending_bytes ?q \<le> q_pending_bytes q + event_retained_bytes ser e"
    using stage
  proof (elim disjE conjE)
    assume new: "map_of (q_pending q) (ev_seq e) = None"
      and q: "?q = q\<lparr>q_pending_bytes := q_pending_bytes q + event_retained_bytes ser e,
        q_pending := bt_insert (ev_seq e) e (q_pending q)\<rparr>"
    have "map_of (bt_insert (ev_seq e) e (q_pending q)) n = None"
      using w e(1) bt_insert_new(3)[OF wf new] by (auto simp: waiting_def map_of_eq_None_iff)
    then show ?thesis using w q bt_insert_new(1)[OF wf new] by (simp add: waiting_def)
  qed (use w in simp)
  then have "drain_pending ser ?q = ?q"
    by (simp add: drain_pending_def waiting_def drain_loop_stop drained_def)
  then have eq: "push_live ser e q = ?q" using w by (simp add: push_live_def Let_def waiting_def)
  show "queue_inv ser (push_live ser e q)" by (rule push_live_inv(1)[OF inv e(2)])
  show "waiting n (push_live ser e q)" "length (q_pending (push_live ser e q)) \<le> Suc (length (q_pending q))"
    "q_pending_bytes (push_live ser e q) \<le> q_pending_bytes q + event_retained_bytes ser e"
    using st eq by simp_all
qed

lemma waiting_push_all:
  assumes "waiting n q" and "queue_inv ser q" and "list_all (\<lambda>e. n < ev_seq e \<and> ev_seq e < U64_MAX) es"
    and "length (q_pending q) + length es \<le> staged_event_cap"
    and "q_pending_bytes q + sum_list (map (event_retained_bytes ser) es) \<le> staged_event_max_bytes"
  shows "waiting n (fold (push_live ser) es q)"
  using assms
proof (induction es arbitrary: q)
  case (Cons e es)
  have "waiting n (push_live ser e q)" "queue_inv ser (push_live ser e q)"
    "length (q_pending (push_live ser e q)) \<le> Suc (length (q_pending q))"
    "q_pending_bytes (push_live ser e q) \<le> q_pending_bytes q + event_retained_bytes ser e"
    using waiting_push[of n q ser e] Cons.prems by simp_all
  then show ?case using Cons.IH[of "push_live ser e q"] Cons.prems by simp
qed simp

section \<open>Properties\<close>

text \<open>
  C14. Replay and live delivery merge exactly, provided the first number is staged by the time the
  snapshot is merged, or is the first to arrive when nothing was staged until then: if the early live
  events, the replay snapshot and the later live events together are the events of a run of at most 256
  consecutive numbers and 512 KiB, otherwise in any order and with any duplicates, the subscriber receives each event of the run once and
  in order.
\<close>

theorem replay_live_merge_exact:
  assumes "event_run f a b" and "within_walls ser f a b"
    and "of_run f a b (early @ replay @ late)"
    and "ev_seq ` set (early @ replay @ late) = {a..<b}"
    and "if early @ replay = [] then late = [] \<or> ev_seq (hd late) = a
         else a \<in> ev_seq ` set (early @ replay)"
    and "b - a \<le> length tss"
  shows "tr_out (queue_run ser channel
      (map Live early @ Replay replay # map Live late @ map Pop tss)) = map f [a..<b]"
proof -
  let ?S = "ev_seq ` set (early @ replay)"
  define tr where "tr = foldl (queue_step ser) (queue_start channel)
    (map Live early @ Replay replay # map Live late)"
  let ?q = "finish_replay ser replay (fold (push_live ser) early (sub_queue_new channel))"
  have out: "tr_out tr = []" and q: "tr_queue tr = fold (push_live ser) late ?q"
    by (simp_all add: tr_def run_lives Let_def queue_start_def)
  have lq: "live_queue ser f a b ?S [] ?q"
    using assms by (intro live_after_replay) (auto simp: of_run_def split: if_splits)
  have late: "ev_seq ` set late \<subseteq> {a..<b}" "set late = f ` (ev_seq ` set late)"
    using assms(3) by (force simp: of_run_def list_all_iff image_image)+
  have start: "?S = {} \<longrightarrow> late = [] \<or> hd late = f a \<and> a < b"
  proof (intro impI)
    assume "?S = {}"
    then have "late = [] \<or> ev_seq (hd late) = a \<and> hd late \<in> set late" using assms(5) by (auto split: if_splits)
    then show "late = [] \<or> hd late = f a \<and> a < b"
      using assms(3) by (auto simp: of_run_def list_all_iff)
  qed
  have "live_queue ser f a b (?S \<union> ev_seq ` set late) [] (tr_queue tr)"
    unfolding q by (rule live_push_all[OF lq assms(1, 2) late start])
  then have l: "live_queue ser f a b {a..<b} [] (tr_queue tr)"
    using assms(4) by (simp add: image_Un Un_assoc)
  then have "q_ready (tr_queue tr) = map f [a..<cursor a (tr_queue tr)]"
    "cursor a (tr_queue tr) \<notin> {a..<b}" "{a..<cursor a (tr_queue tr)} \<subseteq> {a..<b}" "a \<le> cursor a (tr_queue tr)"
    by (auto simp: live_queue_def merged_def)
  moreover from this have "a < b \<Longrightarrow> cursor a (tr_queue tr) = b"
    by (metis atLeastLessThan_iff ivl_subset le_less_linear order.antisym order.strict_iff_order)
  ultimately have ready: "q_ready (tr_queue tr) = map f [a..<b]"
    by (cases "a < b") auto
  have "queue_run ser channel (map Live early @ Replay replay # map Live late @ map Pop tss)
      = foldl (queue_step ser) tr (map Pop tss)"
    by (simp add: queue_run_def tr_def)
  then show ?thesis
    using run_pops[of ser f a b "{a..<b}" tr tss] l out ready assms(6) by simp
qed

theorem replay_live_merge_exact_witness:
  "tr_out (queue_run sample_serde ''user.a''
     (map Live [sample_event 6, sample_event 5] @ Replay [sample_event 4, sample_event 5]
        # map Live [sample_event 8, sample_event 7] @ map Pop [0, 0, 0, 0, 0, 0])) =
   map sample_event [4..<9]"
  by (rule replay_live_merge_exact)
    (auto simp: event_run_def within_walls_def of_run_def sample_weight sub_queue_cap_def
      sub_queue_max_bytes_def upt_conv_Cons)

text \<open>
  A number that is never staged stalls a subscription: while the queue waits for it, no
  sequence of later events within the staging walls (1280 events, 512 KiB) makes anything available.
\<close>

theorem missing_number_stalls:
  assumes "waiting n q" and "queue_inv ser q"
    and "list_all (\<lambda>e. n < ev_seq e \<and> ev_seq e < U64_MAX) es"
    and "length (q_pending q) + length es \<le> staged_event_cap"
    and "q_pending_bytes q + sum_list (map (event_retained_bytes ser) es) \<le> staged_event_max_bytes"
  shows "fst (pop ser ts (fold (push_live ser) es q)) = None"
  using waiting_push_all[OF assms] by (simp add: pop_def waiting_def Let_def)

theorem missing_number_stalls_witness:
  "fst (pop sample_serde 0 (fold (push_live sample_serde) [sample_event 11, sample_event 12]
     ((sub_queue_new ''user.a'')\<lparr>q_replaying := False, q_next_seq := Some 10\<rparr>))) = None"
  by (rule missing_number_stalls[where n = 10])
    (simp_all add: sub_queue_new_def waiting_def queue_inv_def bt_wf_def sample_weight
      staged_event_cap_def event_ring_cap_def staged_event_max_bytes_def sub_queue_max_bytes_def)

text \<open>
  On a subscription with nothing to replay, the first event to arrive sets the cursor: an event
  with a smaller number that arrives after it (two publishers whose deliveries overtake each other)
  is discarded and no summary reports it.
\<close>

theorem overtaken_first_event_lost:
  assumes "ev_seq e < ev_seq e'" and "ev_seq e' < U64_MAX"
    and "event_retained_bytes ser e' \<le> sub_queue_max_bytes"
  shows "tr_out (queue_run ser channel ([Replay [], Live e', Live e] @ replicate n (Pop ts))) =
      (if n = 0 then [] else [e'])
    \<and> q_dropped (tr_queue (queue_run ser channel ([Replay [], Live e', Live e] @ replicate n (Pop ts)))) = 0"
proof -
  let ?q0 = "(sub_queue_new channel)\<lparr>q_replaying := False\<rparr>"
  let ?q1 = "?q0\<lparr>q_ready := [e'], q_ready_bytes := event_retained_bytes ser e', q_next_seq := Some (Suc (ev_seq e'))\<rparr>"
  have b: "event_retained_bytes ser e' \<le> 524288" using assms(3) by (simp add: sub_queue_max_bytes_def)
  have r: "finish_replay ser [] (sub_queue_new channel) = ?q0"
    by (simp add: finish_replay_def sub_queue_new_def first_cursor_def drain_pending_def
        drain_loop.simps Let_def)
  have p1: "push_live ser e' ?q0 = ?q1"
    using assms(2) b
    by (simp add: push_live_def sub_queue_new_def stage_def Let_def staged_event_cap_def event_ring_cap_def
        sub_queue_cap_def staged_event_max_bytes_def sub_queue_max_bytes_def bt_insert_def bt_remove_def
        drain_pending_def first_cursor_def drain_loop.simps take_pending_def push_ready_def)
  have p2: "push_live ser e ?q1 = ?q1"
    using assms(1)
    by (simp add: push_live_def sub_queue_new_def stage_def Let_def drain_pending_def drain_loop.simps)
  let ?q2 = "?q1\<lparr>q_ready := [], q_ready_bytes := 0\<rparr>"
  have pop1: "pop ser ts ?q1 = (Some e', ?q2)" by (simp add: pop_def sub_queue_new_def Let_def)
  have pop2: "pop ser ts ?q2 = (None, ?q2)" by (simp add: pop_def sub_queue_new_def Let_def)
  have idle: "foldl (queue_step ser) tr (replicate m (Pop ts)) = tr" if "tr_queue tr = ?q2" for tr m
  proof -
    have "queue_step ser tr (Pop ts) = tr" using that pop2 by simp
    then show ?thesis by (induction m) simp_all
  qed
  let ?ops = "[Replay [], Live e', Live e]"
  have run: "tr_queue (queue_run ser channel ?ops) = ?q1" "tr_out (queue_run ser channel ?ops) = []"
    by (simp_all add: queue_run_def Let_def queue_start_def r p1 p2)
  let ?tr = "queue_step ser (queue_run ser channel ?ops) (Pop ts)"
  have tr: "tr_queue ?tr = ?q2" "tr_out ?tr = [e']"
    using run pop1 by (simp_all add: Let_def)
  have "queue_run ser channel (?ops @ replicate (Suc m) (Pop ts)) = ?tr" for m
    using idle[OF tr(1), of m] by (simp add: queue_run_def)
  then show ?thesis using run tr by (cases n) (simp_all add: sub_queue_new_def)
qed

theorem overtaken_first_event_lost_witness:
  "tr_out (queue_run sample_serde ''user.a''
     ([Replay [], Live (sample_event 6), Live (sample_event 5)] @ replicate 3 (Pop 0))) = [sample_event 6]"
  using overtaken_first_event_lost[of "sample_event 5" "sample_event 6" sample_serde "''user.a''" 3 0]
  by (simp add: sample_weight sub_queue_max_bytes_def)

end
