(* ===== verification/Event_Dispatch.thy ===== *)
theory Event_Dispatch
  imports Event_Queue
begin

text \<open>
  The connections of the event bus: the dispatcher of one connection and the registry of all of them
  (\<open>DispatcherCore\<close>, \<open>ConnectionDispatcher\<close> and \<open>SubscriptionRegistry\<close> of
  \<open>kernel/eventbus/subscriptions.rs\<close>). A queue is shared by its handle and the dispatcher's map, so a
  handle is the key under which the map holds the queue. A closed dispatcher keeps no queue. The
  writer is a flag, open or shut down; the poison flags of the four locks are fields.
\<close>

section \<open>The dispatcher of a connection\<close>

record subscription_key =
  sk_owner :: owner_key
  sk_channel :: string

record dispatcher =
  d_subscriptions :: "(subscription_key \<times> sub_queue) list"
  d_subscriptions_poisoned :: bool
  d_order :: "subscription_key list"
  d_order_poisoned :: bool
  d_cursor :: nat
  d_epoch :: nat
  d_wake_closed :: bool
  d_wake_poisoned :: bool
  d_connection_failed :: bool
  d_writer_shutdown :: bool

definition subscriptions_hard_cap_per_owner :: nat where
  "subscriptions_hard_cap_per_owner = 1024"

definition dispatcher_new :: dispatcher where
  "dispatcher_new =
     \<lparr>d_subscriptions = [], d_subscriptions_poisoned = False, d_order = [], d_order_poisoned = False,
      d_cursor = 0, d_epoch = 0, d_wake_closed = False, d_wake_poisoned = False,
      d_connection_failed = False, d_writer_shutdown = False\<rparr>"

definition wrapping_succ :: "nat \<Rightarrow> nat" where
  "wrapping_succ n = (n + 1) mod 2 ^ 64"

definition core_close :: "dispatcher \<Rightarrow> dispatcher" where
  "core_close d =
     d\<lparr>d_connection_failed := True,
       d_subscriptions := [], d_subscriptions_poisoned := False,
       d_order := [], d_order_poisoned := False,
       d_wake_closed := True, d_epoch := wrapping_succ (d_epoch d), d_wake_poisoned := False\<rparr>"

definition fail_connection :: "dispatcher \<Rightarrow> dispatcher" where
  "fail_connection d = (core_close d)\<lparr>d_writer_shutdown := True\<rparr>"

definition notify :: "dispatcher \<Rightarrow> dispatcher" where
  "notify d =
     (if d_connection_failed d then d
      else if d_wake_poisoned d then fail_connection d
      else d\<lparr>d_epoch := wrapping_succ (d_epoch d)\<rparr>)"

text \<open>
  One turn of \<open>next_event\<close>: it delivers an event, stops the dispatcher thread, or waits for the next
  wake-up. The scan starts at the cursor and pops the queues in order until one yields an event.
\<close>

datatype turn = Deliver event | Stop | Wait

definition set_queue ::
  "subscription_key \<Rightarrow> sub_queue \<Rightarrow> (subscription_key \<times> sub_queue) list \<Rightarrow> (subscription_key \<times> sub_queue) list" where
  "set_queue key q subs = map (\<lambda>(k, q'). (k, if k = key then q else q')) subs"

fun scan_queues ::
  "serde \<Rightarrow> int \<Rightarrow> subscription_key list \<Rightarrow> (subscription_key \<times> sub_queue) list
   \<Rightarrow> event option \<times> (subscription_key \<times> sub_queue) list" where
  "scan_queues ser ts [] subs = (None, subs)"
| "scan_queues ser ts (key # keys) subs =
     (case map_of subs key of
        None \<Rightarrow> scan_queues ser ts keys subs
      | Some q \<Rightarrow>
          (case pop ser ts q of
             (Some e, q') \<Rightarrow> (Some e, set_queue key q' subs)
           | (None, q') \<Rightarrow> scan_queues ser ts keys (set_queue key q' subs)))"

definition next_event :: "serde \<Rightarrow> int \<Rightarrow> dispatcher \<Rightarrow> turn \<times> dispatcher" where
  "next_event ser ts d =
     (if d_wake_poisoned d then (Stop, fail_connection d)
      else if d_wake_closed d then (Stop, d)
      else if d_order_poisoned d then (Stop, fail_connection d)
      else if d_order d = [] then (Wait, d)
      else let start = d_cursor d mod length (d_order d);
               d1 = d\<lparr>d_cursor := wrapping_succ (d_cursor d)\<rparr>
           in if d_subscriptions_poisoned d then (Stop, fail_connection d1)
              else case scan_queues ser ts (rotate start (d_order d)) (d_subscriptions d) of
                  (Some e, subs) \<Rightarrow> (Deliver e, d1\<lparr>d_subscriptions := subs\<rparr>)
                | (None, subs) \<Rightarrow> (Wait, d1\<lparr>d_subscriptions := subs\<rparr>))"

text \<open>
  A turn of the dispatcher thread: it writes what the turn delivers, and stops when the turn says so,
  when the writer's lock is poisoned or when the write fails.
\<close>

definition dispatch_turn ::
  "serde \<Rightarrow> int \<Rightarrow> bool \<Rightarrow> bool \<Rightarrow> dispatcher \<Rightarrow> event option \<times> bool \<times> dispatcher" where
  "dispatch_turn ser ts writer_poisoned write_ok d =
     (case next_event ser ts d of
        (Stop, d1) \<Rightarrow> (None, False, d1)
      | (Wait, d1) \<Rightarrow> (None, True, d1)
      | (Deliver e, d1) \<Rightarrow>
          if writer_poisoned then (None, False, core_close (d1\<lparr>d_writer_shutdown := True\<rparr>))
          else if write_ok then (Some e, True, d1)
          else (None, False, fail_connection d1))"

definition connection_closed_error :: rpc_error where
  "connection_closed_error = internal ''event dispatcher connection is closed''"

definition dispatcher_subscribe ::
  "subscription_key \<Rightarrow> dispatcher \<Rightarrow> (rpc_error, bool) result \<times> dispatcher" where
  "dispatcher_subscribe key d =
     (if d_connection_failed d then (Inl connection_closed_error, d)
      else if d_subscriptions_poisoned d then (Inl connection_closed_error, fail_connection d)
      else if map_of (d_subscriptions d) key \<noteq> None then (Inr False, d)
      else let d1 = d\<lparr>d_subscriptions := d_subscriptions d @ [(key, sub_queue_new (sk_channel key))]\<rparr>
           in if d_order_poisoned d1 then (Inl connection_closed_error, fail_connection d1)
              else (Inr True, d1\<lparr>d_order := d_order d1 @ [key]\<rparr>))"

definition dispatcher_deliver ::
  "serde \<Rightarrow> owner_key \<Rightarrow> string \<Rightarrow> event \<Rightarrow> dispatcher \<Rightarrow> dispatcher" where
  "dispatcher_deliver ser owner channel e d =
     (let key = \<lparr>sk_owner = owner, sk_channel = channel\<rparr>
      in if d_connection_failed d then d
         else if d_subscriptions_poisoned d then fail_connection d
         else case map_of (d_subscriptions d) key of
             None \<Rightarrow> d
           | Some q \<Rightarrow> notify (d\<lparr>d_subscriptions := set_queue key (push_live ser e q) (d_subscriptions d)\<rparr>))"

definition dispatcher_is_empty :: "dispatcher \<Rightarrow> bool \<times> dispatcher" where
  "dispatcher_is_empty d =
     (if d_subscriptions_poisoned d then (True, fail_connection d)
      else (d_subscriptions d = [], d))"

definition dispatcher_unsubscribe :: "subscription_key \<Rightarrow> dispatcher \<Rightarrow> bool \<times> dispatcher" where
  "dispatcher_unsubscribe key d =
     (if d_subscriptions_poisoned d then (True, fail_connection d)
      else case map_of (d_subscriptions d) key of
          None \<Rightarrow> dispatcher_is_empty d
        | Some q \<Rightarrow>
            let d1 = d\<lparr>d_subscriptions := AList.delete key (d_subscriptions d)\<rparr>
            in if d_order_poisoned d1 then (True, fail_connection d1)
               else dispatcher_is_empty (notify (d1\<lparr>d_order := filter (\<lambda>k. k \<noteq> key) (d_order d1)\<rparr>)))"

definition dispatcher_remove_owner :: "owner_key \<Rightarrow> dispatcher \<Rightarrow> bool \<times> dispatcher" where
  "dispatcher_remove_owner owner d =
     (if d_subscriptions_poisoned d then (True, fail_connection d)
      else let keys = filter (\<lambda>k. sk_owner k = owner) (map fst (d_subscriptions d))
           in dispatcher_is_empty (fold (\<lambda>key d. snd (dispatcher_unsubscribe key d)) keys d))"

section \<open>The registry of connections\<close>

record subscription_registry =
  sr_connections :: "(nat \<times> dispatcher) list"
  sr_connections_poisoned :: bool
  sr_quarantined :: bool

definition subscription_registry_default :: subscription_registry where
  "subscription_registry_default =
     \<lparr>sr_connections = [], sr_connections_poisoned = False, sr_quarantined = False\<rparr>"

text \<open>Quarantine drains and closes every connection; a closed dispatcher has no queue left.\<close>

definition registry_quarantine :: "subscription_registry \<Rightarrow> subscription_registry" where
  "registry_quarantine r =
     r\<lparr>sr_quarantined := True, sr_connections := [], sr_connections_poisoned := False\<rparr>"

definition registry_failed_error :: rpc_error where
  "registry_failed_error = internal ''event subscription registry is quarantined; restart the kernel''"

definition owner_subscriptions :: "owner_key \<Rightarrow> dispatcher \<Rightarrow> nat" where
  "owner_subscriptions owner d =
     (if d_subscriptions_poisoned d then 0
      else length (filter (\<lambda>(k, _). sk_owner k = owner) (d_subscriptions d)))"

definition registry_subscribe ::
  "bool \<Rightarrow> nat \<Rightarrow> owner_key \<Rightarrow> string \<Rightarrow> nat \<Rightarrow> subscription_registry
   \<Rightarrow> (rpc_error, bool) result \<times> subscription_registry" where
  "registry_subscribe spawn_ok conn owner channel max_per_session r =
     (if sr_quarantined r \<or> sr_connections_poisoned r
      then (Inl registry_failed_error, registry_quarantine r)
      else let key = \<lparr>sk_owner = owner, sk_channel = channel\<rparr>;
               r1 = r\<lparr>sr_connections := filter (\<lambda>(_, d). \<not> d_subscriptions_poisoned d) (sr_connections r)\<rparr>;
               existing = map_of (sr_connections r1) conn;
               exists = (case existing of None \<Rightarrow> False
                         | Some d \<Rightarrow> \<not> d_subscriptions_poisoned d \<and> map_of (d_subscriptions d) key \<noteq> None);
               current = sum_list (map (\<lambda>(_, d). owner_subscriptions owner d) (sr_connections r1));
               effective_max = min max_per_session subscriptions_hard_cap_per_owner
      in if \<not> exists \<and> effective_max \<le> current
         then (Inl (RpcError QUOTA_EXCEEDED
                 (''session has reached the '' @ dec effective_max @ ''-subscription limit'')), r1)
         else if existing = None \<and> \<not> spawn_ok
         then (Inl (internal ''failed to start event dispatcher''), r1)
         else let d = (case existing of Some d \<Rightarrow> d | None \<Rightarrow> dispatcher_new);
                  (res, d1) = dispatcher_subscribe key d
              in (res, r1\<lparr>sr_connections := AList.update conn d1 (sr_connections r1)\<rparr>))"

text \<open>
  The source takes a snapshot of the connections and delivers to them one after the other; as each
  delivery touches one connection only, they are one step here.
\<close>

definition registry_deliver ::
  "serde \<Rightarrow> owner_key \<Rightarrow> string \<Rightarrow> event \<Rightarrow> subscription_registry \<Rightarrow> subscription_registry" where
  "registry_deliver ser owner channel e r =
     (if sr_quarantined r then r
      else if sr_connections_poisoned r then registry_quarantine r
      else r\<lparr>sr_connections := map (\<lambda>(c, d). (c, dispatcher_deliver ser owner channel e d)) (sr_connections r)\<rparr>)"

definition registry_unsubscribe ::
  "nat \<Rightarrow> owner_key \<Rightarrow> string \<Rightarrow> subscription_registry \<Rightarrow> subscription_registry" where
  "registry_unsubscribe conn owner channel r =
     (if sr_quarantined r then r
      else if sr_connections_poisoned r then registry_quarantine r
      else case map_of (sr_connections r) conn of
          None \<Rightarrow> r
        | Some d \<Rightarrow>
            let (empty, d1) = dispatcher_unsubscribe \<lparr>sk_owner = owner, sk_channel = channel\<rparr> d
            in r\<lparr>sr_connections := (if empty then AList.delete conn (sr_connections r)
                                    else AList.update conn d1 (sr_connections r))\<rparr>)"

definition registry_remove_conn :: "nat \<Rightarrow> subscription_registry \<Rightarrow> subscription_registry" where
  "registry_remove_conn conn r =
     (if sr_quarantined r then r
      else if sr_connections_poisoned r then registry_quarantine r
      else r\<lparr>sr_connections := AList.delete conn (sr_connections r)\<rparr>)"

definition registry_remove_owner :: "owner_key \<Rightarrow> subscription_registry \<Rightarrow> subscription_registry" where
  "registry_remove_owner owner r =
     (if sr_quarantined r then r
      else if sr_connections_poisoned r then registry_quarantine r
      else r\<lparr>sr_connections := List.map_filter
             (\<lambda>(c, d). let (empty, d1) = dispatcher_remove_owner owner d in if empty then None else Some (c, d1))
             (sr_connections r)\<rparr>)"

text \<open>
  A handle finishes its replay on the queue it was given, when the subscription is new. The source
  holds the queue itself; here it is found again under its connection and key. After the subscription
  is removed and made again while the handle is pending, the handle would reach the new queue here and
  the old, unreachable one in the source, so the properties about deliveries cover more than the source does.
\<close>

definition handle_finish_replay ::
  "serde \<Rightarrow> nat \<Rightarrow> owner_key \<Rightarrow> string \<Rightarrow> bool \<Rightarrow> event list \<Rightarrow> subscription_registry \<Rightarrow> subscription_registry" where
  "handle_finish_replay ser conn owner channel is_new replay r =
     (if \<not> is_new then r
      else r\<lparr>sr_connections := map (\<lambda>(c, d).
             (c, if c = conn
                 then notify (d\<lparr>d_subscriptions := map (\<lambda>(k, q).
                        (k, if k = \<lparr>sk_owner = owner, sk_channel = channel\<rparr>
                            then finish_replay ser replay q else q)) (d_subscriptions d)\<rparr>)
                 else d)) (sr_connections r)\<rparr>)"

section \<open>Fair dispatch\<close>

text \<open>The scan order is the order of the map, and the keys are distinct.\<close>

definition dispatcher_wf :: "dispatcher \<Rightarrow> bool" where
  "dispatcher_wf d \<longleftrightarrow> distinct (d_order d) \<and> map fst (d_subscriptions d) = d_order d"

definition running :: "dispatcher \<Rightarrow> bool" where
  "running d \<longleftrightarrow> \<not> d_wake_poisoned d \<and> \<not> d_wake_closed d \<and> \<not> d_order_poisoned d
     \<and> \<not> d_subscriptions_poisoned d"

lemma map_of_set_queue:
  "map_of (set_queue key q subs) k = (if k = key then map_option (\<lambda>_. q) (map_of subs key) else map_of subs k)"
  by (induction subs) (auto simp: set_queue_def)

lemma keys_set_queue [simp]: "map fst (set_queue key q subs) = map fst subs"
  by (induction subs) (auto simp: set_queue_def)

definition open_with :: "event \<Rightarrow> sub_queue \<Rightarrow> bool" where
  "open_with e q \<longleftrightarrow> \<not> q_poisoned q \<and> \<not> q_replaying q \<and> \<not> q_closed q \<and> q_ready q \<noteq> [] \<and> hd (q_ready q) = e"

lemma pop_open: "open_with e q \<Longrightarrow> fst (pop ser ts q) = Some e"
  by (cases "q_ready q") (auto simp: open_with_def pop_def Let_def)

lemma scan_Cons:
  "scan_queues ser ts (key # keys) subs = (r, subs') \<longleftrightarrow>
     (case map_of subs key of
        None \<Rightarrow> scan_queues ser ts keys subs = (r, subs')
      | Some q \<Rightarrow>
          (if fst (pop ser ts q) = None
           then scan_queues ser ts keys (set_queue key (snd (pop ser ts q)) subs) = (r, subs')
           else r = fst (pop ser ts q) \<and> subs' = set_queue key (snd (pop ser ts q)) subs))"
  by (auto split: option.splits prod.splits)

declare scan_queues.simps(2) [simp del]

lemma scan_keys: "scan_queues ser ts keys subs = (r, subs') \<Longrightarrow> map fst subs' = map fst subs"
  by (induction keys arbitrary: subs) (auto simp: scan_Cons split: option.splits if_splits)

lemma scan_serves_or_keeps:
  assumes "map_of subs key = Some q" and "open_with e q" and "scan_queues ser ts keys subs = (r, subs')"
  shows "r = Some e \<or> map_of subs' key = Some q"
  using assms(1, 3)
proof (induction keys arbitrary: subs)
  case (Cons k keys)
  show ?case
  proof (cases "k = key")
    case True
    then show ?thesis using Cons.prems pop_open[OF assms(2), of ser ts] by (simp add: scan_Cons)
  next
    case False
    then have keep: "map_of (set_queue k q' subs) key = Some q" for q'
      using Cons.prems(1) by (simp add: map_of_set_queue)
    show ?thesis
    proof (cases "map_of subs k")
      case None
      then show ?thesis using Cons.prems Cons.IH[of subs] by (simp add: scan_Cons)
    next
      case (Some x)
      then show ?thesis
        using Cons.prems(2) Cons.IH[OF keep[of "snd (pop ser ts x)"]] keep[of "snd (pop ser ts x)"]
        by (auto simp: scan_Cons split: if_splits)
    qed
  qed
qed simp

lemma scan_head:
  assumes "map_of subs key = Some q" and "open_with e q"
  shows "fst (scan_queues ser ts (key # keys) subs) = Some e"
proof -
  obtain r subs' where r: "scan_queues ser ts (key # keys) subs = (r, subs')" by fastforce
  then have "r = Some e" using assms pop_open[OF assms(2), of ser ts] by (simp add: scan_Cons)
  then show ?thesis using r by simp
qed

fun turns :: "serde \<Rightarrow> int list \<Rightarrow> dispatcher \<Rightarrow> turn list" where
  "turns ser [] d = []"
| "turns ser (ts # tss) d = fst (next_event ser ts d) # turns ser tss (snd (next_event ser ts d))"

lemma turn_serves_or_keeps:
  assumes "dispatcher_wf d" and "running d" and "map_of (d_subscriptions d) key = Some q" and "open_with e q"
    and "next_event ser ts d = (t, d')"
  shows "t = Deliver e \<or> dispatcher_wf d' \<and> running d' \<and> map_of (d_subscriptions d') key = Some q
    \<and> d_order d' = d_order d \<and> d_cursor d' = wrapping_succ (d_cursor d)"
proof -
  have ne: "d_order d \<noteq> []" using assms(1, 3) by (auto simp: dispatcher_wf_def dest: map_of_SomeD)
  let ?scan = "scan_queues ser ts (rotate (d_cursor d mod length (d_order d)) (d_order d)) (d_subscriptions d)"
  obtain r subs where scan: "?scan = (r, subs)" by (cases ?scan)
  have keys: "map fst subs = map fst (d_subscriptions d)" by (rule scan_keys[OF scan])
  have d': "d' = d\<lparr>d_cursor := wrapping_succ (d_cursor d), d_subscriptions := subs\<rparr>"
    and t: "t = (case r of Some e \<Rightarrow> Deliver e | None \<Rightarrow> Wait)"
    using assms(2, 5) ne scan by (auto simp: next_event_def running_def Let_def split: option.splits)
  show ?thesis
    using scan_serves_or_keeps[OF assms(3, 4) scan] assms(1, 2) d' t keys
    by (auto simp: dispatcher_wf_def running_def)
qed

lemma turn_at_key:
  assumes "dispatcher_wf d" and "running d" and "map_of (d_subscriptions d) key = Some q" and "open_with e q"
    and "d_order d ! (d_cursor d mod length (d_order d)) = key"
  shows "fst (next_event ser ts d) = Deliver e"
proof -
  have ne: "d_order d \<noteq> []" using assms(1, 3) by (auto simp: dispatcher_wf_def dest: map_of_SomeD)
  let ?p = "d_cursor d mod length (d_order d)"
  have "?p < length (d_order d)" using ne by simp
  then have "rotate ?p (d_order d) = key # tl (rotate ?p (d_order d))"
    using assms(5) ne by (simp add: rotate_drop_take Cons_nth_drop_Suc[symmetric])
  then have "fst (scan_queues ser ts (rotate ?p (d_order d)) (d_subscriptions d)) = Some e"
    using scan_head[OF assms(3, 4)] by metis
  then show ?thesis
    using assms(2) ne by (auto simp: next_event_def running_def Let_def split: prod.splits)
qed

lemma served_within:
  assumes "dispatcher_wf d" and "running d" and "map_of (d_subscriptions d) key = Some q" and "open_with e q"
    and "d_order d ! ((d_cursor d + n) mod length (d_order d)) = key"
    and "d_cursor d + n < 2 ^ 64" and "n < length tss"
  shows "Deliver e \<in> set (turns ser tss d)"
  using assms
proof (induction n arbitrary: d tss)
  case 0
  then show ?case using turn_at_key[of d key q e ser] by (cases tss) auto
next
  case (Suc n)
  obtain ts tss' where tss: "tss = ts # tss'" using Suc.prems(7) by (cases tss) auto
  obtain t d' where step: "next_event ser ts d = (t, d')" by (cases "next_event ser ts d")
  have cur: "wrapping_succ (d_cursor d) = d_cursor d + 1"
    using Suc.prems(6) by (simp add: wrapping_succ_def)
  from turn_serves_or_keeps[OF Suc.prems(1-4) step] show ?case
  proof (elim disjE conjE)
    assume keep: "dispatcher_wf d'" "running d'" "map_of (d_subscriptions d') key = Some q"
      "d_order d' = d_order d" "d_cursor d' = wrapping_succ (d_cursor d)"
    have "Deliver e \<in> set (turns ser tss' d')"
      using Suc.prems(4-7) keep cur tss by (intro Suc.IH) simp_all
    then show ?thesis using tss step by simp
  qed (use tss step in simp)
qed

section \<open>What holds of every queue\<close>

lemma list_all_update: "list_all P xs \<Longrightarrow> P (k, v) \<Longrightarrow> list_all P (AList.update k v xs)"
  by (induction xs) auto

text \<open>
  The contract between the registry and its queues: a condition on a queue and its key that a fresh
  queue satisfies and that popping, live delivery and the replay merge keep, given what the delivered
  events satisfy. Every operation of the registry then keeps it of all its queues.
\<close>

lemma registry_subscribe_cases:
  obtains (refused) e where "registry_subscribe spawn_ok conn owner channel m r = (Inl e, registry_quarantine r)
      \<or> registry_subscribe spawn_ok conn owner channel m r =
        (Inl e, r\<lparr>sr_connections := filter (\<lambda>(_, d). \<not> d_subscriptions_poisoned d) (sr_connections r)\<rparr>)"
  | (passed) d where
      "d = (case map_of (filter (\<lambda>(_, d). \<not> d_subscriptions_poisoned d) (sr_connections r)) conn of
              Some d \<Rightarrow> d | None \<Rightarrow> dispatcher_new)"
      "registry_subscribe spawn_ok conn owner channel m r =
        (fst (dispatcher_subscribe \<lparr>sk_owner = owner, sk_channel = channel\<rparr> d),
         r\<lparr>sr_connections := AList.update conn
             (snd (dispatcher_subscribe \<lparr>sk_owner = owner, sk_channel = channel\<rparr> d))
             (filter (\<lambda>(_, d). \<not> d_subscriptions_poisoned d) (sr_connections r))\<rparr>)"
proof (cases "registry_subscribe spawn_ok conn owner channel m r")
  case (Pair res r')
  have "(\<exists>e. res = Inl e \<and> (r' = registry_quarantine r
      \<or> r' = r\<lparr>sr_connections := filter (\<lambda>(_, d). \<not> d_subscriptions_poisoned d) (sr_connections r)\<rparr>))
    \<or> (res, r') = (fst (dispatcher_subscribe \<lparr>sk_owner = owner, sk_channel = channel\<rparr>
          (case map_of (filter (\<lambda>(_, d). \<not> d_subscriptions_poisoned d) (sr_connections r)) conn of
              Some d \<Rightarrow> d | None \<Rightarrow> dispatcher_new)),
         r\<lparr>sr_connections := AList.update conn
             (snd (dispatcher_subscribe \<lparr>sk_owner = owner, sk_channel = channel\<rparr>
          (case map_of (filter (\<lambda>(_, d). \<not> d_subscriptions_poisoned d) (sr_connections r)) conn of
              Some d \<Rightarrow> d | None \<Rightarrow> dispatcher_new)))
             (filter (\<lambda>(_, d). \<not> d_subscriptions_poisoned d) (sr_connections r))\<rparr>)"
    using Pair unfolding registry_subscribe_def Let_def
    by (simp add: prod.case_eq_if split: if_splits) auto
  then show ?thesis using Pair refused passed by blast
qed

locale queue_contract =
  fixes ser :: serde
    and may :: "nat \<Rightarrow> subscription_key \<Rightarrow> bool"
    and holds :: "nat \<Rightarrow> subscription_key \<Rightarrow> sub_queue \<Rightarrow> bool"
    and admits :: "subscription_key \<Rightarrow> event \<Rightarrow> bool"
  assumes holds_new: "may c k \<Longrightarrow> holds c k (sub_queue_new (sk_channel k))"
    and holds_pop: "holds c k q \<Longrightarrow> holds c k (snd (pop ser ts q))"
    and holds_live: "holds c k q \<Longrightarrow> admits k e \<Longrightarrow> holds c k (push_live ser e q)"
    and holds_replay: "holds c k q \<Longrightarrow> list_all (admits k) es \<Longrightarrow> holds c k (finish_replay ser es q)"
begin

definition queues_hold :: "nat \<Rightarrow> (subscription_key \<times> sub_queue) list \<Rightarrow> bool" where
  "queues_hold c subs \<longleftrightarrow> list_all (\<lambda>(k, q). holds c k q) subs"

definition dispatcher_holds :: "nat \<Rightarrow> dispatcher \<Rightarrow> bool" where
  "dispatcher_holds c d \<longleftrightarrow> dispatcher_wf d \<and> queues_hold c (d_subscriptions d)"

definition registry_holds :: "subscription_registry \<Rightarrow> bool" where
  "registry_holds r \<longleftrightarrow> distinct (map fst (sr_connections r)) \<and> list_all (\<lambda>(c, d). dispatcher_holds c d) (sr_connections r)"

lemma closed_holds: "dispatcher_holds c (core_close d)" "dispatcher_holds c (fail_connection d)"
  by (simp_all add: dispatcher_holds_def dispatcher_wf_def queues_hold_def core_close_def fail_connection_def)

lemma fresh_holds: "dispatcher_holds c dispatcher_new"
  by (simp add: dispatcher_holds_def dispatcher_wf_def queues_hold_def dispatcher_new_def)

lemma notify_holds: "dispatcher_holds c d \<Longrightarrow> dispatcher_holds c (notify d)"
  by (simp add: notify_def closed_holds) (simp add: dispatcher_holds_def dispatcher_wf_def)

lemma set_queue_holds: "queues_hold c subs \<Longrightarrow> holds c key q \<Longrightarrow> queues_hold c (set_queue key q subs)"
  by (auto simp: queues_hold_def set_queue_def list_all_iff)

lemma queues_holdD: "queues_hold c subs \<Longrightarrow> map_of subs k = Some q \<Longrightarrow> holds c k q"
  by (auto simp: queues_hold_def list_all_iff dest: map_of_SomeD)

lemma scan_holds: "queues_hold c subs \<Longrightarrow> scan_queues ser ts keys subs = (r, subs') \<Longrightarrow> queues_hold c subs'"
proof (induction keys arbitrary: subs)
  case (Cons key keys)
  then have "queues_hold c (set_queue key (snd (pop ser ts q)) subs)" if "map_of subs key = Some q" for q
    using that by (intro set_queue_holds holds_pop) (auto dest: queues_holdD)
  with Cons show ?case by (auto simp: scan_Cons split: option.splits if_splits)
qed simp

lemma next_event_holds: "dispatcher_holds c d \<Longrightarrow> dispatcher_holds c (snd (next_event ser ts d))"
proof -
  assume h: "dispatcher_holds c d"
  let ?scan = "scan_queues ser ts (rotate (d_cursor d mod length (d_order d)) (d_order d)) (d_subscriptions d)"
  obtain r subs where scan: "?scan = (r, subs)" by (cases ?scan)
  have "queues_hold c subs" "map fst subs = map fst (d_subscriptions d)"
    using scan_holds[OF _ scan] scan_keys[OF scan] h by (simp_all add: dispatcher_holds_def)
  then show ?thesis
    using h scan
    by (auto simp: next_event_def closed_holds Let_def split: option.splits)
      (auto simp: dispatcher_holds_def dispatcher_wf_def)
qed

lemma subscribe_holds:
  "dispatcher_holds c d \<Longrightarrow> (\<not> isl (fst (dispatcher_subscribe key d)) \<Longrightarrow> may c key) \<Longrightarrow>
    dispatcher_holds c (snd (dispatcher_subscribe key d))"
  by (auto simp: dispatcher_subscribe_def closed_holds Let_def)
    (auto simp: dispatcher_holds_def dispatcher_wf_def queues_hold_def holds_new map_of_eq_None_iff
      dest: arg_cong[where f = set])

lemma deliver_holds:
  assumes "dispatcher_holds c d" and "admits \<lparr>sk_owner = owner, sk_channel = channel\<rparr> e"
  shows "dispatcher_holds c (dispatcher_deliver ser owner channel e d)"
proof -
  let ?key = "\<lparr>sk_owner = owner, sk_channel = channel\<rparr>"
  have "dispatcher_holds c (d\<lparr>d_subscriptions := set_queue ?key (push_live ser e q) (d_subscriptions d)\<rparr>)"
    if "map_of (d_subscriptions d) ?key = Some q" for q
  proof -
    have "holds c ?key q" using assms(1) that by (auto simp: dispatcher_holds_def dest: queues_holdD)
    then show ?thesis
      using assms set_queue_holds holds_live by (simp add: dispatcher_holds_def dispatcher_wf_def)
  qed
  then show ?thesis
    using assms(1) by (auto simp: dispatcher_deliver_def closed_holds Let_def intro!: notify_holds split: option.splits)
qed

lemma is_empty_holds: "dispatcher_holds c d \<Longrightarrow> dispatcher_holds c (snd (dispatcher_is_empty d))"
  by (simp add: dispatcher_is_empty_def closed_holds)

lemma delete_holds:
  assumes "dispatcher_holds c d"
  shows "dispatcher_holds c (d\<lparr>d_subscriptions := AList.delete key (d_subscriptions d),
    d_order := filter (\<lambda>k. k \<noteq> key) (d_order d)\<rparr>)"
proof -
  have "map fst (AList.delete key subs) = filter (\<lambda>k. k \<noteq> key) (map fst subs)" for subs :: "(subscription_key \<times> sub_queue) list"
    by (induction subs) auto
  then show ?thesis
    using assms by (auto simp: dispatcher_holds_def dispatcher_wf_def queues_hold_def list_all_iff AList.delete_eq)
qed

lemma unsubscribe_holds:
  "dispatcher_holds c d \<Longrightarrow> dispatcher_holds c (snd (dispatcher_unsubscribe key d))"
  using delete_holds[of c d key] notify_holds is_empty_holds
  by (auto simp: dispatcher_unsubscribe_def closed_holds Let_def split: option.splits)

lemma dispatcher_remove_holds:
  "dispatcher_holds c d \<Longrightarrow> dispatcher_holds c (snd (dispatcher_remove_owner owner d))"
proof -
  have "dispatcher_holds c d \<Longrightarrow> dispatcher_holds c (fold (\<lambda>key d. snd (dispatcher_unsubscribe key d)) keys d)" for keys
    by (induction keys arbitrary: d) (simp_all add: unsubscribe_holds)
  then show "dispatcher_holds c d \<Longrightarrow> dispatcher_holds c (snd (dispatcher_remove_owner owner d))"
    by (simp add: dispatcher_remove_owner_def closed_holds is_empty_holds Let_def)
qed

lemma registry_default_holds: "registry_holds subscription_registry_default"
  by (simp add: registry_holds_def subscription_registry_default_def)

lemma registry_quarantine_holds: "registry_holds (registry_quarantine r)"
  by (simp add: registry_holds_def registry_quarantine_def)

lemma registry_holdsD: "registry_holds r \<Longrightarrow> map_of (sr_connections r) c = Some d \<Longrightarrow> dispatcher_holds c d"
  by (auto simp: registry_holds_def list_all_iff dest: map_of_SomeD)

lemma registry_update_holds:
  "registry_holds r \<Longrightarrow> dispatcher_holds c d \<Longrightarrow>
    registry_holds (r\<lparr>sr_connections := AList.update c d (sr_connections r)\<rparr>)"
  by (simp add: registry_holds_def list_all_update distinct_update)

lemma registry_delete_holds:
  "registry_holds r \<Longrightarrow> registry_holds (r\<lparr>sr_connections := AList.delete c (sr_connections r)\<rparr>)"
  by (auto simp: registry_holds_def list_all_iff AList.delete_eq distinct_map_filter)

lemma registry_subscribe_holds:
  assumes "registry_holds r"
    and may: "\<not> isl (fst (registry_subscribe spawn_ok conn owner channel m r)) \<Longrightarrow>
      may conn \<lparr>sk_owner = owner, sk_channel = channel\<rparr>"
  shows "registry_holds (snd (registry_subscribe spawn_ok conn owner channel m r))"
proof -
  let ?r = "r\<lparr>sr_connections := filter (\<lambda>(_, d). \<not> d_subscriptions_poisoned d) (sr_connections r)\<rparr>"
  have r1: "registry_holds ?r"
    using assms(1) by (auto simp: registry_holds_def list_all_iff distinct_map_filter)
  show ?thesis
  proof (cases rule: registry_subscribe_cases[of spawn_ok conn owner channel m r])
    case (refused e)
    then show ?thesis using r1 registry_quarantine_holds by auto
  next
    case (passed d)
    have "dispatcher_holds conn d"
      using passed(1) registry_holdsD[OF r1] fresh_holds by (auto split: option.splits)
    then have "dispatcher_holds conn (snd (dispatcher_subscribe \<lparr>sk_owner = owner, sk_channel = channel\<rparr> d))"
      using may passed(2) by (intro subscribe_holds) simp_all
    from registry_update_holds[OF r1 this] show ?thesis using passed(2) by simp
  qed
qed

lemma registry_deliver_holds:
  assumes "registry_holds r" and "admits \<lparr>sk_owner = owner, sk_channel = channel\<rparr> e"
  shows "registry_holds (registry_deliver ser owner channel e r)"
proof -
  have "map fst (map (\<lambda>(c, d). (c, dispatcher_deliver ser owner channel e d)) xs) = map fst xs" for xs :: "(nat \<times> dispatcher) list"
    by (induction xs) auto
  then show ?thesis
    using assms deliver_holds registry_quarantine_holds
    by (auto simp: registry_deliver_def registry_holds_def list_all_iff simp del: map_map)
qed

lemma registry_unsubscribe_holds:
  assumes "registry_holds r"
  shows "registry_holds (registry_unsubscribe conn owner channel r)"
proof (cases "map_of (sr_connections r) conn")
  case (Some d)
  have "dispatcher_holds conn (snd (dispatcher_unsubscribe \<lparr>sk_owner = owner, sk_channel = channel\<rparr> d))"
    using registry_holdsD[OF assms Some] by (rule unsubscribe_holds)
  from registry_update_holds[OF assms this] registry_delete_holds[OF assms] show ?thesis
    using assms Some registry_quarantine_holds by (simp add: registry_unsubscribe_def split_def Let_def)
qed (use assms registry_quarantine_holds in \<open>simp add: registry_unsubscribe_def\<close>)

lemma registry_remove_conn_holds:
  "registry_holds r \<Longrightarrow> registry_holds (registry_remove_conn conn r)"
  using registry_delete_holds registry_quarantine_holds by (simp add: registry_remove_conn_def)

lemma registry_remove_owner_holds:
  assumes "registry_holds r"
  shows "registry_holds (registry_remove_owner owner r)"
proof -
  let ?f = "\<lambda>(c, d). let (empty, d1) = dispatcher_remove_owner owner d in if empty then None else Some (c, d1)"
  have "distinct (map fst (List.map_filter ?f xs)) \<and> fst ` set (List.map_filter ?f xs) \<subseteq> fst ` set xs
      \<and> list_all (\<lambda>(c, d). dispatcher_holds c d) (List.map_filter ?f xs)"
    if "distinct (map fst xs)" "list_all (\<lambda>(c, d). dispatcher_holds c d) xs" for xs :: "(nat \<times> dispatcher) list"
    using that
  proof (induction xs)
    case (Cons x xs)
    then show ?case
      using dispatcher_remove_holds[of "fst x" "snd x" owner]
      by (cases x; cases "dispatcher_remove_owner owner (snd x)") (auto simp: map_filter_simps)
  qed (simp add: map_filter_simps)
  then show ?thesis
    using assms registry_quarantine_holds by (simp add: registry_remove_owner_def registry_holds_def)
qed

lemma handle_finish_holds:
  assumes "registry_holds r" and "list_all (admits \<lparr>sk_owner = owner, sk_channel = channel\<rparr>) es"
  shows "registry_holds (handle_finish_replay ser conn owner channel is_new es r)"
proof -
  let ?key = "\<lparr>sk_owner = owner, sk_channel = channel\<rparr>"
  let ?subs = "\<lambda>d. map (\<lambda>(k, q). (k, if k = ?key then finish_replay ser es q else q)) (d_subscriptions d)"
  let ?d = "\<lambda>d. notify (d\<lparr>d_subscriptions := ?subs d\<rparr>)"
  have keys: "map fst (map (\<lambda>(k, q). (k, g k q)) xs) = map fst xs" for g :: "'a \<Rightarrow> 'b \<Rightarrow> 'c" and xs
    by (induction xs) auto
  have "dispatcher_holds c (?d d)" if "dispatcher_holds c d" for c d
  proof (rule notify_holds)
    have "queues_hold c (?subs d)"
      using that holds_replay[OF _ assms(2)] by (fastforce simp: dispatcher_holds_def queues_hold_def list_all_iff)
    then show "dispatcher_holds c (d\<lparr>d_subscriptions := ?subs d\<rparr>)"
      using that by (simp add: dispatcher_holds_def dispatcher_wf_def keys del: map_map)
  qed
  then show ?thesis
    using assms(1)
    by (fastforce simp: handle_finish_replay_def registry_holds_def list_all_iff keys simp del: map_map)
qed

end

text \<open>Every queue of a registry satisfies the invariant of queues.\<close>

lemma finish_replay_sorted:
  "queue_inv ser q \<Longrightarrow> list_all (\<lambda>e. ev_seq e < U64_MAX) es \<Longrightarrow> queue_inv ser (finish_replay ser es q)"
  by (rule finish_replay_inv)

interpretation queues_sorted: queue_contract ser "\<lambda>_ _. True" "\<lambda>_ _. queue_inv ser" "\<lambda>_ e. ev_seq e < U64_MAX"
  for ser
proof unfold_locales
  show "queue_inv ser (sub_queue_new (sk_channel k))" for k
    by (simp add: queue_inv_def sub_queue_new_def bt_wf_def)
  show "queue_inv ser (snd (pop ser ts q))" if "queue_inv ser q" for q ts
    using pop_inv(1)[OF that] by (metis prod.collapse)
qed (rule push_live_inv(1) finish_replay_sorted; assumption)+

text \<open>
  A queue is isolated when its channel is the key's and its events are among those published on the
  key, and when its connection subscribed to the key.
\<close>

definition isolated ::
  "(nat \<Rightarrow> subscription_key \<Rightarrow> bool) \<Rightarrow> (subscription_key \<Rightarrow> event set) \<Rightarrow> nat \<Rightarrow> subscription_key \<Rightarrow> sub_queue \<Rightarrow> bool" where
  "isolated subscribed published c k q \<longleftrightarrow> subscribed c k \<and> q_channel q = sk_channel k
     \<and> set (q_ready q) \<subseteq> published k \<and> snd ` set (q_pending q) \<subseteq> published k"

lemma isolated_lock: "isolated S A c k q \<Longrightarrow> isolated S A c k (lock_or_close q)"
  by (simp add: isolated_def lock_or_close_def)

lemma isolated_stage: "isolated S A c k q \<Longrightarrow> e \<in> A k \<Longrightarrow> isolated S A c k (stage ser e q)"
  by (auto simp: isolated_def stage_def bt_insert_def Let_def)

lemma isolated_drain: "isolated S A c k q \<Longrightarrow> isolated S A c k (drain_pending ser q)"
proof -
  assume iso: "isolated S A c k q"
  let ?q = "if q_next_seq q = None then q\<lparr>q_next_seq := first_cursor q\<rparr> else q"
  have "isolated S A c k (drain_loop ser ?q) \<and> drained (drain_loop ser ?q)"
  proof (rule drain_loop_invariant[of "isolated S A c k"])
    show "isolated S A c k ?q" using iso by (simp add: isolated_def)
    fix q n e
    assume q: "isolated S A c k q" "map_of (q_pending q) n = Some e"
    then have "e \<in> A k" by (force simp: isolated_def dest: map_of_SomeD)
    then show "isolated S A c k (take_pending ser n e q)"
      using q by (auto simp: isolated_def take_pending_def push_ready_def bt_remove_def Let_def)
  next
    fix q n through
    assume "isolated S A c k q"
    then show "isolated S A c k (skip_overflow ser through q)"
      by (auto simp: isolated_def skip_overflow_def Let_def)
  qed
  then show ?thesis by (simp add: drain_pending_def)
qed

lemma isolated_pop: "isolated S A c k q \<Longrightarrow> isolated S A c k (snd (pop ser ts q))"
proof -
  assume iso: "isolated S A c k q"
  obtain r q' where p: "pop ser ts q = (r, q')" by (cases "pop ser ts q")
  from p have "isolated S A c k q'"
    by (cases rule: pop_cases) (use isolated_lock[OF iso] in \<open>auto simp: isolated_def\<close>)
  then show ?thesis using p by simp
qed

lemma isolated_popped:
  assumes "isolated S A c k q" and "pop ser ts q = (Some e, q')"
  shows "e \<in> A k \<or> (\<exists>q. e = drop_summary q ts \<and> q_channel q = sk_channel k)"
  using assms(2)
  by (cases rule: pop_cases) (use isolated_lock[OF assms(1)] in \<open>auto simp: isolated_def\<close>)

interpretation queues_isolated: queue_contract ser S "isolated S A" "\<lambda>k e. e \<in> A k" for ser S A
proof unfold_locales
  show "isolated S A c k (sub_queue_new (sk_channel k))" if "S c k" for c k
    using that by (simp add: isolated_def sub_queue_new_def)
  show "isolated S A c k (snd (pop ser ts q))" if "isolated S A c k q" for c k q ts
    using that by (rule isolated_pop)
  show "isolated S A c k (push_live ser e q)" if "isolated S A c k q" "e \<in> A k" for c k q e
    using isolated_drain[OF isolated_stage[OF isolated_lock[OF that(1)] that(2)]]
      isolated_stage[OF isolated_lock[OF that(1)] that(2)] isolated_lock[OF that(1)]
    by (simp add: push_live_def Let_def)
  show "isolated S A c k (finish_replay ser es q)" if "isolated S A c k q" "list_all (\<lambda>e. e \<in> A k) es" for c k q es
  proof -
    have staged: "isolated S A c k q \<Longrightarrow> isolated S A c k (fold (stage ser) es q)" for q
      using that(2) by (induction es arbitrary: q) (simp_all add: isolated_stage)
    let ?q = "(fold (stage ser) es (lock_or_close q))\<lparr>q_replaying := False\<rparr>"
    have "isolated S A c k (?q\<lparr>q_next_seq := first_cursor ?q\<rparr>)"
      using staged[OF isolated_lock[OF that(1)]] by (simp add: isolated_def)
    then show ?thesis
      using isolated_drain isolated_lock[OF that(1)] by (simp add: finish_replay_def Let_def)
  qed
qed

section \<open>Properties\<close>

text \<open>
  C15. Round-robin delivery is fair: on a running connection with any number of subscriptions, the
  event at the head of a subscription's queue is delivered within as many turns as there are
  subscriptions, whatever the other queues hold.
\<close>

theorem dispatch_is_fair:
  assumes "dispatcher_wf d" and "running d"
    and "map_of (d_subscriptions d) key = Some q"
    and "\<not> q_poisoned q" and "\<not> q_replaying q" and "\<not> q_closed q" and "q_ready q = e # es"
    and "d_cursor d + length (d_order d) < 2 ^ 64"
    and "length tss = length (d_order d)"
  shows "Deliver e \<in> set (turns ser tss d)"
proof -
  let ?L = "length (d_order d)"
  have "key \<in> set (d_order d)" using assms(1) map_of_SomeD[OF assms(3)] unfolding dispatcher_wf_def by (metis fst_conv image_eqI set_map)
  then obtain p where p: "p < ?L" "d_order d ! p = key" by (auto simp: in_set_conv_nth)
  define n where "n = (p + ?L - d_cursor d mod ?L) mod ?L"
  have n: "n < ?L" using p(1) unfolding n_def by (intro mod_less_divisor) linarith
  have lt: "d_cursor d mod ?L < ?L" using p(1) by (intro mod_less_divisor) linarith
  have "(d_cursor d + n) mod ?L = (d_cursor d mod ?L + (p + ?L - d_cursor d mod ?L)) mod ?L"
    by (simp add: n_def mod_add_left_eq mod_add_right_eq)
  also have "\<dots> = p" using p(1) lt by simp
  finally have "d_order d ! ((d_cursor d + n) mod ?L) = key" using p(2) by simp
  then show ?thesis
    using assms n by (intro served_within[of d key q e n]) (auto simp: open_with_def)
qed

definition sample_dispatcher :: dispatcher where
  "sample_dispatcher =
     (let a = \<lparr>sk_owner = sample_owner, sk_channel = ''user.a''\<rparr>;
          b = \<lparr>sk_owner = sample_owner, sk_channel = ''user.b''\<rparr>;
          q = \<lambda>ch es. (sub_queue_new ch)\<lparr>q_replaying := False, q_ready := es\<rparr>
      in dispatcher_new\<lparr>d_subscriptions := [(a, q ''user.a'' [sample_event 1, sample_event 2]),
            (b, q ''user.b'' [sample_event 7])], d_order := [a, b]\<rparr>)"

theorem dispatch_is_fair_witness:
  "Deliver (sample_event 7) \<in> set (turns sample_serde [0, 0] sample_dispatcher)"
  by (rule dispatch_is_fair[where key = "\<lparr>sk_owner = sample_owner, sk_channel = ''user.b''\<rparr>"
        and q = "(sub_queue_new ''user.b'')\<lparr>q_replaying := False, q_ready := [sample_event 7]\<rparr>"])
    (simp_all add: sample_dispatcher_def dispatcher_wf_def running_def dispatcher_new_def
      sub_queue_new_def Let_def)

end
