(* ===== verification/Event_Bus.thy ===== *)
theory Event_Bus
  imports Event_Dispatch
begin

text \<open>
  The event bus as a whole (\<open>EventBus\<close> of \<open>kernel/eventbus.rs\<close>) and the handlers of the publish,
  subscribe and unsubscribe requests. The replay half (rings and pointer indexes) and the
  subscriptions are the two parts of its state. The operations release their locks between the
  phases, so the requests are also given as a step relation in which publications and
  subscriptions are in flight. Decoding of request parameters is the serializer library's and is
  an argument; what is used of it is stated as \<open>decodes_objects\<close> and \<open>decodes_positions\<close>.
\<close>

section \<open>The bus\<close>

record event_bus =
  eb_replay :: replay
  eb_subscriptions :: subscription_registry

definition event_bus_default :: event_bus where
  "event_bus_default = \<lparr>eb_replay = replay_default, eb_subscriptions = subscription_registry_default\<rparr>"

definition replay_quarantined_error :: rpc_error where
  "replay_quarantined_error = internal ''event replay subsystem is quarantined; restart the kernel''"

definition ensure_replay_subsystem :: "event_bus \<Rightarrow> (rpc_error, unit) result" where
  "ensure_replay_subsystem b =
     (if channels_is_quarantined (fst (eb_replay b)) \<or> durable_is_quarantined (snd (eb_replay b))
      then Inl replay_quarantined_error else Inr ())"

definition quarantined_event :: "int \<Rightarrow> string \<Rightarrow> json \<Rightarrow> event" where
  "quarantined_event ts channel payload =
     \<lparr>ev_channel = channel, ev_seq = U64_MAX, ev_ts = ts, ev_payload = payload\<rparr>"

definition channels_publish ::
  "serde \<Rightarrow> int \<Rightarrow> owner_key \<Rightarrow> string \<Rightarrow> json \<Rightarrow> (durable_channel \<times> int) option \<Rightarrow> replay \<Rightarrow> event \<times> replay" where
  "channels_publish ser ts owner channel payload durable st =
     (case channel_publish ser ts owner channel payload durable False st of
        (Inr e, st') \<Rightarrow> (e, st')
      | (Inl _, st') \<Rightarrow> (quarantined_event ts channel payload, st'))"

definition channels_publish_user ::
  "serde \<Rightarrow> int \<Rightarrow> owner_key \<Rightarrow> string \<Rightarrow> json \<Rightarrow> replay \<Rightarrow> (rpc_error, event) result \<times> replay" where
  "channels_publish_user ser ts owner channel payload st =
     (case channel_publish ser ts owner channel payload None True st of
        (Inr e, st') \<Rightarrow> (Inr e, st')
      | (Inl UserIdentityLimit, st') \<Rightarrow>
          (Inl (RpcError QUOTA_EXCEEDED (''session has reached the '' @ dec user_channels_per_owner_max
             @ '' user-channel identity limit'')), st')
      | (Inl Quarantined, st') \<Rightarrow> (Inl replay_quarantined_error, st'))"

definition bus_deliver :: "serde \<Rightarrow> owner_key \<Rightarrow> string \<Rightarrow> event \<Rightarrow> event_bus \<Rightarrow> event_bus" where
  "bus_deliver ser owner channel e b =
     b\<lparr>eb_subscriptions := registry_deliver ser owner channel e (eb_subscriptions b)\<rparr>"

definition bus_publish_inner ::
  "serde \<Rightarrow> int \<Rightarrow> owner_key \<Rightarrow> string \<Rightarrow> json \<Rightarrow> (durable_channel \<times> int) option \<Rightarrow> event_bus \<Rightarrow> event \<times> event_bus" where
  "bus_publish_inner ser ts owner channel payload durable b =
     (let (e, st) = channels_publish ser ts owner channel payload durable (eb_replay b);
          b1 = b\<lparr>eb_replay := st\<rparr>
      in case ensure_replay_subsystem b1 of
           Inl _ \<Rightarrow> (e, b1)
         | Inr _ \<Rightarrow> (e, bus_deliver ser owner channel e b1))"

definition bus_publish :: "serde \<Rightarrow> int \<Rightarrow> owner_key \<Rightarrow> string \<Rightarrow> json \<Rightarrow> event_bus \<Rightarrow> event \<times> event_bus" where
  "bus_publish ser ts owner channel payload = bus_publish_inner ser ts owner channel payload None"

definition bus_publish_journal :: "serde \<Rightarrow> int \<Rightarrow> owner_key \<Rightarrow> int \<Rightarrow> json \<Rightarrow> event_bus \<Rightarrow> event \<times> event_bus" where
  "bus_publish_journal ser ts owner entry_id payload =
     bus_publish_inner ser ts owner ''journal'' payload (Some (Journal, entry_id))"

definition bus_publish_transcript :: "serde \<Rightarrow> int \<Rightarrow> owner_key \<Rightarrow> int \<Rightarrow> json \<Rightarrow> event_bus \<Rightarrow> event \<times> event_bus" where
  "bus_publish_transcript ser ts owner entry_id payload =
     bus_publish_inner ser ts owner ''session.transcript'' payload (Some (Transcript, entry_id))"

definition bus_publish_user ::
  "serde \<Rightarrow> int \<Rightarrow> owner_key \<Rightarrow> string \<Rightarrow> json \<Rightarrow> event_bus \<Rightarrow> (rpc_error, event) result \<times> event_bus" where
  "bus_publish_user ser ts owner channel payload b =
     (case bindR (validate_user_event ser channel payload) (\<lambda>_. ensure_replay_subsystem b) of
        Inl err \<Rightarrow> (Inl err, b)
      | Inr _ \<Rightarrow>
          (case channels_publish_user ser ts owner channel payload (eb_replay b) of
             (Inl err, st) \<Rightarrow> (Inl err, b\<lparr>eb_replay := st\<rparr>)
           | (Inr e, st) \<Rightarrow>
               let b1 = b\<lparr>eb_replay := st\<rparr>
               in case ensure_replay_subsystem b1 of
                    Inl err \<Rightarrow> (Inl err, b1)
                  | Inr _ \<Rightarrow> (Inr e, bus_deliver ser owner channel e b1)))"

definition bus_read ::
  "owner_key \<Rightarrow> string \<Rightarrow> nat option \<Rightarrow> nat option \<Rightarrow> event_bus \<Rightarrow> event list \<times> event_bus" where
  "bus_read owner channel since limit b =
     (let (reg, di) = eb_replay b; (es, reg1) = channel_read owner channel since limit reg
      in (es, b\<lparr>eb_replay := (reg1, di)\<rparr>))"

definition bus_subscribe ::
  "serde \<Rightarrow> bool \<Rightarrow> nat \<Rightarrow> owner_key \<Rightarrow> string \<Rightarrow> nat option \<Rightarrow> nat \<Rightarrow> event_bus
   \<Rightarrow> (rpc_error, unit) result \<times> event_bus" where
  "bus_subscribe ser spawn_ok conn owner channel since max_per_session b =
     (case ensure_replay_subsystem b of
        Inl err \<Rightarrow> (Inl err, b)
      | Inr _ \<Rightarrow>
          (case registry_subscribe spawn_ok conn owner channel max_per_session (eb_subscriptions b) of
             (Inl err, r) \<Rightarrow> (Inl err, b\<lparr>eb_subscriptions := r\<rparr>)
           | (Inr is_new, r) \<Rightarrow>
               let b1 = b\<lparr>eb_subscriptions := r\<rparr>;
                   (replay, b2) = (if is_new then bus_read owner channel since None b1 else ([], b1))
               in (Inr (), b2\<lparr>eb_subscriptions :=
                    handle_finish_replay ser conn owner channel is_new replay (eb_subscriptions b2)\<rparr>)))"

definition bus_unsubscribe :: "nat \<Rightarrow> owner_key \<Rightarrow> string \<Rightarrow> event_bus \<Rightarrow> event_bus" where
  "bus_unsubscribe conn owner channel b =
     b\<lparr>eb_subscriptions := registry_unsubscribe conn owner channel (eb_subscriptions b)\<rparr>"

definition bus_remove_conn :: "nat \<Rightarrow> event_bus \<Rightarrow> event_bus" where
  "bus_remove_conn conn b = b\<lparr>eb_subscriptions := registry_remove_conn conn (eb_subscriptions b)\<rparr>"

definition bus_remove_owner :: "owner_key \<Rightarrow> event_bus \<Rightarrow> event_bus" where
  "bus_remove_owner owner b =
     (let b1 = b\<lparr>eb_replay := channel_remove_owner owner (eb_replay b)\<rparr>
      in b1\<lparr>eb_subscriptions := registry_remove_owner owner (eb_subscriptions b1)\<rparr>)"

section \<open>The requests\<close>

record attachment =
  at_owner :: owner_key
  at_principal :: string

record events_sub_params =
  es_channel :: string
  es_since :: "nat option"

record events_publish_params =
  ep_channel :: string
  ep_payload :: json

definition not_attached :: rpc_error where
  "not_attached = RpcError NOT_ATTACHED ''attach to a session first''"

fun json_get :: "string \<Rightarrow> json \<Rightarrow> json option" where
  "json_get k (JObject fs) = map_of fs k"
| "json_get k _ = None"

fun as_str :: "json \<Rightarrow> string option" where
  "as_str (JString s) = Some s"
| "as_str _ = None"

definition require_journal_read :: "host \<Rightarrow> policy \<Rightarrow> attachment \<Rightarrow> (rpc_error, unit) result" where
  "require_journal_read h pol a =
     (if evaluate_effect h pol (at_principal a) JournalRead = Allow then Inr ()
      else Inl (denied ''journal read is not granted for the attached principal''))"

definition require_journal_event_read ::
  "host \<Rightarrow> policy \<Rightarrow> json \<Rightarrow> attachment \<Rightarrow> (rpc_error, unit) result" where
  "require_journal_event_read h pol params a =
     (if Option.bind (json_get ''channel'' params) as_str = Some ''journal''
      then require_journal_read h pol a else Inr ())"

type_synonym 'p decoder = "json \<Rightarrow> (rpc_error, 'p) result"

definition handle_events_subscribe ::
  "host \<Rightarrow> policy \<Rightarrow> events_sub_params decoder \<Rightarrow> serde \<Rightarrow> bool \<Rightarrow> nat \<Rightarrow> json \<Rightarrow> nat \<Rightarrow> attachment option \<Rightarrow> bool
   \<Rightarrow> event_bus \<Rightarrow> (rpc_error, string \<times> bool) result \<times> event_bus" where
  "handle_events_subscribe h pol decode ser spawn_ok max_per_session params client attached live b =
     (case attached of
        None \<Rightarrow> (Inl not_attached, b)
      | Some a \<Rightarrow>
          (case bindR (require_journal_event_read h pol params a) (\<lambda>_. bindR (decode params) (\<lambda>p.
                bindR (validate_channel_name (es_channel p)) (\<lambda>_. Inr p))) of
             Inl err \<Rightarrow> (Inl err, b)
           | Inr p \<Rightarrow>
               if \<not> live then (Inl (internal ''subscription requires a live connection''), b)
               else (case bus_subscribe ser spawn_ok client (at_owner a) (es_channel p) (es_since p)
                            max_per_session b of
                       (Inl err, b1) \<Rightarrow> (Inl err, b1)
                     | (Inr _, b1) \<Rightarrow> (Inr (es_channel p, True), b1))))"

definition handle_events_unsubscribe ::
  "events_sub_params decoder \<Rightarrow> json \<Rightarrow> nat \<Rightarrow> attachment option \<Rightarrow> event_bus
   \<Rightarrow> (rpc_error, string \<times> bool) result \<times> event_bus" where
  "handle_events_unsubscribe decode params client attached b =
     (case attached of
        None \<Rightarrow> (Inl not_attached, b)
      | Some a \<Rightarrow>
          (case bindR (decode params) (\<lambda>p. bindR (validate_channel_name (es_channel p)) (\<lambda>_. Inr p)) of
             Inl err \<Rightarrow> (Inl err, b)
           | Inr p \<Rightarrow> (Inr (es_channel p, False), bus_unsubscribe client (at_owner a) (es_channel p) b)))"

text \<open>
  The reply of a publication carries the outcome of mirroring it into the session's language
  channels, which is computed from the payload and the session and is an argument here.
\<close>

record 'm events_publish_reply =
  pr_channel :: string
  pr_seq :: nat
  pr_ts :: int
  pr_language_mirror :: 'm

definition handle_events_publish ::
  "events_publish_params decoder \<Rightarrow> serde \<Rightarrow> int \<Rightarrow> (string \<Rightarrow> json \<Rightarrow> 'm) \<Rightarrow> json \<Rightarrow> attachment option \<Rightarrow> event_bus
   \<Rightarrow> (rpc_error, 'm events_publish_reply) result \<times> event_bus" where
  "handle_events_publish decode ser ts mirror params attached b =
     (case attached of
        None \<Rightarrow> (Inl not_attached, b)
      | Some a \<Rightarrow>
          (case bindR (decode params) (\<lambda>p.
                bindR (validate_user_event ser (ep_channel p) (ep_payload p)) (\<lambda>_. Inr p)) of
             Inl err \<Rightarrow> (Inl err, b)
           | Inr p \<Rightarrow>
               (case bus_publish_user ser ts (at_owner a) (ep_channel p) (ep_payload p) b of
                  (Inl err, b1) \<Rightarrow> (Inl err, b1)
                | (Inr e, b1) \<Rightarrow>
                    (Inr \<lparr>pr_channel = ev_channel e, pr_seq = ev_seq e, pr_ts = ev_ts e,
                          pr_language_mirror = mirror (ep_channel p) (ep_payload p)\<rparr>, b1))))"

section \<open>Requests in flight\<close>

text \<open>
  Locks are not held across the phases of a publication (ring, then delivery) and of a
  subscription (registration, snapshot, merge), so each phase is a step of its own, and any lock may
  be poisoned in between. The state carries what is in flight and a ghost record of the publications
  under each key, of the subscriptions with the principal and the parameters they were granted for,
  and of what each connection was sent.
\<close>

datatype fault =
    CoordinationFault | BuffersFault | JournalIndexFault | TranscriptIndexFault | ConnectionsFault
  | SubscriptionsFault nat | OrderFault nat | WakeFault nat | QueueFault nat subscription_key

definition on_dispatcher :: "nat \<Rightarrow> (dispatcher \<Rightarrow> dispatcher) \<Rightarrow> event_bus \<Rightarrow> event_bus" where
  "on_dispatcher c f b =
     b\<lparr>eb_subscriptions := (eb_subscriptions b)\<lparr>sr_connections :=
         map (\<lambda>(c', d). (c', if c' = c then f d else d)) (sr_connections (eb_subscriptions b))\<rparr>\<rparr>"

fun poison :: "fault \<Rightarrow> event_bus \<Rightarrow> event_bus" where
  "poison CoordinationFault b =
     b\<lparr>eb_replay := ((fst (eb_replay b))\<lparr>ch_coordination_poisoned := True\<rparr>, snd (eb_replay b))\<rparr>"
| "poison BuffersFault b =
     b\<lparr>eb_replay := ((fst (eb_replay b))\<lparr>ch_buffers_poisoned := True\<rparr>, snd (eb_replay b))\<rparr>"
| "poison JournalIndexFault b =
     b\<lparr>eb_replay := (fst (eb_replay b), (snd (eb_replay b))\<lparr>di_journal_poisoned := True\<rparr>)\<rparr>"
| "poison TranscriptIndexFault b =
     b\<lparr>eb_replay := (fst (eb_replay b), (snd (eb_replay b))\<lparr>di_transcript_poisoned := True\<rparr>)\<rparr>"
| "poison ConnectionsFault b =
     b\<lparr>eb_subscriptions := (eb_subscriptions b)\<lparr>sr_connections_poisoned := True\<rparr>\<rparr>"
| "poison (SubscriptionsFault c) b = on_dispatcher c (\<lambda>d. d\<lparr>d_subscriptions_poisoned := True\<rparr>) b"
| "poison (OrderFault c) b = on_dispatcher c (\<lambda>d. d\<lparr>d_order_poisoned := True\<rparr>) b"
| "poison (WakeFault c) b = on_dispatcher c (\<lambda>d. d\<lparr>d_wake_poisoned := True\<rparr>) b"
| "poison (QueueFault c k) b = on_dispatcher c (\<lambda>d. d\<lparr>d_subscriptions :=
     map (\<lambda>(k', q). (k', if k' = k then q\<lparr>q_poisoned := True\<rparr> else q)) (d_subscriptions d)\<rparr>) b"

record subscription_grant =
  sg_conn :: nat
  sg_key :: subscription_key
  sg_principal :: string
  sg_params :: json

record bus_world =
  bw_bus :: event_bus
  bw_publishing :: "(subscription_key \<times> event) list"
  bw_subscribing :: "(nat \<times> subscription_key \<times> nat option) list"
  bw_replaying :: "(nat \<times> subscription_key \<times> event list) list"
  bw_published :: "(subscription_key \<times> event) set"
  bw_grants :: "subscription_grant set"
  bw_delivered :: "(nat \<times> event) list"

definition bus_start :: bus_world where
  "bus_start = \<lparr>bw_bus = event_bus_default, bw_publishing = [], bw_subscribing = [], bw_replaying = [],
     bw_published = {}, bw_grants = {}, bw_delivered = []\<rparr>"

abbreviation key_of :: "owner_key \<Rightarrow> string \<Rightarrow> subscription_key" where
  "key_of owner channel \<equiv> \<lparr>sk_owner = owner, sk_channel = channel\<rparr>"

definition bus_commit ::
  "serde \<Rightarrow> int \<Rightarrow> owner_key \<Rightarrow> string \<Rightarrow> json \<Rightarrow> (durable_channel \<times> int) option \<Rightarrow> bool \<Rightarrow> bus_world \<Rightarrow> bus_world" where
  "bus_commit ser ts owner channel payload durable user w =
     (let (r, st) = channel_publish ser ts owner channel payload durable user (eb_replay (bw_bus w));
          w1 = w\<lparr>bw_bus := (bw_bus w)\<lparr>eb_replay := st\<rparr>\<rparr>
      in case r of
           Inr e \<Rightarrow> w1\<lparr>bw_publishing := (key_of owner channel, e) # bw_publishing w,
                        bw_published := insert (key_of owner channel, e) (bw_published w)\<rparr>
         | Inl _ \<Rightarrow> if user then w1
                    else w1\<lparr>bw_publishing := (key_of owner channel, quarantined_event ts channel payload) # bw_publishing w\<rparr>)"

inductive bus_step ::
  "host \<Rightarrow> policy \<Rightarrow> events_sub_params decoder \<Rightarrow> serde \<Rightarrow> bus_world \<Rightarrow> bus_world \<Rightarrow> bool"
  for h pol decode ser
where
  commit: "bus_step h pol decode ser w (bus_commit ser ts owner channel payload durable user w)"
| deliver: "x \<in> set (bw_publishing w) \<Longrightarrow> ensure_replay_subsystem (bw_bus w) = Inr () \<Longrightarrow>
    bus_step h pol decode ser w (w\<lparr>bw_publishing := remove1 x (bw_publishing w),
      bw_bus := bus_deliver ser (sk_owner (fst x)) (sk_channel (fst x)) (snd x) (bw_bus w)\<rparr>)"
| abandon: "bus_step h pol decode ser w (w\<lparr>bw_publishing := remove1 x (bw_publishing w)\<rparr>)"
| register: "require_journal_event_read h pol params a = Inr () \<Longrightarrow> decode params = Inr p \<Longrightarrow>
    validate_channel_name (es_channel p) = Inr () \<Longrightarrow>
    registry_subscribe spawn_ok conn (at_owner a) (es_channel p) cap (eb_subscriptions (bw_bus w)) = (r, subs) \<Longrightarrow>
    bus_step h pol decode ser w (w\<lparr>bw_bus := (bw_bus w)\<lparr>eb_subscriptions := subs\<rparr>,
      bw_subscribing := (case r of Inr True \<Rightarrow> [(conn, key_of (at_owner a) (es_channel p), es_since p)] | _ \<Rightarrow> [])
        @ bw_subscribing w,
      bw_grants := (case r of Inr _ \<Rightarrow> {\<lparr>sg_conn = conn, sg_key = key_of (at_owner a) (es_channel p),
          sg_principal = at_principal a, sg_params = params\<rparr>} | Inl _ \<Rightarrow> {}) \<union> bw_grants w\<rparr>)"
| snapshot: "(conn, key, since) \<in> set (bw_subscribing w) \<Longrightarrow>
    bus_read (sk_owner key) (sk_channel key) since None (bw_bus w) = (es, b) \<Longrightarrow>
    bus_step h pol decode ser w (w\<lparr>bw_bus := b,
      bw_subscribing := remove1 (conn, key, since) (bw_subscribing w),
      bw_replaying := (conn, key, es) # bw_replaying w\<rparr>)"
| merge: "(conn, key, es) \<in> set (bw_replaying w) \<Longrightarrow>
    bus_step h pol decode ser w (w\<lparr>bw_bus := (bw_bus w)\<lparr>eb_subscriptions := handle_finish_replay ser conn
        (sk_owner key) (sk_channel key) True es (eb_subscriptions (bw_bus w))\<rparr>,
      bw_replaying := remove1 (conn, key, es) (bw_replaying w)\<rparr>)"
| unsubscribe: "bus_step h pol decode ser w (w\<lparr>bw_bus := bus_unsubscribe conn owner channel (bw_bus w)\<rparr>)"
| remove_conn: "bus_step h pol decode ser w (w\<lparr>bw_bus := bus_remove_conn conn (bw_bus w)\<rparr>)"
| remove_channels: "bus_step h pol decode ser w
    (w\<lparr>bw_bus := (bw_bus w)\<lparr>eb_replay := channel_remove_owner owner (eb_replay (bw_bus w))\<rparr>\<rparr>)"
| remove_subscriptions: "bus_step h pol decode ser w
    (w\<lparr>bw_bus := (bw_bus w)\<lparr>eb_subscriptions := registry_remove_owner owner (eb_subscriptions (bw_bus w))\<rparr>\<rparr>)"
| hydrate: "bus_step h pol decode ser w (w\<lparr>bw_bus := (bw_bus w)\<lparr>eb_replay :=
    snd (seed_durable which owner (durable_name which) published ids (eb_replay (bw_bus w)))\<rparr>\<rparr>)"
| dispatch: "map_of (sr_connections (eb_subscriptions (bw_bus w))) conn = Some d \<Longrightarrow>
    dispatch_turn ser ts writer_poisoned write_ok d = (sent, alive, d') \<Longrightarrow>
    bus_step h pol decode ser w (w\<lparr>bw_bus := on_dispatcher conn (\<lambda>_. d') (bw_bus w),
      bw_delivered := bw_delivered w @ (case sent of Some e \<Rightarrow> [(conn, e)] | None \<Rightarrow> [])\<rparr>)"
| fault: "bus_step h pol decode ser w (w\<lparr>bw_bus := poison f (bw_bus w)\<rparr>)"

inductive bus_reachable ::
  "host \<Rightarrow> policy \<Rightarrow> events_sub_params decoder \<Rightarrow> serde \<Rightarrow> bus_world \<Rightarrow> bool" for h pol decode ser
where
  start: "bus_reachable h pol decode ser bus_start"
| step: "bus_reachable h pol decode ser w \<Longrightarrow> bus_step h pol decode ser w w' \<Longrightarrow> bus_reachable h pol decode ser w'"

section \<open>The rings hold what was published\<close>

lemma key_of_sel [simp]: "key_of (sk_owner k) (sk_channel k) = k"
  by (cases k) simp

definition ring_published :: "(subscription_key \<times> event) set \<Rightarrow> channel_registry \<Rightarrow> bool" where
  "ring_published P reg \<longleftrightarrow>
     (\<forall>ow name b r. ((ow, name), b) \<in> set (ch_buffers reg) \<longrightarrow> r \<in> set (cb_ring b) \<longrightarrow> (key_of ow name, re_event r) \<in> P)"

lemma ring_published_mono: "ring_published P reg \<Longrightarrow> P \<subseteq> Q \<Longrightarrow> ring_published Q reg"
  unfolding ring_published_def by blast

lemma in_update: "x \<in> set (AList.update k v xs) \<Longrightarrow> x = (k, v) \<or> x \<in> set xs"
  by (induction xs) (auto split: if_splits)

lemma evict_subset: "evict ring bytes = (bad, ring', bytes') \<Longrightarrow> set ring' \<subseteq> set ring"
proof (induction ring bytes rule: evict.induct)
  case (1 ring bytes)
  from 1(2)[unfolded evict.simps[of ring]] show ?case
    by (auto split: if_splits list.splits dest: 1(1)[THEN subsetD, rotated -1])
qed

lemma ring_append_subset:
  assumes "ring_append ser e b = (bad, b')"
  shows "re_event ` set (cb_ring b') \<subseteq> insert e (re_event ` set (cb_ring b))"
proof -
  obtain bad1 r1 n1 bad2 r2 n2 where
    "evict (cb_ring b @ [\<lparr>re_event = e, re_bytes = event_retained_bytes ser e\<rparr>]) (cb_ring_bytes b + event_retained_bytes ser e) = (bad1, r1, n1)"
    "evict (cb_ring b) (cb_ring_bytes b) = (bad2, r2, n2)" by (metis surj_pair)
  with evict_subset[OF this(1)] evict_subset[OF this(2)] assms show ?thesis
    by (auto simp: ring_append_def Let_def split: if_splits)
qed

lemma ring_published_update:
  "ring_published P reg \<Longrightarrow> (\<And>r. r \<in> set (cb_ring b) \<Longrightarrow> (key_of ow name, re_event r) \<in> P) \<Longrightarrow>
    ring_published P (reg\<lparr>ch_buffers := AList.update (ow, name) b (ch_buffers reg)\<rparr>)"
  unfolding ring_published_def by (auto dest!: in_update)

lemma ring_published_buffer:
  "ring_published P reg \<Longrightarrow> r \<in> set (cb_ring (buffer_of (ch_buffers reg) (ow, name))) \<Longrightarrow> (key_of ow name, re_event r) \<in> P"
  by (auto simp: ring_published_def buffer_of_def channel_buf_default_def dest: map_of_SomeD split: option.splits)

lemma ring_published_flag [simp]:
  "ring_published P (reg\<lparr>ch_quarantined := x\<rparr>) = ring_published P reg"
  "ring_published P (reg\<lparr>ch_coordination_poisoned := x\<rparr>) = ring_published P reg"
  "ring_published P (reg\<lparr>ch_buffers_poisoned := x\<rparr>) = ring_published P reg"
  by (simp_all add: ring_published_def)

lemma publish_rings:
  assumes "ring_published P reg"
    and "channel_publish ser ts owner channel payload durable user (reg, di) = (r, reg', di')"
  shows "ring_published (case r of Inr e \<Rightarrow> insert (key_of owner channel, e) P | Inl _ \<Rightarrow> P) reg'"
proof -
  let ?key = "(owner, channel)"
  let ?b = "buffer_of (ch_buffers reg) ?key"
  let ?e = "\<lparr>ev_channel = channel, ev_seq = cb_next_seq ?b, ev_ts = ts, ev_payload = payload\<rparr>"
  obtain bad b1 where app: "ring_append ser ?e (?b\<lparr>cb_next_seq := cb_next_seq ?b + 1\<rparr>) = (bad, b1)" by fastforce
  let ?reg1 = "reg\<lparr>ch_buffers := AList.update ?key ?b (ch_buffers reg)\<rparr>"
  let ?Q = "insert (key_of owner channel, ?e) P"
  have reg1: "ring_published P ?reg1"
    using assms(1) ring_published_buffer[OF assms(1)] by (intro ring_published_update) auto
  have "ring_published ?Q (?reg1\<lparr>ch_buffers := AList.update ?key b1 (ch_buffers ?reg1)\<rparr>)"
  proof (rule ring_published_update)
    show "ring_published ?Q ?reg1" using ring_published_mono[OF reg1] by blast
    show "(key_of owner channel, re_event r) \<in> ?Q" if "r \<in> set (cb_ring b1)" for r
      using that ring_append_subset[OF app] ring_published_buffer[OF assms(1)] by fastforce
  qed
  with reg1 assms app show ?thesis
    unfolding channel_publish_def Let_def prod.case
    by (auto split: if_splits option.splits prod.splits)
qed

lemma publish_refused:
  "channel_publish ser ts owner channel payload durable False st = (Inl x, st') \<Longrightarrow> replay_quarantined st'"
  by (cases st) (auto simp: channel_publish_def Let_def replay_quarantined_def channels_is_quarantined_def
      split: if_splits option.splits prod.splits)

lemma seed_rings:
  "ring_published P (fst st) \<Longrightarrow> ring_published P (fst (snd (seed_durable which owner name n ids st)))"
  by (cases st) (auto simp: seed_durable_def dest: ring_published_buffer
      intro!: ring_published_update split: if_splits option.splits prod.splits)

lemma remove_rings: "ring_published P (fst st) \<Longrightarrow> ring_published P (fst (channel_remove_owner owner st))"
  by (cases st) (auto simp: channel_remove_owner_def ring_published_def)

lemma read_rings:
  assumes "ring_published P reg" and "channel_read owner channel since limit reg = (es, reg')"
  shows "ring_published P reg' \<and> list_all (\<lambda>e. (key_of owner channel, e) \<in> P) es"
  using assms
  by (auto simp: channel_read_def ring_published_def list_all_iff split: if_splits option.splits
      dest!: map_of_SomeD in_set_takeD)

section \<open>Isolation\<close>

definition subscribed :: "bus_world \<Rightarrow> nat \<Rightarrow> subscription_key \<Rightarrow> bool" where
  "subscribed w c k \<longleftrightarrow> (\<exists>g \<in> bw_grants w. sg_conn g = c \<and> sg_key g = k)"

definition published_on :: "bus_world \<Rightarrow> subscription_key \<Rightarrow> event set" where
  "published_on w k = {e. (k, e) \<in> bw_published w}"

definition summary_for :: "subscription_key \<Rightarrow> event \<Rightarrow> bool" where
  "summary_for k e \<longleftrightarrow> (\<exists>q ts. e = drop_summary q ts \<and> q_channel q = sk_channel k)"

definition entitled :: "bus_world \<Rightarrow> nat \<Rightarrow> event \<Rightarrow> bool" where
  "entitled w c e \<longleftrightarrow> (\<exists>k. subscribed w c k \<and> (e \<in> published_on w k \<or> summary_for k e))"

abbreviation isolated_in :: "bus_world \<Rightarrow> subscription_registry \<Rightarrow> bool" where
  "isolated_in w \<equiv> queue_contract.registry_holds (isolated (subscribed w) (published_on w))"

abbreviation isolated_dispatcher :: "bus_world \<Rightarrow> nat \<Rightarrow> dispatcher \<Rightarrow> bool" where
  "isolated_dispatcher w \<equiv> queue_contract.dispatcher_holds (isolated (subscribed w) (published_on w))"

definition grown :: "bus_world \<Rightarrow> bus_world \<Rightarrow> bool" where
  "grown w w' \<longleftrightarrow> bw_published w \<subseteq> bw_published w' \<and> bw_grants w \<subseteq> bw_grants w'"

definition bus_inv :: "bus_world \<Rightarrow> bool" where
  "bus_inv w \<longleftrightarrow> isolated_in w (eb_subscriptions (bw_bus w))
     \<and> ring_published (bw_published w) (fst (eb_replay (bw_bus w)))
     \<and> (\<forall>x \<in> set (bw_publishing w). x \<in> bw_published w \<or> replay_quarantined (eb_replay (bw_bus w)))
     \<and> (\<forall>(c, k, es) \<in> set (bw_replaying w). list_all (\<lambda>e. e \<in> published_on w k) es)
     \<and> (\<forall>(c, e) \<in> set (bw_delivered w). entitled w c e)
     \<and> (\<forall>x \<in> bw_published w. ev_channel (snd x) = sk_channel (fst x))"

lemma isolated_grown: "isolated (subscribed w) (published_on w) c k q \<Longrightarrow> grown w w' \<Longrightarrow> isolated (subscribed w') (published_on w') c k q"
  unfolding isolated_def grown_def subscribed_def published_on_def by blast

lemma isolated_in_grown: "isolated_in w r \<Longrightarrow> grown w w' \<Longrightarrow> isolated_in w' r"
  unfolding queues_isolated.registry_holds_def queues_isolated.dispatcher_holds_def queues_isolated.queues_hold_def list_all_iff
  by (fastforce dest: isolated_grown)

lemma entitled_grown: "entitled w c e \<Longrightarrow> grown w w' \<Longrightarrow> entitled w' c e"
  unfolding entitled_def grown_def subscribed_def published_on_def by blast

lemma scan_entitled:
  assumes "scan_queues ser ts keys subs = (Some e, subs')"
    and "queue_contract.queues_hold (isolated (subscribed w) (published_on w)) c subs"
  shows "entitled w c e"
  using assms
proof (induction keys arbitrary: subs)
  case (Cons key keys)
  show ?case
  proof (cases "map_of subs key")
    case None
    then show ?thesis using Cons by (simp add: scan_Cons)
  next
    case (Some q)
    have iso: "isolated (subscribed w) (published_on w) c key q"
      using queues_isolated.queues_holdD[OF Cons.prems(2) Some] .
    obtain r q' where pop: "pop ser ts q = (r, q')" by (cases "pop ser ts q")
    have "queue_contract.queues_hold (isolated (subscribed w) (published_on w)) c (set_queue key q' subs)"
      using queues_isolated.set_queue_holds[OF Cons.prems(2)] isolated_pop[OF iso, of ser ts] pop by simp
    note rest = Cons.IH[OF _ this]
    have "entitled w c e" if "r = Some e"
      using that pop isolated_popped[OF iso, of ser ts e q'] iso
      unfolding entitled_def summary_for_def isolated_def by blast
    then show ?thesis using rest Cons.prems(1) Some pop by (cases r) (simp_all add: scan_Cons)
  qed
qed simp

lemma dispatch_isolated:
  assumes "isolated_dispatcher w c d" and "dispatch_turn ser ts wp ok d = (sent, alive, d')"
  shows "isolated_dispatcher w c d' \<and> (\<forall>e. sent = Some e \<longrightarrow> entitled w c e)"
proof -
  obtain t d1 where t: "next_event ser ts d = (t, d1)" by (cases "next_event ser ts d")
  have d1: "isolated_dispatcher w c d1"
    using queues_isolated.next_event_holds[OF assms(1), of ser ts] t by simp
  have "entitled w c e" if "t = Deliver e" for e
    using t that assms(1)
    by (auto simp: next_event_def Let_def queues_isolated.dispatcher_holds_def
        split: if_splits option.splits prod.splits intro: scan_entitled)
  then show ?thesis
    using assms(2) t d1 queues_isolated.closed_holds
    by (auto simp: dispatch_turn_def split: turn.splits if_splits)
qed

text \<open>A step that changes only the bus keeps the invariant when it keeps these three parts.\<close>

lemma bus_inv_bus:
  assumes "bus_inv w" and "isolated_in w (eb_subscriptions b)"
    and "ring_published (bw_published w) (fst (eb_replay b))"
    and "replay_quarantined (eb_replay (bw_bus w)) \<Longrightarrow> replay_quarantined (eb_replay b)"
  shows "bus_inv (w\<lparr>bw_bus := b\<rparr>)"
  using assms by (auto simp: bus_inv_def subscribed_def[abs_def] published_on_def[abs_def] entitled_def)

lemma bus_invD:
  assumes "bus_inv w"
  shows "isolated_in w (eb_subscriptions (bw_bus w))" and "ring_published (bw_published w) (fst (eb_replay (bw_bus w)))"
  using assms by (simp_all add: bus_inv_def)

lemma on_dispatcher_isolated:
  assumes "isolated_in w (eb_subscriptions b)" and "\<And>d. isolated_dispatcher w c d \<Longrightarrow> isolated_dispatcher w c (f d)"
  shows "isolated_in w (eb_subscriptions (on_dispatcher c f b))"
proof -
  have "map fst (map (\<lambda>(c', d). (c', if c' = c then f d else d)) xs) = map fst xs" for xs :: "(nat \<times> dispatcher) list"
    by (induction xs) auto
  then show ?thesis
    using assms unfolding on_dispatcher_def queues_isolated.registry_holds_def
    by (fastforce simp: list_all_iff simp del: map_map)
qed

lemma on_dispatcher_replay [simp]: "eb_replay (on_dispatcher c f b) = eb_replay b"
  by (simp add: on_dispatcher_def)

lemma poison_isolated:
  assumes "isolated_in w (eb_subscriptions b)"
  shows "isolated_in w (eb_subscriptions (poison f b))"
proof -
  have keys: "map fst (map (\<lambda>(k', q). (k', if k' = k then q\<lparr>q_poisoned := True\<rparr> else q)) xs) = map fst xs"
    for k and xs :: "(subscription_key \<times> sub_queue) list"
    by (induction xs) auto
  have disp: "isolated_dispatcher w c (d\<lparr>d_subscriptions_poisoned := True\<rparr>) = isolated_dispatcher w c d"
    "isolated_dispatcher w c (d\<lparr>d_order_poisoned := True\<rparr>) = isolated_dispatcher w c d"
    "isolated_dispatcher w c (d\<lparr>d_wake_poisoned := True\<rparr>) = isolated_dispatcher w c d" for c d
    by (simp_all add: queues_isolated.dispatcher_holds_def dispatcher_wf_def)
  have reg: "isolated_in w (r\<lparr>sr_connections_poisoned := True\<rparr>) = isolated_in w r" for r
    by (simp add: queues_isolated.registry_holds_def)
  have flag: "isolated S A c k (q\<lparr>q_poisoned := True\<rparr>) = isolated S A c k q" for S A c k q
    by (simp add: isolated_def)
  have queue: "isolated_dispatcher w c (d\<lparr>d_subscriptions :=
      map (\<lambda>(k', q). (k', if k' = k then q\<lparr>q_poisoned := True\<rparr> else q)) (d_subscriptions d)\<rparr>)"
    if "isolated_dispatcher w c d" for c d k
    using that keys[of k "d_subscriptions d"] flag
    by (fastforce simp: queues_isolated.dispatcher_holds_def queues_isolated.queues_hold_def dispatcher_wf_def
        list_all_iff simp del: map_map)
  show ?thesis
    using assms on_dispatcher_isolated[OF assms] disp queue reg by (cases f) simp_all
qed

lemma commit_inv:
  assumes "bus_inv w"
  shows "bus_inv (bus_commit ser ts owner channel payload durable user w)"
proof -
  let ?w = "bus_commit ser ts owner channel payload durable user w"
  obtain reg di where st: "eb_replay (bw_bus w) = (reg, di)" by fastforce
  obtain r reg' di' where pub: "channel_publish ser ts owner channel payload durable user (reg, di) = (r, reg', di')"
    by (metis surj_pair)
  have ring: "ring_published (bw_published w) reg" using assms st by (simp add: bus_inv_def)
  have sticky: "replay_quarantined (reg, di) \<Longrightarrow> replay_quarantined (reg', di')"
    using pub by (auto simp: channel_publish_def replay_quarantined_def)
  have chan: "ev_channel e = channel" if "r = Inr e" for e
    using pub that by (auto simp: channel_publish_def Let_def split: if_splits option.splits prod.splits)
  have grown: "grown w ?w" using st pub by (cases r) (auto simp: bus_commit_def Let_def grown_def)
  have subs: "eb_subscriptions (bw_bus ?w) = eb_subscriptions (bw_bus w)" "bw_replaying ?w = bw_replaying w"
    "bw_delivered ?w = bw_delivered w"
    using st pub by (cases r; auto simp: bus_commit_def Let_def)+
  have "isolated_in ?w (eb_subscriptions (bw_bus ?w))"
    using assms isolated_in_grown[OF _ grown] subs(1) by (simp add: bus_inv_def)
  moreover have "ring_published (bw_published ?w) (fst (eb_replay (bw_bus ?w)))"
    using publish_rings[OF ring pub] st pub by (cases r; auto simp: bus_commit_def Let_def)
  moreover have "\<forall>x \<in> set (bw_publishing ?w). x \<in> bw_published ?w \<or> replay_quarantined (eb_replay (bw_bus ?w))"
    using assms st pub sticky publish_refused[of ser ts owner channel payload durable "(reg, di)"]
    by (cases r) (auto simp: bus_commit_def Let_def bus_inv_def)
  moreover have "\<forall>x \<in> bw_published ?w. ev_channel (snd x) = sk_channel (fst x)"
    using assms st pub chan by (cases r) (auto simp: bus_commit_def Let_def bus_inv_def)
  moreover have "\<forall>(c, k, es) \<in> set (bw_replaying ?w). list_all (\<lambda>e. e \<in> published_on ?w k) es"
    using assms grown subs(2) by (fastforce simp: bus_inv_def grown_def published_on_def list_all_iff)
  moreover have "\<forall>(c, e) \<in> set (bw_delivered ?w). entitled ?w c e"
    using assms entitled_grown[OF _ grown] subs(3) by (auto simp: bus_inv_def)
  ultimately show ?thesis unfolding bus_inv_def by blast
qed

lemma sticky:
  "replay_quarantined st \<Longrightarrow> replay_quarantined (channel_remove_owner owner st)"
  "replay_quarantined st \<Longrightarrow> replay_quarantined (snd (seed_durable which owner (durable_name which) published ids st))"
  "replay_quarantined st \<Longrightarrow> channel_read owner channel since limit (fst st) = (es, reg) \<Longrightarrow> replay_quarantined (reg, snd st)"
  by (cases st; auto simp: channel_remove_owner_def seed_durable_def channel_read_def replay_quarantined_def split: if_splits)+

lemma poison_replay:
  "ring_published P (fst (eb_replay b)) \<Longrightarrow> ring_published P (fst (eb_replay (poison f b)))"
  "replay_quarantined (eb_replay b) \<Longrightarrow> replay_quarantined (eb_replay (poison f b))"
  by (cases f; auto simp: replay_quarantined_def channels_is_quarantined_def durable_is_quarantined_def)+

lemma step_inv:
  assumes "bus_step h pol decode ser w w'" and inv: "bus_inv w"
  shows "bus_inv w'"
  using assms(1)
proof cases
  case (commit ts owner channel payload durable user)
  then show ?thesis using commit_inv[OF inv] by simp
next
  case (deliver x)
  obtain k e where x: "x = (k, e)" by fastforce
  have "\<not> replay_quarantined (eb_replay (bw_bus w))"
    using deliver(3) by (auto simp: ensure_replay_subsystem_def replay_quarantined_def split: if_splits)
  then have "e \<in> published_on w k" using deliver(2) inv x by (auto simp: bus_inv_def published_on_def)
  then have "isolated_in w (registry_deliver ser (sk_owner k) (sk_channel k) e (eb_subscriptions (bw_bus w)))"
    using inv by (intro queues_isolated.registry_deliver_holds) (simp_all add: bus_inv_def)
  then have "bus_inv (w\<lparr>bw_bus := bus_deliver ser (sk_owner k) (sk_channel k) e (bw_bus w)\<rparr>)"
    using inv by (intro bus_inv_bus) (simp_all add: bus_deliver_def bus_inv_def)
  then show ?thesis
    using deliver(1) x set_remove1_subset[of x "bw_publishing w"]
    by (auto simp: bus_inv_def subscribed_def[abs_def] published_on_def[abs_def] entitled_def)
next
  case (abandon x)
  then show ?thesis
    using inv set_remove1_subset[of x "bw_publishing w"]
    by (auto simp: bus_inv_def subscribed_def[abs_def] published_on_def[abs_def] entitled_def)
next
  case (register params a p spawn_ok conn cap r subs)
  let ?k = "key_of (at_owner a) (es_channel p)"
  have grown: "grown w w'" using register(1) by (auto simp: grown_def)
  have "subscribed w' conn ?k" if "\<not> isl r" using register(1) that by (cases r) (auto simp: subscribed_def)
  then have "isolated_in w' subs"
    using queues_isolated.registry_subscribe_holds[of "subscribed w'" "published_on w'" "eb_subscriptions (bw_bus w)" spawn_ok conn "at_owner a" "es_channel p" cap]
      isolated_in_grown[OF _ grown] inv register(5) by (simp add: bus_inv_def)
  moreover have "published_on w' = published_on w" using register(1) by (simp add: published_on_def fun_eq_iff)
  ultimately show ?thesis
    using inv register(1) entitled_grown[OF _ grown] by (auto simp: bus_inv_def)
next
  case (snapshot conn key since es b)
  obtain reg' where read: "channel_read (sk_owner key) (sk_channel key) since None (fst (eb_replay (bw_bus w))) = (es, reg')"
    and b: "b = (bw_bus w)\<lparr>eb_replay := (reg', snd (eb_replay (bw_bus w)))\<rparr>"
    using snapshot(3) by (auto simp: bus_read_def Let_def split: prod.splits)
  note rings = read_rings[OF _ read, of "bw_published w"]
  have "bus_inv (w\<lparr>bw_bus := b\<rparr>)"
    using inv b rings sticky(3)[OF _ read] by (intro bus_inv_bus) (simp_all add: bus_inv_def)
  moreover have "list_all (\<lambda>e. e \<in> published_on w key) es"
    using inv rings by (simp add: bus_inv_def published_on_def)
  ultimately show ?thesis
    using snapshot(1) by (auto simp: bus_inv_def subscribed_def[abs_def] published_on_def[abs_def] entitled_def)
next
  case (merge conn key es)
  have "list_all (\<lambda>e. e \<in> published_on w (key_of (sk_owner key) (sk_channel key))) es"
    using inv merge(2) by (auto simp: bus_inv_def)
  then have "bus_inv (w\<lparr>bw_bus := (bw_bus w)\<lparr>eb_subscriptions := handle_finish_replay ser conn
      (sk_owner key) (sk_channel key) True es (eb_subscriptions (bw_bus w))\<rparr>\<rparr>)"
    using inv by (intro bus_inv_bus) (simp_all add: bus_inv_def queues_isolated.handle_finish_holds)
  then show ?thesis
    using merge(1) set_remove1_subset[of "(conn, key, es)" "bw_replaying w"]
    by (auto simp: bus_inv_def subscribed_def[abs_def] published_on_def[abs_def] entitled_def)
next
  case (dispatch conn d ts writer_poisoned write_ok sent alive d')
  have "isolated_dispatcher w conn d"
    using inv dispatch(2) queues_isolated.registry_holdsD by (auto simp: bus_inv_def)
  note turn = dispatch_isolated[OF this dispatch(3)]
  have "isolated_in w (eb_subscriptions (on_dispatcher conn (\<lambda>_. d') (bw_bus w)))"
    using inv turn by (intro on_dispatcher_isolated) (simp_all add: bus_inv_def)
  then have "bus_inv (w\<lparr>bw_bus := on_dispatcher conn (\<lambda>_. d') (bw_bus w)\<rparr>)"
    using inv by (intro bus_inv_bus) (simp_all add: bus_inv_def)
  then show ?thesis
    using dispatch(1) turn
    by (auto simp: bus_inv_def subscribed_def[abs_def] published_on_def[abs_def] entitled_def split: option.splits)
next
  case (fault f)
  then show ?thesis
    using bus_inv_bus[OF inv] bus_invD[OF inv] poison_isolated poison_replay by simp
qed (use bus_inv_bus[OF inv] bus_invD[OF inv] in \<open>simp_all add: bus_unsubscribe_def bus_remove_conn_def sticky
      remove_rings seed_rings queues_isolated.registry_unsubscribe_holds queues_isolated.registry_remove_conn_holds
      queues_isolated.registry_remove_owner_holds\<close>)

lemma start_inv: "bus_inv bus_start"
  by (simp add: bus_inv_def bus_start_def event_bus_default_def replay_default_def channel_registry_default_def
      ring_published_def queues_isolated.registry_default_holds)

lemma bus_reachable_inv: "bus_reachable h pol decode ser w \<Longrightarrow> bus_inv w"
  by (induction rule: bus_reachable.induct) (auto intro: start_inv step_inv)

text \<open>
  What is used of the serializer: a struct read from an object takes its fields by name, and a struct
  read from an array takes them by position, with the default for an omitted optional field.
\<close>

definition decodes_objects :: "events_sub_params decoder \<Rightarrow> bool" where
  "decodes_objects decode \<longleftrightarrow>
     (\<forall>fs p. decode (JObject fs) = Inr p \<longrightarrow> map_of fs ''channel'' = Some (JString (es_channel p)))"

definition decodes_positions :: "events_sub_params decoder \<Rightarrow> bool" where
  "decodes_positions decode \<longleftrightarrow>
     (\<forall>channel. decode (JArray [JString channel]) = Inr \<lparr>es_channel = channel, es_since = None\<rparr>)"

definition grant_checked :: "host \<Rightarrow> policy \<Rightarrow> subscription_grant \<Rightarrow> bool" where
  "grant_checked h pol g \<longleftrightarrow>
     (sk_channel (sg_key g) = ''journal'' \<and> (\<exists>fs. sg_params g = JObject fs)
        \<longrightarrow> evaluate_effect h pol (sg_principal g) JournalRead = Allow)"

lemma commit_grants: "bw_grants (bus_commit ser ts owner channel payload durable user w) = bw_grants w"
  by (auto simp: bus_commit_def Let_def split: prod.splits sum.splits)

lemma reachable_grants:
  assumes "bus_reachable h pol decode ser w" and "decodes_objects decode"
  shows "\<forall>g \<in> bw_grants w. grant_checked h pol g"
  using assms(1)
proof induction
  case (step w w')
  from step(2) show ?case
  proof cases
    case (register params a p spawn_ok conn cap r subs)
    have "es_channel p = ''journal'' \<longrightarrow> (\<forall>fs. params = JObject fs \<longrightarrow>
        evaluate_effect h pol (at_principal a) JournalRead = Allow)"
      using register(2, 3) assms(2)
      by (auto simp: decodes_objects_def require_journal_event_read_def require_journal_read_def split: if_splits)
    then show ?thesis using step.IH register(1) by (cases r) (auto simp: grant_checked_def)
  qed (use step.IH in \<open>simp_all add: commit_grants\<close>)
qed (simp add: bus_start_def)

section \<open>Atomic requests are runs\<close>

lemma ensure_ok: "ensure_replay_subsystem b = Inr () \<longleftrightarrow> \<not> replay_quarantined (eb_replay b)"
  by (auto simp: ensure_replay_subsystem_def replay_quarantined_def)

lemma publish_run:
  assumes "bus_reachable h pol decode ser w"
    and "channel_publish ser ts owner channel payload durable user (eb_replay (bw_bus w)) = (r, st)"
  shows "\<exists>w'. bus_reachable h pol decode ser w' \<and> bw_bus w' = (bw_bus w)\<lparr>eb_replay := st\<rparr>"
    and "r = Inr e \<Longrightarrow> \<not> replay_quarantined st \<Longrightarrow>
      \<exists>w'. bus_reachable h pol decode ser w' \<and> bw_bus w' = bus_deliver ser owner channel e ((bw_bus w)\<lparr>eb_replay := st\<rparr>)"
proof -
  let ?w = "bus_commit ser ts owner channel payload durable user w"
  have reach: "bus_reachable h pol decode ser ?w" using assms(1) bus_step.commit by (rule bus_reachable.step)
  have bus: "bw_bus ?w = (bw_bus w)\<lparr>eb_replay := st\<rparr>" using assms(2) by (cases r) (auto simp: bus_commit_def Let_def)
  show "\<exists>w'. bus_reachable h pol decode ser w' \<and> bw_bus w' = (bw_bus w)\<lparr>eb_replay := st\<rparr>" using reach bus by blast
  assume e: "r = Inr e" and ok: "\<not> replay_quarantined st"
  have "(key_of owner channel, e) \<in> set (bw_publishing ?w)" using assms(2) e by (simp add: bus_commit_def)
  from bus_reachable.step[OF reach bus_step.deliver[OF this]] bus ok ensure_ok[of "bw_bus ?w"]
  show "\<exists>w'. bus_reachable h pol decode ser w' \<and> bw_bus w' = bus_deliver ser owner channel e ((bw_bus w)\<lparr>eb_replay := st\<rparr>)"
    by fastforce
qed

lemma publish_inner_run:
  assumes "bus_reachable h pol decode ser w"
  shows "\<exists>w'. bus_reachable h pol decode ser w' \<and> bw_bus w' = snd (bus_publish_inner ser ts owner channel payload durable (bw_bus w))"
proof -
  obtain r st where pub: "channel_publish ser ts owner channel payload durable False (eb_replay (bw_bus w)) = (r, st)" by (metis surj_pair)
  note run = publish_run[OF assms pub]
  show ?thesis
  proof (cases "replay_quarantined st")
    case True
    then have "snd (bus_publish_inner ser ts owner channel payload durable (bw_bus w)) = (bw_bus w)\<lparr>eb_replay := st\<rparr>"
      using pub by (cases r) (simp_all add: bus_publish_inner_def channels_publish_def ensure_replay_subsystem_def replay_quarantined_def)
    then show ?thesis using run(1) by simp
  next
    case False
    then obtain e where e: "r = Inr e" using publish_refused pub by (cases r) auto
    then have "snd (bus_publish_inner ser ts owner channel payload durable (bw_bus w)) =
        bus_deliver ser owner channel e ((bw_bus w)\<lparr>eb_replay := st\<rparr>)"
      using pub False by (simp add: bus_publish_inner_def channels_publish_def ensure_replay_subsystem_def replay_quarantined_def)
    then show ?thesis using run(2)[OF e False] by simp
  qed
qed

lemma publish_user_run:
  assumes "bus_reachable h pol decode ser w"
  shows "\<exists>w'. bus_reachable h pol decode ser w' \<and> bw_bus w' = snd (bus_publish_user ser ts owner channel payload (bw_bus w))"
proof -
  obtain r st where pub: "channel_publish ser ts owner channel payload None True (eb_replay (bw_bus w)) = (r, st)" by (metis surj_pair)
  note run = publish_run[OF assms pub]
  have "snd (bus_publish_user ser ts owner channel payload (bw_bus w)) \<in>
      {bw_bus w, (bw_bus w)\<lparr>eb_replay := st\<rparr>}
      \<or> (\<exists>e. r = Inr e \<and> \<not> replay_quarantined st \<and> snd (bus_publish_user ser ts owner channel payload (bw_bus w)) =
            bus_deliver ser owner channel e ((bw_bus w)\<lparr>eb_replay := st\<rparr>))"
    using pub
    by (auto simp: bus_publish_user_def channels_publish_user_def ensure_replay_subsystem_def replay_quarantined_def
        split: sum.splits publish_failure.splits)
  then show ?thesis using run assms by auto
qed

lemma subscribe_run:
  assumes reach: "bus_reachable h pol decode ser w"
    and req: "require_journal_event_read h pol params a = Inr ()" "decode params = Inr p"
      "validate_channel_name (es_channel p) = Inr ()"
  shows "\<exists>w'. bus_reachable h pol decode ser w'
    \<and> bw_bus w' = snd (bus_subscribe ser spawn_ok conn (at_owner a) (es_channel p) (es_since p) cap (bw_bus w))"
proof -
  let ?b = "bw_bus w"
  let ?k = "key_of (at_owner a) (es_channel p)"
  obtain r subs where sub: "registry_subscribe spawn_ok conn (at_owner a) (es_channel p) cap (eb_subscriptions ?b) = (r, subs)"
    by fastforce
  obtain w1 where w1: "bus_reachable h pol decode ser w1" "bw_bus w1 = ?b\<lparr>eb_subscriptions := subs\<rparr>"
    "r = Inr True \<Longrightarrow> (conn, ?k, es_since p) \<in> set (bw_subscribing w1)"
    using bus_reachable.step[OF reach bus_step.register[where w = w and h = h and pol = pol and decode = decode, OF req sub]] by (auto split: sum.splits)
  show ?thesis
  proof (cases "ensure_replay_subsystem ?b = Inr () \<and> r = Inr True")
    case True
    obtain es b2 where read: "bus_read (at_owner a) (es_channel p) (es_since p) None (bw_bus w1) = (es, b2)" by fastforce
    then obtain w2 where w2: "bus_reachable h pol decode ser w2" "bw_bus w2 = b2" "(conn, ?k, es) \<in> set (bw_replaying w2)"
      using bus_reachable.step[OF w1(1) bus_step.snapshot[OF w1(3)]] True by auto
    from bus_reachable.step[OF w2(1) bus_step.merge[OF w2(3)]]
    show ?thesis using True sub read w1(2) w2(2) by (fastforce simp: bus_subscribe_def)
  next
    case False
    then have "snd (bus_subscribe ser spawn_ok conn (at_owner a) (es_channel p) (es_since p) cap ?b) \<in> {?b, ?b\<lparr>eb_subscriptions := subs\<rparr>}"
      using sub by (cases r; cases "r = Inr False")
        (auto simp: bus_subscribe_def ensure_replay_subsystem_def handle_finish_replay_def Let_def)
    then show ?thesis using reach w1 by auto
  qed
qed

section \<open>Properties\<close>

text \<open>
  C7. Isolation of event delivery: under every interleaving of publications, subscriptions,
  removals, dispatcher turns and lock faults, an event sent on a connection was published under an
  owner and channel that this connection subscribed to, or is the drop summary of such a
  subscription; and when the channel is the journal and the request named its fields, the policy
  allowed the subscribing principal to read the journal.
\<close>

theorem delivered_only_to_subscribers:
  assumes "bus_reachable h pol decode ser w" and "decodes_objects decode"
    and "(c, e) \<in> set (bw_delivered w)"
  shows "\<exists>g \<in> bw_grants w. sg_conn g = c \<and> ev_channel e = sk_channel (sg_key g)
    \<and> ((sg_key g, e) \<in> bw_published w \<or> summary_for (sg_key g) e)
    \<and> (ev_channel e = ''journal'' \<and> (\<exists>fs. sg_params g = JObject fs)
        \<longrightarrow> evaluate_effect h pol (sg_principal g) JournalRead = Allow)"
proof -
  have inv: "bus_inv w" by (rule bus_reachable_inv[OF assms(1)])
  then obtain k where k: "subscribed w c k" "e \<in> published_on w k \<or> summary_for k e"
    using assms(3) by (auto simp: bus_inv_def entitled_def)
  have chan: "ev_channel e = sk_channel k"
    using k(2) inv by (auto simp: bus_inv_def published_on_def summary_for_def drop_summary_def)
  obtain g where g: "g \<in> bw_grants w" "sg_conn g = c" "sg_key g = k" using k(1) by (auto simp: subscribed_def)
  have "grant_checked h pol g" using reachable_grants[OF assms(1, 2)] g(1) by blast
  then show ?thesis using g k(2) chan by (auto simp: grant_checked_def published_on_def)
qed

text \<open>
  The requests run as a whole are runs of the interleaved steps: what publishing (from the
  kernel or from a client) and subscribing leave of the bus is reached by steps.
\<close>

theorem bus_requests_are_runs:
  assumes "bus_reachable h pol decode ser w"
  shows "(\<exists>w'. bus_reachable h pol decode ser w'
            \<and> bw_bus w' = snd (bus_publish_inner ser ts owner channel payload durable (bw_bus w)))
    \<and> (\<exists>w'. bus_reachable h pol decode ser w'
            \<and> bw_bus w' = snd (handle_events_publish decode_pub ser ts mirror params attached (bw_bus w)))
    \<and> (\<exists>w'. bus_reachable h pol decode ser w'
            \<and> bw_bus w' = snd (handle_events_subscribe h pol decode ser spawn_ok cap params client attached live (bw_bus w)))"
proof (intro conjI)
  show "\<exists>w'. bus_reachable h pol decode ser w'
      \<and> bw_bus w' = snd (bus_publish_inner ser ts owner channel payload durable (bw_bus w))"
    by (rule publish_inner_run[OF assms])
  have "snd (handle_events_publish decode_pub ser ts mirror params attached (bw_bus w)) = bw_bus w
    \<or> (\<exists>ow name v. snd (handle_events_publish decode_pub ser ts mirror params attached (bw_bus w)) =
          snd (bus_publish_user ser ts ow name v (bw_bus w)))"
    by (auto simp: handle_events_publish_def split: option.splits sum.splits prod.splits) (metis snd_conv)+
  then show "\<exists>w'. bus_reachable h pol decode ser w'
      \<and> bw_bus w' = snd (handle_events_publish decode_pub ser ts mirror params attached (bw_bus w))"
    using publish_user_run[OF assms] assms by metis
  let ?r = "handle_events_subscribe h pol decode ser spawn_ok cap params client attached live (bw_bus w)"
  have "snd ?r = bw_bus w \<or> (\<exists>a p. require_journal_event_read h pol params a = Inr () \<and> decode params = Inr p
      \<and> validate_channel_name (es_channel p) = Inr ()
      \<and> snd ?r = snd (bus_subscribe ser spawn_ok client (at_owner a) (es_channel p) (es_since p) cap (bw_bus w)))"
    by (auto simp: handle_events_subscribe_def result_simps split: option.splits sum.splits prod.splits)
  then show "\<exists>w'. bus_reachable h pol decode ser w' \<and> bw_bus w' = snd ?r"
    using subscribe_run[OF assms] assms by metis
qed

text \<open>
  C16. The journal guard reads the channel by name before the parameters are decoded: a principal
  whom the policy does not allow to read the journal is refused the journal channel when the request
  names the field, and is subscribed to it when the same request gives the field by position.
\<close>

theorem positional_params_skip_journal_guard:
  assumes "decodes_positions decode"
    and "evaluate_effect h pol (at_principal a) JournalRead \<noteq> Allow"
    and "fst (bus_subscribe ser spawn_ok client (at_owner a) ''journal'' None cap b) = Inr ()"
  shows "handle_events_subscribe h pol decode ser spawn_ok cap (JObject [(''channel'', JString ''journal'')])
           client (Some a) True b = (Inl (denied ''journal read is not granted for the attached principal''), b)
    \<and> fst (handle_events_subscribe h pol decode ser spawn_ok cap (JArray [JString ''journal''])
           client (Some a) True b) = Inr (''journal'', True)"
proof -
  have "validate_channel_name ''journal'' = Inr ()"
    by (simp add: validate_channel_name_def channel_byte_def event_channel_max_bytes_def)
  then show ?thesis
    using assms
    by (auto simp: handle_events_subscribe_def require_journal_event_read_def require_journal_read_def
        decodes_positions_def split: sum.splits prod.splits)
qed

section \<open>Samples\<close>

fun sample_decode :: "events_sub_params decoder" where
  "sample_decode (JObject fs) =
     (case map_of fs ''channel'' of
        Some (JString c) \<Rightarrow> Inr \<lparr>es_channel = c, es_since = None\<rparr>
      | _ \<Rightarrow> Inl (RpcError INVALID_PARAMS ''missing field''))"
| "sample_decode (JArray [JString c]) = Inr \<lparr>es_channel = c, es_since = None\<rparr>"
| "sample_decode _ = Inl (RpcError INVALID_PARAMS ''invalid type'')"

lemma sample_decodes: "decodes_objects sample_decode" "decodes_positions sample_decode"
  by (auto simp: decodes_objects_def decodes_positions_def split: option.splits json.splits)

definition sample_attachment :: attachment where
  "sample_attachment = \<lparr>at_owner = sample_owner, at_principal = ''human''\<rparr>"

definition sample_bus :: event_bus where
  "sample_bus = snd (bus_subscribe sample_serde True 1 sample_owner ''user.a'' None 8 event_bus_default)"

lemmas bus_eval =
  bus_subscribe_def ensure_replay_subsystem_def event_bus_default_def replay_default_def channel_registry_default_def
  durable_indexes_default_def channels_is_quarantined_def durable_is_quarantined_def registry_subscribe_def
  subscription_registry_default_def subscriptions_hard_cap_per_owner_def dispatcher_subscribe_def dispatcher_new_def
  bus_read_def channel_read_def handle_finish_replay_def notify_def wrapping_succ_def finish_replay_def sub_queue_new_def
  lock_or_close_def first_cursor_def drain_pending_def drain_loop.simps Let_def

lemma sample_bus_connections:
  "sr_connections (eb_subscriptions sample_bus) = [(1, dispatcher_new\<lparr>d_epoch := 1,
     d_subscriptions := [(key_of sample_owner ''user.a'', (sub_queue_new ''user.a'')\<lparr>q_replaying := False\<rparr>)],
     d_order := [key_of sample_owner ''user.a'']\<rparr>)]"
  by (simp add: sample_bus_def bus_eval)

lemma sample_bus_parts:
  "eb_replay sample_bus = replay_default"
  "sr_quarantined (eb_subscriptions sample_bus) = False" "sr_connections_poisoned (eb_subscriptions sample_bus) = False"
  by (simp_all add: sample_bus_def bus_eval)

abbreviation sample_published :: event where
  "sample_published \<equiv> \<lparr>ev_channel = ''user.a'', ev_seq = 0, ev_ts = 9, ev_payload = JNull\<rparr>"

lemma sample_publish:
  "channel_publish sample_serde 9 sample_owner ''user.a'' JNull None False replay_default =
     (Inr sample_published, channel_registry_default\<lparr>ch_buffers :=
       [((sample_owner, ''user.a''), \<lparr>cb_next_seq = 1, cb_ring = [\<lparr>re_event = sample_published, re_bytes = 10\<rparr>], cb_ring_bytes = 10\<rparr>)]\<rparr>,
      durable_indexes_default)"
  by (simp add: replay_eval)

lemma sample_pushed:
  "push_live sample_serde sample_published ((sub_queue_new ''user.a'')\<lparr>q_replaying := False\<rparr>) =
     (sub_queue_new ''user.a'')\<lparr>q_replaying := False, q_ready := [sample_published], q_ready_bytes := 10, q_next_seq := Some 1\<rparr>"
  by (simp add: push_live_def bus_eval stage_def take_pending_def push_ready_def bt_insert_def bt_remove_def
      saturating_succ_def event_retained_bytes_eq sample_serde_def staged_event_cap_def event_ring_cap_def
      staged_event_max_bytes_def sub_queue_max_bytes_def sub_queue_cap_def)

lemma sample_sent:
  "\<exists>d d'. map_of (sr_connections (eb_subscriptions
      (snd (bus_publish_inner sample_serde 9 sample_owner ''user.a'' JNull None sample_bus)))) 1 = Some d
    \<and> dispatch_turn sample_serde 0 False True d = (Some sample_published, True, d')"
  by (simp add: bus_publish_inner_def channels_publish_def sample_bus_parts sample_publish bus_deliver_def
      registry_deliver_def sample_bus_connections dispatcher_deliver_def sample_pushed[unfolded sub_queue_new_def, simplified] set_queue_def
      ensure_replay_subsystem_def channels_is_quarantined_def channel_registry_default_def durable_is_quarantined_def
      durable_indexes_default_def dispatcher_new_def notify_def dispatch_turn_def next_event_def scan_queues.simps
      pop_def lock_or_close_def sub_queue_new_def Let_def)

lemma sample_reachable:
  "\<exists>w. bus_reachable h pol sample_decode sample_serde w \<and> (1, sample_published) \<in> set (bw_delivered w)"
proof -
  have start: "bus_reachable h pol sample_decode sample_serde bus_start" by (rule bus_reachable.start)
  have "validate_channel_name ''user.a'' = Inr ()"
    by (simp add: validate_channel_name_def channel_byte_def event_channel_max_bytes_def)
  then obtain w1 where w1: "bus_reachable h pol sample_decode sample_serde w1" "bw_bus w1 = sample_bus"
    using subscribe_run[OF start, of "JObject [(''channel'', JString ''user.a'')]" sample_attachment
        "\<lparr>es_channel = ''user.a'', es_since = None\<rparr>" True 1 8]
    by (auto simp: require_journal_event_read_def sample_bus_def bus_start_def sample_attachment_def)
  obtain w2 where w2: "bus_reachable h pol sample_decode sample_serde w2"
    "bw_bus w2 = snd (bus_publish_inner sample_serde 9 sample_owner ''user.a'' JNull None sample_bus)"
    using publish_inner_run[OF w1(1), where ts = 9 and owner = sample_owner and channel = "''user.a''" and payload = JNull and durable = None]
      w1(2) by auto
  obtain d d' where "map_of (sr_connections (eb_subscriptions (bw_bus w2))) 1 = Some d"
    "dispatch_turn sample_serde 0 False True d = (Some sample_published, True, d')"
    using sample_sent w2(2) by auto
  from bus_reachable.step[OF w2(1) bus_step.dispatch[OF this]] show ?thesis by (auto intro!: exI)
qed

theorem delivered_only_to_subscribers_witness:
  "\<exists>w g. bus_reachable sample_host (deny_all ''human'') sample_decode sample_serde w
     \<and> (1, sample_published) \<in> set (bw_delivered w) \<and> g \<in> bw_grants w \<and> sg_conn g = 1
     \<and> sk_channel (sg_key g) = ''user.a''"
proof -
  obtain w where w: "bus_reachable sample_host (deny_all ''human'') sample_decode sample_serde w"
    "(1, sample_published) \<in> set (bw_delivered w)" using sample_reachable by blast
  obtain g where "g \<in> bw_grants w" "sg_conn g = 1" "ev_channel sample_published = sk_channel (sg_key g)"
    using delivered_only_to_subscribers[OF w(1) sample_decodes(1) w(2)] by blast
  with w show ?thesis by (intro exI[of _ w] exI[of _ g]) simp
qed

theorem bus_requests_are_runs_witness:
  "\<exists>w. bus_reachable sample_host (deny_all ''human'') sample_decode sample_serde w
     \<and> bw_bus w = snd (bus_publish_inner sample_serde 9 sample_owner ''user.a'' JNull None event_bus_default)"
  using conjunct1[OF bus_requests_are_runs[OF bus_reachable.start[of sample_host "deny_all ''human''" sample_decode
        sample_serde], where ts = 9 and owner = sample_owner and channel = "''user.a''" and payload = JNull and durable = None]]
  by (simp add: bus_start_def)

theorem positional_params_skip_journal_guard_witness:
  "fst (handle_events_subscribe sample_host (deny_all ''agent'') sample_decode sample_serde True 8
      (JArray [JString ''journal'']) 1 (Some \<lparr>at_owner = sample_owner, at_principal = ''agent''\<rparr>) True event_bus_default) =
     Inr (''journal'', True)"
proof -
  let ?a = "\<lparr>at_owner = sample_owner, at_principal = ''agent''\<rparr>"
  have "evaluate_effect sample_host (deny_all ''agent'') (at_principal ?a) JournalRead \<noteq> Allow"
    by (simp add: evaluate_effect_def deny_all_def)
  moreover have "fst (bus_subscribe sample_serde True 1 (at_owner ?a) ''journal'' None 8 event_bus_default) = Inr ()"
    by (simp add: bus_eval)
  ultimately show ?thesis using positional_params_skip_journal_guard[OF sample_decodes(2)] by blast
qed

end
