(* ===== verification/Event_Replay.thy ===== *)
theory Event_Replay
  imports Event_Bus Proto_Frame
begin

text \<open>
  Journal-backed replay: the pages that \<open>events.read\<close> returns (\<open>kernel/eventbus.rs\<close>), the lazy
  hydration of an owner's cursors, and the journal queries they use (\<open>journal/query.rs\<close> and
  \<open>journal/transcript.rs\<close>). The journal is its two tables; a query is what its SQL statement selects,
  and a database that fails answers every query with its error. The parsers of stored programs and
  payloads are arguments.
\<close>

section \<open>The journal\<close>

datatype entry_kind = Statement | Exec | Approval

record entry_row =
  er_id :: int
  er_kind :: entry_kind
  er_parent_id :: "int option"
  er_session :: string
  er_principal :: string
  er_ts_ns :: int
  er_dur_ns :: "int option"
  er_cwd :: string
  er_src :: string
  er_ast_json :: string
  er_effects_json :: string
  er_status :: "int option"
  er_ok :: "bool option"
  er_opaque :: bool

record transcript_event_row =
  te_entry_id :: int
  te_ts_ns :: int
  te_payload_json :: string

record journal =
  jn_entries :: "entry_row list"
  jn_transcript_events :: "transcript_event_row list"
  jn_failure :: "string option"
  jn_poisoned :: bool

record durable_event_seed =
  ds_published :: nat
  ds_tail_entry_ids :: "int list"

definition kind_str :: "entry_kind \<Rightarrow> string" where
  "kind_str k = (case k of Statement \<Rightarrow> ''statement'' | Exec \<Rightarrow> ''exec'' | Approval \<Rightarrow> ''approval'')"

definition run_query :: "journal \<Rightarrow> 'a \<Rightarrow> (string, 'a) result" where
  "run_query j rows = (case jn_failure j of Some err \<Rightarrow> Inl err | None \<Rightarrow> Inr rows)"

definition sql_i64 :: "nat \<Rightarrow> (string, nat) result" where
  "sql_i64 n = (if n < 2 ^ 63 then Inr n else Inl ''out of range integral type conversion attempted'')"

definition exec_ids :: "journal \<Rightarrow> string \<Rightarrow> string \<Rightarrow> int list" where
  "exec_ids j who session =
     sort (map er_id (filter (\<lambda>r. er_principal r = who \<and> er_session r = session \<and> er_kind r = Exec)
       (jn_entries j)))"

definition transcript_ids :: "journal \<Rightarrow> string \<Rightarrow> string \<Rightarrow> int list" where
  "transcript_ids j who session =
     sort (map te_entry_id (filter (\<lambda>t. list_ex (\<lambda>e. er_id e = te_entry_id t
       \<and> er_principal e = who \<and> er_session e = session) (jn_entries j)) (jn_transcript_events j)))"

fun durable_ids :: "durable_channel \<Rightarrow> journal \<Rightarrow> string \<Rightarrow> string \<Rightarrow> int list" where
  "durable_ids Journal = exec_ids"
| "durable_ids Transcript = transcript_ids"

definition durable_event_seed_of ::
  "durable_channel \<Rightarrow> journal \<Rightarrow> string \<Rightarrow> string \<Rightarrow> nat \<Rightarrow> (string, durable_event_seed) result" where
  "durable_event_seed_of which j who session tail_limit =
     bindR (sql_i64 tail_limit) (\<lambda>limit.
       let ids = durable_ids which j who session
       in run_query j \<lparr>ds_published = length ids, ds_tail_entry_ids = rev (take limit (rev ids))\<rparr>)"

definition journal_event_seed :: "journal \<Rightarrow> string \<Rightarrow> string \<Rightarrow> nat \<Rightarrow> (string, durable_event_seed) result" where
  "journal_event_seed = durable_event_seed_of Journal"

definition transcript_event_seed :: "journal \<Rightarrow> string \<Rightarrow> string \<Rightarrow> nat \<Rightarrow> (string, durable_event_seed) result" where
  "transcript_event_seed = durable_event_seed_of Transcript"

definition durable_event_entry_ids ::
  "durable_channel \<Rightarrow> journal \<Rightarrow> string \<Rightarrow> string \<Rightarrow> nat \<Rightarrow> nat \<Rightarrow> (string, int list) result" where
  "durable_event_entry_ids which j who session start_seq limit =
     (if limit = 0 then Inr []
      else bindR (sql_i64 limit) (\<lambda>limit. bindR (sql_i64 start_seq) (\<lambda>start_seq.
        run_query j (take limit (drop start_seq (durable_ids which j who session))))))"

definition journal_event_entry_ids :: "journal \<Rightarrow> string \<Rightarrow> string \<Rightarrow> nat \<Rightarrow> nat \<Rightarrow> (string, int list) result" where
  "journal_event_entry_ids = durable_event_entry_ids Journal"

definition transcript_event_entry_ids :: "journal \<Rightarrow> string \<Rightarrow> string \<Rightarrow> nat \<Rightarrow> nat \<Rightarrow> (string, int list) result" where
  "transcript_event_entry_ids = durable_event_entry_ids Transcript"

text \<open>The rows for the given ids, in the order of the ids, each row at most once.\<close>

fun collect_rows :: "(int \<rightharpoonup> 'r) \<Rightarrow> int list \<Rightarrow> 'r list" where
  "collect_rows by_id [] = []"
| "collect_rows by_id (i # ids) =
     (case by_id i of
        Some r \<Rightarrow> r # collect_rows (by_id(i := None)) ids
      | None \<Rightarrow> collect_rows by_id ids)"

definition entries_by_id :: "journal \<Rightarrow> int list \<Rightarrow> (string, entry_row list) result" where
  "entries_by_id j ids =
     (if ids = [] then Inr []
      else run_query j (collect_rows (map_of (map (\<lambda>r. (er_id r, r)) (jn_entries j))) ids))"

definition transcript_events_by_entry :: "journal \<Rightarrow> int list \<Rightarrow> (string, transcript_event_row list) result" where
  "transcript_events_by_entry j ids =
     (if ids = [] then Inr []
      else run_query j (collect_rows (map_of (map (\<lambda>r. (te_entry_id r, r)) (jn_transcript_events j))) ids))"

section \<open>Hydration of an owner\<close>

definition poisoned_subsystem :: "string \<Rightarrow> rpc_error" where
  "poisoned_subsystem subsystem = internal (subsystem @ '' is unavailable after an internal state failure'')"

definition seed_index ::
  "durable_channel \<Rightarrow> owner_key \<Rightarrow> durable_event_seed \<Rightarrow> event_bus \<Rightarrow> (string, unit) result \<times> event_bus" where
  "seed_index which owner seed b =
     (let (done, st) = seed_durable which owner (durable_name which) (ds_published seed) (ds_tail_entry_ids seed) (eb_replay b)
      in (if done then Inr () else Inl ''durable event cursor hydration was quarantined'', b\<lparr>eb_replay := st\<rparr>))"

definition bus_is_initialized :: "durable_channel \<Rightarrow> owner_key \<Rightarrow> event_bus \<Rightarrow> bool \<times> event_bus" where
  "bus_is_initialized which owner b =
     (let (r, st) = reg_durable_is_initialized which owner (eb_replay b) in (r, b\<lparr>eb_replay := st\<rparr>))"

definition seed_owner_from_journal ::
  "journal \<Rightarrow> owner_key \<Rightarrow> event_bus \<Rightarrow> (string, unit) result \<times> event_bus" where
  "seed_owner_from_journal j owner b =
     (let (has_journal, b1) = bus_is_initialized Journal owner b;
          (has_transcript, b2) = (if has_journal then bus_is_initialized Transcript owner b1 else (False, b1))
      in if has_journal \<and> has_transcript then (Inr (), b2)
         else case bindR (journal_event_seed j (ok_principal owner) (ok_name owner) durable_pointer_cap) (\<lambda>js.
                bindR (transcript_event_seed j (ok_principal owner) (ok_name owner) durable_pointer_cap) (\<lambda>ts.
                Inr (js, ts))) of
             Inl err \<Rightarrow> (Inl err, b2)
           | Inr (js, ts) \<Rightarrow>
               (case seed_index Journal owner js b2 of
                  (Inl err, b3) \<Rightarrow> (Inl err, b3)
                | (Inr _, b3) \<Rightarrow> seed_index Transcript owner ts b3))"

definition ensure_event_owner :: "journal \<Rightarrow> owner_key \<Rightarrow> event_bus \<Rightarrow> (rpc_error, unit) result \<times> event_bus" where
  "ensure_event_owner j owner b =
     (if jn_poisoned j then (Inl (poisoned_subsystem ''journal''), b)
      else case seed_owner_from_journal j owner b of
          (Inl err, b1) \<Rightarrow> (Inl (internal err), b1)
        | (Inr _, b1) \<Rightarrow> (Inr (), b1))"

section \<open>Pages\<close>

definition events_default_page :: nat where
  "events_default_page = 256"

definition events_max_page :: nat where
  "events_max_page = 256"

definition events_max_content_bytes :: nat where
  "events_max_content_bytes = max_frame_len div 2"

definition tagged :: "string \<Rightarrow> json \<Rightarrow> json" where
  "tagged tag v = JObject [(''$'', JString tag), (''v'', v)]"

definition truncated_payload :: json where
  "truncated_payload = tagged ''record'' (JObject
     [(''payload_truncated'', tagged ''bool'' (JBool True)),
      (''reason'', tagged ''str'' (JString ''event payload exceeds events.read byte wall''))])"

definition encoded_len :: "serde \<Rightarrow> event \<Rightarrow> nat" where
  "encoded_len ser e = length (concat (event_chunks ser e))"

definition push_bounded_event ::
  "serde \<Rightarrow> event list \<Rightarrow> nat \<Rightarrow> event \<Rightarrow> (bool \<times> bool) \<times> event list \<times> nat" where
  "push_bounded_event ser events content_bytes e =
     (let over = events_max_content_bytes < encoded_len ser e;
          e1 = (if over then e\<lparr>ev_payload := truncated_payload\<rparr> else e);
          next_bytes = content_bytes + encoded_len ser e1
      in if USIZE_MAX < next_bytes then ((False, over), events, content_bytes)
         else if events_max_content_bytes < next_bytes then ((False, over), events, content_bytes)
         else ((True, over), events @ [e1], next_bytes))"

definition event_has_truncated_payload :: "event \<Rightarrow> bool" where
  "event_has_truncated_payload e \<longleftrightarrow>
     Option.bind (Option.bind (json_get ''v'' (ev_payload e)) (json_get ''payload_truncated'')) (json_get ''v'')
       = Some (JBool True)"

fun bound_events ::
  "serde \<Rightarrow> event list \<Rightarrow> event list \<Rightarrow> nat \<Rightarrow> bool \<Rightarrow> event list \<times> nat \<times> bool" where
  "bound_events ser [] bounded bytes flag = (bounded, bytes, flag)"
| "bound_events ser (e # es) bounded bytes flag =
     (case push_bounded_event ser bounded bytes e of
        ((accepted, truncated), bounded1, bytes1) \<Rightarrow>
          if accepted then bound_events ser es bounded1 bytes1 (flag \<or> truncated)
          else (bounded1, bytes1, flag \<or> truncated))"

definition bound_event_page :: "serde \<Rightarrow> event list \<Rightarrow> event list \<times> nat \<times> bool" where
  "bound_event_page ser events = bound_events ser events [] 0 (list_ex event_has_truncated_payload events)"

text \<open>
  The leading word of a source text: \<open>split_whitespace\<close> cuts at Unicode white space, here on the
  bytes of the UTF-8 text. \<open>ws_len\<close> is the number of bytes of a white-space character at the front.
\<close>

definition ws_len :: "string \<Rightarrow> nat" where
  "ws_len s =
     (case map byte_val (take 3 s) of
        a # rest \<Rightarrow>
          if a \<in> {9, 10, 11, 12, 13, 32} then 1
          else (case rest of
             b # rest' \<Rightarrow>
               if a = 194 \<and> b \<in> {133, 160} then 2
               else (case rest' of
                  [c] \<Rightarrow>
                    if a = 225 \<and> b = 154 \<and> c = 128
                       \<or> a = 226 \<and> b = 128 \<and> (128 \<le> c \<and> c \<le> 138 \<or> c \<in> {168, 169, 175})
                       \<or> a = 226 \<and> b = 129 \<and> c = 159
                       \<or> a = 227 \<and> b = 128 \<and> c = 128 then 3 else 0
                | _ \<Rightarrow> 0)
           | [] \<Rightarrow> 0)
      | [] \<Rightarrow> 0)"

function skip_ws :: "string \<Rightarrow> string" where
  "skip_ws s = (if s = [] \<or> ws_len s = 0 then s else skip_ws (drop (ws_len s) s))"
  by pat_completeness auto
termination by (relation "measure length") auto

fun take_word :: "string \<Rightarrow> string" where
  "take_word [] = []"
| "take_word (c # cs) = (if ws_len (c # cs) = 0 then c # take_word cs else [])"

declare skip_ws.simps [simp del]

definition head_word :: "string \<Rightarrow> string" where
  "head_word src = take_word (skip_ws src)"

definition dec_int :: "int \<Rightarrow> string" where
  "dec_int i = (if i < 0 then CHR ''-'' # dec (nat (- i)) else dec (nat i))"

definition journal_event :: "int \<Rightarrow> string \<Rightarrow> bool \<Rightarrow> string \<Rightarrow> json" where
  "journal_event entry_id src ok who = tagged ''record'' (JObject
     [(''entry_id'', tagged ''int'' (JNumber (dec_int entry_id))),
      (''head'', tagged ''str'' (JString (head_word src))),
      (''ok'', tagged ''bool'' (JBool ok)),
      (''principal'', tagged ''str'' (JString who))])"

text \<open>The parsers of what the journal stores: a program's syntax tree and a payload.\<close>

record stored_text =
  parse_program :: "string \<Rightarrow> (string, unit) result"
  parse_payload :: "string \<Rightarrow> (string, json) result"

definition rebuild_journal_event :: "stored_text \<Rightarrow> journal \<Rightarrow> nat \<Rightarrow> int \<Rightarrow> (rpc_error, event) result" where
  "rebuild_journal_event txt j seq i =
     (case entries_by_id j [i] of
        Inl err \<Rightarrow> Inl (internal err)
      | Inr [] \<Rightarrow> Inl (internal (''durable journal event '' @ dec_int i @ '' is missing''))
      | Inr rows \<Rightarrow>
          let row = last rows in
          if er_kind row \<noteq> Exec
          then Inl (internal (''durable journal event '' @ dec_int (er_id row) @ '' references a ''
                 @ kind_str (er_kind row) @ '' row instead of an exec row''))
          else case parse_program txt (er_ast_json row) of
              Inl err \<Rightarrow> Inl (internal (''durable journal event '' @ dec_int (er_id row)
                           @ '' has invalid whole-program AST: '' @ err))
            | Inr _ \<Rightarrow>
                Inr \<lparr>ev_channel = ''journal'', ev_seq = seq,
                     ev_ts = saturating_i64 (er_ts_ns row + (case er_dur_ns row of Some d \<Rightarrow> d | None \<Rightarrow> 0)),
                     ev_payload = journal_event (er_id row) (er_src row)
                       (case er_ok row of Some ok \<Rightarrow> ok | None \<Rightarrow> False) (er_principal row)\<rparr>)"

definition rebuild_transcript_event :: "stored_text \<Rightarrow> journal \<Rightarrow> nat \<Rightarrow> int \<Rightarrow> (rpc_error, event) result" where
  "rebuild_transcript_event txt j seq i =
     (case transcript_events_by_entry j [i] of
        Inl err \<Rightarrow> Inl (internal err)
      | Inr [] \<Rightarrow> Inl (internal (''durable transcript event '' @ dec_int i @ '' is missing''))
      | Inr rows \<Rightarrow>
          let row = last rows in
          case parse_payload txt (te_payload_json row) of
            Inl err \<Rightarrow> Inl (internal err)
          | Inr payload \<Rightarrow>
              Inr \<lparr>ev_channel = ''session.transcript'', ev_seq = seq, ev_ts = te_ts_ns row, ev_payload = payload\<rparr>)"

fun rebuild_event :: "durable_channel \<Rightarrow> stored_text \<Rightarrow> journal \<Rightarrow> nat \<Rightarrow> int \<Rightarrow> (rpc_error, event) result" where
  "rebuild_event Journal = rebuild_journal_event"
| "rebuild_event Transcript = rebuild_transcript_event"

fun reconstruct_events ::
  "serde \<Rightarrow> (nat \<Rightarrow> int \<Rightarrow> (rpc_error, event) result) \<Rightarrow> (nat \<times> int) list \<Rightarrow> event list \<Rightarrow> nat
   \<Rightarrow> (rpc_error, event list) result" where
  "reconstruct_events ser rebuild [] events bytes = Inr events"
| "reconstruct_events ser rebuild ((seq, i) # want) events bytes =
     bindR (rebuild seq i) (\<lambda>e.
       case push_bounded_event ser events bytes e of
         ((accepted, _), events1, bytes1) \<Rightarrow>
           if accepted then reconstruct_events ser rebuild want events1 bytes1 else Inr events1)"

definition reconstruct_durable_events ::
  "durable_channel \<Rightarrow> serde \<Rightarrow> stored_text \<Rightarrow> journal \<Rightarrow> (nat \<times> int) list \<Rightarrow> (rpc_error, event list) result" where
  "reconstruct_durable_events which ser txt j want =
     (if jn_poisoned j then Inl (poisoned_subsystem ''journal'')
      else reconstruct_events ser (rebuild_event which txt j) want [] 0)"

definition reconstruct_journal_events ::
  "serde \<Rightarrow> stored_text \<Rightarrow> journal \<Rightarrow> (nat \<times> int) list \<Rightarrow> (rpc_error, event list) result" where
  "reconstruct_journal_events = reconstruct_durable_events Journal"

definition reconstruct_transcript_events ::
  "serde \<Rightarrow> stored_text \<Rightarrow> journal \<Rightarrow> (nat \<times> int) list \<Rightarrow> (rpc_error, event list) result" where
  "reconstruct_transcript_events = reconstruct_durable_events Transcript"

definition ring_oldest_seq :: "owner_key \<Rightarrow> string \<Rightarrow> event_bus \<Rightarrow> nat option \<times> event_bus" where
  "ring_oldest_seq owner channel b =
     (let (reg, di) = eb_replay b; (r, reg1) = oldest_seq owner channel reg in (r, b\<lparr>eb_replay := (reg1, di)\<rparr>))"

definition published_count :: "owner_key \<Rightarrow> string \<Rightarrow> event_bus \<Rightarrow> nat \<times> event_bus" where
  "published_count owner channel b =
     (let (reg, di) = eb_replay b; (n, reg1) = channel_next_seq owner channel reg in (n, b\<lparr>eb_replay := (reg1, di)\<rparr>))"

definition durable_published_count :: "durable_channel \<Rightarrow> owner_key \<Rightarrow> event_bus \<Rightarrow> nat \<times> event_bus" where
  "durable_published_count which owner b =
     (let (n, st) = reg_durable_len which owner (eb_replay b) in (n, b\<lparr>eb_replay := st\<rparr>))"

definition durable_index_range ::
  "durable_channel \<Rightarrow> owner_key \<Rightarrow> nat option \<Rightarrow> nat \<Rightarrow> event_bus \<Rightarrow> (nat \<times> int) list \<times> event_bus" where
  "durable_index_range which owner since upto_seq b =
     (let (ps, st) = reg_durable_range which owner since upto_seq (eb_replay b) in (ps, b\<lparr>eb_replay := st\<rparr>))"

definition checked_pred :: "nat \<Rightarrow> nat option" where
  "checked_pred n = (if n = 0 then None else Some (n - 1))"

definition durable_pointer_page ::
  "durable_channel \<Rightarrow> journal \<Rightarrow> owner_key \<Rightarrow> nat \<Rightarrow> nat \<Rightarrow> event_bus
   \<Rightarrow> (rpc_error, (nat \<times> int) list) result \<times> event_bus" where
  "durable_pointer_page which j owner start stop b =
     (if stop \<le> start then (Inr [], b)
      else let (cached, b1) = durable_index_range which owner (checked_pred start) stop b;
               wanted = stop - start
           in if length cached = wanted \<and> (case cached of [] \<Rightarrow> False | (seq, _) # _ \<Rightarrow> seq = start)
              then (Inr cached, b1)
              else if jn_poisoned j then (Inl (poisoned_subsystem ''journal''), b1)
              else case durable_event_entry_ids which j (ok_principal owner) (ok_name owner) start wanted of
                  Inl err \<Rightarrow> (Inl (internal err), b1)
                | Inr ids \<Rightarrow> (Inr (zip [start..<start + length ids] ids), b1))"

definition journal_pointer_page ::
  "journal \<Rightarrow> owner_key \<Rightarrow> nat \<Rightarrow> nat \<Rightarrow> event_bus \<Rightarrow> (rpc_error, (nat \<times> int) list) result \<times> event_bus" where
  "journal_pointer_page = durable_pointer_page Journal"

definition transcript_pointer_page ::
  "journal \<Rightarrow> owner_key \<Rightarrow> nat \<Rightarrow> nat \<Rightarrow> event_bus \<Rightarrow> (rpc_error, (nat \<times> int) list) result \<times> event_bus" where
  "transcript_pointer_page = durable_pointer_page Transcript"

definition first_wanted :: "nat option \<Rightarrow> nat" where
  "first_wanted since = (case since of Some seq \<Rightarrow> saturating_succ seq | None \<Rightarrow> 0)"

definition read_durable_channel ::
  "durable_channel \<Rightarrow> serde \<Rightarrow> stored_text \<Rightarrow> journal \<Rightarrow> owner_key \<Rightarrow> nat option \<Rightarrow> nat \<Rightarrow> event_bus
   \<Rightarrow> (rpc_error, event list) result \<times> event_bus" where
  "read_durable_channel which ser txt j owner since limit b =
     (let channel = durable_name which; (published, b) = durable_published_count which owner b
      in if published = 0 \<or> (case since of Some s \<Rightarrow> published \<le> saturating_succ s | None \<Rightarrow> False)
         then let (es, b) = bus_read owner channel since (Some limit) b in (Inr es, b)
         else if limit = 0 then (Inr [], b)
         else
           let start = first_wanted since;
               stop = min (saturating_u64_add start limit) published;
               (oldest, b) = ring_oldest_seq owner channel b;
               oldest = (case oldest of Some n \<Rightarrow> n | None \<Rightarrow> published);
               cold_end = min oldest stop
           in case durable_pointer_page which j owner start cold_end b of
                (Inl err, b) \<Rightarrow> (Inl err, b)
              | (Inr want, b) \<Rightarrow>
                  (case if want = [] then Inr [] else reconstruct_durable_events which ser txt j want of
                     Inl err \<Rightarrow> (Inl err, b)
                   | Inr out \<Rightarrow>
                       if want \<noteq> [] \<and> length out < length want then (Inr out, b)
                       else let ring_start = max start oldest
                            in if ring_start < stop
                               then let (es, b) = bus_read owner channel (checked_pred ring_start) (Some (stop - ring_start)) b
                                    in (Inr (out @ es), b)
                               else (Inr out, b)))"

definition read_journal_channel ::
  "serde \<Rightarrow> stored_text \<Rightarrow> journal \<Rightarrow> owner_key \<Rightarrow> nat option \<Rightarrow> nat \<Rightarrow> event_bus
   \<Rightarrow> (rpc_error, event list) result \<times> event_bus" where
  "read_journal_channel = read_durable_channel Journal"

definition read_transcript_channel ::
  "serde \<Rightarrow> stored_text \<Rightarrow> journal \<Rightarrow> owner_key \<Rightarrow> nat option \<Rightarrow> nat \<Rightarrow> event_bus
   \<Rightarrow> (rpc_error, event list) result \<times> event_bus" where
  "read_transcript_channel = read_durable_channel Transcript"

record events_read_params =
  rp_channel :: string
  rp_since :: "nat option"
  rp_limit :: "nat option"

record events_page =
  pg_channel :: string
  pg_events :: "event list"
  pg_returned :: nat
  pg_content_bytes :: nat
  pg_next_since :: "nat option"
  pg_truncated :: bool
  pg_request_clamped :: bool
  pg_payloads_truncated :: bool
  pg_oldest_available :: nat
  pg_history_lost :: bool

definition make_page ::
  "serde \<Rightarrow> events_read_params \<Rightarrow> bool \<Rightarrow> nat \<Rightarrow> nat \<Rightarrow> event list \<Rightarrow> events_page" where
  "make_page ser p durable published oldest_available events =
     (let (es, content_bytes, payloads_truncated) = bound_event_page ser events;
          requested_start = first_wanted (rp_since p);
          cursor = (if es = [] then rp_since p else Some (ev_seq (last es)));
          consumed = first_wanted cursor;
          truncated = (consumed < published)
      in \<lparr>pg_channel = rp_channel p, pg_events = es, pg_returned = length es, pg_content_bytes = content_bytes,
          pg_next_since = (if truncated then cursor else None), pg_truncated = truncated,
          pg_request_clamped = (case rp_limit p of Some limit \<Rightarrow> events_max_page < limit | None \<Rightarrow> False),
          pg_payloads_truncated = payloads_truncated, pg_oldest_available = oldest_available,
          pg_history_lost = (\<not> durable \<and> requested_start < oldest_available)\<rparr>)"

definition effective_limit :: "nat option \<Rightarrow> nat" where
  "effective_limit limit = min (case limit of Some n \<Rightarrow> n | None \<Rightarrow> events_default_page) events_max_page"

definition durable_of :: "string \<Rightarrow> durable_channel option" where
  "durable_of channel =
     (if channel = ''journal'' then Some Journal
      else if channel = ''session.transcript'' then Some Transcript else None)"

definition read_page ::
  "serde \<Rightarrow> stored_text \<Rightarrow> journal \<Rightarrow> owner_key \<Rightarrow> events_read_params \<Rightarrow> event_bus
   \<Rightarrow> (rpc_error, events_page) result \<times> event_bus" where
  "read_page ser txt j owner p b =
     (case durable_of (rp_channel p) of
        Some which \<Rightarrow>
          let (published, b) = durable_published_count which owner b
          in (case read_durable_channel which ser txt j owner (rp_since p) (effective_limit (rp_limit p)) b of
                (Inl err, b) \<Rightarrow> (Inl err, b)
              | (Inr events, b) \<Rightarrow> (Inr (make_page ser p True published 0 events), b))
      | None \<Rightarrow>
          let (published, b) = published_count owner (rp_channel p) b;
              (oldest, b) = ring_oldest_seq owner (rp_channel p) b;
              (events, b) = bus_read owner (rp_channel p) (rp_since p) (Some (effective_limit (rp_limit p))) b
          in (Inr (make_page ser p False published (case oldest of Some n \<Rightarrow> n | None \<Rightarrow> published) events), b))"

definition handle_events_read ::
  "host \<Rightarrow> policy \<Rightarrow> events_read_params decoder \<Rightarrow> serde \<Rightarrow> stored_text \<Rightarrow> journal \<Rightarrow> json \<Rightarrow> attachment option
   \<Rightarrow> event_bus \<Rightarrow> (rpc_error, events_page) result \<times> event_bus" where
  "handle_events_read h pol decode ser txt j params attached b =
     (case attached of
        None \<Rightarrow> (Inl not_attached, b)
      | Some a \<Rightarrow>
          (case bindR (require_journal_event_read h pol params a) (\<lambda>_. bindR (ensure_replay_subsystem b) (\<lambda>_.
                bindR (decode params) (\<lambda>p. bindR (validate_channel_name (rp_channel p)) (\<lambda>_. Inr p)))) of
             Inl err \<Rightarrow> (Inl err, b)
           | Inr p \<Rightarrow>
               (case ensure_event_owner j (at_owner a) b of
                  (Inl err, b1) \<Rightarrow> (Inl err, b1)
                | (Inr _, b1) \<Rightarrow> read_page ser txt j (at_owner a) p b1)))"

section \<open>The byte wall\<close>

text \<open>The longest prefix within a byte budget, and an event with an oversized payload replaced.\<close>

fun fitting :: "(event \<Rightarrow> nat) \<Rightarrow> nat \<Rightarrow> event list \<Rightarrow> event list" where
  "fitting w budget [] = []"
| "fitting w budget (e # es) = (if w e \<le> budget then e # fitting w (budget - w e) es else [])"

definition bounded :: "serde \<Rightarrow> event \<Rightarrow> event" where
  "bounded ser e = (if events_max_content_bytes < encoded_len ser e then e\<lparr>ev_payload := truncated_payload\<rparr> else e)"

abbreviation page_of :: "serde \<Rightarrow> event list \<Rightarrow> event list" where
  "page_of ser \<equiv> fitting (encoded_len ser) events_max_content_bytes"

definition marker_fits :: "serde \<Rightarrow> string \<Rightarrow> bool" where
  "marker_fits ser channel \<longleftrightarrow> (\<forall>seq ts. encoded_len ser
     \<lparr>ev_channel = channel, ev_seq = seq, ev_ts = ts, ev_payload = truncated_payload\<rparr> \<le> events_max_content_bytes)"

lemma content_bytes_small: "events_max_content_bytes < USIZE_MAX"
  by (simp add: events_max_content_bytes_def max_frame_len_def)

lemma push_bounded:
  "push_bounded_event ser es n e =
     (if n + encoded_len ser (bounded ser e) \<le> events_max_content_bytes
      then ((True, events_max_content_bytes < encoded_len ser e), es @ [bounded ser e], n + encoded_len ser (bounded ser e))
      else ((False, events_max_content_bytes < encoded_len ser e), es, n))"
  using content_bytes_small by (auto simp: push_bounded_event_def bounded_def Let_def)

lemma fitting_shift:
  "n \<le> m \<Longrightarrow> fitting w (m - n) (e # es) = (if n + w e \<le> m then e # fitting w (m - (n + w e)) es else [])"
  by auto

lemma bound_events_eq:
  "n \<le> events_max_content_bytes \<Longrightarrow> fst (bound_events ser es acc n flag) =
     acc @ fitting (encoded_len ser) (events_max_content_bytes - n) (map (bounded ser) es)"
  by (induction es arbitrary: acc n flag) (auto simp: push_bounded)

lemma bound_page_eq: "fst (bound_event_page ser es) = page_of ser (map (bounded ser) es)"
  by (simp add: bound_event_page_def bound_events_eq)

lemma reconstruct_eq:
  assumes "n \<le> events_max_content_bytes" and "\<And>seq i. (seq, i) \<in> set want \<Longrightarrow> rebuild seq i = Inr (f seq i)"
  shows "reconstruct_events ser rebuild want acc n =
    Inr (acc @ fitting (encoded_len ser) (events_max_content_bytes - n) (map (\<lambda>(seq, i). bounded ser (f seq i)) want))"
  using assms by (induction want arbitrary: acc n) (auto simp: push_bounded)

lemma fitting_idem [simp]: "fitting w n (fitting w n es) = fitting w n es"
  by (induction es arbitrary: n) auto

lemma fitting_short: "length (fitting w n xs) < length xs \<Longrightarrow> fitting w n (xs @ ys) = fitting w n xs"
  by (induction xs arbitrary: n) (auto split: if_splits)

lemma fitting_full: "length (fitting w n xs) \<ge> length xs \<Longrightarrow> fitting w n xs = xs"
  by (induction xs arbitrary: n) (auto split: if_splits)

lemma fitting_take: "fitting w n xs = take (length (fitting w n xs)) xs"
  by (induction xs arbitrary: n) auto

lemma fitting_subset: "set (fitting w n xs) \<subseteq> set xs"
  by (induction xs arbitrary: n) auto

lemma fitting_bytes: "sum_list (map w (fitting w n xs)) \<le> n"
proof (induction xs arbitrary: n)
  case (Cons x xs)
  show ?case using Cons.IH[of "n - w x"] by auto
qed simp

lemma bounded_channel [simp]: "ev_channel (bounded ser e) = ev_channel e" "ev_seq (bounded ser e) = ev_seq e"
  by (simp_all add: bounded_def)

lemma bounded_fits: "marker_fits ser (ev_channel e) \<Longrightarrow> encoded_len ser (bounded ser e) \<le> events_max_content_bytes"
  by (cases e) (auto simp: marker_fits_def bounded_def)

lemma bounded_idem: "marker_fits ser (ev_channel e) \<Longrightarrow> bounded ser (bounded ser e) = bounded ser e"
  using bounded_fits[of ser e] by (simp add: bounded_def[of ser "bounded ser e"])

section \<open>What a durable page is\<close>

text \<open>
  What an exact page needs of a channel of an owner. \<open>journal_answers\<close>: the journal answers queries
  and every row can be read back. \<open>rows_aligned\<close>: its rows for the owner are one per published event,
  and the pointers that the bus has seen are the newest of them; a row that is written without an
  event, or an event published without its row, breaks this. \<open>events_fit\<close>: every published event was
  small enough to enter the ring; a larger one is accepted by the publication and is not.
\<close>

definition owner_rows :: "durable_channel \<Rightarrow> journal \<Rightarrow> owner_key \<Rightarrow> int list" where
  "owner_rows which j owner = durable_ids which j (ok_principal owner) (ok_name owner)"

definition journal_answers :: "durable_channel \<Rightarrow> stored_text \<Rightarrow> journal \<Rightarrow> owner_key \<Rightarrow> bool" where
  "journal_answers which txt j owner \<longleftrightarrow> \<not> jn_poisoned j \<and> jn_failure j = None
     \<and> length (owner_rows which j owner) < 2 ^ 63
     \<and> list_all (\<lambda>i. \<not> isl (rebuild_event which txt j 0 i)) (owner_rows which j owner)"

definition rows_aligned :: "durable_channel \<Rightarrow> journal \<Rightarrow> owner_key \<Rightarrow> history \<Rightarrow> bool" where
  "rows_aligned which j owner h \<longleftrightarrow>
     fst (h_entries h which owner) + length (snd (h_entries h which owner)) = length (owner_rows which j owner)
     \<and> drop (fst (h_entries h which owner)) (owner_rows which j owner) = snd (h_entries h which owner)"

definition events_fit :: "durable_channel \<Rightarrow> serde \<Rightarrow> owner_key \<Rightarrow> history \<Rightarrow> bool" where
  "events_fit which ser owner h \<longleftrightarrow>
     list_all (\<lambda>e. weight ser e \<le> event_ring_max_bytes) (h_log h (owner, durable_name which))"

lemmas agrees_def = rows_aligned_def events_fit_def

definition backed :: "durable_channel \<Rightarrow> serde \<Rightarrow> stored_text \<Rightarrow> journal \<Rightarrow> owner_key \<Rightarrow> event_bus \<Rightarrow> history \<Rightarrow> bool" where
  "backed which ser txt j owner b h \<longleftrightarrow> replay_inv ser (eb_replay b, h) \<and> \<not> replay_quarantined (eb_replay b)
     \<and> journal_answers which txt j owner \<and> rows_aligned which j owner h \<and> events_fit which ser owner h"

text \<open>
  The event with a given number: the published one while the ring holds it, and before that the one
  rebuilt from the row behind the number.
\<close>

definition durable_event ::
  "durable_channel \<Rightarrow> serde \<Rightarrow> stored_text \<Rightarrow> journal \<Rightarrow> owner_key \<Rightarrow> history \<Rightarrow> nat \<Rightarrow> event" where
  "durable_event which ser txt j owner h n =
     (let ring = ring_spec ser (h_log h (owner, durable_name which));
          oldest = length (owner_rows which j owner) - length ring
      in if n < oldest then (projr (rebuild_event which txt j 0 (owner_rows which j owner ! n)))\<lparr>ev_seq := n\<rparr>
         else ring ! (n - oldest))"

lemma rebuild_seq:
  "\<not> isl (rebuild_event which txt j 0 i) \<Longrightarrow>
    rebuild_event which txt j seq i = Inr ((projr (rebuild_event which txt j 0 i))\<lparr>ev_seq := seq\<rparr>)"
  by (cases which) (auto simp: rebuild_journal_event_def rebuild_transcript_event_def Let_def split: sum.splits list.splits if_splits)

lemma rebuild_channel:
  "rebuild_event which txt j seq i = Inr e \<Longrightarrow> ev_channel e = durable_name which"
  by (cases which) (auto simp: rebuild_journal_event_def rebuild_transcript_event_def Let_def split: sum.splits list.splits if_splits)

lemma backedD:
  assumes "backed which ser txt j owner b h"
  defines "log \<equiv> h_log h (owner, durable_name which)" and "rows \<equiv> owner_rows which j owner"
  defines "ring \<equiv> ring_spec ser log"
  shows "durable_published_count which owner b = (length rows, b)"
    and "ring_oldest_seq owner (durable_name which) b =
      (if ring = [] then None else Some (length rows - length ring), b)"
    and "bus_read owner (durable_name which) since (Some m) b = (take m (filter (after since) ring), b)"
    and "map ev_seq ring = [length rows - length ring..<length rows]" and "length ring \<le> length rows"
    and "e \<in> set ring \<Longrightarrow> ev_channel e = durable_name which" and "suffix ring log" and "length rows \<le> U64_MAX"
proof -
  obtain reg di where st: "eb_replay b = (reg, di)" by fastforce
  let ?buf = "buffer_of (ch_buffers reg) (owner, durable_name which)"
  have inv: "replay_inv ser ((reg, di), h)" and healthy: "\<not> replay_quarantined (reg, di)"
    and ag: "rows_aligned which j owner h" "events_fit which ser owner h" and ans: "journal_answers which txt j owner"
    using assms(1) st by (auto simp: backed_def)
  have q: "\<not> channels_is_quarantined reg" "\<not> durable_is_quarantined di" "\<not> ch_coordination_poisoned reg"
    "\<not> ch_buffers_poisoned reg" "\<not> selected_poisoned which di"
    using healthy by (auto simp: replay_quarantined_def channels_is_quarantined_def not_poisoned)
  have bi: "buf_inv ser (durable_name which) log ?buf" using replay_invD(2)[OF inv, of "(owner, durable_name which)"] by (simp add: log_def)
  have ix: "index_inv (cb_next_seq ?buf) (h_entries h which owner) (index_or_default (selected which di) owner)"
    by (rule replay_invD(3)[OF inv])
  have n: "cb_next_seq ?buf = length rows" "dx_published (index_or_default (selected which di) owner) = length rows"
    using ix ag by (simp_all add: index_inv_def agrees_def rows_def)
  show len: "length rows \<le> U64_MAX" using ans by (simp add: journal_answers_def rows_def)
  show "durable_published_count which owner b = (length rows, b)"
    using st q n(2) by (auto simp: durable_published_count_def reg_durable_len_def durable_len_def index_or_default_def
        durable_index_default_def split: option.splits)
  have "filter (\<lambda>e. weight ser e \<le> event_ring_max_bytes) log = log"
    using ag by (simp add: agrees_def log_def list_all_iff)
  then have ring: "ring = recent (weight ser) log" by (simp add: ring_def ring_spec_def)
  show suf: "suffix ring log" unfolding ring by (rule recent_suffix)
  then obtain pre where pre: "log = pre @ ring" by (auto simp: suffix_def)
  have seqs: "map ev_seq log = [length rows - length log..<length rows]" and ll: "length log \<le> length rows"
    using bi n(1) by (simp_all add: buf_inv_def)
  show rl: "length ring \<le> length rows" using ll pre by simp
  have "map ev_seq ring = drop (length pre) (map ev_seq log)" using pre by simp
  then show mr: "map ev_seq ring = [length rows - length ring..<length rows]"
    unfolding seqs using pre ll by (simp add: drop_upt)
  show "e \<in> set ring \<Longrightarrow> ev_channel e = durable_name which" using bi pre by (auto simp: buf_inv_def list_all_iff)
  have cb: "map re_event (cb_ring ?buf) = ring" using bi by (simp add: buf_inv_def ring_of_def ring_def log_def comp_def)
  have none: "ring = []" if "map_of (ch_buffers reg) (owner, durable_name which) = None"
    using that cb by (simp add: buffer_of_def channel_buf_default_def)
  have first: "ev_seq (re_event r) = length rows - length ring" if "cb_ring ?buf = r # rs" for r rs
    using mr that cb rl by (cases ring) (auto simp: upt_rec split: if_splits)
  show "ring_oldest_seq owner (durable_name which) b =
      (if ring = [] then None else Some (length rows - length ring), b)"
    using st q none first cb
    by (auto simp: ring_oldest_seq_def oldest_seq_def buffer_of_def split: option.splits list.splits)
  show "bus_read owner (durable_name which) since (Some m) b = (take m (filter (after since) ring), b)"
    using read_ring_spec[OF inv healthy, of owner "durable_name which" since "Some m"] st q
    by (auto simp: bus_read_def channel_read_def ring_def log_def split: option.splits)
qed

lemma pointer_page_eq:
  assumes "backed which ser txt j owner b h" and "start < stop" and "stop \<le> length (owner_rows which j owner)"
  shows "durable_pointer_page which j owner start stop b =
    (Inr (map (\<lambda>n. (n, owner_rows which j owner ! n)) [start..<stop]), b)"
proof -
  let ?rows = "owner_rows which j owner"
  obtain reg di where st: "eb_replay b = (reg, di)" by fastforce
  obtain off ids where ent: "h_entries h which owner = (off, ids)" by fastforce
  have inv: "replay_inv ser ((reg, di), h)" and healthy: "\<not> replay_quarantined (reg, di)"
    and ans: "journal_answers which txt j owner" and rows: "off + length ids = length ?rows" "drop off ?rows = ids"
    using assms(1) st ent by (auto simp: backed_def agrees_def)
  have q: "\<not> channels_is_quarantined reg" "\<not> durable_is_quarantined di" "\<not> ch_coordination_poisoned reg"
    "\<not> selected_poisoned which di"
    using healthy by (auto simp: replay_quarantined_def channels_is_quarantined_def not_poisoned)
  have small: "stop < 2 ^ 63" using ans assms(3) by (simp add: journal_answers_def)
  have next_after: "(case checked_pred start of Some s \<Rightarrow> saturating_succ s | None \<Rightarrow> 0) = start"
    using small assms(2) by (simp add: checked_pred_def saturating_succ_def)
  let ?base = "length ?rows - min (length ids) durable_pointer_cap"
  have cached: "durable_index_range which owner (checked_pred start) stop b =
      (map (\<lambda>n. (n, ids ! (n - off))) [max start ?base..<stop], b)"
    using durable_range_spec[OF inv healthy, of which owner "checked_pred start" stop] ent rows(1) st q assms(3)
    by (auto simp: durable_index_range_def reg_durable_range_def next_after durable_range_def Let_def min_absorb1 split: option.splits)
  have pick: "ids ! (n - off) = ?rows ! n" if "?base \<le> n" "n < stop" for n
  proof -
    have "off \<le> n" using that rows(1) by linarith
    then show ?thesis using that rows(1) nth_drop[of off ?rows "n - off"] unfolding rows(2) by simp
  qed
  have query: "durable_event_entry_ids which j (ok_principal owner) (ok_name owner) start (stop - start) =
      Inr (take (stop - start) (drop start ?rows))"
    using ans assms(2) small by (simp add: durable_event_entry_ids_def sql_i64_def run_query_def journal_answers_def owner_rows_def)
  have zipped: "zip [start..<stop] (take (stop - start) (drop start ?rows)) = map (\<lambda>n. (n, ?rows ! n)) [start..<stop]"
    using assms(2, 3) by (intro nth_equalityI) auto
  show ?thesis
  proof (cases "?base \<le> start")
    case True
    then have "map (\<lambda>n. (n, ids ! (n - off))) [max start ?base..<stop] = map (\<lambda>n. (n, ?rows ! n)) [start..<stop]"
      using pick by (simp add: max_def)
    then show ?thesis
      using assms(2) cached upt_conv_Cons[OF assms(2)] by (simp add: durable_pointer_page_def Let_def Suc_diff_Suc)
  next
    case False
    define cache where "cache = map (\<lambda>n. (n, ids ! (n - off))) [max start ?base..<stop]"
    have "length cache \<noteq> stop - start" using False assms(2) by (auto simp: cache_def)
    then show ?thesis
      using assms(2, 3) cached[folded cache_def] query zipped ans
      by (simp add: durable_pointer_page_def Let_def journal_answers_def)
  qed
qed

lemma after_pred: "after (checked_pred n) e \<longleftrightarrow> n \<le> ev_seq e"
  by (auto simp: after_def checked_pred_def)

lemma filter_from:
  "map ev_seq xs = [a..<a + length xs] \<Longrightarrow> filter (\<lambda>e. n \<le> ev_seq e) xs = drop (n - a) xs"
proof (induction xs arbitrary: a)
  case (Cons x xs)
  have x: "ev_seq x = a" and xs: "map ev_seq xs = [Suc a..<Suc a + length xs]"
    using Cons.prems by (simp_all add: upt_conv_Cons del: upt_Suc)
  have "filter (\<lambda>e. n \<le> ev_seq e) xs = xs" if "n \<le> a"
  proof (rule filter_True, rule ballI)
    fix e assume "e \<in> set xs"
    then have "ev_seq e \<in> set [Suc a..<Suc a + length xs]" unfolding xs[symmetric] by simp
    with that show "n \<le> ev_seq e" by (auto simp del: upt_Suc)
  qed
  then show ?case using Cons.IH[OF xs] x by (cases "n \<le> a") (auto simp: not_le drop_Cons')
qed simp

lemma upt_split: "[a..<c] = [a..<min m c] @ [max a m..<c]"
  using upt_add_eq_append[of a m "c - m"] by (cases "m \<le> a"; cases "m \<le> c") (auto simp: min_def max_def)

lemma hot_read:
  assumes "map ev_seq ring = [p - length ring..<p]" and "length ring \<le> p" and "p - length ring \<le> n" and "stop \<le> p"
  shows "take (stop - n) (filter (after (checked_pred n)) ring) = map (\<lambda>k. ring ! (k - (p - length ring))) [n..<stop]"
proof -
  have "filter (after (checked_pred n)) ring = drop (n - (p - length ring)) ring"
    using filter_from[of ring "p - length ring" n] assms(1, 2) by (simp add: after_pred cong: filter_cong)
  then show ?thesis using assms(2-4) by (intro nth_equalityI) (auto simp: algebra_simps)
qed

lemma page_append:
  assumes "map (bounded ser) (page_of ser cold) = page_of ser cold" and "length want = length cold" and "\<not> q \<Longrightarrow> hot = []"
  shows "page_of ser (map (bounded ser) (if want \<noteq> [] \<and> length (page_of ser cold) < length want then page_of ser cold
      else if q then page_of ser cold @ hot else page_of ser cold)) = page_of ser (cold @ map (bounded ser) hot)"
proof (cases "length (page_of ser cold) < length cold")
  case True
  then have "want \<noteq> []" using assms(2) by auto
  then show ?thesis using True assms fitting_short[OF True] by simp
next
  case False
  then show ?thesis using assms fitting_full[of cold "encoded_len ser" events_max_content_bytes] by auto
qed

lemma cold_read:
  assumes "journal_answers which txt j owner" and "stop \<le> length (owner_rows which j owner)"
  shows "reconstruct_durable_events which ser txt j (map (\<lambda>n. (n, owner_rows which j owner ! n)) [start..<stop]) =
    Inr (page_of ser (map (\<lambda>n. bounded ser ((projr (rebuild_event which txt j 0 (owner_rows which j owner ! n)))\<lparr>ev_seq := n\<rparr>)) [start..<stop]))"
proof -
  let ?rows = "owner_rows which j owner"
  let ?f = "\<lambda>seq i. (projr (rebuild_event which txt j 0 i))\<lparr>ev_seq := seq\<rparr>"
  have "rebuild_event which txt j seq i = Inr (?f seq i)" if "(seq, i) \<in> set (map (\<lambda>n. (n, ?rows ! n)) [start..<stop])" for seq i
    using that assms by (intro rebuild_seq) (auto simp: journal_answers_def list_all_length)
  from reconstruct_eq[where n = 0 and acc = "[]" and f = ?f and ser = ser
      and want = "map (\<lambda>n. (n, ?rows ! n)) [start..<stop]", OF _ this] show ?thesis
    using assms(1) by (simp add: reconstruct_durable_events_def journal_answers_def comp_def)
qed

lemma durable_event_channel:
  assumes "backed which ser txt j owner b h" and "n < length (owner_rows which j owner)"
  shows "ev_channel (durable_event which ser txt j owner h n) = durable_name which"
    and "ev_seq (durable_event which ser txt j owner h n) = n"
proof -
  let ?rows = "owner_rows which j owner"
  let ?ring = "ring_spec ser (h_log h (owner, durable_name which))"
  note D = backedD[OF assms(1)]
  have ok: "\<not> isl (rebuild_event which txt j 0 (?rows ! n))"
    using assms by (simp add: backed_def journal_answers_def list_all_length)
  have hot: "n - (length ?rows - length ?ring) < length ?ring" if "\<not> n < length ?rows - length ?ring"
    using that assms(2) by linarith
  have "map ev_seq ?ring ! (n - (length ?rows - length ?ring)) = n" if "\<not> n < length ?rows - length ?ring"
    unfolding D(4) using that assms(2) by simp
  then show "ev_seq (durable_event which ser txt j owner h n) = n"
    using hot by (simp add: durable_event_def Let_def)
  show "ev_channel (durable_event which ser txt j owner h n) = durable_name which"
    using rebuild_channel[OF rebuild_seq[OF ok, of n]] D(6) hot by (simp add: durable_event_def Let_def)
qed

abbreviation durable_page ::
  "durable_channel \<Rightarrow> serde \<Rightarrow> stored_text \<Rightarrow> journal \<Rightarrow> owner_key \<Rightarrow> history \<Rightarrow> nat \<Rightarrow> nat \<Rightarrow> event list" where
  "durable_page which ser txt j owner h start stop \<equiv>
     page_of ser (map (\<lambda>n. bounded ser (durable_event which ser txt j owner h n)) [start..<stop])"

lemma read_durable_eq:
  fixes since :: "nat option"
  assumes bk: "backed which ser txt j owner b h" and mf: "marker_fits ser (durable_name which)"
  defines "start \<equiv> first_wanted since"
  shows "\<exists>es. read_durable_channel which ser txt j owner since limit b = (Inr es, b)
    \<and> fst (bound_event_page ser es) = durable_page which ser txt j owner h start (min (start + limit) (length (owner_rows which j owner)))"
proof -
  let ?rows = "owner_rows which j owner"
  let ?p = "length ?rows"
  let ?ring = "ring_spec ser (h_log h (owner, durable_name which))"
  let ?old = "?p - length ?ring"
  let ?stop = "min (start + limit) ?p"
  let ?ev = "durable_event which ser txt j owner h"
  note D = backedD[OF bk]
  have ans: "journal_answers which txt j owner" using bk by (simp add: backed_def)
  show ?thesis
  proof (cases "?p \<le> start \<or> limit = 0")
    case True
    have "filter (after since) ?ring = []" if "?p \<le> start"
    proof (rule filter_False, rule ballI)
      fix e assume "e \<in> set ?ring"
      then have "ev_seq e \<in> set [?old..<?p]" unfolding D(4)[symmetric] by simp
      then show "\<not> after since e" using that
        by (cases since) (auto simp: after_def start_def first_wanted_def saturating_succ_def)
    qed
    moreover have "(?p = 0 \<or> (case since of Some s \<Rightarrow> ?p \<le> saturating_succ s | None \<Rightarrow> False)) = (?p \<le> start)"
      by (cases since) (auto simp: start_def first_wanted_def)
    ultimately show ?thesis
      using True D(1, 3) by (auto simp: read_durable_channel_def Let_def bound_page_eq)
  next
    case False
    then have lt: "start < ?p" and pos: "0 < limit" by auto
    have stop: "min (saturating_u64_add start limit) ?p = ?stop" using D(8) by (auto simp: saturating_u64_add_def)
    have oldest: "(case (if ?ring = [] then None else Some ?old) of Some n \<Rightarrow> n | None \<Rightarrow> ?p) = ?old" by simp
    have live: "\<not> (?p = 0 \<or> (case since of Some s \<Rightarrow> ?p \<le> saturating_succ s | None \<Rightarrow> False))"
      using lt by (cases since) (auto simp: start_def first_wanted_def)
    let ?cold = "map (\<lambda>n. bounded ser (?ev n)) [start..<min ?old ?stop]"
    let ?hot = "map ?ev [max start ?old..<?stop]"
    let ?want = "map (\<lambda>n. (n, ?rows ! n)) [start..<min ?old ?stop]"
    have page: "durable_pointer_page which j owner start (min ?old ?stop) b = (Inr ?want, b)"
      using pointer_page_eq[OF bk, of start "min ?old ?stop"] by (cases "start < min ?old ?stop") (auto simp: durable_pointer_page_def)
    have cold: "(if ?want = [] then Inr [] else reconstruct_durable_events which ser txt j ?want) = Inr (page_of ser ?cold)"
    proof -
      have eq: "map (\<lambda>n. bounded ser ((projr (rebuild_event which txt j 0 (?rows ! n)))\<lparr>ev_seq := n\<rparr>)) [start..<min ?old ?stop] = ?cold"
        by (rule map_cong) (auto simp: durable_event_def Let_def)
      have "min ?old ?stop \<le> ?p" by simp
      from cold_read[OF ans this, of ser start] show ?thesis
        unfolding eq by (cases "?want = []") (simp_all del: upt_eq_Nil_conv)
    qed
    have hot: "bus_read owner (durable_name which) (checked_pred (max start ?old)) (Some (?stop - max start ?old)) b = (?hot, b)"
    proof -
      have "map (\<lambda>k. ?ring ! (k - ?old)) [max start ?old..<?stop] = ?hot"
        by (rule map_cong) (auto simp: durable_event_def Let_def)
      then show ?thesis unfolding D(3) using hot_read[OF D(4, 5), of "max start ?old" ?stop] by simp
    qed
    have split: "map (\<lambda>n. bounded ser (?ev n)) [start..<?stop] = ?cold @ map (bounded ser) ?hot"
    proof -
      have "[start..<?stop] = [start..<min ?old ?stop] @ [max start ?old..<?stop]"
        by (rule upt_split)
      then show ?thesis by (simp add: comp_def)
    qed
    have idem: "map (bounded ser) (page_of ser ?cold) = page_of ser ?cold"
    proof -
      have "bounded ser e = e" if "e \<in> set ?cold" for e
        using that mf durable_event_channel(1)[OF bk] by (auto simp: bounded_idem)
      then show ?thesis using fitting_subset[of "encoded_len ser" events_max_content_bytes ?cold] by (intro map_idI) blast
    qed
    let ?short = "?want \<noteq> [] \<and> length (page_of ser ?cold) < length ?want"
    have "read_durable_channel which ser txt j owner since limit b =
        (Inr (if ?short then page_of ser ?cold
              else if max start ?old < ?stop then page_of ser ?cold @ ?hot else page_of ser ?cold), b)"
      unfolding read_durable_channel_def Let_def D(1) prod.case if_not_P[OF live] D(2) oldest
        start_def[symmetric] stop page
      using pos cold hot by simp
    moreover have "page_of ser (map (bounded ser) (if ?short then page_of ser ?cold
              else if max start ?old < ?stop then page_of ser ?cold @ ?hot else page_of ser ?cold)) =
        page_of ser (?cold @ map (bounded ser) ?hot)"
      by (rule page_append) (use idem in \<open>auto simp del: map_map upt_eq_Nil_conv\<close>)
    ultimately show ?thesis unfolding bound_page_eq split by blast
  qed
qed

lemma durable_page_prefix:
  fixes start :: nat
  assumes "backed which ser txt j owner b h" and "marker_fits ser (durable_name which)"
    and "stop \<le> length (owner_rows which j owner)"
  defines "es \<equiv> durable_page which ser txt j owner h start stop"
  shows "es = map (\<lambda>n. bounded ser (durable_event which ser txt j owner h n)) [start..<start + length es]"
    and "length es \<le> stop - start" and "map ev_seq es = [start..<start + length es]" and "start < stop \<Longrightarrow> es \<noteq> []"
proof -
  let ?xs = "map (\<lambda>n. bounded ser (durable_event which ser txt j owner h n)) [start..<stop]"
  have take: "es = take (length es) ?xs" unfolding es_def by (rule fitting_take)
  then show len: "length es \<le> stop - start" by (metis length_map length_take length_upt min.cobounded1)
  show eq: "es = map (\<lambda>n. bounded ser (durable_event which ser txt j owner h n)) [start..<start + length es]"
  proof (rule nth_equalityI)
    show "es ! i = map (\<lambda>n. bounded ser (durable_event which ser txt j owner h n)) [start..<start + length es] ! i"
      if "i < length es" for i
      using that len nth_take[OF that, of ?xs] take by simp
  qed simp
  have "n < length (owner_rows which j owner)" if "n \<in> set [start..<start + length es]" for n
    using that len assms(3) by auto
  then have "map ev_seq (map (\<lambda>n. bounded ser (durable_event which ser txt j owner h n)) [start..<start + length es]) = [start..<start + length es]"
    using durable_event_channel(2)[OF assms(1)] unfolding map_map comp_def by (intro map_idI) simp
  then show "map ev_seq es = [start..<start + length es]" by (subst eq)
  show "es \<noteq> []" if "start < stop"
  proof -
    have "encoded_len ser (bounded ser (durable_event which ser txt j owner h start)) \<le> events_max_content_bytes"
      using that assms(2, 3) durable_event_channel(1)[OF assms(1), of start] by (intro bounded_fits) simp
    then show ?thesis using that upt_conv_Cons[OF that] by (simp add: es_def)
  qed
qed

text \<open>The page that a read of a journal-backed channel answers, and its cursor.\<close>

lemma read_page_eq:
  fixes p :: events_read_params
  assumes bk: "backed which ser txt j owner b h" and mf: "marker_fits ser (durable_name which)"
    and ch: "durable_of (rp_channel p) = Some which"
  defines "start \<equiv> first_wanted (rp_since p)" and "count \<equiv> length (owner_rows which j owner)"
  defines "es \<equiv> durable_page which ser txt j owner h start (min (start + effective_limit (rp_limit p)) count)"
  obtains pg where "read_page ser txt j owner p b = (Inr pg, b)" "pg_events pg = es"
    "pg_truncated pg \<longleftrightarrow> start + length es < count" "\<not> pg_history_lost pg"
    "pg_next_since pg = (if start + length es < count then if es = [] then rp_since p else Some (start + length es - 1) else None)"
proof -
  obtain raw where raw: "read_durable_channel which ser txt j owner (rp_since p) (effective_limit (rp_limit p)) b = (Inr raw, b)"
    "fst (bound_event_page ser raw) = es"
    using read_durable_eq[OF bk mf, of "rp_since p" "effective_limit (rp_limit p)"] by (auto simp: es_def start_def count_def)
  obtain bytes flag where page: "bound_event_page ser raw = (es, bytes, flag)" using raw(2) by (metis surj_pair fst_conv)
  have seqs: "map ev_seq es = [start..<start + length es]" "length es \<le> min (start + effective_limit (rp_limit p)) count - start"
    using durable_page_prefix(2, 3)[OF bk mf, of "min (start + effective_limit (rp_limit p)) count" start]
    by (simp_all add: es_def count_def)
  have last: "ev_seq (last es) = start + length es - 1" if "es \<noteq> []"
  proof -
    have "last (map ev_seq es) = last [start..<start + length es]" by (simp only: seqs(1))
    then show ?thesis using that by (simp add: last_map)
  qed
  have small: "count \<le> U64_MAX" using backedD(8)[OF bk] by (simp add: count_def)
  let ?cursor = "if es = [] then rp_since p else Some (ev_seq (last es))"
  have consumed: "first_wanted ?cursor = start + length es"
  proof (cases "es = []")
    case False
    then have pos: "0 < length es" by simp
    then have "start + length es \<le> count" using seqs(2) by linarith
    then show ?thesis using False pos last small by (simp add: first_wanted_def saturating_succ_def)
  qed (simp add: start_def)
  show ?thesis
  proof (rule that)
    show "read_page ser txt j owner p b = (Inr (make_page ser p True count 0 raw), b)"
      using ch raw(1) backedD(1)[OF bk] by (simp add: read_page_def count_def)
  qed (use page consumed last in \<open>simp_all add: make_page_def Let_def\<close>)
qed

text \<open>A client that follows \<open>next_since\<close> from page to page, for at most \<open>n\<close> requests.\<close>

fun follow_pages ::
  "serde \<Rightarrow> stored_text \<Rightarrow> journal \<Rightarrow> owner_key \<Rightarrow> string \<Rightarrow> nat \<Rightarrow> nat option \<Rightarrow> event_bus \<Rightarrow> event list" where
  "follow_pages ser txt j owner channel 0 since b = []"
| "follow_pages ser txt j owner channel (Suc n) since b =
     (case read_page ser txt j owner \<lparr>rp_channel = channel, rp_since = since, rp_limit = None\<rparr> b of
        (Inl _, _) \<Rightarrow> []
      | (Inr pg, b1) \<Rightarrow> pg_events pg @
          (if pg_truncated pg then follow_pages ser txt j owner channel n (pg_next_since pg) b1 else []))"

lemma durable_of_name [simp]: "durable_of (durable_name which) = Some which"
  by (cases which) (simp_all add: durable_of_def)

lemma follow_pages_eq:
  assumes bk: "backed which ser txt j owner b h" and mf: "marker_fits ser (durable_name which)"
    and "length (owner_rows which j owner) \<le> first_wanted since + n"
  shows "follow_pages ser txt j owner (durable_name which) n since b =
    map (\<lambda>n. bounded ser (durable_event which ser txt j owner h n)) [first_wanted since..<length (owner_rows which j owner)]"
  using assms(3)
proof (induction n arbitrary: since)
  case (Suc n)
  let ?p = "\<lparr>rp_channel = durable_name which, rp_since = since, rp_limit = None\<rparr>"
  let ?start = "first_wanted since"
  let ?count = "length (owner_rows which j owner)"
  let ?ev = "\<lambda>n. bounded ser (durable_event which ser txt j owner h n)"
  let ?stop = "min (?start + effective_limit None) ?count"
  define es where "es = durable_page which ser txt j owner h ?start ?stop"
  have lim: "0 < effective_limit None" by (simp add: effective_limit_def events_default_page_def events_max_page_def)
  have sel: "rp_since ?p = since" "rp_limit ?p = None" by simp_all
  note page = read_page_eq[OF bk mf, where p = ?p, unfolded sel, folded es_def]
  obtain pg where pg: "read_page ser txt j owner ?p b = (Inr pg, b)" "pg_events pg = es"
    "pg_truncated pg \<longleftrightarrow> ?start + length es < ?count"
    "pg_next_since pg = (if ?start + length es < ?count then if es = [] then since else Some (?start + length es - 1) else None)"
    by (rule page) (simp, blast)
  note es = durable_page_prefix[OF bk mf, of ?stop ?start, folded es_def]
  have events: "es = map ?ev [?start..<?start + length es]" "length es \<le> ?stop - ?start" using es(1, 2) by simp_all
  show ?case
  proof (cases "?start + length es < ?count")
    case True
    then have "es \<noteq> []" using es(4) lim by (cases "?start < ?stop") auto
    moreover have "?count \<le> U64_MAX" by (rule backedD(8)[OF bk])
    ultimately have nx: "pg_next_since pg = Some (?start + length es - 1)" "first_wanted (Some (?start + length es - 1)) = ?start + length es"
      using True pg(4) by (cases es; simp add: first_wanted_def saturating_succ_def)+
    have "?count \<le> first_wanted (Some (?start + length es - 1)) + n"
      unfolding nx(2) using Suc.prems \<open>es \<noteq> []\<close> by (cases es) auto
    from Suc.IH[OF this] have "follow_pages ser txt j owner (durable_name which) (Suc n) since b =
        es @ map ?ev [?start + length es..<?count]"
      using pg(1-3) True unfolding nx(2) by (simp add: nx(1))
    also have "\<dots> = map ?ev [?start..<?count]"
    proof -
      have "[?start..<?count] = [?start..<?start + length es] @ [?start + length es..<?count]"
        using upt_split[of ?start ?count "?start + length es"] True by (simp add: min_def max_def)
      then show ?thesis using events(1) by (metis map_append)
    qed
    finally show ?thesis .
  next
    case False
    have "[?start..<?start + length es] = [?start..<?count]"
    proof (cases "es = []")
      case False
      then have "0 < length es" by simp
      then have "?start + length es = ?count" using \<open>\<not> ?start + length es < ?count\<close> events(2) by linarith
      then show ?thesis by simp
    qed (use False in simp)
    then show ?thesis using pg(1-3) False events(1) by (simp del: upt_eq_Nil_conv)
  qed
qed simp

section \<open>Hydration after a restart\<close>

lemma seed_query:
  assumes "jn_failure j = None"
  shows "durable_event_seed_of which j (ok_principal owner) (ok_name owner) durable_pointer_cap =
    Inr \<lparr>ds_published = length (owner_rows which j owner),
         ds_tail_entry_ids = drop (length (owner_rows which j owner) - durable_pointer_cap) (owner_rows which j owner)\<rparr>"
  using assms
  by (simp add: durable_event_seed_of_def sql_i64_def run_query_def owner_rows_def durable_pointer_cap_def
      event_ring_cap_def take_rev Let_def)

text \<open>The history that hydration gives a fresh bus: the newest rows of both channels.\<close>

definition hydrated_history :: "journal \<Rightarrow> owner_key \<Rightarrow> history" where
  "hydrated_history j owner = no_history\<lparr>h_entries := (\<lambda>which ow. if ow = owner
     then (length (owner_rows which j owner) - durable_pointer_cap,
           drop (length (owner_rows which j owner) - durable_pointer_cap) (owner_rows which j owner))
     else (0, []))\<rparr>"

definition hydrating :: "journal \<Rightarrow> owner_key \<Rightarrow> replay_op list" where
  "hydrating j owner = map (\<lambda>which. Seed which owner (length (owner_rows which j owner))
     (drop (length (owner_rows which j owner) - durable_pointer_cap) (owner_rows which j owner))) [Journal, Transcript]"

lemma hydrating_run:
  assumes "jn_failure j = None" and "\<not> jn_poisoned j"
  shows "snd (replay_run ser (hydrating j owner)) = hydrated_history j owner"
    and "\<not> replay_quarantined (fst (replay_run ser (hydrating j owner)))"
    and "ensure_event_owner j owner event_bus_default = (Inr (), event_bus_default\<lparr>eb_replay := fst (replay_run ser (hydrating j owner))\<rparr>)"
proof -
  let ?n = "\<lambda>which. length (owner_rows which j owner)"
  let ?tail = "\<lambda>which. drop (?n which - durable_pointer_cap) (owner_rows which j owner)"
  define di1 where "di1 = set_selected Journal [owner \<mapsto> \<lparr>dx_published = ?n Journal,
     dx_base_seq = ?n Journal - durable_pointer_cap, dx_tail = ?tail Journal\<rparr>] durable_indexes_default"
  define st1 where "st1 = (channel_registry_default\<lparr>ch_buffers :=
     [((owner, ''journal''), channel_buf_default\<lparr>cb_next_seq := ?n Journal\<rparr>)]\<rparr>, di1)"
  define di2 where "di2 = set_selected Transcript [owner \<mapsto> \<lparr>dx_published = ?n Transcript,
     dx_base_seq = ?n Transcript - durable_pointer_cap, dx_tail = ?tail Transcript\<rparr>] di1"
  define st2 where "st2 = (channel_registry_default\<lparr>ch_buffers :=
     [((owner, ''journal''), channel_buf_default\<lparr>cb_next_seq := ?n Journal\<rparr>),
      ((owner, ''session.transcript''), channel_buf_default\<lparr>cb_next_seq := ?n Transcript\<rparr>)]\<rparr>, di2)"
  have keep: "min (length (?tail which)) durable_pointer_cap = length (?tail which)"
    "length (?tail which) = min (?n which) durable_pointer_cap" for which by auto
  note defs = replay_default_def channel_registry_default_def durable_indexes_default_def channels_is_quarantined_def
    durable_is_quarantined_def buffer_of_def st1_def st2_def di1_def di2_def
  have seed1: "seed_durable Journal owner ''journal'' (?n Journal) (?tail Journal) replay_default = (True, st1)"
    by (simp add: seed_durable_def durable_seed_def Let_def keep defs channel_buf_default_def)
  have seed2: "seed_durable Transcript owner ''session.transcript'' (?n Transcript) (?tail Transcript) st1 = (True, st2)"
    by (simp add: seed_durable_def durable_seed_def Let_def keep defs channel_buf_default_def)
  have run: "replay_run ser (hydrating j owner) = (st2, hydrated_history j owner)"
  proof -
    have none: "selected Journal (snd replay_default) owner = None" "selected Transcript (snd st1) owner = None"
      by (simp_all add: defs)
    have which: "w = Journal \<or> w = Transcript" for w by (cases w) auto
    show ?thesis
      using none seed1 seed2 which
      by (fastforce simp: replay_run_def hydrating_def hydrated_history_def no_history_def Let_def keep)
  qed
  show "snd (replay_run ser (hydrating j owner)) = hydrated_history j owner" by (simp add: run)
  show "\<not> replay_quarantined (fst (replay_run ser (hydrating j owner)))" by (simp add: run replay_quarantined_def defs)
  show "ensure_event_owner j owner event_bus_default =
      (Inr (), event_bus_default\<lparr>eb_replay := fst (replay_run ser (hydrating j owner))\<rparr>)"
    using assms seed1 seed2 seed_query[OF assms(1)]
    by (simp add: ensure_event_owner_def seed_owner_from_journal_def bus_is_initialized_def reg_durable_is_initialized_def
        durable_is_initialized_def event_bus_default_def seed_index_def journal_event_seed_def transcript_event_seed_def
        run replay_default_def channel_registry_default_def durable_indexes_default_def channels_is_quarantined_def durable_is_quarantined_def)
qed

lemma hydrated_backed:
  fixes ser :: serde
  assumes "journal_answers which txt j owner" and "list_all (\<lambda>w. length (owner_rows w j owner) \<le> U64_MAX) [Journal, Transcript]"
  defines "b \<equiv> event_bus_default\<lparr>eb_replay := fst (replay_run ser (hydrating j owner))\<rparr>"
  shows "ensure_event_owner j owner event_bus_default = (Inr (), b)"
    and "backed which ser txt j owner b (hydrated_history j owner)"
proof -
  have ok: "jn_failure j = None" "\<not> jn_poisoned j" using assms(1) by (simp_all add: journal_answers_def)
  note run = hydrating_run[OF ok, where ser = ser and owner = owner]
  show "ensure_event_owner j owner event_bus_default = (Inr (), b)" unfolding b_def by (rule run(3))
  have "replay_inv ser (fst (replay_run ser (hydrating j owner)), hydrated_history j owner)"
    using assms(2) run(1, 2)
    by (intro replay_run_inv[of ser "hydrating j owner"]) (auto simp: hydrating_def prod_eq_iff)
  moreover have "rows_aligned which j owner (hydrated_history j owner)" "events_fit which ser owner (hydrated_history j owner)"
    by (simp_all add: agrees_def hydrated_history_def no_history_def)
  ultimately show "backed which ser txt j owner b (hydrated_history j owner)"
    using assms(1) run(2) by (simp add: backed_def b_def)
qed

lemma hydrated_event:
  "n < length (owner_rows which j owner) \<Longrightarrow> durable_event which ser txt j owner (hydrated_history j owner) n =
    (projr (rebuild_event which txt j 0 (owner_rows which j owner ! n)))\<lparr>ev_seq := n\<rparr>"
  by (simp add: durable_event_def hydrated_history_def no_history_def ring_spec_def)

lemma hydrated_pages:
  assumes "journal_answers which txt j owner" and "list_all (\<lambda>w. length (owner_rows w j owner) \<le> U64_MAX) [Journal, Transcript]"
    and "marker_fits ser (durable_name which)" and "length (owner_rows which j owner) \<le> n"
  obtains b where "ensure_event_owner j owner event_bus_default = (Inr (), b)"
    "follow_pages ser txt j owner (durable_name which) n None b =
      map (\<lambda>n. bounded ser ((projr (rebuild_event which txt j 0 (owner_rows which j owner ! n)))\<lparr>ev_seq := n\<rparr>))
        [0..<length (owner_rows which j owner)]"
proof
  let ?b = "event_bus_default\<lparr>eb_replay := fst (replay_run ser (hydrating j owner))\<rparr>"
  note bk = hydrated_backed[OF assms(1, 2), of ser]
  show "ensure_event_owner j owner event_bus_default = (Inr (), ?b)" by (rule bk(1))
  show "follow_pages ser txt j owner (durable_name which) n None ?b =
      map (\<lambda>n. bounded ser ((projr (rebuild_event which txt j 0 (owner_rows which j owner ! n)))\<lparr>ev_seq := n\<rparr>))
        [0..<length (owner_rows which j owner)]"
    using follow_pages_eq[OF bk(2) assms(3), of None n] assms(4)
    by (simp add: first_wanted_def hydrated_event cong: map_cong)
qed

section \<open>Properties\<close>

text \<open>
  C8. Durable replay survives a restart: a fresh kernel over an existing journal hydrates the
  owner's cursors, and a client that follows the cursor of each page receives one event per journal
  row of its session, in row order, numbered from zero without a gap, whatever the number of rows.
\<close>

theorem restart_replays_journal:
  assumes "journal_answers which txt j owner"
    and "list_all (\<lambda>w. length (owner_rows w j owner) \<le> U64_MAX) [Journal, Transcript]"
    and "marker_fits ser (durable_name which)"
  shows "\<exists>b. ensure_event_owner j owner event_bus_default = (Inr (), b)
    \<and> follow_pages ser txt j owner (durable_name which) (length (owner_rows which j owner)) None b =
        map (\<lambda>n. bounded ser ((projr (rebuild_event which txt j 0 (owner_rows which j owner ! n)))\<lparr>ev_seq := n\<rparr>))
          [0..<length (owner_rows which j owner)]"
  by (rule hydrated_pages[OF assms order_refl]) blast

text \<open>
  C9. Each page of a journal-backed channel is exact, provided the journal answers, its rows for the
  owner are one per published event and aligned with the published ones (\<open>rows_aligned\<close>), and every
  published event is at most the byte limit of the ring (\<open>events_fit\<close>); states in which these fail can
  be reached. Then, while the replay subsystem is not quarantined, a read returns the longest prefix within eight MiB of the events from the cursor on, up to
  the limit of at most 256, with consecutive numbers; it is not empty while events remain; it says
  that more remain exactly when they do; and no history is reported lost.
\<close>

theorem durable_page_exact:
  assumes "replay_run ser ops = (eb_replay b, h)" and "list_all disciplined ops" and "\<not> replay_quarantined (eb_replay b)"
    and "journal_answers which txt j owner" and "rows_aligned which j owner h" and "events_fit which ser owner h"
    and "marker_fits ser (durable_name which)" and "rp_channel p = durable_name which" and "0 < effective_limit (rp_limit p)"
  shows "\<exists>pg. read_page ser txt j owner p b = (Inr pg, b)
    \<and> (let start = first_wanted (rp_since p); count = length (owner_rows which j owner);
            stop = min (start + effective_limit (rp_limit p)) count
       in pg_events pg = page_of ser (map (\<lambda>n. bounded ser (durable_event which ser txt j owner h n)) [start..<stop])
        \<and> map ev_seq (pg_events pg) = [start..<start + length (pg_events pg)]
        \<and> length (pg_events pg) \<le> 256 \<and> sum_list (map (encoded_len ser) (pg_events pg)) \<le> 8 * 1024 * 1024
        \<and> (start < count \<longrightarrow> pg_events pg \<noteq> [])
        \<and> (pg_truncated pg \<longleftrightarrow> start + length (pg_events pg) < count)
        \<and> (pg_truncated pg \<longrightarrow> first_wanted (pg_next_since pg) = start + length (pg_events pg))
        \<and> \<not> pg_history_lost pg)"
proof -
  let ?start = "first_wanted (rp_since p)"
  let ?count = "length (owner_rows which j owner)"
  let ?stop = "min (?start + effective_limit (rp_limit p)) ?count"
  define es where "es = durable_page which ser txt j owner h ?start ?stop"
  have bk: "backed which ser txt j owner b h"
    using assms(1-6) replay_run_inv[OF assms(1)] by (simp add: backed_def)
  note pre = durable_page_prefix[OF bk assms(7), of ?stop ?start, folded es_def]
  have es: "map ev_seq es = [?start..<?start + length es]" "length es \<le> ?stop - ?start" "?start < ?stop \<Longrightarrow> es \<noteq> []"
    using pre(2-4) by simp_all
  have lim: "effective_limit (rp_limit p) \<le> 256" by (simp add: effective_limit_def events_max_page_def)
  have bytes: "sum_list (map (encoded_len ser) es) \<le> 8 * 1024 * 1024"
    using fitting_bytes[of "encoded_len ser" events_max_content_bytes] unfolding es_def
    by (rule order_trans) (simp add: events_max_content_bytes_def max_frame_len_def)
  have small: "?count \<le> U64_MAX" by (rule backedD(8)[OF bk])
  have ne: "es \<noteq> []" if "?start < ?count" using that assms(9) es(3) by simp
  have cursor: "first_wanted (if es = [] then rp_since p else Some (?start + length es - 1)) = ?start + length es"
    if "?start + length es < ?count"
    using that small by (cases es) (simp_all add: first_wanted_def saturating_succ_def)
  have ch: "durable_of (rp_channel p) = Some which" using assms(8) by simp
  note page = read_page_eq[OF bk assms(7) ch, folded es_def]
  show ?thesis
  proof (rule page)
    fix pg
    assume pg: "read_page ser txt j owner p b = (Inr pg, b)" "pg_events pg = es"
      "pg_truncated pg = (?start + length es < ?count)" "\<not> pg_history_lost pg"
      "pg_next_since pg = (if ?start + length es < ?count then if es = [] then rp_since p else Some (?start + length es - 1) else None)"
    have "length es \<le> 256" using es(2) lim by linarith
    then show ?thesis
      unfolding Let_def using pg es(1) bytes ne cursor
      by (intro exI[of _ pg]) (simp add: es_def[symmetric])
  qed
qed

text \<open>
  C17. Cold replay does not distinguish authority scopes: owners that share principal and session
  name but not the authority scope replay the same journal rows, so after a restart one scope
  receives every event of the other.
\<close>

theorem cold_replay_ignores_authority_scope:
  assumes "ok_principal a = ok_principal o'" and "ok_name a = ok_name o'"
    and "journal_answers which txt j a" and "list_all (\<lambda>w. length (owner_rows w j a) \<le> U64_MAX) [Journal, Transcript]"
    and "marker_fits ser (durable_name which)"
  shows "\<exists>ba bo. ensure_event_owner j a event_bus_default = (Inr (), ba) \<and> ensure_event_owner j o' event_bus_default = (Inr (), bo)
    \<and> follow_pages ser txt j o' (durable_name which) (length (owner_rows which j a)) None bo =
        follow_pages ser txt j a (durable_name which) (length (owner_rows which j a)) None ba
    \<and> length (follow_pages ser txt j o' (durable_name which) (length (owner_rows which j a)) None bo) =
        length (owner_rows which j a)"
proof -
  have rows: "owner_rows w j o' = owner_rows w j a" for w using assms(1, 2) by (simp add: owner_rows_def)
  have ans: "journal_answers which txt j o'" using assms(3) by (simp add: journal_answers_def rows)
  have len: "list_all (\<lambda>w. length (owner_rows w j o') \<le> U64_MAX) [Journal, Transcript]" using assms(4) by (simp add: rows)
  obtain ba where ba: "ensure_event_owner j a event_bus_default = (Inr (), ba)"
    "follow_pages ser txt j a (durable_name which) (length (owner_rows which j a)) None ba =
      map (\<lambda>n. bounded ser ((projr (rebuild_event which txt j 0 (owner_rows which j a ! n)))\<lparr>ev_seq := n\<rparr>))
        [0..<length (owner_rows which j a)]"
    by (rule hydrated_pages[OF assms(3-5) order_refl])
  obtain bo where bo: "ensure_event_owner j o' event_bus_default = (Inr (), bo)"
    "follow_pages ser txt j o' (durable_name which) (length (owner_rows which j a)) None bo =
      map (\<lambda>n. bounded ser ((projr (rebuild_event which txt j 0 (owner_rows which j a ! n)))\<lparr>ev_seq := n\<rparr>))
        [0..<length (owner_rows which j a)]"
    by (rule hydrated_pages[OF ans len assms(5), unfolded rows, OF order_refl])
  from ba bo show ?thesis by (intro exI[of _ ba] exI[of _ bo]) simp
qed

section \<open>Samples\<close>

definition sample_row :: "int \<Rightarrow> entry_kind \<Rightarrow> entry_row" where
  "sample_row i kind = \<lparr>er_id = i, er_kind = kind, er_parent_id = None, er_session = ''main'', er_principal = ''human'',
     er_ts_ns = 5, er_dur_ns = Some 2, er_cwd = ''/'', er_src = ''ls -l'', er_ast_json = ''{}'', er_effects_json = ''[]'',
     er_status = Some 0, er_ok = Some True, er_opaque = False\<rparr>"

definition sample_journal :: journal where
  "sample_journal = \<lparr>jn_entries = [sample_row 3 Exec, sample_row 1 Exec, sample_row 2 Statement],
     jn_transcript_events = [\<lparr>te_entry_id = 3, te_ts_ns = 8, te_payload_json = ''null''\<rparr>],
     jn_failure = None, jn_poisoned = False\<rparr>"

definition sample_text :: stored_text where
  "sample_text = \<lparr>parse_program = (\<lambda>_. Inr ()), parse_payload = (\<lambda>_. Inr JNull)\<rparr>"

lemma sample_rows:
  "owner_rows Journal sample_journal sample_owner = [1, 3]"
  "owner_rows Transcript sample_journal sample_owner = [3]"
  by (simp_all add: owner_rows_def exec_ids_def transcript_ids_def sample_journal_def sample_row_def sample_owner_def)

lemma sample_answers: "journal_answers Journal sample_text sample_journal sample_owner"
  by (simp add: journal_answers_def sample_rows)
    (simp add: sample_journal_def sample_text_def sample_row_def rebuild_journal_event_def entries_by_id_def run_query_def)

lemma sample_marker: "marker_fits sample_serde ''journal''"
  by (simp add: marker_fits_def encoded_len_def sample_serde_def events_max_content_bytes_def max_frame_len_def)

theorem restart_replays_journal_witness:
  "\<exists>b. ensure_event_owner sample_journal sample_owner event_bus_default = (Inr (), b)
     \<and> map ev_seq (follow_pages sample_serde sample_text sample_journal sample_owner ''journal'' 2 None b) = [0, 1]"
  using restart_replays_journal[of Journal sample_text sample_journal sample_owner sample_serde]
  by (auto simp: sample_rows sample_answers sample_marker upt_rec numeral_2_eq_2)

theorem cold_replay_ignores_authority_scope_witness:
  "\<exists>ba bo. ensure_event_owner sample_journal sample_owner event_bus_default = (Inr (), ba)
     \<and> ensure_event_owner sample_journal (sample_owner\<lparr>ok_scope := ''remote''\<rparr>) event_bus_default = (Inr (), bo)
     \<and> length (follow_pages sample_serde sample_text sample_journal (sample_owner\<lparr>ok_scope := ''remote''\<rparr>) ''journal'' 2 None bo) = 2"
  using cold_replay_ignores_authority_scope[of sample_owner "sample_owner\<lparr>ok_scope := ''remote''\<rparr>" Journal sample_text sample_journal sample_serde]
  by (auto simp: sample_rows sample_answers sample_marker numeral_2_eq_2)

theorem durable_page_exact_witness:
  "\<exists>pg b. read_page sample_serde sample_text sample_journal sample_owner
      \<lparr>rp_channel = ''journal'', rp_since = Some 0, rp_limit = None\<rparr> b = (Inr pg, b)
     \<and> pg_events pg \<noteq> [] \<and> \<not> pg_history_lost pg"
proof -
  let ?b = "event_bus_default\<lparr>eb_replay := fst (replay_run sample_serde (hydrating sample_journal sample_owner))\<rparr>"
  let ?p = "\<lparr>rp_channel = ''journal'', rp_since = Some 0, rp_limit = None\<rparr>"
  have ok: "jn_failure sample_journal = None" "\<not> jn_poisoned sample_journal" by (simp_all add: sample_journal_def)
  note run = hydrating_run[OF ok, where ser = sample_serde and owner = sample_owner]
  have hyps: "replay_run sample_serde (hydrating sample_journal sample_owner) = (eb_replay ?b, hydrated_history sample_journal sample_owner)"
    "list_all disciplined (hydrating sample_journal sample_owner)" "\<not> replay_quarantined (eb_replay ?b)"
    "rows_aligned Journal sample_journal sample_owner (hydrated_history sample_journal sample_owner)"
    "events_fit Journal sample_serde sample_owner (hydrated_history sample_journal sample_owner)"
    "marker_fits sample_serde (durable_name Journal)" "rp_channel ?p = durable_name Journal" "0 < effective_limit (rp_limit ?p)"
    using run(1, 2) sample_marker
    by (simp_all add: prod_eq_iff hydrating_def sample_rows agrees_def hydrated_history_def no_history_def
        effective_limit_def events_default_page_def events_max_page_def)
  have "first_wanted (rp_since ?p) < length (owner_rows Journal sample_journal sample_owner)"
    by (simp add: first_wanted_def saturating_succ_def sample_rows)
  then obtain pg where "read_page sample_serde sample_text sample_journal sample_owner ?p ?b = (Inr pg, ?b)"
    "pg_events pg \<noteq> []" "\<not> pg_history_lost pg"
    using durable_page_exact[OF hyps(1-3) sample_answers hyps(4-8)] unfolding Let_def by blast
  then show ?thesis by blast
qed

end
