(* ===== verification/Value_Float.thy ===== *)
theory Value_Float
  imports Shoal_Prelude Complex_Main
begin

text \<open>
  Rust's \<open>f64\<close> as the value layer uses it: IEEE 754 binary64 with round-to-nearest-even. A finite
  number is its sign and its magnitude, a rational; every operation computes the exact result and
  rounds it once by \<open>f64_round\<close> to a multiple of the unit in the last place of its binade. A NaN
  carries no payload (nothing the sources do with a NaN looks at it).
\<close>

datatype f64 = NaN | Infinity bool | Finite bool rat

subsection \<open>Rounding to binary64\<close>

fun bits :: "nat \<Rightarrow> nat" where
  "bits n = (if n = 0 then 0 else Suc (bits (n div 2)))"

declare bits.simps [simp del]

definition floor_log2 :: "rat \<Rightarrow> int" where
  "floor_log2 x =
     (let (n, d) = quotient_of x; k = int (bits (nat n)) - int (bits (nat d))
      in if 2 powi k \<le> x then k else k - 1)"

text \<open>Round half to even, on a magnitude.\<close>

definition round_even :: "rat \<Rightarrow> int" where
  "round_even x =
     (let f = \<lfloor>x\<rfloor>; r = x - of_int f
      in if r < 1 / 2 then f else if 1 / 2 < r then f + 1 else if even f then f else f + 1)"

text \<open>The exponent of the unit in the last place: 53 significant bits, subnormal below \<open>2^-1022\<close>.\<close>

definition ulp_exp :: "rat \<Rightarrow> int" where
  "ulp_exp x = max (- 1074) (floor_log2 x - 52)"

definition f64_round :: "bool \<Rightarrow> rat \<Rightarrow> f64" where
  "f64_round neg x =
     (if x = 0 then Finite neg 0
      else let u = 2 powi ulp_exp x; r = of_int (round_even (x / u)) * u
           in if 2 ^ 1024 \<le> r then Infinity neg else Finite neg r)"

text \<open>\<open>i as f64\<close> for an integer of any width.\<close>

definition f64_of_int :: "int \<Rightarrow> f64" where
  "f64_of_int i = f64_round (i < 0) (of_int \<bar>i\<bar>)"

subsection \<open>Arithmetic and comparison\<close>

definition signed :: "bool \<Rightarrow> rat \<Rightarrow> rat" where
  "signed neg m = (if neg then - m else m)"

fun f64_neg :: "f64 \<Rightarrow> f64" where
  "f64_neg NaN = NaN"
| "f64_neg (Infinity s) = Infinity (\<not> s)"
| "f64_neg (Finite s m) = Finite (\<not> s) m"

fun f64_add :: "f64 \<Rightarrow> f64 \<Rightarrow> f64" where
  "f64_add (Infinity s) (Infinity t) = (if s = t then Infinity s else NaN)"
| "f64_add (Infinity s) (Finite _ _) = Infinity s"
| "f64_add (Finite _ _) (Infinity t) = Infinity t"
| "f64_add (Finite s a) (Finite t b) =
     (let v = signed s a + signed t b
      in f64_round (v < 0 \<or> v = 0 \<and> s \<and> t) \<bar>v\<bar>)"
| "f64_add _ _ = NaN"

definition f64_sub :: "f64 \<Rightarrow> f64 \<Rightarrow> f64" where
  "f64_sub x y = f64_add x (f64_neg y)"

fun f64_mul :: "f64 \<Rightarrow> f64 \<Rightarrow> f64" where
  "f64_mul (Infinity s) (Infinity t) = Infinity (s \<noteq> t)"
| "f64_mul (Infinity s) (Finite t b) = (if b = 0 then NaN else Infinity (s \<noteq> t))"
| "f64_mul (Finite s a) (Infinity t) = (if a = 0 then NaN else Infinity (s \<noteq> t))"
| "f64_mul (Finite s a) (Finite t b) = f64_round (s \<noteq> t) (a * b)"
| "f64_mul _ _ = NaN"

fun f64_div :: "f64 \<Rightarrow> f64 \<Rightarrow> f64" where
  "f64_div (Infinity s) (Finite t _) = Infinity (s \<noteq> t)"
| "f64_div (Finite s _) (Infinity t) = Finite (s \<noteq> t) 0"
| "f64_div (Finite s a) (Finite t b) =
     (if b = 0 then if a = 0 then NaN else Infinity (s \<noteq> t)
      else f64_round (s \<noteq> t) (a / b))"
| "f64_div _ _ = NaN"

text \<open>The remainder of truncated division is exact and has the sign of the dividend.\<close>

fun f64_rem :: "f64 \<Rightarrow> f64 \<Rightarrow> f64" where
  "f64_rem (Finite s a) (Infinity _) = Finite s a"
| "f64_rem (Finite s a) (Finite _ b) =
     (if b = 0 then NaN else Finite s (a - b * of_int \<lfloor>a / b\<rfloor>))"
| "f64_rem _ _ = NaN"

text \<open>\<open>f64::round\<close>: half away from zero.\<close>

fun f64_round_int :: "f64 \<Rightarrow> f64" where
  "f64_round_int (Finite s m) = Finite s (of_int \<lfloor>m + 1 / 2\<rfloor>)"
| "f64_round_int x = x"

fun f64_partial_cmp :: "f64 \<Rightarrow> f64 \<Rightarrow> ordering option" where
  "f64_partial_cmp NaN _ = None"
| "f64_partial_cmp _ NaN = None"
| "f64_partial_cmp (Infinity s) (Infinity t) =
     Some (if s = t then Equal else if s then Less else Greater)"
| "f64_partial_cmp (Infinity s) (Finite _ _) = Some (if s then Less else Greater)"
| "f64_partial_cmp (Finite _ _) (Infinity t) = Some (if t then Greater else Less)"
| "f64_partial_cmp (Finite s a) (Finite t b) = Some (cmp_of (signed s a) (signed t b))"

definition f64_eq :: "f64 \<Rightarrow> f64 \<Rightarrow> bool" where
  "f64_eq x y \<longleftrightarrow> f64_partial_cmp x y = Some Equal"

definition f64_lt :: "f64 \<Rightarrow> f64 \<Rightarrow> bool" where
  "f64_lt x y \<longleftrightarrow> f64_partial_cmp x y = Some Less"

definition f64_ge :: "f64 \<Rightarrow> f64 \<Rightarrow> bool" where
  "f64_ge x y \<longleftrightarrow> f64_partial_cmp x y = Some Greater \<or> f64_partial_cmp x y = Some Equal"

definition is_nan :: "f64 \<Rightarrow> bool" where
  "is_nan x \<longleftrightarrow> x = NaN"

definition is_finite :: "f64 \<Rightarrow> bool" where
  "is_finite x \<longleftrightarrow> (case x of Finite _ _ \<Rightarrow> True | _ \<Rightarrow> False)"

abbreviation f64_zero :: f64 where
  "f64_zero \<equiv> Finite False 0"

text \<open>The saturating casts \<open>x as u64\<close> and \<open>x as i64\<close>: NaN is 0, the fraction is dropped.\<close>

definition trunc_rat :: "bool \<Rightarrow> rat \<Rightarrow> int" where
  "trunc_rat s m = (if s then - \<lfloor>m\<rfloor> else \<lfloor>m\<rfloor>)"

fun f64_as_u64 :: "f64 \<Rightarrow> nat" where
  "f64_as_u64 NaN = 0"
| "f64_as_u64 (Infinity s) = (if s then 0 else U64_MAX)"
| "f64_as_u64 (Finite s m) = min U64_MAX (nat (trunc_rat s m))"

fun f64_as_i64 :: "f64 \<Rightarrow> int" where
  "f64_as_i64 NaN = 0"
| "f64_as_i64 (Infinity s) = (if s then I64_MIN else I64_MAX)"
| "f64_as_i64 (Finite s m) = saturating_i64 (trunc_rat s m)"

subsection \<open>The binade of a magnitude\<close>

lemma powi2_of_bits:
  assumes "2 ^ (a - 1) \<le> nat n" "nat n < 2 ^ a" "0 < a"
  shows "2 powi (int a - 1) \<le> (of_int n :: rat)" "(of_int n :: rat) < 2 powi int a"
proof -
  have n: "2 ^ (a - 1) \<le> n" "n < 2 ^ a"
    using assms by (simp_all add: le_nat_iff nat_less_iff split: if_splits)
  have "int a - 1 = int (a - 1)"
    using assms(3) by simp
  then have "(2::rat) powi (int a - 1) = of_int (2 ^ (a - 1))"
    by (simp only: power_int_of_nat of_int_power of_int_numeral)
  moreover have "of_int (2 ^ (a - 1)) \<le> (of_int n :: rat)" "(of_int n :: rat) < of_int (2 ^ a)"
    using n by (simp_all only: of_int_le_iff of_int_less_iff)
  ultimately show "2 powi (int a - 1) \<le> (of_int n :: rat)" "(of_int n :: rat) < 2 powi int a"
    by (simp_all only: power_int_of_nat of_int_power of_int_numeral)
qed

lemma bits_bounds: "0 < n \<Longrightarrow> 2 ^ (bits n - 1) \<le> n \<and> n < 2 ^ bits n \<and> 0 < bits n"
proof (induction n rule: bits.induct)
  case (1 n)
  show ?case
  proof (cases "n div 2 = 0")
    case True
    then have "n = 1"
      using "1.prems" by linarith
    then show ?thesis
      by (simp add: bits.simps)
  next
    case False
    then have IH: "2 ^ (bits (n div 2) - 1) \<le> n div 2" "n div 2 < 2 ^ bits (n div 2)"
        "0 < bits (n div 2)"
      using 1 by auto
    have b: "bits n = Suc (bits (n div 2))"
      using "1.prems" by (subst bits.simps) simp
    obtain k where k: "bits (n div 2) = Suc k"
      using IH(3) gr0_implies_Suc by blast
    show ?thesis
      using IH unfolding b k by auto
  qed
qed

lemma powi2_pos [simp]: "(0::rat) < 2 powi k"
  by (simp add: zero_less_power_int)

lemma powi2_less_iff: "(2::rat) powi j < 2 powi k \<longleftrightarrow> j < k"
  using power_int_strict_increasing [of j k "2 :: rat"] power_int_increasing [of k j "2 :: rat"]
  by force

lemma floor_log2_unique:
  assumes "2 powi k \<le> (x :: rat)" "x < 2 powi (k + 1)" "2 powi j \<le> x" "x < 2 powi (j + 1)"
  shows "k = j"
proof -
  have "(2::rat) powi k < 2 powi (j + 1)" "(2::rat) powi j < 2 powi (k + 1)"
    using assms by linarith+
  then show ?thesis
    unfolding powi2_less_iff by linarith
qed

lemma floor_log2_bounds:
  assumes "0 < x"
  shows "2 powi floor_log2 x \<le> x" "x < 2 powi (floor_log2 x + 1)"
proof -
  obtain n d where q: "quotient_of x = (n, d)"
    by fastforce
  have d: "0 < d"
    using q by (rule quotient_of_denom_pos)
  have x: "x = of_int n / of_int d"
    using q by (rule quotient_of_div)
  have n: "0 < n"
    using assms d unfolding x by (simp add: zero_less_divide_iff)
  define a b where "a = bits (nat n)" and "b = bits (nat d)"
  have A: "2 ^ (a - 1) \<le> nat n" "nat n < 2 ^ a" "0 < a"
    using bits_bounds [of "nat n"] n by (auto simp: a_def)
  have B: "2 ^ (b - 1) \<le> nat d" "nat d < 2 ^ b" "0 < b"
    using bits_bounds [of "nat d"] d by (auto simp: b_def)
  note nA = powi2_of_bits [OF A] and dB = powi2_of_bits [OF B]
  let ?k = "int a - int b"
  have "x < 2 powi int a / 2 powi (int b - 1)"
    unfolding x using nA dB n d by (intro frac_less) simp_all
  then have up: "x < 2 powi (?k + 1)"
    by (simp add: power_int_diff power_int_add field_simps)
  have "2 powi (int a - 1) / 2 powi int b \<le> x"
    unfolding x using nA dB n d by (intro frac_le) (simp_all add: less_imp_le)
  then have lo: "2 powi (?k - 1) \<le> x"
    by (simp add: power_int_diff power_int_add field_simps)
  have "floor_log2 x = (if 2 powi ?k \<le> x then ?k else ?k - 1)"
    by (simp add: floor_log2_def q a_def b_def)
  then show "2 powi floor_log2 x \<le> x" "x < 2 powi (floor_log2 x + 1)"
    using up lo by auto
qed

lemma floor_log2_eqI: "2 powi k \<le> x \<Longrightarrow> x < 2 powi (k + 1) \<Longrightarrow> floor_log2 x = k"
  using floor_log2_bounds [of x] floor_log2_unique [of _ x] powi2_pos [of k]
  by (meson less_le_trans)

subsection \<open>Which integers are exact\<close>

lemma round_even_of_int [simp]: "round_even (of_int i) = i"
  by (simp add: round_even_def)

lemma f64_round_exact:
  assumes "x = of_int m * 2 powi ulp_exp x" "x < 2 ^ 1024"
  shows "f64_round neg x = Finite neg x"
proof -
  have "x / 2 powi ulp_exp x = of_int m"
    using assms(1) by (metis nonzero_mult_div_cancel_right powi2_pos order_less_irrefl)
  then show ?thesis
    using assms by (simp add: f64_round_def Let_def)
qed

lemma f64_of_nat_exact:
  assumes "n \<le> 2 ^ 53"
  shows "f64_round neg (of_nat n) = Finite neg (of_nat n)"
proof (cases "n = 0 \<or> n = 2 ^ 53")
  case True
  have "floor_log2 (2 ^ 53) = 53"
    by (rule floor_log2_eqI) (simp_all add: power_int_def)
  then have "f64_round neg (2 ^ 53) = Finite neg (2 ^ 53)"
    by (intro f64_round_exact [where m = "2 ^ 52"]) (simp_all add: ulp_exp_def)
  then show ?thesis
    using True by (auto simp: f64_round_def)
next
  case False
  let ?x = "of_nat n :: rat"
  have pos: "0 < ?x"
    using False by simp
  have "?x < 2 ^ 53"
    using assms False by (metis le_neq_implies_less of_nat_less_iff of_nat_numeral of_nat_power)
  then have "(2::rat) powi floor_log2 ?x < 2 powi 53"
    using floor_log2_bounds(1) [OF pos] by (simp add: power_int_def)
  then have "floor_log2 ?x < 53"
    by (simp only: powi2_less_iff)
  then have "ulp_exp ?x \<le> 0"
    by (simp add: ulp_exp_def)
  then obtain k where k: "ulp_exp ?x = - int k"
    by (rule nonpos_int_cases)
  have "?x = of_int (int n * 2 ^ k) * 2 powi ulp_exp ?x"
    by (simp add: k power_int_minus)
  moreover have "?x < 2 ^ 1024"
    using \<open>?x < 2 ^ 53\<close> by (rule less_trans) simp
  ultimately show ?thesis
    by (rule f64_round_exact)
qed

text \<open>Every integer of magnitude at most \<open>2^53\<close> is itself as an \<open>f64\<close>.\<close>

lemma f64_of_int_exact: "\<bar>i\<bar> \<le> 2 ^ 53 \<Longrightarrow> f64_of_int i = Finite (i < 0) (of_int \<bar>i\<bar>)"
  using f64_of_nat_exact [of "nat \<bar>i\<bar>"] by (simp add: f64_of_int_def nat_le_iff)

text \<open>The bounds the range checks compare with, and the first integer that is not exact.\<close>

lemma round_even_up:
  assumes "of_int f + 1 / 2 < x" "x < of_int f + 1"
  shows "round_even x = f + 1"
proof -
  have "\<lfloor>x\<rfloor> = f"
    using assms by (intro floor_unique) simp_all
  then show ?thesis
    using assms by (simp add: round_even_def)
qed

lemma round_even_tie: "even f \<Longrightarrow> round_even (of_int f + 1 / 2) = f"
proof -
  assume "even f"
  moreover have "\<lfloor>of_int f + 1 / 2 :: rat\<rfloor> = f"
    by (rule floor_unique) simp_all
  ultimately show ?thesis
    by (simp add: round_even_def)
qed

lemma f64_of_u64_max: "f64_of_int (int U64_MAX) = Finite False (2 ^ 64)"
proof -
  have "floor_log2 18446744073709551615 = 63"
    by (rule floor_log2_eqI) (simp_all add: power_int_def)
  moreover have "round_even (18446744073709551615 / 2048) = 9007199254740991 + 1"
    by (rule round_even_up) simp_all
  ultimately show ?thesis
    by (simp add: f64_of_int_def f64_round_def ulp_exp_def power_int_def Let_def)
qed

lemma f64_of_i64_max: "f64_of_int I64_MAX = Finite False (2 ^ 63)"
proof -
  have "floor_log2 9223372036854775807 = 62"
    by (rule floor_log2_eqI) (simp_all add: power_int_def)
  moreover have "round_even (9223372036854775807 / 1024) = 9007199254740991 + 1"
    by (rule round_even_up) simp_all
  ultimately show ?thesis
    by (simp add: f64_of_int_def f64_round_def ulp_exp_def power_int_def Let_def)
qed

lemma f64_of_i64_min: "f64_of_int I64_MIN = Finite True (2 ^ 63)"
proof -
  have "floor_log2 9223372036854775808 = 63"
    by (rule floor_log2_eqI) (simp_all add: power_int_def)
  moreover have "round_even 4503599627370496 = 4503599627370496"
    using round_even_of_int [of 4503599627370496] by simp
  ultimately show ?thesis
    by (simp add: f64_of_int_def f64_round_def ulp_exp_def power_int_def Let_def)
qed

lemma f64_of_first_inexact: "f64_of_int 9007199254740993 = Finite False 9007199254740992"
proof -
  have "floor_log2 9007199254740993 = 53"
    by (rule floor_log2_eqI) (simp_all add: power_int_def)
  moreover have "round_even (9007199254740993 / 2) = 4503599627370496"
    using round_even_tie [of 4503599627370496] by simp
  ultimately show ?thesis
    by (simp add: f64_of_int_def f64_round_def ulp_exp_def power_int_def Let_def)
qed

subsection \<open>Comparison laws\<close>

text \<open>Leaving NaN aside, \<open>partial_cmp\<close> is a total preorder.\<close>

lemma f64_cmp_None: "f64_partial_cmp x y = None \<longleftrightarrow> x = NaN \<or> y = NaN"
  by (cases "(x, y)" rule: f64_partial_cmp.cases) auto

lemma f64_cmp_reverse: "f64_partial_cmp y x = map_option reverse_ordering (f64_partial_cmp x y)"
  by (cases x; cases y) (auto simp: cmp_of_def)

lemma f64_cmp_refl: "x \<noteq> NaN \<Longrightarrow> f64_partial_cmp x x = Some Equal"
  by (cases x) simp_all

lemma f64_cmp_trans:
  assumes "f64_partial_cmp x y = Some o1" "o1 \<noteq> Greater"
    and "f64_partial_cmp y z = Some o2" "o2 \<noteq> Greater"
  shows "f64_partial_cmp x z \<noteq> Some Greater"
  using assms by (cases x; cases y; cases z) (auto simp: cmp_of_def split: if_splits)

lemma f64_eq_sym: "f64_eq x y = f64_eq y x"
  unfolding f64_eq_def f64_cmp_reverse [of y x] by (cases "f64_partial_cmp x y") (auto elim: reverse_ordering.elims)

lemma f64_eq_Finite: "f64_eq (Finite s a) (Finite t b) \<longleftrightarrow> signed s a = signed t b"
  by (simp add: f64_eq_def)

end
