(* ===== verification/Value_Core.thy ===== *)
theory Value_Core
  imports Value_Float Unix_Path Utf8
begin

text \<open>
  The runtime value model: \<open>ErrorVal\<close>, \<open>RangeVal\<close>, the \<open>Value\<close> enum with its equality and condition
  coercion (\<open>value/mod.rs\<close>, \<open>value/value_types.rs\<close>), and the semantic hash the collection methods
  bucket by (\<open>value/stream/ops.rs\<close>). \<open>'z\<close> is \<open>jiff::Zoned\<close> (known here by its timestamp in
  nanoseconds) and \<open>'a\<close> the syntax trees a closure or a command reference holds. A handle that the code
  compares by address (\<open>Arc::ptr_eq\<close>) carries that address. Text and paths are byte strings.
\<close>

subsection \<open>Errors\<close>

record src_span =
  span_start :: nat
  span_end :: nat

record error_val =
  code :: string
  msg :: string
  span :: "src_span option"
  hint :: "string option"
  stderr :: "string option"
  status :: "int option"

text \<open>A value operation fails with an error value or panics.\<close>

datatype failure = Raised error_val | Panicked string

type_synonym 'a vresult = "(failure, 'a) result"

definition error_new :: "string \<Rightarrow> string \<Rightarrow> error_val" where
  "error_new c m = \<lparr>code = c, msg = m, span = None, hint = None, stderr = None, status = None\<rparr>"

definition with_hint :: "string \<Rightarrow> error_val \<Rightarrow> error_val" where
  "with_hint h e = e\<lparr>hint := Some h\<rparr>"

definition or_span :: "src_span \<Rightarrow> error_val \<Rightarrow> error_val" where
  "or_span s e = (case span e of None \<Rightarrow> e\<lparr>span := Some s\<rparr> | Some _ \<Rightarrow> e)"

definition type_error :: "string \<Rightarrow> error_val" where
  "type_error m = error_new ''type_error'' m"

definition arg_error :: "string \<Rightarrow> error_val" where
  "arg_error m = error_new ''arg_error'' m"

abbreviation fail :: "string \<Rightarrow> string \<Rightarrow> 'a vresult" where
  "fail c m \<equiv> Inl (Raised (error_new c m))"

definition dec_int :: "int \<Rightarrow> string" where
  "dec_int i = (if i < 0 then ''-'' @ dec (nat (- i)) else dec (nat i))"

text \<open>The code of a failure that is an error value.\<close>

fun err_code :: "failure \<Rightarrow> string option" where
  "err_code (Raised e) = Some (code e)"
| "err_code (Panicked _) = None"

lemma error_new_sel [simp]:
  "code (error_new c m) = c" "msg (error_new c m) = m" "span (error_new c m) = None"
  by (simp_all add: error_new_def)

lemma with_hint_code [simp]: "code (with_hint h e) = code e"
  by (simp add: with_hint_def)

lemma error_kind_code [simp]:
  "code (type_error m) = ''type_error''" "code (arg_error m) = ''arg_error''"
  by (simp_all add: type_error_def arg_error_def)

subsection \<open>Ranges\<close>

record range_val =
  r_start :: int
  r_end :: int
  inclusive :: bool

record range_iter =
  next_item :: "int option"
  i_end :: int
  i_inclusive :: bool

definition range_next :: "range_iter \<Rightarrow> int option \<times> range_iter" where
  "range_next it =
     (case next_item it of
        None \<Rightarrow> (None, it)
      | Some current \<Rightarrow>
          if (if i_inclusive it then current \<le> i_end it else current < i_end it)
          then (Some current, it\<lparr>next_item := checked_i64 (current + 1)\<rparr>)
          else (None, it\<lparr>next_item := None\<rparr>))"

definition range_to_iter :: "range_val \<Rightarrow> range_iter" where
  "range_to_iter r = \<lparr>next_item = Some (r_start r), i_end = r_end r, i_inclusive = inclusive r\<rparr>"

text \<open>Everything a range iterator yields before it returns \<open>None\<close>.\<close>

definition iter_left :: "range_iter \<Rightarrow> nat" where
  "iter_left it = (case next_item it of None \<Rightarrow> 0 | Some c \<Rightarrow> nat (i_end it - c + 2))"

function range_items :: "range_iter \<Rightarrow> int list" where
  "range_items it =
     (case range_next it of
        (None, _) \<Rightarrow> []
      | (Some x, it') \<Rightarrow> x # range_items it')"
  by pat_completeness auto
termination
  by (relation "measure iter_left")
     (auto simp: range_next_def iter_left_def checked_i64_def split: option.splits if_splits)

declare range_items.simps [simp del]

definition range_len :: "range_val \<Rightarrow> nat" where
  "range_len r =
     (if inclusive r then if r_end r < r_start r then 0 else nat (r_end r - r_start r + 1)
      else if r_end r \<le> r_start r then 0 else nat (r_end r - r_start r))"

definition range_is_empty :: "range_val \<Rightarrow> bool" where
  "range_is_empty r \<longleftrightarrow> range_len r = 0"

definition RANGE_MATERIALIZATION_MAX_VALUES :: nat where
  "RANGE_MATERIALIZATION_MAX_VALUES = 16384"

definition materialization_len :: "range_val \<Rightarrow> nat vresult" where
  "materialization_len r =
     (if RANGE_MATERIALIZATION_MAX_VALUES < range_len r
      then Inl (Raised (with_hint
             ''iterate lazily with `.stream()`, then use `.take(n)` when a list is required''
             (error_new ''range_materialization_limit''
                (''range has '' @ dec (range_len r) @ '' values; eager materialization is limited to ''
                  @ dec RANGE_MATERIALIZATION_MAX_VALUES))))
      else Inr (range_len r))"

definition range_value_at :: "range_val \<Rightarrow> int \<Rightarrow> int option" where
  "range_value_at r index =
     (let end_exclusive = r_end r + (if inclusive r then 1 else 0);
          candidate = (if 0 \<le> index then r_start r + index else end_exclusive + index)
      in if r_start r \<le> candidate \<and> candidate < end_exclusive then checked_i64 candidate else None)"

definition range_contains :: "range_val \<Rightarrow> int \<Rightarrow> bool" where
  "range_contains r v \<longleftrightarrow> r_start r \<le> v \<and> (if inclusive r then v \<le> r_end r else v < r_end r)"

definition range_ok :: "range_val \<Rightarrow> bool" where
  "range_ok r \<longleftrightarrow> in_i64 (r_start r) \<and> in_i64 (r_end r)"

text \<open>The last value of a range.\<close>

definition range_last :: "range_val \<Rightarrow> int" where
  "range_last r = (if inclusive r then r_end r else r_end r - 1)"

lemma range_items_upto:
  assumes "in_i64 c" "in_i64 e"
  shows "range_items \<lparr>next_item = Some c, i_end = e, i_inclusive = b\<rparr>
         = [c..if b then e else e - 1]"
  using assms
proof (induction "nat (e - c + 2)" arbitrary: c rule: less_induct)
  case less
  let ?l = "if b then e else e - 1"
  show ?case
  proof (cases "c \<le> ?l")
    case False
    then show ?thesis
      by (subst range_items.simps) (auto simp: range_next_def split: if_splits)
  next
    case True
    then have "range_items \<lparr>next_item = Some c, i_end = e, i_inclusive = b\<rparr>
        = c # range_items \<lparr>next_item = checked_i64 (c + 1), i_end = e, i_inclusive = b\<rparr>"
      by (subst range_items.simps) (simp add: range_next_def split: if_splits)
    also have "\<dots> = c # [c + 1..?l]"
    proof (cases "in_i64 (c + 1)")
      case True
      then show ?thesis
        using less(1) [of "c + 1"] less(3) \<open>c \<le> ?l\<close> by (auto simp: checked_i64_def split: if_splits)
    next
      case False
      then have "?l \<le> c"
        using less(2,3) by (auto simp: in_i64_def)
      then show ?thesis
        using False by (subst range_items.simps) (simp add: range_next_def checked_i64_def)
    qed
    finally show ?thesis
      using True by (simp add: upto_rec1)
  qed
qed

lemma range_items_eq: "range_ok r \<Longrightarrow> range_items (range_to_iter r) = [r_start r..range_last r]"
  by (simp add: range_ok_def range_to_iter_def range_items_upto range_last_def)

lemma range_len_eq: "range_len r = nat (range_last r - r_start r + 1)"
  by (simp add: range_len_def range_last_def)

lemma range_contains_iff: "range_contains r v \<longleftrightarrow> v \<in> {r_start r..range_last r}"
  by (auto simp: range_contains_def range_last_def)

lemma range_value_at_iff:
  assumes "range_ok r"
  shows "range_value_at r i =
    (if 0 \<le> i \<and> nat i < range_len r then Some (r_start r + i)
     else if i < 0 \<and> nat (- i) \<le> range_len r then Some (range_last r + 1 + i) else None)"
  using assms
  by (auto simp: range_value_at_def range_ok_def in_i64_def range_len_eq range_last_def Let_def)


subsection \<open>Text\<close>

text \<open>
  The width of the first character of a byte string and whether it is complete and valid, as the
  decoders of \<open>String::from_utf8_lossy\<close> and \<open>str::chars\<close> walk it: an invalid sequence ends where it
  stops being the prefix of a valid one.
\<close>

definition utf8_head :: "string \<Rightarrow> nat \<times> bool" where
  "utf8_head s =
     (case s of
        [] \<Rightarrow> (0, True)
      | a # r \<Rightarrow>
          if lead_width a = 0 then (1, False)
          else if lead_width a = 1 then (1, True)
          else case r of
                 [] \<Rightarrow> (1, False)
               | b # r' \<Rightarrow>
                   if \<not> second_ok a b then (1, False)
                   else if lead_width a = 2 then (2, True)
                   else case r' of
                          [] \<Rightarrow> (2, False)
                        | c # r'' \<Rightarrow>
                            if \<not> cont_byte c then (2, False)
                            else if lead_width a = 3 then (3, True)
                            else case r'' of
                                   [] \<Rightarrow> (3, False)
                                 | d # _ \<Rightarrow> if cont_byte d then (4, True) else (3, False))"

definition replacement_char :: string where
  "replacement_char = map char_of [239, 191, 189 :: nat]"

lemma utf8_head_shrinks: "s \<noteq> [] \<Longrightarrow> length s - fst (utf8_head s) < length s"
  by (rule diff_less) (auto simp: utf8_head_def split: list.split)

function utf8_lossy :: "string \<Rightarrow> string" where
  "utf8_lossy s =
     (if s = [] then []
      else (if snd (utf8_head s) then take (fst (utf8_head s)) s else replacement_char)
           @ utf8_lossy (drop (fst (utf8_head s)) s))"
  by pat_completeness auto
termination
  by (relation "measure length") (simp_all add: utf8_head_shrinks)

text \<open>\<open>str::chars\<close>, each character as its encoding.\<close>

function utf8_chars :: "string \<Rightarrow> string list" where
  "utf8_chars s =
     (if s = [] then [] else take (fst (utf8_head s)) s # utf8_chars (drop (fst (utf8_head s)) s))"
  by pat_completeness auto
termination
  by (relation "measure length") (simp_all add: utf8_head_shrinks)

declare utf8_lossy.simps [simp del] utf8_chars.simps [simp del]

lemma utf8_head_valid:
  "valid_utf8 (a # r) \<Longrightarrow>
   snd (utf8_head (a # r)) \<and> valid_utf8 (drop (fst (utf8_head (a # r))) (a # r))"
  by (auto simp: utf8_head_def numeral_eq_Suc split: if_splits list.splits)

lemma utf8_lossy_valid: "valid_utf8 s \<Longrightarrow> utf8_lossy s = s"
proof (induction s rule: utf8_lossy.induct)
  case (1 s)
  show ?case
  proof (cases s)
    case (Cons a r)
    then have "snd (utf8_head s)" "valid_utf8 (drop (fst (utf8_head s)) s)"
      using utf8_head_valid 1(2) by blast+
    then show ?thesis
      using 1(1) Cons by (subst utf8_lossy.simps) (simp del: valid_utf8.simps drop_Cons take_Cons)
  qed (simp add: utf8_lossy.simps)
qed

lemma concat_utf8_chars [simp]: "concat (utf8_chars s) = s"
proof (induction s rule: utf8_chars.induct)
  case (1 s)
  then show ?case
    by (subst utf8_chars.simps) auto
qed

subsection \<open>Values\<close>

record time_val =
  hour :: nat
  minute :: nat
  sec :: nat

record glob_val =
  glob_pattern :: string
  glob_cwd :: string
  glob_hidden :: bool

record cas_bytes =
  cas_hash :: string
  cas_len :: nat
  cas_preview :: string
  cas_truncated :: bool

record secret_val =
  secret_name :: string
  secret_value :: string

record 'a closure_val =
  closure_name :: "string option"
  closure_doc :: "string option"
  closure_code :: 'a
  closure_env :: nat

datatype ('z, 'a) val =
    Null
  | Bool bool
  | Int64 int
  | Float f64
  | Str string
  | Path string
  | Glob glob_val
  | Regex string
  | Size nat
  | Duration int
  | DateTime 'z
  | Time time_val
  | Bytes string
  | CasBytes cas_bytes
  | List "('z, 'a) val list"
  | Record "(string \<times> ('z, 'a) val) list"
  | Table "(string \<times> ('z, 'a) val) list list"
  | Range range_val
  | Stream nat
  | Error error_val
  | Outcome nat "('z, 'a) outcome_val"
  | Task nat
  | Closure nat "'a closure_val"
  | CmdRef 'a
  | Secret secret_val
and ('z, 'a) outcome_val =
    OutcomeVal (o_status: "int option") (o_signal: "string option") (o_ok: bool) (o_stdout: string)
      (o_stdout_ref: "cas_bytes option") (o_stderr: string) (o_dur_ns: int) (o_pid: nat)
      (o_cmd: string) (o_parsed: "('z, 'a) val option") (o_streamed: bool)
      (o_span: "src_span option")

type_synonym ('z, 'a) fields = "(string \<times> ('z, 'a) val) list"

fun type_name :: "('z, 'a) val \<Rightarrow> string" where
  "type_name Null = ''null''"
| "type_name (Bool _) = ''bool''"
| "type_name (Int64 _) = ''int''"
| "type_name (Float _) = ''float''"
| "type_name (Str _) = ''str''"
| "type_name (Path _) = ''path''"
| "type_name (Glob _) = ''glob''"
| "type_name (Regex _) = ''regex''"
| "type_name (Size _) = ''size''"
| "type_name (Duration _) = ''duration''"
| "type_name (DateTime _) = ''datetime''"
| "type_name (Time _) = ''time''"
| "type_name (Bytes _) = ''bytes''"
| "type_name (CasBytes _) = ''bytes''"
| "type_name (List _) = ''list''"
| "type_name (Record _) = ''record''"
| "type_name (Table _) = ''table''"
| "type_name (Range _) = ''range''"
| "type_name (Stream _) = ''stream''"
| "type_name (Error _) = ''error''"
| "type_name (Outcome _ _) = ''outcome''"
| "type_name (Task _) = ''task''"
| "type_name (Closure _ _) = ''closure''"
| "type_name (CmdRef _) = ''command''"
| "type_name (Secret _) = ''secret''"

definition as_condition :: "('z, 'a) val \<Rightarrow> bool vresult" where
  "as_condition v =
     (case v of
        Bool b \<Rightarrow> Inr b
      | Outcome _ out \<Rightarrow> Inr (o_ok out)
      | other \<Rightarrow> Inl (Raised (with_hint
          (''shoal has no truthiness '' @ map char_of [226, 128, 148 :: nat]
             @ '' try .is_empty(), .is_some(), or != null'')
          (error_new ''type_error'' (''expected bool in condition, found '' @ type_name other)))))"

definition is_callable :: "('z, 'a) val \<Rightarrow> bool" where
  "is_callable v = (case v of Closure _ _ \<Rightarrow> True | CmdRef _ \<Rightarrow> True | _ \<Rightarrow> False)"

definition range_materialize :: "range_val \<Rightarrow> ('z, 'a) val list vresult" where
  "range_materialize r =
     bindR (materialization_len r) (\<lambda>_. Inr (map Int64 (range_items (range_to_iter r))))"

subsection \<open>Equality\<close>

abbreviation fields_size :: "('z, 'a) fields \<Rightarrow> nat" where
  "fields_size \<equiv> size_list (size_prod (\<lambda>_. 0) size)"

lemma map_of_size: "map_of r k = Some w \<Longrightarrow> size w < fields_size r"
  by (induction r) (auto split: if_splits)

text \<open>
  \<open>ts\<close> is \<open>Zoned::timestamp\<close>. Paths are equal by components, records by \<open>IndexMap\<close>'s
  order-independent equality, and a table equals the list of its rows.
\<close>

function (sequential)
  value_eq :: "('z \<Rightarrow> int) \<Rightarrow> ('z, 'a) val \<Rightarrow> ('z, 'a) val \<Rightarrow> bool" and
  list_eq :: "('z \<Rightarrow> int) \<Rightarrow> ('z, 'a) val list \<Rightarrow> ('z, 'a) val list \<Rightarrow> bool" and
  fields_in :: "('z \<Rightarrow> int) \<Rightarrow> ('z, 'a) fields \<Rightarrow> ('z, 'a) fields \<Rightarrow> bool" and
  rows_eq :: "('z \<Rightarrow> int) \<Rightarrow> ('z, 'a) fields list \<Rightarrow> ('z, 'a) fields list \<Rightarrow> bool" and
  rows_list_eq :: "('z \<Rightarrow> int) \<Rightarrow> ('z, 'a) fields list \<Rightarrow> ('z, 'a) val list \<Rightarrow> bool" where
  "value_eq ts Null w = (case w of Null \<Rightarrow> True | _ \<Rightarrow> False)"
| "value_eq ts (Bool a) w = (case w of Bool b \<Rightarrow> a = b | _ \<Rightarrow> False)"
| "value_eq ts (Int64 a) w =
     (case w of Int64 b \<Rightarrow> a = b | Float b \<Rightarrow> f64_eq (f64_of_int a) b | _ \<Rightarrow> False)"
| "value_eq ts (Float a) w =
     (case w of Float b \<Rightarrow> f64_eq a b | Int64 b \<Rightarrow> f64_eq (f64_of_int b) a | _ \<Rightarrow> False)"
| "value_eq ts (Str a) w = (case w of Str b \<Rightarrow> a = b | Path p \<Rightarrow> utf8_lossy p = a | _ \<Rightarrow> False)"
| "value_eq ts (Path a) w =
     (case w of Path b \<Rightarrow> components a = components b | Str s \<Rightarrow> utf8_lossy a = s | _ \<Rightarrow> False)"
| "value_eq ts (Glob a) w = (case w of Glob b \<Rightarrow> glob_pattern a = glob_pattern b | _ \<Rightarrow> False)"
| "value_eq ts (Regex a) w = (case w of Regex b \<Rightarrow> a = b | _ \<Rightarrow> False)"
| "value_eq ts (Size a) w = (case w of Size b \<Rightarrow> a = b | _ \<Rightarrow> False)"
| "value_eq ts (Duration a) w = (case w of Duration b \<Rightarrow> a = b | _ \<Rightarrow> False)"
| "value_eq ts (DateTime a) w = (case w of DateTime b \<Rightarrow> ts a = ts b | _ \<Rightarrow> False)"
| "value_eq ts (Time a) w = (case w of Time b \<Rightarrow> a = b | _ \<Rightarrow> False)"
| "value_eq ts (Bytes a) w = (case w of Bytes b \<Rightarrow> a = b | _ \<Rightarrow> False)"
| "value_eq ts (CasBytes a) w =
     (case w of CasBytes b \<Rightarrow> cas_hash a = cas_hash b \<and> cas_len a = cas_len b | _ \<Rightarrow> False)"
| "value_eq ts (List a) w =
     (case w of List b \<Rightarrow> list_eq ts a b | Table t \<Rightarrow> rows_list_eq ts t a | _ \<Rightarrow> False)"
| "value_eq ts (Record a) w =
     (case w of Record b \<Rightarrow> length a = length b \<and> fields_in ts a b | _ \<Rightarrow> False)"
| "value_eq ts (Table a) w =
     (case w of Table b \<Rightarrow> rows_eq ts a b | List l \<Rightarrow> rows_list_eq ts a l | _ \<Rightarrow> False)"
| "value_eq ts (Range a) w = (case w of Range b \<Rightarrow> a = b | _ \<Rightarrow> False)"
| "value_eq ts (Stream a) w = (case w of Stream b \<Rightarrow> a = b | _ \<Rightarrow> False)"
| "value_eq ts (Error a) w = (case w of Error b \<Rightarrow> a = b | _ \<Rightarrow> False)"
| "value_eq ts (Outcome a _) w = (case w of Outcome b _ \<Rightarrow> a = b | _ \<Rightarrow> False)"
| "value_eq ts (Task a) w = (case w of Task b \<Rightarrow> a = b | _ \<Rightarrow> False)"
| "value_eq ts (Closure a _) w = (case w of Closure b _ \<Rightarrow> a = b | _ \<Rightarrow> False)"
| "value_eq ts (CmdRef a) w = (case w of CmdRef b \<Rightarrow> a = b | _ \<Rightarrow> False)"
| "value_eq ts (Secret a) w =
     (case w of Secret b \<Rightarrow> secret_name a = secret_name b \<and> secret_value a = secret_value b
      | _ \<Rightarrow> False)"
| "list_eq ts [] ys \<longleftrightarrow> ys = []"
| "list_eq ts (x # xs) ys = (case ys of [] \<Rightarrow> False | y # ys' \<Rightarrow> value_eq ts x y \<and> list_eq ts xs ys')"
| "fields_in ts [] s = True"
| "fields_in ts ((k, v) # r) s =
     ((case map_of s k of Some w \<Rightarrow> value_eq ts v w | None \<Rightarrow> False) \<and> fields_in ts r s)"
| "rows_eq ts [] u \<longleftrightarrow> u = []"
| "rows_eq ts (r # t) u =
     (case u of [] \<Rightarrow> False
      | s # u' \<Rightarrow> (length r = length s \<and> fields_in ts r s) \<and> rows_eq ts t u')"
| "rows_list_eq ts [] l \<longleftrightarrow> l = []"
| "rows_list_eq ts (r # t) l =
     (case l of [] \<Rightarrow> False
      | v # l' \<Rightarrow>
          (case v of Record s \<Rightarrow> length r = length s \<and> fields_in ts r s | _ \<Rightarrow> False)
          \<and> rows_list_eq ts t l')"
  by pat_completeness auto
termination
proof (relation "measure (case_sum
    (case_sum (\<lambda>(_, v, w). size v + size w) (\<lambda>(_, xs, ys). size_list size xs + size_list size ys))
    (case_sum (\<lambda>(_, r, s). fields_size r + fields_size s)
      (case_sum (\<lambda>(_, t, u). size_list fields_size t + size_list fields_size u)
        (\<lambda>(_, t, l). size_list fields_size t + size_list size l))))")
  show "wf (measure f)" for f :: "'k \<Rightarrow> nat"
    by simp
qed (use map_of_size in \<open>fastforce simp: less_Suc_eq_le\<close>)+

end
