(* ===== verification/Value_Hash.thy ===== *)
theory Value_Hash
  imports Value_Core "HOL-Library.Multiset"
begin

text \<open>
  The structural invariant of values (integers in their width, distinct record keys, valid text),
  the laws of value equality, and \<open>semantic_hash\<close> (\<open>value/stream/ops.rs\<close>), by which \<open>.uniq()\<close> and
  \<open>.group()\<close> bucket values: what is fed to the hasher is the token list \<open>value_hash\<close>.
\<close>

subsection \<open>Well-formed values\<close>

fun f64_ok :: "f64 \<Rightarrow> bool" where
  "f64_ok (Finite _ m) \<longleftrightarrow> 0 \<le> m"
| "f64_ok _ = True"

fun value_ok :: "('z, 'a) val \<Rightarrow> bool" and
  list_ok :: "('z, 'a) val list \<Rightarrow> bool" and
  fields_ok :: "('z, 'a) fields \<Rightarrow> bool" and
  rows_ok :: "('z, 'a) fields list \<Rightarrow> bool" where
  "value_ok (Int64 i) = in_i64 i"
| "value_ok (Float x) = f64_ok x"
| "value_ok (Str s) = valid_utf8 s"
| "value_ok (Size n) = in_u64 n"
| "value_ok (Duration d) = in_i64 d"
| "value_ok (List xs) = list_ok xs"
| "value_ok (Record r) = (distinct (map fst r) \<and> fields_ok r)"
| "value_ok (Table t) = rows_ok t"
| "value_ok (Range r) = range_ok r"
| "value_ok _ = True"
| "list_ok [] = True"
| "list_ok (v # vs) = (value_ok v \<and> list_ok vs)"
| "fields_ok [] = True"
| "fields_ok ((k, v) # r) = (value_ok v \<and> fields_ok r)"
| "rows_ok [] = True"
| "rows_ok (r # t) = (distinct (map fst r) \<and> fields_ok r \<and> rows_ok t)"

lemma list_ok_iff: "list_ok vs \<longleftrightarrow> (\<forall>v \<in> set vs. value_ok v)"
  by (induction vs) auto

lemma fields_ok_iff: "fields_ok r \<longleftrightarrow> (\<forall>k v. (k, v) \<in> set r \<longrightarrow> value_ok v)"
  by (induction r) auto

lemma fields_ok_map_of: "fields_ok r \<Longrightarrow> map_of r k = Some v \<Longrightarrow> value_ok v"
  by (auto simp: fields_ok_iff dest: map_of_SomeD)

lemma rows_ok_iff: "rows_ok t \<longleftrightarrow> (\<forall>r \<in> set t. distinct (map fst r) \<and> fields_ok r)"
  by (induction t) auto

text \<open>The paths a value holds.\<close>

fun paths_of :: "('z, 'a) val \<Rightarrow> string list" and
  list_paths :: "('z, 'a) val list \<Rightarrow> string list" and
  fields_paths :: "('z, 'a) fields \<Rightarrow> string list" and
  rows_paths :: "('z, 'a) fields list \<Rightarrow> string list" where
  "paths_of (Path p) = [p]"
| "paths_of (List xs) = list_paths xs"
| "paths_of (Record r) = fields_paths r"
| "paths_of (Table t) = rows_paths t"
| "paths_of _ = []"
| "list_paths [] = []"
| "list_paths (v # vs) = paths_of v @ list_paths vs"
| "fields_paths [] = []"
| "fields_paths ((k, v) # r) = paths_of v @ fields_paths r"
| "rows_paths [] = []"
| "rows_paths (r # t) = fields_paths r @ rows_paths t"

lemma set_fields_paths: "set (fields_paths r) = (\<Union>(k, v) \<in> set r. set (paths_of v))"
  by (induction r) auto

subsection \<open>Laws of equality\<close>

lemma fields_in_iff:
  "fields_in ts r s \<longleftrightarrow> (\<forall>k v. (k, v) \<in> set r \<longrightarrow> (\<exists>w. map_of s k = Some w \<and> value_eq ts v w))"
proof (induction r)
  case (Cons f r)
  then show ?case
    by (cases f) (auto 4 4 split: option.split)
qed simp

text \<open>Two distinct-key records of one length, one included in the other, have the same keys.\<close>

lemma fields_in_keys:
  assumes "fields_in ts r s" "length r = length s" "distinct (map fst r)" "distinct (map fst s)"
  shows "fst ` set r = fst ` set s"
proof (rule card_subset_eq)
  show "fst ` set r \<subseteq> fst ` set s"
    using assms(1) by (force simp: fields_in_iff dest: map_of_SomeD)
  show "card (fst ` set r) = card (fst ` set s)"
    using assms(2-4) by (metis distinct_card length_map list.set_map)
qed simp

lemma fields_in_converse:
  assumes "fields_in ts r s" "length r = length s" "distinct (map fst r)" "distinct (map fst s)"
    and "(k, w) \<in> set s"
  obtains v where "(k, v) \<in> set r" "map_of s k = Some w" "value_eq ts v w"
proof -
  have w: "map_of s k = Some w"
    using assms(4,5) by simp
  have "k \<in> fst ` set r"
    using fields_in_keys [OF assms(1-4)] assms(5) by force
  then obtain v where v: "(k, v) \<in> set r"
    by force
  then have "value_eq ts v w"
    using assms(1) w by (force simp: fields_in_iff)
  then show ?thesis
    using that v w by blast
qed

lemma fields_in_sym:
  assumes "fields_in ts r s" "length r = length s" "distinct (map fst r)" "distinct (map fst s)"
    and "\<And>k v w. (k, v) \<in> set r \<Longrightarrow> map_of s k = Some w \<Longrightarrow> value_eq ts v w \<Longrightarrow> value_eq ts w v"
  shows "fields_in ts s r"
  unfolding fields_in_iff
proof (intro allI impI)
  fix k w assume "(k, w) \<in> set s"
  then obtain v where "(k, v) \<in> set r" "map_of s k = Some w" "value_eq ts v w"
    by (rule fields_in_converse [OF assms(1-4)])
  then show "\<exists>v. map_of r k = Some v \<and> value_eq ts w v"
    using assms(3,5) by auto
qed

lemma value_eq_sym_induct:
  fixes v w x y :: "('z, 'a) val" and xs ys :: "('z, 'a) val list"
    and r s :: "('z, 'a) fields" and t u t' :: "('z, 'a) fields list" and l :: "('z, 'a) val list"
  shows "value_ok v \<Longrightarrow> value_ok w \<Longrightarrow> value_eq ts v w \<Longrightarrow> value_eq ts w v"
    and "list_ok xs \<Longrightarrow> list_ok ys \<Longrightarrow> list_eq ts xs ys \<Longrightarrow> list_eq ts ys xs"
    and "fields_ok r \<Longrightarrow> fields_ok s \<Longrightarrow>
         \<forall>k x y. (k, x) \<in> set r \<longrightarrow> map_of s k = Some y \<longrightarrow> value_eq ts x y \<longrightarrow> value_eq ts y x"
    and "rows_ok t \<Longrightarrow> rows_ok u \<Longrightarrow> rows_eq ts t u \<Longrightarrow> rows_eq ts u t"
    and "rows_list_eq ts t' l = rows_list_eq ts t' l"
proof (induction ts v w and ts xs ys and ts r s and ts t u and ts t' l
    rule: value_eq_list_eq_fields_in_rows_eq_rows_list_eq.induct)
  case (16 ts a w)
  then show ?case
    by (auto split: val.splits intro!: fields_in_sym)
next
  case (29 ts k' v r s)
  then show ?case
    by (auto intro: fields_ok_map_of)
next
  case (31 ts r t u)
  then show ?case
    by (auto split: list.splits intro!: fields_in_sym)
qed (auto split: val.splits list.splits simp: f64_eq_sym)

subsection \<open>The semantic hash\<close>

text \<open>The writes to the hasher: tags and widths, text, floats by their bits, addresses, syntax.\<close>

datatype 'a htok =
    HTag nat
  | HNat nat
  | HInt int
  | HBool bool
  | HText string
  | HOptText "string option"
  | HBits f64
  | HSpan "(nat \<times> nat) option"
  | HStatus "int option"
  | HPtr nat
  | HSyntax 'a

definition float_bits :: "f64 \<Rightarrow> f64" where
  "float_bits x = (if f64_eq x f64_zero then f64_zero else x)"

definition fields_hash :: "(string \<times> 'a htok list) list \<Rightarrow> 'a htok list" where
  "fields_hash fs =
     HNat (length fs) # concat (map (\<lambda>(k, h). HText k # h) (sort_key fst fs))"

fun value_hash :: "('z \<Rightarrow> int) \<Rightarrow> ('z, 'a) val \<Rightarrow> 'a htok list" and
  values_hash :: "('z \<Rightarrow> int) \<Rightarrow> ('z, 'a) val list \<Rightarrow> 'a htok list" and
  entry_hashes :: "('z \<Rightarrow> int) \<Rightarrow> ('z, 'a) fields \<Rightarrow> (string \<times> 'a htok list) list" and
  rows_hash :: "('z \<Rightarrow> int) \<Rightarrow> ('z, 'a) fields list \<Rightarrow> 'a htok list" where
  "value_hash ts Null = [HTag 0]"
| "value_hash ts (Bool b) = [HTag 1, HBool b]"
| "value_hash ts (Int64 i) = [HTag 2, HBits (f64_of_int i)]"
| "value_hash ts (Float x) = [HTag 2, HBits (float_bits x)]"
| "value_hash ts (Str s) = [HTag 3, HText s]"
| "value_hash ts (Path p) = [HTag 3, HText (utf8_lossy p)]"
| "value_hash ts (Glob g) = [HTag 4, HText (glob_pattern g)]"
| "value_hash ts (Regex s) = [HTag 5, HText s]"
| "value_hash ts (Size n) = [HTag 6, HNat n]"
| "value_hash ts (Duration d) = [HTag 7, HInt d]"
| "value_hash ts (DateTime z) = [HTag 8, HInt (ts z)]"
| "value_hash ts (Time t) = [HTag 9, HNat (hour t), HNat (minute t), HNat (sec t)]"
| "value_hash ts (Bytes b) = [HTag 10, HText b]"
| "value_hash ts (CasBytes c) = [HTag 11, HText (cas_hash c), HNat (cas_len c)]"
| "value_hash ts (List xs) = HTag 13 # HNat (length xs) # values_hash ts xs"
| "value_hash ts (Table t) = HTag 13 # HNat (length t) # rows_hash ts t"
| "value_hash ts (Record r) = HTag 14 # fields_hash (entry_hashes ts r)"
| "value_hash ts (Range r) = [HTag 15, HInt (r_start r), HInt (r_end r), HBool (inclusive r)]"
| "value_hash ts (Stream p) = [HTag 16, HPtr p]"
| "value_hash ts (Error e) =
     [HTag 17, HText (code e), HText (msg e),
      HSpan (map_option (\<lambda>s. (span_start s, span_end s)) (span e)), HOptText (hint e),
      HOptText (stderr e), HStatus (status e)]"
| "value_hash ts (Outcome p _) = [HTag 18, HPtr p]"
| "value_hash ts (Task p) = [HTag 19, HPtr p]"
| "value_hash ts (Closure p _) = [HTag 20, HPtr p]"
| "value_hash ts (CmdRef c) = [HTag 21, HSyntax c]"
| "value_hash ts (Secret s) = [HTag 22, HText (secret_name s), HText (secret_value s)]"
| "values_hash ts [] = []"
| "values_hash ts (v # vs) = value_hash ts v @ values_hash ts vs"
| "entry_hashes ts [] = []"
| "entry_hashes ts ((k, v) # r) = (k, value_hash ts v) # entry_hashes ts r"
| "rows_hash ts [] = []"
| "rows_hash ts (r # t) = HTag 14 # fields_hash (entry_hashes ts r) @ rows_hash ts t"

lemma entry_hashes_map: "entry_hashes ts r = map (\<lambda>(k, v). (k, value_hash ts v)) r"
  by (induction r) auto

lemma entry_hashes_keys [simp]: "map fst (entry_hashes ts r) = map fst r"
  by (induction r) auto

text \<open>Sorting by a key that identifies the entries forgets their order.\<close>

lemma sort_key_distinct_eq:
  assumes "distinct (map f xs)" "distinct (map f ys)" "set xs = set ys"
  shows "sort_key f xs = sort_key f ys"
proof (rule sort_key_inj_key_eq)
  show "mset xs = mset (sort_key f ys)"
    using assms by (simp add: set_eq_iff_mset_eq_distinct distinct_map)
  show "inj_on f (set xs)"
    using assms(1) by (simp add: distinct_map)
qed simp

lemma fields_hash_eq:
  assumes "fields_in ts r s" "length r = length s" "distinct (map fst r)" "distinct (map fst s)"
    and "\<And>k v w. (k, v) \<in> set r \<Longrightarrow> map_of s k = Some w \<Longrightarrow> value_eq ts v w
      \<Longrightarrow> value_hash ts v = value_hash ts w"
  shows "fields_hash (entry_hashes ts r) = fields_hash (entry_hashes ts s)"
proof -
  have sub: "(k, value_hash ts v) \<in> set (entry_hashes ts s)" if "(k, v) \<in> set r" for k v
  proof -
    obtain w where "map_of s k = Some w" "value_eq ts v w"
      using assms(1) \<open>(k, v) \<in> set r\<close> unfolding fields_in_iff by blast
    then show ?thesis
      using assms(5) \<open>(k, v) \<in> set r\<close> by (force simp: entry_hashes_map dest: map_of_SomeD)
  qed
  have sup: "(k, value_hash ts w) \<in> set (entry_hashes ts r)" if "(k, w) \<in> set s" for k w
  proof -
    obtain v where "(k, v) \<in> set r" "map_of s k = Some w" "value_eq ts v w"
      using \<open>(k, w) \<in> set s\<close> by (rule fields_in_converse [OF assms(1-4)])
    then show ?thesis
      using assms(5) by (force simp: entry_hashes_map)
  qed
  have "set (entry_hashes ts r) = set (entry_hashes ts s)"
    using sub sup by (auto simp: entry_hashes_map)
  moreover have "distinct (map fst (entry_hashes ts r))" "distinct (map fst (entry_hashes ts s))"
    using assms(3,4) by simp_all
  ultimately have "sort_key fst (entry_hashes ts r) = sort_key fst (entry_hashes ts s)"
    by (intro sort_key_distinct_eq)
  then show ?thesis
    using assms(2) by (simp add: fields_hash_def entry_hashes_map)
qed

text \<open>Equal floats have equal bits once the sign of zero is dropped; an integer is never \<open>-0.0\<close>.\<close>

lemma float_bits_eq: "f64_ok x \<Longrightarrow> f64_ok y \<Longrightarrow> f64_eq x y \<Longrightarrow> float_bits x = float_bits y"
  by (cases x; cases y) (auto simp: float_bits_def f64_eq_def signed_def split: if_splits)

lemma round_even_ge_1: "1 \<le> x \<Longrightarrow> 1 \<le> round_even x"
proof -
  assume "1 \<le> x"
  then have "1 \<le> \<lfloor>x\<rfloor>"
    by (simp add: le_floor_iff)
  then show ?thesis
    by (auto simp: round_even_def Let_def simp del: one_le_floor)
qed

lemma f64_round_pos:
  assumes "1 \<le> x" "f64_round neg x = Finite s m"
  shows "0 < m" "s = neg"
proof -
  let ?u = "2 powi ulp_exp x :: rat"
  have "2 powi floor_log2 x \<le> x" "x < 2 powi (floor_log2 x + 1)"
    using floor_log2_bounds [of x] assms(1) by simp_all
  have "(2::rat) powi 0 < 2 powi (floor_log2 x + 1)"
    using assms(1) \<open>x < _\<close> by simp
  then have "ulp_exp x \<le> floor_log2 x"
    unfolding powi2_less_iff ulp_exp_def by simp
  then have "?u \<le> 2 powi floor_log2 x"
    using power_int_increasing [of "ulp_exp x" "floor_log2 x" "2 :: rat"] by simp
  then have "1 \<le> x / ?u"
    using \<open>2 powi floor_log2 x \<le> x\<close> by (simp add: le_divide_eq)
  then have "1 \<le> round_even (x / ?u)"
    by (rule round_even_ge_1)
  then show "0 < m" "s = neg"
    using assms by (auto simp: f64_round_def Let_def zero_less_mult_iff split: if_splits)
qed

lemma f64_of_int_ok: "f64_ok (f64_of_int i)"
proof (cases "f64_of_int i")
  case (Finite s m)
  show ?thesis
  proof (cases "i = 0")
    case False
    then have "1 \<le> (of_int \<bar>i\<bar> :: rat)"
      by linarith
    then show ?thesis
      using f64_round_pos(1) [of "of_int \<bar>i\<bar>" "i < 0" s m] Finite by (simp add: f64_of_int_def)
  qed (simp add: f64_of_int_def f64_round_def)
qed simp_all

lemma float_bits_of_int: "float_bits (f64_of_int i) = f64_of_int i"
proof (cases "i = 0")
  case False
  then have "1 \<le> (of_int \<bar>i\<bar> :: rat)"
    by linarith
  then show ?thesis
    using f64_round_pos(1) [of "of_int \<bar>i\<bar>" "i < 0"]
    by (cases "f64_of_int i") (auto simp: float_bits_def f64_of_int_def f64_eq_def signed_def)
qed (simp add: float_bits_def f64_of_int_def f64_round_def)

text \<open>
  Two values whose paths are equal only when they are spelt the same: \<open>Path\<close> equality ignores
  repeated separators and dots, the hash of a path does not.
\<close>

definition paths_agree :: "string list \<Rightarrow> string list \<Rightarrow> bool" where
  "paths_agree ps qs \<longleftrightarrow> (\<forall>p \<in> set ps. \<forall>q \<in> set qs. components p = components q \<longrightarrow> p = q)"

lemma paths_agree_mono:
  "paths_agree ps qs \<Longrightarrow> set ps' \<subseteq> set ps \<Longrightarrow> set qs' \<subseteq> set qs \<Longrightarrow> paths_agree ps' qs'"
  by (auto simp: paths_agree_def)

lemma paths_agree_append [simp]:
  "paths_agree (ps @ ps') qs \<longleftrightarrow> paths_agree ps qs \<and> paths_agree ps' qs"
  "paths_agree ps (qs @ qs') \<longleftrightarrow> paths_agree ps qs \<and> paths_agree ps qs'"
  by (auto simp: paths_agree_def)

lemma paths_agree_sym: "paths_agree ps qs = paths_agree qs ps"
  unfolding paths_agree_def by metis

lemma map_of_paths: "map_of s k = Some w \<Longrightarrow> set (paths_of w) \<subseteq> set (fields_paths s)"
  by (force simp: set_fields_paths dest: map_of_SomeD)

lemma value_hash_eq_induct:
  fixes v w x y :: "('z, 'a) val" and xs ys :: "('z, 'a) val list"
    and r s :: "('z, 'a) fields" and t u t' :: "('z, 'a) fields list" and l :: "('z, 'a) val list"
  shows "value_ok v \<Longrightarrow> value_ok w \<Longrightarrow> paths_agree (paths_of v) (paths_of w) \<Longrightarrow> value_eq ts v w
      \<Longrightarrow> value_hash ts v = value_hash ts w"
    and "list_ok xs \<Longrightarrow> list_ok ys \<Longrightarrow> paths_agree (list_paths xs) (list_paths ys) \<Longrightarrow>
      list_eq ts xs ys \<Longrightarrow> length xs = length ys \<and> values_hash ts xs = values_hash ts ys"
    and "fields_ok r \<Longrightarrow> fields_ok s \<Longrightarrow> paths_agree (fields_paths r) (fields_paths s) \<Longrightarrow>
      \<forall>k x y. (k, x) \<in> set r \<longrightarrow> map_of s k = Some y \<longrightarrow> value_eq ts x y
        \<longrightarrow> value_hash ts x = value_hash ts y"
    and "rows_ok t \<Longrightarrow> rows_ok u \<Longrightarrow> paths_agree (rows_paths t) (rows_paths u) \<Longrightarrow>
      rows_eq ts t u \<Longrightarrow> length t = length u \<and> rows_hash ts t = rows_hash ts u"
    and "rows_ok t' \<Longrightarrow> list_ok l \<Longrightarrow> paths_agree (rows_paths t') (list_paths l) \<Longrightarrow>
      rows_list_eq ts t' l \<Longrightarrow> length t' = length l \<and> rows_hash ts t' = values_hash ts l"
proof (induction ts v w and ts xs ys and ts r s and ts t u and ts t' l
    rule: value_eq_list_eq_fields_in_rows_eq_rows_list_eq.induct)
  case (3 ts a w)
  then show ?case
    using float_bits_eq [of "f64_of_int a"]
    by (auto split: val.splits simp: f64_of_int_ok float_bits_of_int)
next
  case (4 ts a w)
  then show ?case
    using float_bits_eq [of "f64_of_int b" a for b]
    by (auto split: val.splits intro: float_bits_eq simp: f64_of_int_ok float_bits_of_int)
next
  case (6 ts a w)
  then show ?case
    by (auto split: val.splits simp: paths_agree_def)
next
  case (15 ts a w)
  then show ?case
    using paths_agree_sym [of "list_paths a"] by (auto split: val.splits)
next
  case (16 ts a w)
  then show ?case
    by (auto split: val.splits intro!: fields_hash_eq)
next
  case (29 ts k' v r s)
  have "value_hash ts v = value_hash ts y" if "map_of s k' = Some y" "value_eq ts v y" for y
    using 29(1) [OF that(1)] 29(3-5) that fields_ok_map_of [OF _ that(1)]
      paths_agree_mono [OF _ order_refl map_of_paths [OF that(1)]] by auto
  then show ?case
    using 29(2-5) by auto
next
  case (31 ts r t u)
  then show ?case
    by (auto split: list.splits intro!: fields_hash_eq)
next
  case (33 ts r t l)
  then show ?case
    by (auto split: list.splits val.splits intro!: fields_hash_eq)
qed (auto split: val.splits list.splits)

subsection \<open>Properties\<close>

text \<open>
  Value equality is symmetric on well-formed values, although the arms of the source's match
  are not: a record is compared by looking its keys up in the other one, a table with a list from the
  table's side, an integer is promoted against a float and a path decoded against a string.
\<close>

theorem value_eq_symmetric:
  "value_ok v \<Longrightarrow> value_ok w \<Longrightarrow> value_eq ts v w = value_eq ts w v"
  using value_eq_sym_induct(1) by blast

theorem value_eq_symmetric_witness:
  "value_eq id (Table [[(''a'', Int64 1), (''b'', Null)]] :: (int, unit) val)
     (List [Record [(''b'', Null), (''a'', Int64 1)]])
   = value_eq id (List [Record [(''b'', Null), (''a'', Int64 1)]] :: (int, unit) val)
     (Table [[(''a'', Int64 1), (''b'', Null)]])"
  by (rule value_eq_symmetric) (simp_all add: in_i64_def)

text \<open>
  The semantic hash respects equality: equal well-formed values feed the hasher the same
  tokens, whatever mixture of integers and floats, reordered records, tables and lists they are,
  provided paths that are equal by components are spelt alike.
\<close>

theorem semantic_hash_respects_equality:
  assumes "value_ok v" "value_ok w" "paths_agree (paths_of v) (paths_of w)" "value_eq ts v w"
  shows "value_hash ts v = value_hash ts w"
  using assms by (rule value_hash_eq_induct(1))

theorem semantic_hash_respects_equality_witness:
  "value_hash id (Record [(''a'', Int64 0), (''b'', Str ''x'')] :: (int, unit) val)
   = value_hash id (Record [(''b'', Path ''x''), (''a'', Float (Finite True 0))])"
proof (rule semantic_hash_respects_equality)
  show "value_eq id (Record [(''a'', Int64 0), (''b'', Str ''x'')] :: (int, unit) val)
     (Record [(''b'', Path ''x''), (''a'', Float (Finite True 0))])"
    using utf8_lossy_valid [of "''x''"]
    by (simp add: f64_of_int_def f64_round_def f64_eq_def signed_def lead_width_def)
qed (simp_all add: in_i64_def paths_agree_def lead_width_def)

text \<open>
  Without that proviso it does not: two spellings of one path are equal values whose hash
  tokens differ, so a method that looks only in the bucket of a value's hash does not find the other.
\<close>

theorem equal_paths_hash_apart:
  "value_eq ts (Path ''a//b'' :: ('z, 'a) val) (Path ''a/b'')
   \<and> value_hash ts (Path ''a//b'' :: ('z, 'a) val) \<noteq> value_hash ts (Path ''a/b'')"
proof
  show "value_eq ts (Path ''a//b'' :: ('z, 'a) val) (Path ''a/b'')"
    by (simp add: components_def is_absolute_def comp_of_def List.map_filter_def Let_def)
  have "utf8_lossy ''a//b'' = ''a//b''" "utf8_lossy ''a/b'' = ''a/b''"
    by (rule utf8_lossy_valid, simp add: lead_width_def)+
  then show "value_hash ts (Path ''a//b'' :: ('z, 'a) val) \<noteq> value_hash ts (Path ''a/b'')"
    by simp
qed

end
