(* ===== verification/Value_Retained.thy ===== *)
theory Value_Retained
  imports Value_Hash
begin

text \<open>
  What a value keeps in memory (\<open>value/retained.rs\<close>) and the admission guards of eager results built
  on it (\<open>value/methods/materialize.rs\<close>). The sizes of the Rust types and the capacities the allocator
  gave the buffers of a value are the record \<open>layout\<close>; a capacity is never below the length.
\<close>

record ('z, 'a) layout =
  size_of_value :: nat
  size_of_record :: nat
  size_of_entry :: nat
  size_of_error :: nat
  size_of_outcome :: nat
  size_of_binding :: nat
  text_cap :: "string \<Rightarrow> nat"
  list_cap :: "('z, 'a) val list \<Rightarrow> nat"
  rows_cap :: "('z, 'a) fields list \<Rightarrow> nat"
  fields_cap :: "('z, 'a) fields \<Rightarrow> nat"

definition layout_ok :: "('z, 'a) layout \<Rightarrow> bool" where
  "layout_ok L \<longleftrightarrow> 0 < size_of_value L \<and> (\<forall>s. length s \<le> text_cap L s)
     \<and> (\<forall>xs. length xs \<le> list_cap L xs) \<and> (\<forall>t. length t \<le> rows_cap L t)
     \<and> (\<forall>r. length r \<le> fields_cap L r)"

datatype opaque_handling = Reject | Charge nat

record retained_limits =
  max_bytes :: nat
  max_depth :: nat
  max_nodes :: nat
  opaque_mode :: opaque_handling
  allow_secret :: bool

datatype retained_error =
    BytesOver nat nat
  | DepthOver nat nat
  | NodesOver nat nat
  | OpaqueKind string
  | SecretKind
  | AccountingOverflow

text \<open>The running totals of \<open>Measure\<close>: bytes and nodes.\<close>

record measure_state =
  m_bytes :: nat
  m_nodes :: nat

type_synonym measured = "(retained_error, measure_state) result"

definition checked_usize :: "nat \<Rightarrow> nat option" where
  "checked_usize n = (if n \<le> USIZE_MAX then Some n else None)"

definition add_bytes :: "retained_limits \<Rightarrow> nat \<Rightarrow> measure_state \<Rightarrow> measured" where
  "add_bytes lims n m =
     (case checked_usize (m_bytes m + n) of
        None \<Rightarrow> Inl AccountingOverflow
      | Some b \<Rightarrow> if max_bytes lims < b then Inl (BytesOver b (max_bytes lims))
                  else Inr (m\<lparr>m_bytes := b\<rparr>))"

definition enter_node :: "retained_limits \<Rightarrow> nat \<Rightarrow> nat \<Rightarrow> measure_state \<Rightarrow> measured" where
  "enter_node lims depth resident m =
     (if max_depth lims < depth then Inl (DepthOver depth (max_depth lims))
      else case checked_usize (m_nodes m + 1) of
             None \<Rightarrow> Inl AccountingOverflow
           | Some n \<Rightarrow> if max_nodes lims < n then Inl (NodesOver n (max_nodes lims))
                       else add_bytes lims resident (m\<lparr>m_nodes := n\<rparr>))"

definition opaque :: "retained_limits \<Rightarrow> string \<Rightarrow> measure_state \<Rightarrow> measured" where
  "opaque lims kind m =
     (case opaque_mode lims of Reject \<Rightarrow> Inl (OpaqueKind kind) | Charge n \<Rightarrow> add_bytes lims n m)"

definition add_opt :: "('z, 'a) layout \<Rightarrow> retained_limits \<Rightarrow> string option \<Rightarrow> measure_state \<Rightarrow> measured" where
  "add_opt L lims t m = (case t of None \<Rightarrow> Inr m | Some s \<Rightarrow> add_bytes lims (text_cap L s) m)"

text \<open>Charge a sequence of amounts, stopping at the first that is refused.\<close>

fun add_each :: "retained_limits \<Rightarrow> nat list \<Rightarrow> measure_state \<Rightarrow> measured" where
  "add_each lims [] m = Inr m"
| "add_each lims (n # ns) m = bindR (add_bytes lims n m) (add_each lims ns)"

text \<open>\<open>visit_body\<close> is what \<open>visit\<close> does once the node itself is entered and charged.\<close>

function (sequential) visit_body ::
  "('z, 'a) layout \<Rightarrow> retained_limits \<Rightarrow> ('z, 'a) val \<Rightarrow> nat \<Rightarrow> measure_state \<Rightarrow> measured"
and visit_list ::
  "('z, 'a) layout \<Rightarrow> retained_limits \<Rightarrow> ('z, 'a) val list \<Rightarrow> nat \<Rightarrow> measure_state \<Rightarrow> measured"
and visit_entries ::
  "('z, 'a) layout \<Rightarrow> retained_limits \<Rightarrow> ('z, 'a) fields \<Rightarrow> nat \<Rightarrow> measure_state \<Rightarrow> measured"
and visit_rows ::
  "('z, 'a) layout \<Rightarrow> retained_limits \<Rightarrow> ('z, 'a) fields list \<Rightarrow> nat \<Rightarrow> measure_state \<Rightarrow> measured"
and visit_outcome ::
  "('z, 'a) layout \<Rightarrow> retained_limits \<Rightarrow> ('z, 'a) outcome_val \<Rightarrow> nat \<Rightarrow> measure_state \<Rightarrow> measured"
where
  "visit_body L lims (DateTime _) depth m = add_bytes lims 512 m"
| "visit_body L lims (Str s) depth m = add_bytes lims (text_cap L s) m"
| "visit_body L lims (Path p) depth m = add_bytes lims (length p) m"
| "visit_body L lims (Glob g) depth m =
     add_each lims [text_cap L (glob_pattern g), length (glob_cwd g)] m"
| "visit_body L lims (Bytes b) depth m = add_bytes lims (text_cap L b) m"
| "visit_body L lims (List xs) depth m =
     bindR (add_bytes lims (saturating_usize ((list_cap L xs - length xs) * size_of_value L)) m)
       (visit_list L lims xs (depth + 1))"
| "visit_body L lims (Record r) depth m =
     bindR (add_bytes lims (saturating_usize (fields_cap L r * size_of_entry L)) m)
       (visit_entries L lims r (depth + 1))"
| "visit_body L lims (Table t) depth m =
     bindR (add_bytes lims (saturating_usize (rows_cap L t * size_of_record L)) m)
       (visit_rows L lims t (depth + 1))"
| "visit_body L lims (Error e) depth m =
     bindR (add_each lims [size_of_error L, text_cap L (code e), text_cap L (msg e)] m) (\<lambda>m.
     bindR (add_opt L lims (hint e) m) (add_opt L lims (stderr e)))"
| "visit_body L lims (Outcome _ out) depth m = visit_outcome L lims out depth m"
| "visit_body L lims (Secret s) depth m =
     (if \<not> allow_secret lims then Inl SecretKind
      else add_each lims [text_cap L (secret_name s), length (secret_value s)] m)"
| "visit_body L lims (CasBytes c) depth m =
     bindR (add_each lims [text_cap L (cas_hash c), text_cap L (cas_preview c)] m)
       (opaque lims ''CAS-backed bytes'')"
| "visit_body L lims (Regex s) depth m =
     bindR (add_bytes lims (text_cap L s) m) (opaque lims ''compiled regex'')"
| "visit_body L lims (Stream _) depth m = opaque lims ''stream'' m"
| "visit_body L lims (Task _) depth m = opaque lims ''task'' m"
| "visit_body L lims (Closure _ c) depth m =
     bindR (add_opt L lims (closure_name c) m) (\<lambda>m.
     bindR (add_opt L lims (closure_doc c) m) (opaque lims ''closure''))"
| "visit_body L lims (CmdRef _) depth m = opaque lims ''command reference'' m"
| "visit_body L lims _ depth m = Inr m"
| "visit_list L lims [] depth m = Inr m"
| "visit_list L lims (v # vs) depth m =
     bindR (enter_node lims depth (size_of_value L) m) (\<lambda>m.
     bindR (visit_body L lims v depth m) (visit_list L lims vs depth))"
| "visit_entries L lims [] depth m = Inr m"
| "visit_entries L lims ((k, v) # r) depth m =
     bindR (add_bytes lims (text_cap L k) m) (\<lambda>m.
     bindR (enter_node lims depth (size_of_value L) m) (\<lambda>m.
     bindR (visit_body L lims v depth m) (visit_entries L lims r depth)))"
| "visit_rows L lims [] depth m = Inr m"
| "visit_rows L lims (r # t) depth m =
     bindR (enter_node lims depth (size_of_record L) m) (\<lambda>m.
     bindR (add_bytes lims (saturating_usize (fields_cap L r * size_of_entry L)) m) (\<lambda>m.
     bindR (visit_entries L lims r (depth + 1) m) (visit_rows L lims t depth)))"
| "visit_outcome L lims (OutcomeVal st signal ok out out_ref err dur pid cmd parsed streamed sp) depth m =
     bindR (add_each lims [size_of_outcome L, text_cap L out, text_cap L err, text_cap L cmd] m) (\<lambda>m.
     bindR (add_opt L lims signal m) (\<lambda>m.
     bindR (if out_ref \<noteq> None then opaque lims ''CAS-backed outcome'' m else Inr m) (\<lambda>m.
       case parsed of None \<Rightarrow> Inr m
       | Some v \<Rightarrow> bindR (enter_node lims (depth + 1) (size_of_value L) m)
                     (visit_body L lims v (depth + 1)))))"
  by pat_completeness auto
termination
proof (relation "measure (case_sum
    (case_sum (\<lambda>(_, _, v, _). size v) (\<lambda>(_, _, xs, _). size_list size xs))
    (case_sum (\<lambda>(_, _, r, _). fields_size r)
      (case_sum (\<lambda>(_, _, t, _). size_list fields_size t) (\<lambda>(_, _, out, _). size out))))")
  show "wf (measure f)" for f :: "'k \<Rightarrow> nat"
    by simp
qed simp_all

definition visit ::
  "('z, 'a) layout \<Rightarrow> retained_limits \<Rightarrow> ('z, 'a) val \<Rightarrow> nat \<Rightarrow> measure_state \<Rightarrow> measured" where
  "visit L lims v depth m =
     bindR (enter_node lims depth (size_of_value L) m) (visit_body L lims v depth)"

definition retained_size ::
  "('z, 'a) layout \<Rightarrow> ('z, 'a) val \<Rightarrow> retained_limits \<Rightarrow> (retained_error, nat) result" where
  "retained_size L v lims =
     bindR (visit L lims v 1 \<lparr>m_bytes = 0, m_nodes = 0\<rparr>) (\<lambda>m. Inr (m_bytes m))"


subsection \<open>What a measurement counts\<close>

text \<open>
  The charges of a value in the order of the walk: entering a node at a depth, a number of bytes, an
  opaque handle, a secret.
\<close>

datatype charge = Enter nat nat | Weigh nat | Handle string | SecretHere

definition opt_charge :: "('z, 'a) layout \<Rightarrow> string option \<Rightarrow> charge list" where
  "opt_charge L t = (case t of None \<Rightarrow> [] | Some s \<Rightarrow> [Weigh (text_cap L s)])"

function (sequential) charges :: "('z, 'a) layout \<Rightarrow> nat \<Rightarrow> ('z, 'a) val \<Rightarrow> charge list" and
  list_charges :: "('z, 'a) layout \<Rightarrow> nat \<Rightarrow> ('z, 'a) val list \<Rightarrow> charge list" and
  entry_charges :: "('z, 'a) layout \<Rightarrow> nat \<Rightarrow> ('z, 'a) fields \<Rightarrow> charge list" and
  row_charges :: "('z, 'a) layout \<Rightarrow> nat \<Rightarrow> ('z, 'a) fields list \<Rightarrow> charge list" and
  outcome_charges :: "('z, 'a) layout \<Rightarrow> nat \<Rightarrow> ('z, 'a) outcome_val \<Rightarrow> charge list"
where
  "charges L d (DateTime _) = [Weigh 512]"
| "charges L d (Str s) = [Weigh (text_cap L s)]"
| "charges L d (Path p) = [Weigh (length p)]"
| "charges L d (Glob g) = [Weigh (text_cap L (glob_pattern g)), Weigh (length (glob_cwd g))]"
| "charges L d (Bytes b) = [Weigh (text_cap L b)]"
| "charges L d (List xs) =
     Weigh (saturating_usize ((list_cap L xs - length xs) * size_of_value L)) # list_charges L (d + 1) xs"
| "charges L d (Record r) =
     Weigh (saturating_usize (fields_cap L r * size_of_entry L)) # entry_charges L (d + 1) r"
| "charges L d (Table t) =
     Weigh (saturating_usize (rows_cap L t * size_of_record L)) # row_charges L (d + 1) t"
| "charges L d (Error e) =
     [Weigh (size_of_error L), Weigh (text_cap L (code e)), Weigh (text_cap L (msg e))]
     @ opt_charge L (hint e) @ opt_charge L (stderr e)"
| "charges L d (Outcome _ out) = outcome_charges L d out"
| "charges L d (Secret s) =
     [SecretHere, Weigh (text_cap L (secret_name s)), Weigh (length (secret_value s))]"
| "charges L d (CasBytes c) =
     [Weigh (text_cap L (cas_hash c)), Weigh (text_cap L (cas_preview c)), Handle ''CAS-backed bytes'']"
| "charges L d (Regex s) = [Weigh (text_cap L s), Handle ''compiled regex'']"
| "charges L d (Stream _) = [Handle ''stream'']"
| "charges L d (Task _) = [Handle ''task'']"
| "charges L d (Closure _ c) =
     opt_charge L (closure_name c) @ opt_charge L (closure_doc c) @ [Handle ''closure'']"
| "charges L d (CmdRef _) = [Handle ''command reference'']"
| "charges L d _ = []"
| "list_charges L d [] = []"
| "list_charges L d (v # vs) = Enter d (size_of_value L) # charges L d v @ list_charges L d vs"
| "entry_charges L d [] = []"
| "entry_charges L d ((k, v) # r) =
     Weigh (text_cap L k) # Enter d (size_of_value L) # charges L d v @ entry_charges L d r"
| "row_charges L d [] = []"
| "row_charges L d (r # t) =
     Enter d (size_of_record L) # Weigh (saturating_usize (fields_cap L r * size_of_entry L))
       # entry_charges L (d + 1) r @ row_charges L d t"
| "outcome_charges L d (OutcomeVal st signal ok out out_ref err dur pid cmd parsed streamed sp) =
     [Weigh (size_of_outcome L), Weigh (text_cap L out), Weigh (text_cap L err), Weigh (text_cap L cmd)]
     @ opt_charge L signal @ (if out_ref \<noteq> None then [Handle ''CAS-backed outcome''] else [])
     @ (case parsed of None \<Rightarrow> []
        | Some v \<Rightarrow> Enter (d + 1) (size_of_value L) # charges L (d + 1) v)"
  by pat_completeness auto
termination
proof (relation "measure (case_sum
    (case_sum (\<lambda>(_, _, v). size v) (\<lambda>(_, _, xs). size_list size xs))
    (case_sum (\<lambda>(_, _, r). fields_size r)
      (case_sum (\<lambda>(_, _, t). size_list fields_size t) (\<lambda>(_, _, out). size out))))")
  show "wf (measure f)" for f :: "'k \<Rightarrow> nat"
    by simp
qed simp_all

definition value_charges :: "('z, 'a) layout \<Rightarrow> ('z, 'a) val \<Rightarrow> charge list" where
  "value_charges L v = Enter 1 (size_of_value L) # charges L 1 v"

fun charge1 :: "retained_limits \<Rightarrow> charge \<Rightarrow> measure_state \<Rightarrow> measured" where
  "charge1 lims (Enter d n) m = enter_node lims d n m"
| "charge1 lims (Weigh n) m = add_bytes lims n m"
| "charge1 lims (Handle k) m = opaque lims k m"
| "charge1 lims SecretHere m = (if allow_secret lims then Inr m else Inl SecretKind)"

fun run_charges :: "retained_limits \<Rightarrow> charge list \<Rightarrow> measure_state \<Rightarrow> measured" where
  "run_charges lims [] m = Inr m"
| "run_charges lims (c # cs) m = bindR (charge1 lims c m) (run_charges lims cs)"

lemma add_each_Nil [simp]: "add_each lims [] = Inr"
  by (rule ext) simp

lemma bindR_assoc: "bindR (bindR m f) g = bindR m (\<lambda>x. bindR (f x) g)"
  by (cases m) simp_all

lemma bindR_Inr [simp]: "bindR m Inr = m"
  by (cases m) simp_all

lemma run_charges_Nil [simp]: "run_charges lims [] = Inr"
  by (rule ext) simp

lemma run_charges_append:
  "run_charges lims (xs @ ys) m = bindR (run_charges lims xs m) (run_charges lims ys)"
proof (induction xs arbitrary: m)
  case (Cons c xs)
  then show ?case
    by (cases "charge1 lims c m") simp_all
qed simp

lemma run_opt_charge: "run_charges lims (opt_charge L t) m = add_opt L lims t m"
  by (simp add: opt_charge_def add_opt_def split: option.split)

lemma visit_body_run:
  "visit_body L lims v d m = run_charges lims (charges L d v) m"
  "visit_list L lims xs d m = run_charges lims (list_charges L d xs) m"
  "visit_entries L lims r d m = run_charges lims (entry_charges L d r) m"
  "visit_rows L lims t d m = run_charges lims (row_charges L d t) m"
  "visit_outcome L lims out d m = run_charges lims (outcome_charges L d out) m"
  by (induction L lims v d m and L lims xs d m and L lims r d m and L lims t d m
        and L lims out d m
      rule: visit_body_visit_list_visit_entries_visit_rows_visit_outcome.induct)
     (auto simp: run_charges_append run_opt_charge bindR_assoc split: option.split
        intro!: arg_cong [where f = "bindR _"] ext)

lemma retained_size_run:
  "retained_size L v lims =
   bindR (run_charges lims (value_charges L v) \<lparr>m_bytes = 0, m_nodes = 0\<rparr>) (\<lambda>m. Inr (m_bytes m))"
  by (simp add: retained_size_def visit_def value_charges_def visit_body_run(1) bindR_assoc)

fun cost :: "retained_limits \<Rightarrow> charge \<Rightarrow> nat" where
  "cost lims (Enter d n) = n"
| "cost lims (Weigh n) = n"
| "cost lims (Handle k) = (case opaque_mode lims of Reject \<Rightarrow> 0 | Charge n \<Rightarrow> n)"
| "cost lims SecretHere = 0"

fun permitted :: "retained_limits \<Rightarrow> charge \<Rightarrow> bool" where
  "permitted lims (Enter d n) \<longleftrightarrow> d \<le> max_depth lims"
| "permitted lims (Weigh n) = True"
| "permitted lims (Handle k) \<longleftrightarrow> opaque_mode lims \<noteq> Reject"
| "permitted lims SecretHere = allow_secret lims"

definition total_cost :: "retained_limits \<Rightarrow> charge list \<Rightarrow> nat" where
  "total_cost lims cs = sum_list (map (cost lims) cs)"

fun is_enter :: "charge \<Rightarrow> bool" where
  "is_enter (Enter _ _) = True"
| "is_enter _ = False"

definition node_count :: "charge list \<Rightarrow> nat" where
  "node_count cs = length (filter is_enter cs)"

definition in_limits :: "retained_limits \<Rightarrow> measure_state \<Rightarrow> bool" where
  "in_limits lims m \<longleftrightarrow> m_bytes m \<le> max_bytes lims \<and> m_nodes m \<le> max_nodes lims
     \<and> max_bytes lims \<le> USIZE_MAX \<and> max_nodes lims \<le> USIZE_MAX"

lemma add_bytes_ok:
  "in_limits lims m \<Longrightarrow> add_bytes lims n m = Inr m' \<longleftrightarrow>
     m' = m\<lparr>m_bytes := m_bytes m + n\<rparr> \<and> m_bytes m + n \<le> max_bytes lims"
  by (auto simp: add_bytes_def checked_usize_def in_limits_def)

lemma charge1_ok:
  assumes "in_limits lims m"
  shows "charge1 lims c m = Inr m' \<longleftrightarrow>
    permitted lims c
    \<and> m' = \<lparr>m_bytes = m_bytes m + cost lims c, m_nodes = m_nodes m + (if is_enter c then 1 else 0)\<rparr>
    \<and> in_limits lims m'"
proof (cases c)
  case (Enter d n)
  then show ?thesis
    using assms by (auto simp: enter_node_def add_bytes_def checked_usize_def in_limits_def)
next
  case (Handle k)
  then show ?thesis
    using assms by (auto simp: opaque_def add_bytes_ok in_limits_def split: opaque_handling.split)
qed (use assms in \<open>auto simp: add_bytes_ok in_limits_def\<close>)

lemma run_charges_ok:
  "in_limits lims m \<Longrightarrow> run_charges lims cs m = Inr m' \<longleftrightarrow>
     list_all (permitted lims) cs
     \<and> m' = \<lparr>m_bytes = m_bytes m + total_cost lims cs, m_nodes = m_nodes m + node_count cs\<rparr>
     \<and> in_limits lims m'"
proof (induction cs arbitrary: m)
  case Nil
  then show ?case
    by (auto simp: total_cost_def node_count_def)
next
  case (Cons c cs)
  let ?m = "\<lparr>m_bytes = m_bytes m + cost lims c, m_nodes = m_nodes m + (if is_enter c then 1 else 0)\<rparr>"
  have *: "in_limits lims ?m" if "in_limits lims
      \<lparr>m_bytes = m_bytes m + total_cost lims (c # cs), m_nodes = m_nodes m + node_count (c # cs)\<rparr>"
    using that by (auto simp: in_limits_def total_cost_def node_count_def split: if_splits)
  have "run_charges lims (c # cs) m = Inr m' \<longleftrightarrow>
      permitted lims c \<and> in_limits lims ?m \<and> run_charges lims cs ?m = Inr m'"
    using charge1_ok [OF Cons.prems, of c] by (auto simp: bindR_eq_Inr)
  also have "\<dots> \<longleftrightarrow> permitted lims c \<and> list_all (permitted lims) cs
     \<and> m' = \<lparr>m_bytes = m_bytes m + total_cost lims (c # cs), m_nodes = m_nodes m + node_count (c # cs)\<rparr>
     \<and> in_limits lims m'"
    using Cons.IH [of ?m] * by (auto simp: total_cost_def node_count_def)
  finally show ?case
    by simp
qed

subsection \<open>Properties of the measurement\<close>

lemma retained_size_iff:
  assumes "max_bytes lims \<le> USIZE_MAX" "max_nodes lims \<le> USIZE_MAX"
  shows "retained_size L v lims = Inr n \<longleftrightarrow>
    list_all (permitted lims) (value_charges L v) \<and> n = total_cost lims (value_charges L v)
    \<and> n \<le> max_bytes lims \<and> node_count (value_charges L v) \<le> max_nodes lims"
proof -
  have "in_limits lims \<lparr>m_bytes = 0, m_nodes = 0\<rparr>"
    using assms by (simp add: in_limits_def)
  from run_charges_ok [OF this, of "value_charges L v"] show ?thesis
    using assms by (auto simp: retained_size_run bindR_eq_Inr in_limits_def)
qed

definition unit_layout :: "(int, unit) layout" where
  "unit_layout = \<lparr>size_of_value = 40, size_of_record = 72, size_of_entry = 72, size_of_error = 144,
     size_of_outcome = 200, size_of_binding = 56, text_cap = length, list_cap = length,
     rows_cap = length, fields_cap = length\<rparr>"

text \<open>
  The measurement is exact: it succeeds if and only if the value's cost, node count and depth are
  within the limits and it holds no handle or secret the limits refuse, and then it returns the cost.
\<close>

theorem retained_size_exact:
  assumes "max_bytes lims \<le> USIZE_MAX" "max_nodes lims \<le> USIZE_MAX"
  shows "retained_size L v lims = Inr n \<longleftrightarrow>
    list_all (permitted lims) (value_charges L v) \<and> n = total_cost lims (value_charges L v)
    \<and> n \<le> max_bytes lims \<and> node_count (value_charges L v) \<le> max_nodes lims"
  using assms by (rule retained_size_iff)

theorem retained_size_exact_witness:
  "retained_size unit_layout (List [Str ''ab'', Task 0])
     \<lparr>max_bytes = 400, max_depth = 2, max_nodes = 3, opaque_mode = Charge 256, allow_secret = False\<rparr>
   = Inr 378"
  unfolding retained_size_exact [where lims = "\<lparr>max_bytes = 400, max_depth = 2, max_nodes = 3,
      opaque_mode = Charge 256, allow_secret = False\<rparr>", simplified]
  by (simp add: value_charges_def unit_layout_def total_cost_def node_count_def saturating_usize_def)

subsection \<open>Admission of eager results\<close>

definition EAGER_COLLECTION_MAX_VALUES :: nat where
  "EAGER_COLLECTION_MAX_VALUES = 16384"

definition EAGER_COLLECTION_MAX_RETAINED_BYTES :: nat where
  "EAGER_COLLECTION_MAX_RETAINED_BYTES = 16 * 1024 * 1024"

definition EAGER_STRING_MAX_BYTES :: nat where
  "EAGER_STRING_MAX_BYTES = 16 * 1024 * 1024"

record materialization_budget =
  b_values :: nat
  b_retained_bytes :: nat
  b_max_values :: nat
  b_max_retained_bytes :: nat

record ('z, 'a) materialized_collection =
  c_values :: "('z, 'a) val list"
  c_budget :: materialization_budget

definition budget_new :: "nat \<Rightarrow> nat \<Rightarrow> materialization_budget" where
  "budget_new vals bytes =
     \<lparr>b_values = 0, b_retained_bytes = 0, b_max_values = vals, b_max_retained_bytes = bytes\<rparr>"

definition budget_eager :: materialization_budget where
  "budget_eager = budget_new EAGER_COLLECTION_MAX_VALUES EAGER_COLLECTION_MAX_RETAINED_BYTES"

definition collection_new :: "nat \<Rightarrow> nat \<Rightarrow> ('z, 'a) materialized_collection" where
  "collection_new vals bytes = \<lparr>c_values = [], c_budget = budget_new vals bytes\<rparr>"

definition collection_eager :: "('z, 'a) materialized_collection" where
  "collection_eager = collection_new EAGER_COLLECTION_MAX_VALUES EAGER_COLLECTION_MAX_RETAINED_BYTES"

definition collection_materialization_limit :: "string \<Rightarrow> failure" where
  "collection_materialization_limit m = Raised (with_hint
     ''use `.stream()` with incremental transforms/sinks, or reduce the input first''
     (error_new ''collection_materialization_limit'' m))"

definition string_materialization_limit :: "nat \<Rightarrow> failure" where
  "string_materialization_limit n = Raised (with_hint
     ''stream or chunk the input, or reduce it before constructing the result''
     (error_new ''string_materialization_limit''
        (''eager string result exceeds its '' @ dec n @ ''-byte limit'')))"

definition eager_limits :: "nat \<Rightarrow> retained_limits" where
  "eager_limits bytes = \<lparr>max_bytes = bytes, max_depth = 64, max_nodes = 16384,
     opaque_mode = Charge 256, allow_secret = True\<rparr>"

definition charge_retained ::
  "('z, 'a) layout \<Rightarrow> ('z, 'a) val \<Rightarrow> materialization_budget \<Rightarrow> materialization_budget vresult" where
  "charge_retained L v b =
     (case retained_size L v (eager_limits (b_max_retained_bytes b - b_retained_bytes b)) of
        Inl _ \<Rightarrow> Inl (collection_materialization_limit
          (''eager collection exceeds its '' @ dec (b_max_retained_bytes b)
            @ ''-byte retained-value limit''))
      | Inr retained \<Rightarrow>
          (case checked_usize (b_retained_bytes b + retained) of
             None \<Rightarrow> Inl (collection_materialization_limit ''eager collection accounting overflowed'')
           | Some n \<Rightarrow> Inr (b\<lparr>b_retained_bytes := n\<rparr>)))"

definition admit ::
  "('z, 'a) layout \<Rightarrow> ('z, 'a) val \<Rightarrow> materialization_budget \<Rightarrow> materialization_budget vresult" where
  "admit L v b =
     (if b_max_values b \<le> b_values b
      then Inl (collection_materialization_limit
        (''eager collection reached its '' @ dec (b_max_values b) @ ''-value limit''))
      else bindR (charge_retained L v b) (\<lambda>b. Inr (b\<lparr>b_values := b_values b + 1\<rparr>)))"

definition collection_push ::
  "('z, 'a) layout \<Rightarrow> ('z, 'a) val \<Rightarrow> ('z, 'a) materialized_collection
     \<Rightarrow> ('z, 'a) materialized_collection vresult" where
  "collection_push L v c =
     bindR (admit L v (c_budget c)) (\<lambda>b. Inr (c\<lparr>c_values := c_values c @ [v], c_budget := b\<rparr>))"

fun collection_extend ::
  "('z, 'a) layout \<Rightarrow> ('z, 'a) val list \<Rightarrow> ('z, 'a) materialized_collection
     \<Rightarrow> ('z, 'a) materialized_collection vresult" where
  "collection_extend L [] c = Inr c"
| "collection_extend L (v # vs) c = bindR (collection_push L v c) (collection_extend L vs)"

definition collection_finish :: "('z, 'a) materialized_collection \<Rightarrow> ('z, 'a) val" where
  "collection_finish c = List (c_values c)"

record bounded_string =
  s_value :: string
  s_max_bytes :: nat

definition bounded_string_eager :: bounded_string where
  "bounded_string_eager = \<lparr>s_value = [], s_max_bytes = EAGER_STRING_MAX_BYTES\<rparr>"

definition push_str :: "string \<Rightarrow> bounded_string \<Rightarrow> bounded_string vresult" where
  "push_str t b =
     (case checked_usize (length (s_value b) + length t) of
        None \<Rightarrow> Inl (string_materialization_limit (s_max_bytes b))
      | Some n \<Rightarrow> if s_max_bytes b < n then Inl (string_materialization_limit (s_max_bytes b))
                  else Inr (b\<lparr>s_value := s_value b @ t\<rparr>))"

text \<open>A \<open>char\<close> is its UTF-8 encoding, as \<open>encode_utf8\<close> writes it.\<close>

definition push_char :: "string \<Rightarrow> bounded_string \<Rightarrow> bounded_string vresult" where
  "push_char c b = push_str c b"

definition bounded_string_finish :: "bounded_string \<Rightarrow> ('z, 'a) val" where
  "bounded_string_finish b = Str (s_value b)"

subsection \<open>Laws of the admission guards\<close>

text \<open>The bytes a value costs under the eager limits.\<close>

definition eager_cost :: "('z, 'a) layout \<Rightarrow> ('z, 'a) val \<Rightarrow> nat" where
  "eager_cost L v = total_cost (eager_limits 0) (value_charges L v)"

definition eager_shape :: "('z, 'a) layout \<Rightarrow> ('z, 'a) val \<Rightarrow> bool" where
  "eager_shape L v \<longleftrightarrow> list_all (permitted (eager_limits 0)) (value_charges L v)
     \<and> node_count (value_charges L v) \<le> 16384"

lemma cost_eager: "cost (eager_limits n) = cost (eager_limits 0)"
proof
  show "cost (eager_limits n) c = cost (eager_limits 0) c" for c
    by (cases c) (simp_all add: eager_limits_def)
qed

lemma permitted_eager: "permitted (eager_limits n) = permitted (eager_limits 0)"
proof
  show "permitted (eager_limits n) c = permitted (eager_limits 0) c" for c
    by (cases c) (simp_all add: eager_limits_def)
qed

lemma retained_eager:
  assumes "n \<le> USIZE_MAX"
  shows "retained_size L v (eager_limits n) = Inr k \<longleftrightarrow>
    eager_shape L v \<and> k = eager_cost L v \<and> k \<le> n"
proof -
  have "max_bytes (eager_limits n) = n" "max_nodes (eager_limits n) = 16384"
    by (simp_all add: eager_limits_def)
  then show ?thesis
    using retained_size_iff [of "eager_limits n" L v k] assms
    unfolding eager_shape_def eager_cost_def total_cost_def cost_eager [of n] permitted_eager [of n]
    by auto
qed

definition budget_ok :: "materialization_budget \<Rightarrow> bool" where
  "budget_ok b \<longleftrightarrow> b_values b \<le> b_max_values b \<and> b_retained_bytes b \<le> b_max_retained_bytes b
     \<and> b_max_retained_bytes b \<le> USIZE_MAX"

lemma budget_eager_ok [simp]: "budget_ok budget_eager" "budget_ok (c_budget collection_eager)"
  by (simp_all add: budget_ok_def budget_eager_def budget_new_def collection_eager_def
      collection_new_def EAGER_COLLECTION_MAX_VALUES_def EAGER_COLLECTION_MAX_RETAINED_BYTES_def)

lemma charge_retained_ok:
  assumes "budget_ok b"
  shows "charge_retained L v b = Inr b' \<longleftrightarrow>
    eager_shape L v \<and> b_retained_bytes b + eager_cost L v \<le> b_max_retained_bytes b
    \<and> b' = b\<lparr>b_retained_bytes := b_retained_bytes b + eager_cost L v\<rparr>"
proof -
  let ?n = "b_max_retained_bytes b - b_retained_bytes b"
  have n: "?n \<le> USIZE_MAX"
    using assms unfolding budget_ok_def by linarith
  show ?thesis
  proof (cases "retained_size L v (eager_limits ?n)")
    case (Inl e)
    then have "\<not> (eager_shape L v \<and> eager_cost L v \<le> ?n)"
      using retained_eager [OF n, of L v "eager_cost L v"] by simp
    then show ?thesis
      using Inl assms by (auto simp: charge_retained_def budget_ok_def)
  next
    case (Inr k)
    then have "eager_shape L v \<and> k = eager_cost L v \<and> k \<le> ?n"
      using retained_eager [OF n] by blast
    then show ?thesis
      using Inr assms by (auto simp: charge_retained_def budget_ok_def checked_usize_def)
  qed
qed

lemma admit_ok:
  assumes "budget_ok b"
  shows "admit L v b = Inr b' \<longleftrightarrow>
    b_values b < b_max_values b \<and> eager_shape L v
    \<and> b_retained_bytes b + eager_cost L v \<le> b_max_retained_bytes b
    \<and> b' = b\<lparr>b_retained_bytes := b_retained_bytes b + eager_cost L v, b_values := b_values b + 1\<rparr>"
  using charge_retained_ok [OF assms] by (auto simp: admit_def bindR_eq_Inr)

lemma admit_keeps_ok: "budget_ok b \<Longrightarrow> admit L v b = Inr b' \<Longrightarrow> budget_ok b'"
  by (auto simp: admit_ok) (auto simp: budget_ok_def)

text \<open>
  The outcome of collecting a sequence eagerly: the sequence itself when it is admitted, and one
  error code otherwise.
\<close>

definition cost_of_all :: "('z, 'a) layout \<Rightarrow> ('z, 'a) val list \<Rightarrow> nat" where
  "cost_of_all L vs = sum_list (map (eager_cost L) vs)"

definition admitted :: "('z, 'a) layout \<Rightarrow> ('z, 'a) val list \<Rightarrow> bool" where
  "admitted L vs \<longleftrightarrow> length vs \<le> EAGER_COLLECTION_MAX_VALUES \<and> list_all (eager_shape L) vs
     \<and> cost_of_all L vs \<le> EAGER_COLLECTION_MAX_RETAINED_BYTES"

lemma collection_extend_ok:
  "budget_ok (c_budget c) \<Longrightarrow> collection_extend L vs c = Inr c' \<longleftrightarrow>
     list_all (eager_shape L) vs \<and> b_values (c_budget c) + length vs \<le> b_max_values (c_budget c)
     \<and> b_retained_bytes (c_budget c) + cost_of_all L vs \<le> b_max_retained_bytes (c_budget c)
     \<and> c' = c\<lparr>c_values := c_values c @ vs,
             c_budget := (c_budget c)\<lparr>b_retained_bytes := b_retained_bytes (c_budget c) + cost_of_all L vs,
                b_values := b_values (c_budget c) + length vs\<rparr>\<rparr>"
proof (induction vs arbitrary: c)
  case Nil
  then show ?case
    by (auto simp: cost_of_all_def budget_ok_def)
next
  case (Cons v vs)
  let ?b = "(c_budget c)\<lparr>b_retained_bytes := b_retained_bytes (c_budget c) + eager_cost L v,
      b_values := b_values (c_budget c) + 1\<rparr>"
  let ?c = "c\<lparr>c_values := c_values c @ [v], c_budget := ?b\<rparr>"
  have "collection_extend L (v # vs) c = Inr c' \<longleftrightarrow>
      admit L v (c_budget c) = Inr ?b \<and> collection_extend L vs ?c = Inr c'"
    using admit_ok [OF Cons.prems, of L v] by (auto simp: bindR_eq_Inr collection_push_def)
  then show ?case
    using Cons.IH [of ?c] admit_keeps_ok [OF Cons.prems, of L v ?b] admit_ok [OF Cons.prems, of L v ?b]
    by (auto simp: cost_of_all_def)
qed

lemma charge_retained_error:
  "charge_retained L v b = Inl e \<Longrightarrow> err_code e = Some ''collection_materialization_limit''"
  by (auto simp: charge_retained_def collection_materialization_limit_def split: sum.splits option.splits)

lemma admit_error: "admit L v b = Inl e \<Longrightarrow> err_code e = Some ''collection_materialization_limit''"
  by (auto simp: admit_def bindR_eq_Inl collection_materialization_limit_def
      dest: charge_retained_error split: if_splits)

lemma collection_extend_error:
  "collection_extend L vs c = Inl e \<Longrightarrow> err_code e = Some ''collection_materialization_limit''"
  by (induction vs arbitrary: c) (auto simp: bindR_eq_Inl collection_push_def dest: admit_error)

definition eager_list :: "('z, 'a) layout \<Rightarrow> ('z, 'a) val list \<Rightarrow> ('z, 'a) val list vresult" where
  "eager_list L vs = bindR (collection_extend L vs collection_eager) (\<lambda>c. Inr (c_values c))"

lemma collection_eager_sel [simp]:
  "c_values collection_eager = []"
  "b_values (c_budget collection_eager) = 0"
  "b_retained_bytes (c_budget collection_eager) = 0"
  "b_max_values (c_budget collection_eager) = EAGER_COLLECTION_MAX_VALUES"
  "b_max_retained_bytes (c_budget collection_eager) = EAGER_COLLECTION_MAX_RETAINED_BYTES"
  by (simp_all add: collection_eager_def collection_new_def budget_new_def)

lemma eager_list_ok: "eager_list L vs = Inr ws \<longleftrightarrow> ws = vs \<and> admitted L vs"
  using collection_extend_ok [OF budget_eager_ok(2), of L vs]
  by (auto simp: eager_list_def bindR_eq_Inr admitted_def)

lemma eager_list_error:
  "eager_list L vs = Inl e \<Longrightarrow> err_code e = Some ''collection_materialization_limit''"
  by (auto simp: eager_list_def bindR_eq_Inl dest: collection_extend_error)

lemma push_str_ok:
  "s_max_bytes b \<le> USIZE_MAX \<Longrightarrow> push_str t b = Inr b' \<longleftrightarrow>
     length (s_value b) + length t \<le> s_max_bytes b \<and> b' = b\<lparr>s_value := s_value b @ t\<rparr>"
  by (auto simp: push_str_def checked_usize_def)

lemma push_str_error: "push_str t b = Inl e \<Longrightarrow> err_code e = Some ''string_materialization_limit''"
  by (auto simp: push_str_def string_materialization_limit_def split: option.splits if_splits)

end
