(* ===== verification/Value_Ops.thy ===== *)
theory Value_Ops
  imports Value_Retained
begin

text \<open>
  The operators on values (\<open>value/ops.rs\<close>): the coercion matrix of the arithmetic operators, ordering,
  membership and the unary operators, with checked integer arithmetic on 64 bits. \<open>host\<close> is what they
  use from outside: \<open>jiff\<close>'s timestamp and checked addition on a zoned datetime, and whether the build
  checks overflow of the unchecked \<open>-x\<close>.
\<close>

record 'z host =
  timestamp_ns :: "'z \<Rightarrow> int"
  zoned_add :: "'z \<Rightarrow> int \<Rightarrow> (string, 'z) result"
  overflow_checks :: bool

datatype bin_op =
    Add | Sub | Mul | Div | Rem | Eq | Ne | Lt | Le | Gt | Ge | In | And | Or | Coalesce

datatype un_op = UNot | UNeg

definition type_err :: "string \<Rightarrow> ('z, 'a) val \<Rightarrow> ('z, 'a) val \<Rightarrow> 'b vresult" where
  "type_err op l r = Inl (Raised (type_error
     (''cannot apply `'' @ op @ ''` to '' @ type_name l @ '' and '' @ type_name r)))"

abbreviation negative_size :: "'b vresult" where
  "negative_size \<equiv> Inl (Raised (type_error ''size cannot go negative''))"

definition or_overflow :: "string \<Rightarrow> 'b option \<Rightarrow> 'b vresult" where
  "or_overflow what x = (case x of Some y \<Rightarrow> Inr y | None \<Rightarrow> fail ''overflow'' what)"

definition checked_u64_nat :: "nat \<Rightarrow> nat option" where
  "checked_u64_nat n = (if n \<le> U64_MAX then Some n else None)"

subsection \<open>Arithmetic\<close>

definition int_op :: "bin_op \<Rightarrow> int \<Rightarrow> int \<Rightarrow> ('z, 'a) val vresult" where
  "int_op op a b =
     (let over = ''integer overflow in `'' @ dec_int a @ '' op '' @ dec_int b @ ''`'';
          wrap = (\<lambda>x. bindR (or_overflow over (checked_i64 x)) (\<lambda>i. Inr (Int64 i)))
      in case op of
           Add \<Rightarrow> wrap (a + b)
         | Sub \<Rightarrow> wrap (a - b)
         | Mul \<Rightarrow> wrap (a * b)
         | Div \<Rightarrow> if b = 0 then fail ''div_zero'' ''division by zero'' else wrap (trunc_div a b)
         | Rem \<Rightarrow> if b = 0 then fail ''div_zero'' ''remainder by zero''
                  else if a = I64_MIN \<and> b = - 1 then fail ''overflow'' over
                  else wrap (trunc_rem a b)
         | _ \<Rightarrow> Inl (Panicked ''unreachable''))"

definition float_op :: "bin_op \<Rightarrow> f64 \<Rightarrow> f64 \<Rightarrow> ('z, 'a) val vresult" where
  "float_op op a b =
     (case op of
        Add \<Rightarrow> Inr (Float (f64_add a b))
      | Sub \<Rightarrow> Inr (Float (f64_sub a b))
      | Mul \<Rightarrow> Inr (Float (f64_mul a b))
      | Div \<Rightarrow> Inr (Float (f64_div a b))
      | Rem \<Rightarrow> Inr (Float (f64_rem a b))
      | _ \<Rightarrow> Inl (Panicked ''unreachable''))"

definition size_mul_float :: "nat \<Rightarrow> f64 \<Rightarrow> ('z, 'a) val vresult" where
  "size_mul_float a b =
     (let rounded = f64_round_int (f64_mul (f64_of_int (int a)) b)
      in if is_nan rounded then fail ''overflow'' ''size overflow''
         else if f64_lt rounded f64_zero then negative_size
         else if f64_ge rounded (f64_of_int (int U64_MAX)) then fail ''overflow'' ''size overflow''
         else Inr (Size (f64_as_u64 rounded)))"

definition duration_mul_float :: "int \<Rightarrow> f64 \<Rightarrow> ('z, 'a) val vresult" where
  "duration_mul_float a b =
     (let rounded = f64_round_int (f64_mul (f64_of_int a) b)
      in if is_nan rounded \<or> f64_ge rounded (f64_of_int I64_MAX) \<or> f64_lt rounded (f64_of_int I64_MIN)
         then fail ''overflow'' ''duration overflow''
         else Inr (Duration (f64_as_i64 rounded)))"

definition neg_i64 :: "'z host \<Rightarrow> int \<Rightarrow> int vresult" where
  "neg_i64 h d =
     (if d \<noteq> I64_MIN then Inr (- d)
      else if overflow_checks h then Inl (Panicked ''attempt to negate with overflow'')
      else Inr I64_MIN)"

definition size_ops :: "bin_op \<Rightarrow> nat \<Rightarrow> ('z, 'a) val \<Rightarrow> ('z, 'a) val vresult \<Rightarrow> ('z, 'a) val vresult" where
  "size_ops op a r no =
     (case r of
        Size b \<Rightarrow>
          (case op of
             Add \<Rightarrow> bindR (or_overflow ''size overflow'' (checked_u64_nat (a + b))) (\<lambda>n. Inr (Size n))
           | Sub \<Rightarrow> if b \<le> a then Inr (Size (a - b)) else negative_size
           | Div \<Rightarrow> if b = 0 then fail ''div_zero'' ''division by zero''
                    else Inr (Float (f64_div (f64_of_int (int a)) (f64_of_int (int b))))
           | _ \<Rightarrow> no)
      | Int64 b \<Rightarrow>
          (case op of
             Mul \<Rightarrow> if b < 0 then negative_size
                    else bindR (or_overflow ''size overflow'' (checked_u64_nat (a * nat b)))
                           (\<lambda>n. Inr (Size n))
           | Div \<Rightarrow> if b = 0 then fail ''div_zero'' ''division by zero''
                    else if b < 0 then negative_size else Inr (Size (a div nat b))
           | _ \<Rightarrow> no)
      | Float b \<Rightarrow> if op = Mul then size_mul_float a b else no
      | _ \<Rightarrow> no)"

definition datetime_add :: "'z host \<Rightarrow> 'z \<Rightarrow> int \<Rightarrow> ('z, 'a) val vresult" where
  "datetime_add h z ns =
     (case zoned_add h z ns of
        Inl e \<Rightarrow> fail ''overflow'' (''datetime out of range: '' @ e)
      | Inr z' \<Rightarrow> Inr (DateTime z'))"

definition duration_ops ::
  "'z host \<Rightarrow> bin_op \<Rightarrow> int \<Rightarrow> ('z, 'a) val \<Rightarrow> ('z, 'a) val vresult \<Rightarrow> ('z, 'a) val vresult" where
  "duration_ops h op a r no =
     (let wrap = (\<lambda>x. bindR (or_overflow ''duration overflow'' (checked_i64 x)) (\<lambda>d. Inr (Duration d)))
      in case r of
           Duration b \<Rightarrow>
             (case op of
                Add \<Rightarrow> wrap (a + b)
              | Sub \<Rightarrow> wrap (a - b)
              | Div \<Rightarrow> if b = 0 then fail ''div_zero'' ''division by zero''
                       else Inr (Float (f64_div (f64_of_int a) (f64_of_int b)))
              | _ \<Rightarrow> no)
         | Int64 b \<Rightarrow>
             (case op of
                Mul \<Rightarrow> wrap (a * b)
              | Div \<Rightarrow> if b = 0 then fail ''div_zero'' ''division by zero''
                       else if a = I64_MIN \<and> b = - 1
                       then Inl (Panicked ''attempt to divide with overflow'')
                       else Inr (Duration (trunc_div a b))
              | _ \<Rightarrow> no)
         | Float b \<Rightarrow> if op = Mul then duration_mul_float a b else no
         | DateTime z \<Rightarrow> if op = Add then datetime_add h z a else no
         | _ \<Rightarrow> no)"

definition datetime_ops ::
  "'z host \<Rightarrow> bin_op \<Rightarrow> 'z \<Rightarrow> ('z, 'a) val \<Rightarrow> ('z, 'a) val vresult \<Rightarrow> ('z, 'a) val vresult" where
  "datetime_ops h op z r no =
     (case r of
        Duration ns \<Rightarrow>
          (case op of
             Add \<Rightarrow> datetime_add h z ns
           | Sub \<Rightarrow> bindR (neg_i64 h ns) (datetime_add h z)
           | _ \<Rightarrow> no)
      | DateTime b \<Rightarrow>
          if op = Sub
          then bindR (or_overflow ''duration overflow'' (checked_i64 (timestamp_ns h z - timestamp_ns h b)))
                 (\<lambda>d. Inr (Duration d))
          else no
      | _ \<Rightarrow> no)"

definition op_name :: "bin_op \<Rightarrow> string" where
  "op_name op =
     (case op of Add \<Rightarrow> ''+'' | Sub \<Rightarrow> ''-'' | Mul \<Rightarrow> ''*'' | Div \<Rightarrow> ''/'' | Rem \<Rightarrow> ''%'' | _ \<Rightarrow> ''?'')"

text \<open>The \<open>match (lhs, rhs)\<close> of \<open>binop\<close>, by the left operand.\<close>

definition arith_op ::
  "'z host \<Rightarrow> ('z, 'a) layout \<Rightarrow> bin_op \<Rightarrow> ('z, 'a) val \<Rightarrow> ('z, 'a) val \<Rightarrow> ('z, 'a) val vresult" where
  "arith_op h L op l r =
     (let no = type_err (op_name op) l r
      in case l of
           Int64 a \<Rightarrow>
             (case r of
                Int64 b \<Rightarrow> int_op op a b
              | Float b \<Rightarrow> float_op op (f64_of_int a) b
              | Size b \<Rightarrow>
                  if op = Mul
                  then if a < 0 then negative_size
                       else bindR (or_overflow ''size overflow'' (checked_u64_nat (nat a * b)))
                              (\<lambda>n. Inr (Size n))
                  else no
              | Duration b \<Rightarrow>
                  if op = Mul
                  then bindR (or_overflow ''duration overflow'' (checked_i64 (a * b)))
                         (\<lambda>d. Inr (Duration d))
                  else no
              | _ \<Rightarrow> no)
         | Float a \<Rightarrow>
             (case r of
                Float b \<Rightarrow> float_op op a b
              | Int64 b \<Rightarrow> float_op op a (f64_of_int b)
              | Size b \<Rightarrow> if op = Mul then size_mul_float b a else no
              | Duration b \<Rightarrow> if op = Mul then duration_mul_float b a else no
              | _ \<Rightarrow> no)
         | Str a \<Rightarrow>
             (case r of
                Str b \<Rightarrow>
                  if op = Add
                  then bindR (push_str a bounded_string_eager) (\<lambda>out.
                       bindR (push_str b out) (\<lambda>out. Inr (bounded_string_finish out)))
                  else no
              | _ \<Rightarrow> no)
         | List a \<Rightarrow>
             (case r of
                List b \<Rightarrow>
                  if op = Add
                  then bindR (collection_extend L (a @ b) collection_eager)
                         (\<lambda>out. Inr (collection_finish out))
                  else no
              | _ \<Rightarrow> no)
         | Size a \<Rightarrow> size_ops op a r no
         | Duration a \<Rightarrow> duration_ops h op a r no
         | DateTime z \<Rightarrow> datetime_ops h op z r no
         | _ \<Rightarrow> no)"

subsection \<open>Ordering and membership\<close>

fun component_cmp :: "component \<Rightarrow> component \<Rightarrow> ordering" where
  "component_cmp (Normal a) (Normal b) = cmp_of a b"
| "component_cmp a b =
     (let rank = (\<lambda>c. case c of RootDir \<Rightarrow> 0 :: nat | CurDir \<Rightarrow> 1 | ParentDir \<Rightarrow> 2 | Normal _ \<Rightarrow> 3)
      in cmp_of (rank a) (rank b))"

fun components_cmp :: "component list \<Rightarrow> component list \<Rightarrow> ordering" where
  "components_cmp [] [] = Equal"
| "components_cmp [] (_ # _) = Less"
| "components_cmp (_ # _) [] = Greater"
| "components_cmp (a # as) (b # bs) =
     (case component_cmp a b of Equal \<Rightarrow> components_cmp as bs | o1 \<Rightarrow> o1)"

definition time_cmp :: "time_val \<Rightarrow> time_val \<Rightarrow> ordering" where
  "time_cmp a b =
     (case cmp_of (hour a) (hour b) of
        Equal \<Rightarrow> (case cmp_of (minute a) (minute b) of Equal \<Rightarrow> cmp_of (sec a) (sec b) | o1 \<Rightarrow> o1)
      | o1 \<Rightarrow> o1)"

definition compare :: "'z host \<Rightarrow> ('z, 'a) val \<Rightarrow> ('z, 'a) val \<Rightarrow> ordering vresult" where
  "compare h l r =
     (let no = Inl (Raised (type_error (''cannot compare '' @ type_name l @ '' with '' @ type_name r)));
          ok_or = (\<lambda>x. case x of Some o1 \<Rightarrow> Inr o1 | None \<Rightarrow> no)
      in case l of
           Int64 a \<Rightarrow> (case r of Int64 b \<Rightarrow> Inr (cmp_of a b)
                      | Float b \<Rightarrow> ok_or (f64_partial_cmp (f64_of_int a) b) | _ \<Rightarrow> no)
         | Float a \<Rightarrow> (case r of Float b \<Rightarrow> ok_or (f64_partial_cmp a b)
                      | Int64 b \<Rightarrow> ok_or (f64_partial_cmp a (f64_of_int b)) | _ \<Rightarrow> no)
         | Str a \<Rightarrow> (case r of Str b \<Rightarrow> Inr (cmp_of a b) | _ \<Rightarrow> no)
         | Path a \<Rightarrow> (case r of Path b \<Rightarrow> Inr (components_cmp (components a) (components b)) | _ \<Rightarrow> no)
         | Size a \<Rightarrow> (case r of Size b \<Rightarrow> Inr (cmp_of a b) | _ \<Rightarrow> no)
         | Duration a \<Rightarrow> (case r of Duration b \<Rightarrow> Inr (cmp_of a b) | _ \<Rightarrow> no)
         | DateTime a \<Rightarrow> (case r of DateTime b \<Rightarrow> Inr (cmp_of (timestamp_ns h a) (timestamp_ns h b)) | _ \<Rightarrow> no)
         | Time a \<Rightarrow> (case r of Time b \<Rightarrow> Inr (time_cmp a b) | _ \<Rightarrow> no)
         | Bool a \<Rightarrow> (case r of Bool b \<Rightarrow> Inr (cmp_of a b) | _ \<Rightarrow> no)
         | _ \<Rightarrow> no)"

abbreviation veq :: "'z host \<Rightarrow> ('z, 'a) val \<Rightarrow> ('z, 'a) val \<Rightarrow> bool" where
  "veq h \<equiv> value_eq (timestamp_ns h)"

definition member :: "'z host \<Rightarrow> ('z, 'a) val \<Rightarrow> ('z, 'a) val \<Rightarrow> bool vresult" where
  "member h haystack needle =
     (let no = Inl (Raised (type_error
            (''cannot test '' @ type_name needle @ '' membership in '' @ type_name haystack)))
      in case haystack of
           List xs \<Rightarrow> Inr (list_ex (\<lambda>x. veq h x needle) xs)
         | Table rows \<Rightarrow>
             (case needle of Record r \<Rightarrow> Inr (list_ex (\<lambda>row. veq h (Record row) (Record r)) rows)
              | _ \<Rightarrow> no)
         | Str s \<Rightarrow> (case needle of Str n \<Rightarrow> Inr (sublist n s) | _ \<Rightarrow> no)
         | Record r \<Rightarrow> (case needle of Str k \<Rightarrow> Inr (map_of r k \<noteq> None) | _ \<Rightarrow> no)
         | Range r \<Rightarrow> (case needle of Int64 i \<Rightarrow> Inr (range_contains r i) | _ \<Rightarrow> no)
         | _ \<Rightarrow> no)"

fun is_stream :: "('z, 'a) val \<Rightarrow> bool" where
  "is_stream (Stream _) = True"
| "is_stream _ = False"

definition binop ::
  "'z host \<Rightarrow> ('z, 'a) layout \<Rightarrow> bin_op \<Rightarrow> ('z, 'a) val \<Rightarrow> ('z, 'a) val \<Rightarrow> ('z, 'a) val vresult" where
  "binop h L op l r =
     (let cmp = (\<lambda>f. bindR (compare h l r) (\<lambda>o1. Inr (Bool (f o1))))
      in if (op = Eq \<or> op = Ne) \<and> is_stream l \<noteq> is_stream r
         then Inl (Raised (with_hint ''collect first (`.collect()`)''
                (type_error ''cannot compare a stream with a value'')))
         else case op of
                Eq \<Rightarrow> Inr (Bool (veq h l r))
              | Ne \<Rightarrow> Inr (Bool (\<not> veq h l r))
              | Lt \<Rightarrow> cmp (\<lambda>o1. o1 = Less)
              | Le \<Rightarrow> cmp (\<lambda>o1. o1 \<noteq> Greater)
              | Gt \<Rightarrow> cmp (\<lambda>o1. o1 = Greater)
              | Ge \<Rightarrow> cmp (\<lambda>o1. o1 \<noteq> Less)
              | In \<Rightarrow> bindR (member h r l) (\<lambda>b. Inr (Bool b))
              | _ \<Rightarrow> arith_op h L op l r)"

definition unop :: "'z host \<Rightarrow> un_op \<Rightarrow> ('z, 'a) val \<Rightarrow> ('z, 'a) val vresult" where
  "unop h op v =
     (case op of
        UNot \<Rightarrow>
          (case v of
             Bool b \<Rightarrow> Inr (Bool (\<not> b))
           | Outcome _ out \<Rightarrow> Inr (Bool (\<not> o_ok out))
           | other \<Rightarrow> Inl (Raised (type_error (''cannot negate '' @ type_name other))))
      | UNeg \<Rightarrow>
          (case v of
             Int64 i \<Rightarrow> bindR (or_overflow ''integer overflow'' (checked_i64 (- i))) (\<lambda>i. Inr (Int64 i))
           | Float f \<Rightarrow> Inr (Float (f64_neg f))
           | Duration d \<Rightarrow> bindR (neg_i64 h d) (\<lambda>d. Inr (Duration d))
           | other \<Rightarrow> Inl (Raised (type_error (''cannot apply unary `-` to '' @ type_name other)))))"

subsection \<open>The type matrix\<close>

text \<open>The result type of an operator by the types of its operands; \<open>None\<close> is a type error.\<close>

definition arith_type :: "bin_op \<Rightarrow> string \<Rightarrow> string \<Rightarrow> string option" where
  "arith_type op l r =
     (let mul = (\<lambda>t. if op = Mul then Some t else None);
          scale = (\<lambda>t. if op = Mul \<or> op = Div then Some t else None);
          linear = (\<lambda>t. if op = Add \<or> op = Sub then Some t
                        else if op = Div then Some ''float'' else None)
      in if l = ''int'' \<and> r = ''int'' then Some ''int''
         else if (l = ''int'' \<or> l = ''float'') \<and> (r = ''int'' \<or> r = ''float'') then Some ''float''
         else if (l = ''str'' \<or> l = ''list'') \<and> l = r then if op = Add then Some l else None
         else if (l = ''size'' \<or> l = ''duration'') \<and> l = r then linear l
         else if (l = ''size'' \<or> l = ''duration'') \<and> r = ''int'' then scale l
         else if (l = ''size'' \<or> l = ''duration'') \<and> r = ''float'' then mul l
         else if (l = ''int'' \<or> l = ''float'') \<and> (r = ''size'' \<or> r = ''duration'') then mul r
         else if l = ''datetime'' \<and> r = ''duration''
         then if op = Add \<or> op = Sub then Some ''datetime'' else None
         else if l = ''duration'' \<and> r = ''datetime'' then if op = Add then Some ''datetime'' else None
         else if l = ''datetime'' \<and> r = ''datetime'' then if op = Sub then Some ''duration'' else None
         else None)"

definition ordered_types :: "string list" where
  "ordered_types = [''int'', ''float'', ''str'', ''path'', ''size'', ''duration'', ''datetime'', ''time'', ''bool'']"

definition comparable :: "string \<Rightarrow> string \<Rightarrow> bool" where
  "comparable l r \<longleftrightarrow> l = r \<and> l \<in> set ordered_types
     \<or> l = ''int'' \<and> r = ''float'' \<or> l = ''float'' \<and> r = ''int''"

definition searchable :: "string \<Rightarrow> string \<Rightarrow> bool" where
  "searchable needle hay \<longleftrightarrow> hay = ''list'' \<or> hay = ''table'' \<and> needle = ''record''
     \<or> hay = ''str'' \<and> needle = ''str'' \<or> hay = ''record'' \<and> needle = ''str''
     \<or> hay = ''range'' \<and> needle = ''int''"

definition binop_type :: "bin_op \<Rightarrow> string \<Rightarrow> string \<Rightarrow> string option" where
  "binop_type op l r =
     (if op = Eq \<or> op = Ne then if (l = ''stream'') = (r = ''stream'') then Some ''bool'' else None
      else if op = Lt \<or> op = Le \<or> op = Gt \<or> op = Ge
      then if comparable l r then Some ''bool'' else None
      else if op = In then if searchable l r then Some ''bool'' else None
      else arith_type op l r)"

lemma is_stream_type: "is_stream v \<longleftrightarrow> type_name v = ''stream''"
  by (cases v) simp_all

subsection \<open>Well-formedness of results\<close>

lemma round_even_nonneg: "0 \<le> x \<Longrightarrow> 0 \<le> round_even x"
proof -
  assume "0 \<le> x"
  then have "0 \<le> \<lfloor>x\<rfloor>"
    by simp
  then show ?thesis
    by (auto simp: round_even_def Let_def simp del: zero_le_floor)
qed

lemma f64_round_ok: "0 \<le> x \<Longrightarrow> f64_ok (f64_round neg x)"
  by (simp add: f64_round_def Let_def round_even_nonneg)

lemma f64_op_ok:
  "f64_ok x \<Longrightarrow> f64_ok (f64_neg x)"
  "f64_ok (f64_add x y)"
  "f64_ok (f64_sub x y)"
  "f64_ok x \<Longrightarrow> f64_ok y \<Longrightarrow> f64_ok (f64_mul x y)"
  "f64_ok x \<Longrightarrow> f64_ok y \<Longrightarrow> f64_ok (f64_div x y)"
  by (cases x; cases y; simp add: f64_round_ok f64_sub_def Let_def)+

lemma f64_rem_ok: "f64_ok x \<Longrightarrow> f64_ok y \<Longrightarrow> f64_ok (f64_rem x y)"
proof (cases x; cases y)
  fix s a t b assume *: "x = Finite s a" "y = Finite t b" "f64_ok x" "f64_ok y"
  have "b * of_int \<lfloor>a / b\<rfloor> \<le> b * (a / b)" if "b \<noteq> 0"
    using * by (intro mult_left_mono of_int_floor_le) simp
  then show ?thesis
    using * by simp
qed simp_all

lemma f64_as_u64_range: "in_u64 (f64_as_u64 x)"
  by (cases x) (simp_all add: in_u64_def)

lemma f64_as_i64_range: "in_i64 (f64_as_i64 x)"
  by (cases x) (simp_all add: in_i64_def saturating_i64_def)

lemma trunc_div_in_i64:
  assumes "in_i64 a" "in_i64 b" "b \<noteq> 0" "\<not> (a = I64_MIN \<and> b = - 1)"
  shows "in_i64 (trunc_div a b)"
proof (cases "\<bar>b\<bar> = 1")
  case True
  then have "trunc_div a b = (if b = 1 then a else - a)"
    by (auto simp: trunc_div_def abs_if sgn_if split: if_splits)
  then show ?thesis
    using assms True by (auto simp: in_i64_def abs_if split: if_splits)
next
  case False
  have "\<bar>a\<bar> div \<bar>b\<bar> \<le> \<bar>a\<bar> div 2"
    using assms(3) False by (intro zdiv_mono2) auto
  moreover have "0 \<le> \<bar>a\<bar> div \<bar>b\<bar>"
    using assms(3) by (simp add: pos_imp_zdiv_nonneg_iff)
  then have "\<bar>trunc_div a b\<bar> \<le> \<bar>a\<bar> div \<bar>b\<bar>"
    by (simp add: trunc_div_def abs_mult abs_sgn_eq)
  ultimately show ?thesis
    using assms(1) by (auto simp: in_i64_def abs_if split: if_splits)
qed

lemma bindR_split:
  "P (bindR m f) \<longleftrightarrow> (\<forall>e. m = Inl e \<longrightarrow> P (Inl e)) \<and> (\<forall>x. m = Inr x \<longrightarrow> P (f x))"
  by (cases m) auto

text \<open>
  What the matrix promises of a result \<open>m\<close> of type \<open>t\<close>: a well-formed value of that type, or one of
  the errors the operators raise on values.
\<close>

definition value_errors :: "string list" where
  "value_errors = [''type_error'', ''overflow'', ''div_zero'', ''string_materialization_limit'',
     ''collection_materialization_limit'']"

fun meets_type :: "string option \<Rightarrow> ('z, 'a) val vresult \<Rightarrow> bool" where
  "meets_type None m \<longleftrightarrow> (\<exists>e. m = Inl (Raised e) \<and> code e = ''type_error'')"
| "meets_type (Some t) (Inr v) \<longleftrightarrow> type_name v = t \<and> value_ok v"
| "meets_type (Some t) (Inl (Raised e)) \<longleftrightarrow> code e \<in> set value_errors"
| "meets_type (Some t) (Inl (Panicked p)) = True"

declare meets_type.simps(1) [simp del]

lemma value_errors_mem [simp]:
  "''type_error'' \<in> set value_errors" "''overflow'' \<in> set value_errors"
  "''div_zero'' \<in> set value_errors" "''string_materialization_limit'' \<in> set value_errors"
  "''collection_materialization_limit'' \<in> set value_errors"
  by (simp_all add: value_errors_def)

lemma in_u64_le: "in_u64 a \<Longrightarrow> b \<le> a \<Longrightarrow> in_u64 b"
  by (simp add: in_u64_def)

lemma meets_overflow [simp]: "meets_type (Some t) (fail ''overflow'' m)"
  "meets_type (Some t) (fail ''div_zero'' m)" "meets_type (Some t) negative_size"
  by simp_all

lemma meets_type_err [simp]: "meets_type None (type_err op l r)"
  by (simp add: type_err_def meets_type.simps(1))

lemma meets_checked [simp]:
  "meets_type (Some t) (bindR (or_overflow w (checked_i64 x)) (\<lambda>i. Inr (f i)))
   \<longleftrightarrow> (in_i64 x \<longrightarrow> type_name (f x) = t \<and> value_ok (f x))"
  "meets_type (Some t) (bindR (or_overflow w (checked_u64_nat n)) (\<lambda>k. Inr (g k)))
   \<longleftrightarrow> (in_u64 n \<longrightarrow> type_name (g n) = t \<and> value_ok (g n))"
  by (simp_all add: or_overflow_def checked_i64_def checked_u64_nat_def in_u64_def)

lemma meets_int_op: "meets_type (Some ''int'') (int_op op a b)"
  by (cases op) (simp_all add: int_op_def Let_def)

lemma meets_float_op: "f64_ok a \<Longrightarrow> f64_ok b \<Longrightarrow> meets_type (Some ''float'') (float_op op a b)"
  by (cases op) (simp_all add: float_op_def f64_op_ok f64_rem_ok)

lemma meets_mul_float:
  "meets_type (Some ''size'') (size_mul_float n x)"
  "meets_type (Some ''duration'') (duration_mul_float d x)"
  by (simp_all add: size_mul_float_def duration_mul_float_def Let_def f64_as_u64_range f64_as_i64_range)

lemma meets_datetime_add: "meets_type (Some ''datetime'') (datetime_add h z ns)"
  by (simp add: datetime_add_def split: sum.split)

lemma meets_size_ops:
  assumes "in_u64 a" "value_ok r"
  shows "meets_type (arith_type op ''size'' (type_name r)) (size_ops op a r (type_err x l r))"
proof (cases r)
  case (Size b)
  then show ?thesis
    using assms in_u64_le [of a "a - b"]
    by (cases op) (simp_all add: size_ops_def arith_type_def f64_op_ok f64_of_int_ok)
next
  case (Int64 b)
  then show ?thesis
    using assms in_u64_le [of a "a div nat b"]
    by (cases op) (simp_all add: size_ops_def arith_type_def)
qed (simp_all add: size_ops_def arith_type_def meets_mul_float)

lemma meets_duration_ops:
  assumes "in_i64 a" "value_ok r"
  shows "meets_type (arith_type op ''duration'' (type_name r)) (duration_ops h op a r (type_err x l r))"
proof (cases r)
  case (Duration b)
  then show ?thesis
    by (cases op) (simp_all add: duration_ops_def arith_type_def f64_op_ok f64_of_int_ok)
next
  case (Int64 b)
  then show ?thesis
    using assms by (cases op) (simp_all add: duration_ops_def arith_type_def trunc_div_in_i64)
qed (simp_all add: duration_ops_def arith_type_def meets_mul_float meets_datetime_add)

lemma meets_datetime_ops:
  "meets_type (arith_type op ''datetime'' (type_name r)) (datetime_ops h op z r (type_err x l r))"
proof (cases r)
  case (Duration b)
  then show ?thesis
    by (cases op) (simp_all add: datetime_ops_def arith_type_def meets_datetime_add neg_i64_def)
qed (simp_all add: datetime_ops_def arith_type_def)

lemma meets_concat_str:
  assumes "valid_utf8 a" "valid_utf8 b"
  shows "meets_type (Some ''str'') (bindR (push_str a bounded_string_eager) (\<lambda>out.
    bindR (push_str b out) (\<lambda>out. Inr (bounded_string_finish out))))"
proof (cases "push_str a bounded_string_eager")
  case (Inl e)
  then show ?thesis
    using push_str_error [OF Inl] by (cases e) simp_all
next
  case (Inr out)
  then have out: "out = \<lparr>s_value = a, s_max_bytes = EAGER_STRING_MAX_BYTES\<rparr>"
    by (auto simp: push_str_ok bounded_string_eager_def EAGER_STRING_MAX_BYTES_def)
  show ?thesis
  proof (cases "push_str b out")
    case (Inl e)
    then show ?thesis
      using push_str_error [OF Inl] \<open>push_str a _ = _\<close> by (cases e) simp_all
  next
    case (Inr out')
    then show ?thesis
      using assms \<open>push_str a _ = _\<close>
      by (simp add: bounded_string_finish_def)
         (auto simp: out push_str_ok EAGER_STRING_MAX_BYTES_def valid_utf8_append)
  qed
qed

lemma meets_concat_list:
  assumes "list_ok a" "list_ok b"
  shows "meets_type (Some ''list'')
    (bindR (collection_extend L (a @ b) collection_eager) (\<lambda>out. Inr (collection_finish out)))"
proof (cases "collection_extend L (a @ b) collection_eager")
  case (Inl e)
  then show ?thesis
    using collection_extend_error [OF Inl] by (cases e) simp_all
next
  case (Inr out)
  then have "c_values out = a @ b"
    using collection_extend_ok [OF budget_eager_ok(2), of L "a @ b" out] by simp
  then show ?thesis
    using Inr assms by (auto simp: collection_finish_def list_ok_iff)
qed

lemma meets_arith:
  assumes "value_ok l" "value_ok r"
  shows "meets_type (arith_type op (type_name l) (type_name r)) (arith_op h L op l r)"
proof (cases l)
  case (Int64 a)
  then show ?thesis
    using assms
    by (cases r) (simp_all add: arith_op_def arith_type_def meets_int_op meets_float_op f64_of_int_ok)
next
  case (Float x)
  then show ?thesis
    using assms
    by (cases r) (simp_all add: arith_op_def arith_type_def meets_float_op f64_of_int_ok meets_mul_float)
next
  case (Str a)
  then show ?thesis
    using assms by (cases r) (simp_all add: arith_op_def arith_type_def meets_concat_str)
next
  case (List xs)
  then show ?thesis
    using assms by (cases r) (simp_all add: arith_op_def arith_type_def meets_concat_list)
next
  case (Size a)
  then show ?thesis
    using assms meets_size_ops by (simp add: arith_op_def)
next
  case (Duration a)
  then show ?thesis
    using assms meets_duration_ops by (simp add: arith_op_def)
next
  case (DateTime a)
  then show ?thesis
    using meets_datetime_ops by (simp add: arith_op_def)
qed (simp_all add: arith_op_def arith_type_def)

lemma compare_typed:
  "if comparable (type_name l) (type_name r)
   then \<forall>e. compare h l r = Inl e \<longrightarrow> err_code e = Some ''type_error''
   else \<exists>e. compare h l r = Inl (Raised e) \<and> code e = ''type_error''"
  by (cases l; cases r)
     (simp_all add: compare_def comparable_def ordered_types_def split: option.split)

lemma member_typed:
  "if searchable (type_name needle) (type_name hay) then \<exists>b. member h hay needle = Inr b
   else \<exists>e. member h hay needle = Inl (Raised e) \<and> code e = ''type_error''"
  by (cases hay; cases needle) (simp_all add: member_def searchable_def)

subsection \<open>Panics\<close>

lemma no_panic [simp]:
  "type_err op l r \<noteq> Inl (Panicked p)"
  "or_overflow w y \<noteq> Inl (Panicked p)"
  "size_mul_float n x \<noteq> Inl (Panicked p)"
  "duration_mul_float d x \<noteq> Inl (Panicked p)"
  "datetime_add h z d \<noteq> Inl (Panicked p)"
  by (auto simp: type_err_def or_overflow_def size_mul_float_def duration_mul_float_def
      datetime_add_def Let_def split: option.splits sum.splits if_splits)

lemma bounded_no_panic [simp]:
  "push_str t b \<noteq> Inl (Panicked p)" "collection_extend L vs c \<noteq> Inl (Panicked p)"
  using push_str_error [of t b "Panicked p"] collection_extend_error [of L vs c "Panicked p"] by auto

definition logical :: "bin_op \<Rightarrow> bool" where
  "logical op \<longleftrightarrow> op = And \<or> op = Or \<or> op = Coalesce"

definition arithmetic :: "bin_op \<Rightarrow> bool" where
  "arithmetic op \<longleftrightarrow> op = Add \<or> op = Sub \<or> op = Mul \<or> op = Div \<or> op = Rem"

lemma number_op_panics:
  "arithmetic op \<Longrightarrow> int_op op a b \<noteq> Inl (Panicked p)"
  "arithmetic op \<Longrightarrow> float_op op x y \<noteq> Inl (Panicked p)"
  by (auto simp: int_op_def float_op_def arithmetic_def Let_def bindR_eq_Inl)

lemma duration_ops_panics:
  "duration_ops h op a r (type_err x l r) = Inl (Panicked p) \<longleftrightarrow>
     op = Div \<and> a = I64_MIN \<and> r = Int64 (- 1) \<and> p = ''attempt to divide with overflow''"
  by (cases r; cases op) (auto simp: duration_ops_def bindR_eq_Inl)

lemma datetime_ops_panics:
  "datetime_ops h op z r (type_err x l r) = Inl (Panicked p) \<longleftrightarrow>
     op = Sub \<and> overflow_checks h \<and> r = Duration I64_MIN \<and> p = ''attempt to negate with overflow''"
  by (cases r; cases op) (auto simp: datetime_ops_def neg_i64_def bindR_eq_Inl)

lemma size_ops_panics: "size_ops op a r (type_err x l r) \<noteq> Inl (Panicked p)"
  by (cases r; cases op) (auto simp: size_ops_def bindR_eq_Inl)

lemma arith_panics:
  assumes "arithmetic op"
  shows "(\<exists>p. arith_op h L op l r = Inl (Panicked p)) \<longleftrightarrow>
    op = Div \<and> l = Duration I64_MIN \<and> r = Int64 (- 1)
    \<or> op = Sub \<and> overflow_checks h \<and> (\<exists>z. l = DateTime z) \<and> r = Duration I64_MIN"
proof (cases l)
  case (Int64 a)
  then show ?thesis
    using assms by (cases r) (auto simp: arith_op_def number_op_panics bindR_eq_Inl)
next
  case (Float a)
  then show ?thesis
    using assms by (cases r) (auto simp: arith_op_def number_op_panics bindR_eq_Inl)
next
  case (Str a)
  then show ?thesis
    by (cases r) (auto simp: arith_op_def bindR_eq_Inl)
next
  case (List a)
  then show ?thesis
    by (cases r) (auto simp: arith_op_def bindR_eq_Inl)
qed (auto simp: arith_op_def size_ops_panics duration_ops_panics datetime_ops_panics)

lemma compare_no_panic [simp]: "compare h l r \<noteq> Inl (Panicked p)"
  using compare_typed [of l r h] by (auto split: if_splits)

lemma member_no_panic [simp]: "member h l r \<noteq> Inl (Panicked p)"
  using member_typed [of r l h] by (auto split: if_splits)

subsection \<open>Properties of the operators\<close>

text \<open>
  C22. The coercion matrix is the table \<open>binop_type\<close>: an operator on operand types outside the table is
  a type error, and inside it yields a well-formed value of the type of the table (integers and
  durations in 64 bits, sizes in unsigned 64 bits) or one of the value errors.
\<close>

theorem binop_type_matrix:
  assumes "value_ok l" "value_ok r" "\<not> logical op"
  shows "meets_type (binop_type op (type_name l) (type_name r)) (binop h L op l r)"
proof -
  consider "op = Eq \<or> op = Ne" | "op = Lt \<or> op = Le \<or> op = Gt \<or> op = Ge" | "op = In" | "arithmetic op"
    using assms(3) by (cases op) (auto simp: logical_def arithmetic_def)
  then show ?thesis
  proof cases
    case 1
    then show ?thesis
      by (auto simp: binop_def binop_type_def is_stream_type meets_type.simps(1))
  next
    case 2
    then have "binop h L op l r =
        bindR (compare h l r) (\<lambda>o1. Inr (Bool (if op = Lt then o1 = Less else if op = Le then o1 \<noteq> Greater
          else if op = Gt then o1 = Greater else o1 \<noteq> Less)))"
      by (auto simp: binop_def)
    moreover have "binop_type op (type_name l) (type_name r)
        = (if comparable (type_name l) (type_name r) then Some ''bool'' else None)"
      using 2 by (auto simp: binop_type_def)
    ultimately show ?thesis
      using compare_typed [of l r h]
      by (cases "compare h l r") (auto simp: meets_type.simps(1) value_errors_def split: if_splits
          elim!: err_code.elims)
  next
    case 3
    then show ?thesis
      using member_typed [of l r h]
      by (auto simp: binop_def binop_type_def meets_type.simps(1) split: if_splits)
  next
    case 4
    then show ?thesis
      using meets_arith [OF assms(1,2), of op h L]
      by (auto simp: binop_def binop_type_def arithmetic_def)
  qed
qed

theorem binop_type_matrix_witness:
  "meets_type (binop_type Div ''size'' ''size'')
     (binop \<lparr>timestamp_ns = id, zoned_add = (\<lambda>z d. Inr (z + d)), overflow_checks = True\<rparr> unit_layout
        Div (Size 3) (Size 2))"
  using binop_type_matrix [of "Size 3 :: (int, unit) val" "Size 2" Div
      "\<lparr>timestamp_ns = id, zoned_add = (\<lambda>z d. Inr (z + d)), overflow_checks = True\<rparr>" unit_layout]
  by (simp add: in_u64_def logical_def)

text \<open>
  C29. An arithmetic, comparison or membership operator panics exactly when it divides the least
  duration by \<open>-1\<close>, or, in a build with overflow checks, subtracts the least duration from a datetime;
  every other overflow is an error value.
\<close>

theorem binop_panics_exact:
  assumes "\<not> logical op"
  shows "(\<exists>p. binop h L op l r = Inl (Panicked p)) \<longleftrightarrow>
    op = Div \<and> l = Duration I64_MIN \<and> r = Int64 (- 1)
    \<or> op = Sub \<and> overflow_checks h \<and> (\<exists>z. l = DateTime z) \<and> r = Duration I64_MIN"
proof (cases "arithmetic op")
  case True
  then have "binop h L op l r = arith_op h L op l r"
    by (auto simp: arithmetic_def binop_def)
  then show ?thesis
    using arith_panics [OF True] by simp
next
  case False
  then show ?thesis
    using assms
    by (cases op) (auto simp: binop_def logical_def arithmetic_def bindR_eq_Inl split: if_splits)
qed

theorem binop_panics_exact_witness:
  "\<exists>p. binop \<lparr>timestamp_ns = id, zoned_add = (\<lambda>z d. Inr (z + d)), overflow_checks = False\<rparr> unit_layout
     Div (Duration I64_MIN) (Int64 (- 1)) = Inl (Panicked p)"
  using binop_panics_exact [of Div "\<lparr>timestamp_ns = id, zoned_add = (\<lambda>z d. Inr (z + d)),
      overflow_checks = False\<rparr>" unit_layout "Duration I64_MIN" "Int64 (- 1)"]
  by (simp add: logical_def)

text \<open>The rounded magnitude of a finite product and its signed value.\<close>

definition half_up :: "rat \<Rightarrow> int" where
  "half_up m = \<lfloor>m + 1 / 2\<rfloor>"

lemma half_up_nonneg: "0 \<le> m \<Longrightarrow> 0 \<le> half_up m"
  by (simp add: half_up_def)

lemma f64_ge_finite: "f64_ge (Finite s a) (Finite t b) \<longleftrightarrow> signed t b \<le> signed s a"
  by (auto simp: f64_ge_def cmp_of_def)

lemma f64_lt_finite: "f64_lt (Finite s a) (Finite t b) \<longleftrightarrow> signed s a < signed t b"
  by (auto simp: f64_lt_def)

lemma product_finite_nonneg: "f64_ok b \<Longrightarrow> f64_mul (f64_of_int i) b = Finite s m \<Longrightarrow> 0 \<le> half_up m"
  using f64_op_ok(4) [OF f64_of_int_ok, of b i] by (simp add: half_up_nonneg)

lemma rounded_product:
  "f64_mul (f64_of_int i) b = Finite s m \<Longrightarrow>
   f64_round_int (f64_mul (f64_of_int i) b) = Finite s (of_int (half_up m))"
  by (simp add: half_up_def)

lemma signed_of_int: "signed s (of_int q) = of_int (if s then - q else q)"
  by (simp add: signed_def)

lemma size_mul_float_finite:
  assumes "f64_mul (f64_of_int (int a)) b = Finite s m"
  shows "size_mul_float a b =
    (let z = (if s then - half_up m else half_up m)
     in if z < 0 then negative_size
        else if 18446744073709551616 \<le> z then fail ''overflow'' ''size overflow''
        else Inr (Size (nat z)))"
proof -
  let ?z = "if s then - half_up m else half_up m"
  have "f64_lt (Finite s (of_int (half_up m))) f64_zero \<longleftrightarrow> ?z < 0"
    unfolding f64_lt_finite signed_of_int by (simp add: signed_def)
  moreover have "f64_ge (Finite s (of_int (half_up m))) (f64_of_int (int U64_MAX))
      \<longleftrightarrow> of_int 18446744073709551616 \<le> (of_int ?z :: rat)"
    unfolding f64_of_u64_max f64_ge_finite signed_of_int by (simp add: signed_def)
  then have "f64_ge (Finite s (of_int (half_up m))) (f64_of_int (int U64_MAX))
      \<longleftrightarrow> 18446744073709551616 \<le> ?z"
    unfolding of_int_le_iff .
  moreover have "f64_as_u64 (Finite s (of_int (half_up m))) = nat ?z" if "?z < 18446744073709551616"
  proof -
    have "nat ?z \<le> U64_MAX"
      using that by (subst nat_le_iff) simp
    then show ?thesis
      by (cases s) (simp_all add: trunc_rat_def min_absorb2)
  qed
  ultimately show ?thesis
    unfolding size_mul_float_def rounded_product [OF assms] Let_def is_nan_def by (simp only: f64.distinct if_False) auto
qed

lemma duration_mul_float_finite:
  assumes "f64_mul (f64_of_int d) b = Finite s m"
  shows "duration_mul_float d b =
    (let z = (if s then - half_up m else half_up m)
     in if in_i64 z then Inr (Duration z) else fail ''overflow'' ''duration overflow'')"
proof -
  let ?z = "if s then - half_up m else half_up m"
  have "f64_lt (Finite s (of_int (half_up m))) (f64_of_int I64_MIN)
      \<longleftrightarrow> (of_int ?z :: rat) < of_int I64_MIN"
    unfolding f64_of_i64_min f64_lt_finite signed_of_int by (simp add: signed_def)
  then have "f64_lt (Finite s (of_int (half_up m))) (f64_of_int I64_MIN) \<longleftrightarrow> ?z < I64_MIN"
    unfolding of_int_less_iff .
  moreover have "f64_ge (Finite s (of_int (half_up m))) (f64_of_int I64_MAX)
      \<longleftrightarrow> of_int 9223372036854775808 \<le> (of_int ?z :: rat)"
    unfolding f64_of_i64_max f64_ge_finite signed_of_int by (simp add: signed_def)
  then have "f64_ge (Finite s (of_int (half_up m))) (f64_of_int I64_MAX) \<longleftrightarrow> I64_MAX < ?z"
    unfolding of_int_le_iff by linarith
  moreover have "f64_as_i64 (Finite s (of_int (half_up m))) = ?z" if "in_i64 ?z"
    using that by (cases s) (simp_all add: trunc_rat_def in_i64_def saturating_i64_def)
  ultimately show ?thesis
    unfolding duration_mul_float_def rounded_product [OF assms] Let_def is_nan_def in_i64_def
    by (simp only: f64.distinct if_False) auto
qed

text \<open>
  C28. Scaling a size or a duration by a float never saturates. With the product in binary64: a size is
  the product rounded half up when that fits 64 bits; a product that is not a number, is positive
  infinity or rounds to \<open>2^64\<close> or more is an \<open>overflow\<close> error, and one that rounds below zero or is
  negative infinity is the \<open>type_error\<close> for negative sizes. A duration is the product rounded half
  away from zero when that fits a signed 64-bit integer, and every other product is an \<open>overflow\<close>.
\<close>

theorem float_scaling_exact:
  assumes "f64_ok b"
  shows "(size_mul_float a b :: ('z, 'a) val vresult) =
      (case f64_mul (f64_of_int (int a)) b of
         NaN \<Rightarrow> fail ''overflow'' ''size overflow''
       | Infinity negative \<Rightarrow>
           if negative then fail ''type_error'' ''size cannot go negative'' else fail ''overflow'' ''size overflow''
       | Finite negative m \<Rightarrow>
           if negative \<and> 0 < half_up m then fail ''type_error'' ''size cannot go negative''
           else if 2 ^ 64 \<le> half_up m then fail ''overflow'' ''size overflow''
           else Inr (Size (nat (half_up m))))
    \<and> (duration_mul_float d b :: ('z, 'a) val vresult) =
      (case f64_mul (f64_of_int d) b of
         Finite negative m \<Rightarrow>
           if - (2 ^ 63) \<le> (if negative then - half_up m else half_up m)
              \<and> (if negative then - half_up m else half_up m) < 2 ^ 63
           then Inr (Duration (if negative then - half_up m else half_up m))
           else fail ''overflow'' ''duration overflow''
       | _ \<Rightarrow> fail ''overflow'' ''duration overflow'')"
proof
  show "(size_mul_float a b :: ('z, 'a) val vresult) =
      (case f64_mul (f64_of_int (int a)) b of
         NaN \<Rightarrow> fail ''overflow'' ''size overflow''
       | Infinity negative \<Rightarrow>
           if negative then fail ''type_error'' ''size cannot go negative'' else fail ''overflow'' ''size overflow''
       | Finite negative m \<Rightarrow>
           if negative \<and> 0 < half_up m then fail ''type_error'' ''size cannot go negative''
           else if 2 ^ 64 \<le> half_up m then fail ''overflow'' ''size overflow''
           else Inr (Size (nat (half_up m))))"
  proof (cases "f64_mul (f64_of_int (int a)) b")
    case (Finite s m)
    have "0 \<le> half_up m" using product_finite_nonneg [OF assms Finite] .
    then show ?thesis
      unfolding size_mul_float_finite [OF Finite] Let_def type_error_def by (cases s) (auto simp: Finite)
  qed (auto simp: size_mul_float_def type_error_def Let_def is_nan_def f64_of_u64_max [simplified]
      f64_lt_def f64_ge_def)
  show "(duration_mul_float d b :: ('z, 'a) val vresult) =
      (case f64_mul (f64_of_int d) b of
         Finite negative m \<Rightarrow>
           if - (2 ^ 63) \<le> (if negative then - half_up m else half_up m)
              \<and> (if negative then - half_up m else half_up m) < 2 ^ 63
           then Inr (Duration (if negative then - half_up m else half_up m))
           else fail ''overflow'' ''duration overflow''
       | _ \<Rightarrow> fail ''overflow'' ''duration overflow'')"
  proof (cases "f64_mul (f64_of_int d) b")
    case (Finite s m)
    show ?thesis
      unfolding duration_mul_float_finite [OF Finite] Let_def by (auto simp: Finite in_i64_def)
  next
    case (Infinity s)
    then show ?thesis
      by (cases s) (auto simp: duration_mul_float_def Let_def is_nan_def f64_of_i64_max f64_of_i64_min
          f64_lt_def f64_ge_def)
  qed (auto simp: duration_mul_float_def Let_def is_nan_def)
qed

lemma f64_of_int_2: "f64_of_int 2 = Finite False 2"
  by (simp add: f64_of_int_exact)

theorem float_scaling_exact_witness:
  "size_mul_float 2 (Finite False (3 / 2)) = Inr (Size 3 :: (int, unit) val)
   \<and> size_mul_float 2 (Infinity True) = (fail ''type_error'' ''size cannot go negative'' :: (int, unit) val vresult)"
proof -
  have "f64_mul (f64_of_int (int 2)) (Finite False (3 / 2)) = Finite False 3"
    using f64_of_nat_exact [of 3 False] by (simp add: f64_of_int_2)
  moreover have "\<lfloor>7 / 2 :: rat\<rfloor> = 3"
    by (rule floor_unique) simp_all
  ultimately show ?thesis
    using float_scaling_exact [of "Finite False (3 / 2)" 2 0, where ?'z = int and ?'a = unit, THEN conjunct1]
      float_scaling_exact [of "Infinity True" 2 0, where ?'z = int and ?'a = unit, THEN conjunct1]
    by (simp add: half_up_def f64_of_int_2)
qed

text \<open>
  The comparison behind \<open><\<close>, \<open>.sort()\<close>, \<open>.min()\<close> and \<open>.max()\<close> is not a total order on numbers: an
  integer is rounded to compare it with a float, so two different integers can both equal the float
  between them.
\<close>

theorem compare_not_transitive:
  "compare h (Int64 9007199254740993) (Float (Finite False 9007199254740992)) = Inr Equal
   \<and> compare h (Float (Finite False 9007199254740992)) (Int64 9007199254740992) = Inr Equal
   \<and> compare h (Int64 9007199254740993) (Int64 9007199254740992) = Inr Greater"
proof -
  have "f64_of_int 9007199254740992 = Finite False 9007199254740992"
    using f64_of_int_exact [of 9007199254740992] by simp
  then show ?thesis
    by (simp add: compare_def f64_of_first_inexact)
qed

end
