(* ===== verification/Value_List.thy ===== *)
theory Value_List
  imports Value_Ops "HOL-Library.Product_Lexorder" "HOL-Library.AList"
begin

text \<open>
  The collection methods (\<open>value/methods/list.rs\<close>, \<open>value/methods/record.rs\<close>) and the argument decoding
  they share (\<open>value/methods/mod.rs\<close>). A closure is called through the evaluator: \<open>call s f args\<close> is
  \<open>CallCtx::call_closure\<close> in the evaluator state \<open>s\<close>, and a method that calls closures is a state
  transformer. The hasher of \<open>uniq\<close> and \<open>group\<close> is a function of what it is fed.
\<close>

subsection \<open>State and failure\<close>

type_synonym ('s, 'b) act = "'s \<Rightarrow> 'b vresult \<times> 's"
type_synonym ('s, 'z, 'a) caller =
  "('z, 'a) val \<Rightarrow> ('z, 'a) val list \<Rightarrow> ('s, ('z, 'a) val) act"

definition ret :: "'b vresult \<Rightarrow> ('s, 'b) act" where
  "ret r s = (r, s)"

definition bindA :: "('s, 'b) act \<Rightarrow> ('b \<Rightarrow> ('s, 'c) act) \<Rightarrow> ('s, 'c) act" where
  "bindA m f s = (case m s of (Inl e, s') \<Rightarrow> (Inl e, s') | (Inr x, s') \<Rightarrow> f x s')"

subsection \<open>Sequences\<close>

definition expected :: "string \<Rightarrow> ('z, 'a) val \<Rightarrow> 'b vresult" where
  "expected what v = Inl (Raised (type_error (''expected '' @ what @ '', found '' @ type_name v)))"

definition seq :: "('z, 'a) val \<Rightarrow> ('z, 'a) val list vresult" where
  "seq v =
     (case v of
        List x \<Rightarrow> Inr x
      | Table x \<Rightarrow> Inr (map Record x)
      | Range r \<Rightarrow> range_materialize r
      | Stream _ \<Rightarrow> fail ''stream_consumed''
          ''a stream must be collected with `.collect()` before this operation''
      | _ \<Rightarrow> expected ''collection'' v)"

definition admitted_seq :: "('z, 'a) layout \<Rightarrow> ('z, 'a) val \<Rightarrow> ('z, 'a) val list vresult" where
  "admitted_seq L v = bindR (seq v) (\<lambda>xs.
     bindR (collection_extend L xs collection_eager) (\<lambda>out. Inr (c_values out)))"

definition list_len :: "('z, 'a) val \<Rightarrow> ('z, 'a) val vresult" where
  "list_len v =
     (let int_len = (\<lambda>n. if int n \<le> I64_MAX then Inr (Int64 (int n))
            else fail ''collection_length_overflow'' ''collection is too large'')
      in case v of
           Range r \<Rightarrow>
             if int (range_len r) \<le> I64_MAX then Inr (Int64 (int (range_len r)))
             else fail ''range_length_overflow'' ''range length exceeds the language integer limit''
         | Str s \<Rightarrow> int_len (length (utf8_chars s))
         | Bytes b \<Rightarrow> int_len (length b)
         | List x \<Rightarrow> int_len (length x)
         | Table x \<Rightarrow> int_len (length x)
         | Record x \<Rightarrow> int_len (length x)
         | _ \<Rightarrow> Inl (Raised (type_error (''.len unsupported on '' @ type_name v))))"

text \<open>Arguments of a method call.\<close>

record ('z, 'a) call_args =
  pos :: "('z, 'a) val list"
  named :: "(string \<times> ('z, 'a) val) list"

definition arg_at :: "('z, 'a) call_args \<Rightarrow> nat \<Rightarrow> ('z, 'a) val vresult" where
  "arg_at args n =
     (if n < length (pos args) then Inr (pos args ! n)
      else Inl (Raised (arg_error (''missing argument '' @ dec (n + 1)))))"

definition no_args :: "('z, 'a) call_args \<Rightarrow> unit vresult" where
  "no_args args =
     (if pos args = [] \<and> named args = [] then Inr ()
      else Inl (Raised (arg_error ''method takes no arguments'')))"

definition agg_no_args :: "('z, 'a) call_args \<Rightarrow> string \<Rightarrow> unit vresult" where
  "agg_no_args args name =
     (if pos args = [] \<and> named args = [] then Inr ()
      else Inl (Raised (arg_error (name @ '' takes no arguments (did you mean .map(f).'' @ name @ ''()?)''))))"

definition int_arg :: "('z, 'a) call_args \<Rightarrow> nat \<Rightarrow> int \<Rightarrow> nat vresult" where
  "int_arg args n dflt =
     (if n < length (pos args)
      then case pos args ! n of
             Int64 i \<Rightarrow> if 0 \<le> i then Inr (nat i) else expected ''non-negative int'' (pos args ! n)
           | v \<Rightarrow> expected ''non-negative int'' v
      else Inr (nat (max dflt 0)))"

definition str_arg :: "('z, 'a) call_args \<Rightarrow> nat \<Rightarrow> string \<Rightarrow> string vresult" where
  "str_arg args n dflt =
     (if n < length (pos args)
      then case pos args ! n of Str s \<Rightarrow> Inr s | v \<Rightarrow> expected ''str'' v
      else Inr dflt)"

definition req_str_arg :: "('z, 'a) call_args \<Rightarrow> nat \<Rightarrow> string \<Rightarrow> string vresult" where
  "req_str_arg args n missing =
     (if n < length (pos args)
      then case pos args ! n of Str s \<Rightarrow> Inr s | v \<Rightarrow> expected ''str'' v
      else Inl (Raised (arg_error missing)))"

text \<open>Collect a sequence of values behind the admission guard.\<close>

definition collected :: "('z, 'a) layout \<Rightarrow> ('z, 'a) val list \<Rightarrow> ('z, 'a) val vresult" where
  "collected L xs =
     bindR (collection_extend L xs collection_eager) (\<lambda>out. Inr (collection_finish out))"

definition first_last ::
  "('z, 'a) layout \<Rightarrow> ('z, 'a) val \<Rightarrow> ('z, 'a) call_args \<Rightarrow> bool \<Rightarrow> ('z, 'a) val vresult" where
  "first_last L v args first =
     (if pos args = [] \<and> named args = []
      then bindR (seq v) (\<lambda>x.
        Inr (if x = [] then Null else if first then hd x else last x))
      else bindR (int_arg args 0 0) (\<lambda>n.
        bindR (seq v) (\<lambda>x.
        collected L (if first then take n x else drop (length x - n) x))))"

definition list_collect :: "('z, 'a) val \<Rightarrow> ('z, 'a) val vresult" where
  "list_collect v =
     (case v of
        Range r \<Rightarrow> bindR (range_materialize r) (\<lambda>xs. Inr (List xs))
      | List _ \<Rightarrow> Inr v
      | Table _ \<Rightarrow> Inr v
      | _ \<Rightarrow> Inl (Raised (type_error (''cannot collect '' @ type_name v))))"

subsection \<open>Methods that call closures\<close>

fun map_loop ::
  "('z, 'a) layout \<Rightarrow> ('s, 'z, 'a) caller \<Rightarrow> ('z, 'a) val \<Rightarrow> ('z, 'a) val list
     \<Rightarrow> ('z, 'a) materialized_collection \<Rightarrow> ('s, ('z, 'a) val) act" where
  "map_loop L call f [] out = ret (Inr (collection_finish out))"
| "map_loop L call f (x # xs) out =
     bindA (call f [x]) (\<lambda>y.
     bindA (ret (collection_push L y out)) (map_loop L call f xs))"

definition list_map ::
  "('z, 'a) layout \<Rightarrow> ('s, 'z, 'a) caller \<Rightarrow> ('z, 'a) val \<Rightarrow> ('z, 'a) val \<Rightarrow> ('s, ('z, 'a) val) act" where
  "list_map L call v f = bindA (ret (seq v)) (\<lambda>xs. map_loop L call f xs collection_eager)"

fun filter_loop ::
  "('z, 'a) layout \<Rightarrow> ('s, 'z, 'a) caller \<Rightarrow> ('z, 'a) val \<Rightarrow> ('z, 'a) val list
     \<Rightarrow> ('z, 'a) materialized_collection \<Rightarrow> ('s, ('z, 'a) val) act" where
  "filter_loop L call f [] out = ret (Inr (collection_finish out))"
| "filter_loop L call f (x # xs) out =
     bindA (call f [x]) (\<lambda>y.
     bindA (ret (as_condition y)) (\<lambda>keep.
     if keep then bindA (ret (collection_push L x out)) (filter_loop L call f xs)
     else filter_loop L call f xs out))"

definition list_filter ::
  "('z, 'a) layout \<Rightarrow> ('s, 'z, 'a) caller \<Rightarrow> ('z, 'a) val \<Rightarrow> ('z, 'a) val \<Rightarrow> ('s, ('z, 'a) val) act" where
  "list_filter L call v f = bindA (ret (seq v)) (\<lambda>xs. filter_loop L call f xs collection_eager)"

fun each_loop ::
  "('s, 'z, 'a) caller \<Rightarrow> ('z, 'a) val \<Rightarrow> ('z, 'a) val list \<Rightarrow> ('s, ('z, 'a) val) act" where
  "each_loop call f [] = ret (Inr Null)"
| "each_loop call f (x # xs) = bindA (call f [x]) (\<lambda>_. each_loop call f xs)"

definition list_each ::
  "('s, 'z, 'a) caller \<Rightarrow> ('z, 'a) val \<Rightarrow> ('z, 'a) val \<Rightarrow> ('s, ('z, 'a) val) act" where
  "list_each call v f = bindA (ret (seq v)) (each_loop call f)"

fun reduce_loop ::
  "('s, 'z, 'a) caller \<Rightarrow> ('z, 'a) val \<Rightarrow> ('z, 'a) val list \<Rightarrow> ('z, 'a) val
     \<Rightarrow> ('s, ('z, 'a) val) act" where
  "reduce_loop call f [] acc = ret (Inr acc)"
| "reduce_loop call f (x # xs) acc = bindA (call f [acc, x]) (reduce_loop call f xs)"

definition list_reduce ::
  "('s, 'z, 'a) caller \<Rightarrow> ('z, 'a) val \<Rightarrow> ('z, 'a) val \<Rightarrow> ('z, 'a) val \<Rightarrow> ('s, ('z, 'a) val) act" where
  "list_reduce call v ini f = bindA (ret (seq v)) (\<lambda>xs. reduce_loop call f xs ini)"

fun any_all_loop ::
  "('s, 'z, 'a) caller \<Rightarrow> ('z, 'a) val \<Rightarrow> bool \<Rightarrow> ('z, 'a) val list \<Rightarrow> ('s, ('z, 'a) val) act" where
  "any_all_loop call f any [] = ret (Inr (Bool (\<not> any)))"
| "any_all_loop call f any (x # xs) =
     bindA (call f [x]) (\<lambda>y.
     bindA (ret (as_condition y)) (\<lambda>b.
     if b = any then ret (Inr (Bool any)) else any_all_loop call f any xs))"

definition any_all ::
  "('s, 'z, 'a) caller \<Rightarrow> ('z, 'a) val \<Rightarrow> ('z, 'a) val \<Rightarrow> bool \<Rightarrow> ('s, ('z, 'a) val) act" where
  "any_all call v f any = bindA (ret (seq v)) (any_all_loop call f any)"

fun find_loop ::
  "('s, 'z, 'a) caller \<Rightarrow> ('z, 'a) val \<Rightarrow> ('z, 'a) val list \<Rightarrow> ('s, ('z, 'a) val) act" where
  "find_loop call f [] = ret (Inr Null)"
| "find_loop call f (x # xs) =
     bindA (call f [x]) (\<lambda>y.
     bindA (ret (as_condition y)) (\<lambda>b. if b then ret (Inr x) else find_loop call f xs))"

definition list_find ::
  "('s, 'z, 'a) caller \<Rightarrow> ('z, 'a) val \<Rightarrow> ('z, 'a) val \<Rightarrow> ('s, ('z, 'a) val) act" where
  "list_find call v f = bindA (ret (seq v)) (find_loop call f)"

fun flat_map_loop ::
  "('z, 'a) layout \<Rightarrow> ('s, 'z, 'a) caller \<Rightarrow> ('z, 'a) val \<Rightarrow> ('z, 'a) val list
     \<Rightarrow> ('z, 'a) materialized_collection \<Rightarrow> ('s, ('z, 'a) val) act" where
  "flat_map_loop L call f [] out = ret (Inr (collection_finish out))"
| "flat_map_loop L call f (x # xs) out =
     bindA (call f [x]) (\<lambda>y.
     bindA (ret (seq y)) (\<lambda>ys.
     bindA (ret (collection_extend L ys out)) (flat_map_loop L call f xs)))"

definition flat_map_with_limits ::
  "('z, 'a) layout \<Rightarrow> ('s, 'z, 'a) caller \<Rightarrow> ('z, 'a) val \<Rightarrow> ('z, 'a) val \<Rightarrow> nat \<Rightarrow> nat
     \<Rightarrow> ('s, ('z, 'a) val) act" where
  "flat_map_with_limits L call v f vals bytes =
     bindA (ret (seq v)) (\<lambda>xs. flat_map_loop L call f xs (collection_new vals bytes))"

definition flat_map ::
  "('z, 'a) layout \<Rightarrow> ('s, 'z, 'a) caller \<Rightarrow> ('z, 'a) val \<Rightarrow> ('z, 'a) val \<Rightarrow> ('s, ('z, 'a) val) act" where
  "flat_map L call v f =
     flat_map_with_limits L call v f EAGER_COLLECTION_MAX_VALUES EAGER_COLLECTION_MAX_RETAINED_BYTES"

subsection \<open>Sorting\<close>

text \<open>
  \<open>slice::sort_by\<close> is a stable sort; \<open>stable_sort_by\<close> is the arrangement every stable sort returns when
  the comparison is a total preorder (lemma \<open>stable_arrangement_unique\<close>). For other comparisons the
  standard library leaves the order unspecified.
\<close>

fun insert_by :: "('b \<Rightarrow> 'b \<Rightarrow> ordering) \<Rightarrow> 'b \<Rightarrow> 'b list \<Rightarrow> 'b list" where
  "insert_by c x [] = [x]"
| "insert_by c x (y # ys) = (if c x y = Greater then y # insert_by c x ys else x # y # ys)"

definition stable_sort_by :: "('b \<Rightarrow> 'b \<Rightarrow> ordering) \<Rightarrow> 'b list \<Rightarrow> 'b list" where
  "stable_sort_by c xs = foldr (insert_by c) xs []"

definition comparator :: "'z host \<Rightarrow> ('z, 'a) val \<Rightarrow> ('z, 'a) val \<Rightarrow> ordering" where
  "comparator h a b = (case compare h a b of Inr o1 \<Rightarrow> o1 | Inl _ \<Rightarrow> Equal)"

text \<open>\<open>windows(2)\<close>: every two neighbours are compared before the sort.\<close>

fun check_pairs :: "'z host \<Rightarrow> ('z, 'a) val list \<Rightarrow> unit vresult" where
  "check_pairs h (x # y # ys) = bindR (compare h x y) (\<lambda>_. check_pairs h (y # ys))"
| "check_pairs h _ = Inr ()"

fun key_loop ::
  "('z, 'a) layout \<Rightarrow> ('s, 'z, 'a) caller \<Rightarrow> ('z, 'a) val \<Rightarrow> ('z, 'a) val list
     \<Rightarrow> materialization_budget \<Rightarrow> (('z, 'a) val \<times> ('z, 'a) val) list
     \<Rightarrow> ('s, (('z, 'a) val \<times> ('z, 'a) val) list) act" where
  "key_loop L call f [] b keyed = ret (Inr keyed)"
| "key_loop L call f (x # xs) b keyed =
     bindA (call f [x]) (\<lambda>key.
     bindA (ret (bindR (admit L x b) (charge_retained L key))) (\<lambda>b.
     key_loop L call f xs b (keyed @ [(key, x)])))"

definition sort_by ::
  "'z host \<Rightarrow> ('z, 'a) layout \<Rightarrow> ('s, 'z, 'a) caller \<Rightarrow> ('z, 'a) val \<Rightarrow> ('z, 'a) val
     \<Rightarrow> ('s, ('z, 'a) val) act" where
  "sort_by h L call v f =
     bindA (ret (seq v)) (\<lambda>xs.
     bindA (key_loop L call f xs budget_eager []) (\<lambda>keyed.
     ret (bindR (check_pairs h (map fst keyed)) (\<lambda>_.
       Inr (List (map snd (stable_sort_by (\<lambda>a b. comparator h (fst a) (fst b)) keyed)))))))"

definition list_sort :: "'z host \<Rightarrow> ('z, 'a) layout \<Rightarrow> ('z, 'a) val \<Rightarrow> ('z, 'a) val vresult" where
  "list_sort h L v =
     bindR (admitted_seq L v) (\<lambda>x.
     bindR (check_pairs h x) (\<lambda>_. Inr (List (stable_sort_by (comparator h) x))))"

definition reverse :: "('z, 'a) layout \<Rightarrow> ('z, 'a) val \<Rightarrow> ('z, 'a) val vresult" where
  "reverse L v =
     (case v of
        Str s \<Rightarrow> Inr (Str (concat (rev (utf8_chars s))))
      | _ \<Rightarrow> bindR (admitted_seq L v) (\<lambda>x. Inr (List (rev x))))"

subsection \<open>Methods on the elements\<close>

text \<open>The buckets of \<open>uniq\<close> and \<open>group\<close>: hash to the indices of the results with that hash.\<close>

type_synonym buckets = "(nat \<times> nat list) list"

definition bucket_of :: "buckets \<Rightarrow> nat \<Rightarrow> nat list" where
  "bucket_of bs n = (case map_of bs n of Some is \<Rightarrow> is | None \<Rightarrow> [])"

definition bucket_push :: "nat \<Rightarrow> nat \<Rightarrow> buckets \<Rightarrow> buckets" where
  "bucket_push n i bs = AList.update n (bucket_of bs n @ [i]) bs"

fun uniq_loop ::
  "('a htok list \<Rightarrow> nat) \<Rightarrow> 'z host \<Rightarrow> ('z, 'a) layout \<Rightarrow> ('z, 'a) val list
     \<Rightarrow> ('z, 'a) materialized_collection \<Rightarrow> buckets \<Rightarrow> ('z, 'a) val vresult" where
  "uniq_loop hasher h L [] out bs = Inr (collection_finish out)"
| "uniq_loop hasher h L (x # xs) out bs =
     (let n = hasher (value_hash (timestamp_ns h) x)
      in if list_ex (\<lambda>i. veq h (c_values out ! i) x) (bucket_of bs n)
         then uniq_loop hasher h L xs out bs
         else bindR (collection_push L x out) (\<lambda>out'.
                uniq_loop hasher h L xs out' (bucket_push n (length (c_values out)) bs)))"

definition uniq ::
  "('a htok list \<Rightarrow> nat) \<Rightarrow> 'z host \<Rightarrow> ('z, 'a) layout \<Rightarrow> ('z, 'a) val \<Rightarrow> ('z, 'a) val vresult" where
  "uniq hasher h L v = bindR (admitted_seq L v) (\<lambda>xs. uniq_loop hasher h L xs collection_eager [])"

fun sum_loop ::
  "'z host \<Rightarrow> ('z, 'a) layout \<Rightarrow> ('z, 'a) val list \<Rightarrow> ('z, 'a) val \<Rightarrow> ('z, 'a) val vresult" where
  "sum_loop h L [] a = Inr a"
| "sum_loop h L (x # xs) a = bindR (binop h L Add a x) (sum_loop h L xs)"

definition list_sum :: "'z host \<Rightarrow> ('z, 'a) layout \<Rightarrow> ('z, 'a) val \<Rightarrow> ('z, 'a) val vresult" where
  "list_sum h L v =
     bindR (seq v) (\<lambda>xs. case xs of [] \<Rightarrow> Inr (Int64 0) | a # it \<Rightarrow> sum_loop h L it a)"

fun minmax_loop :: "'z host \<Rightarrow> bool \<Rightarrow> ('z, 'a) val list \<Rightarrow> ('z, 'a) val \<Rightarrow> ('z, 'a) val vresult" where
  "minmax_loop h mx [] best = Inr best"
| "minmax_loop h mx (x # xs) best =
     bindR (compare h x best) (\<lambda>o1.
     minmax_loop h mx xs (if mx \<and> o1 = Greater \<or> \<not> mx \<and> o1 = Less then x else best))"

definition minmax :: "'z host \<Rightarrow> ('z, 'a) val \<Rightarrow> bool \<Rightarrow> ('z, 'a) val vresult" where
  "minmax h v mx =
     bindR (seq v) (\<lambda>xs. case xs of [] \<Rightarrow> Inr Null | best # it \<Rightarrow> minmax_loop h mx it best)"

fun flatten_loop ::
  "('z, 'a) layout \<Rightarrow> ('z, 'a) val list \<Rightarrow> ('z, 'a) materialized_collection \<Rightarrow> ('z, 'a) val vresult" where
  "flatten_loop L [] out = Inr (collection_finish out)"
| "flatten_loop L (x # xs) out =
     bindR (seq x) (\<lambda>ys. bindR (collection_extend L ys out) (flatten_loop L xs))"

definition flatten_with_limits ::
  "('z, 'a) layout \<Rightarrow> ('z, 'a) val \<Rightarrow> nat \<Rightarrow> nat \<Rightarrow> ('z, 'a) val vresult" where
  "flatten_with_limits L v vals bytes =
     bindR (seq v) (\<lambda>xs. flatten_loop L xs (collection_new vals bytes))"

definition flatten :: "('z, 'a) layout \<Rightarrow> ('z, 'a) val \<Rightarrow> ('z, 'a) val vresult" where
  "flatten L v =
     flatten_with_limits L v EAGER_COLLECTION_MAX_VALUES EAGER_COLLECTION_MAX_RETAINED_BYTES"

fun enumerate_loop ::
  "('z, 'a) layout \<Rightarrow> nat \<Rightarrow> ('z, 'a) val list \<Rightarrow> ('z, 'a) materialized_collection \<Rightarrow> ('z, 'a) val vresult" where
  "enumerate_loop L i [] out = Inr (collection_finish out)"
| "enumerate_loop L i (x # xs) out =
     (if I64_MAX < int i then fail ''collection_length_overflow'' ''index exceeds int''
      else bindR (collection_push L (List [Int64 (int i), x]) out) (enumerate_loop L (i + 1) xs))"

definition list_enumerate :: "('z, 'a) layout \<Rightarrow> ('z, 'a) val \<Rightarrow> ('z, 'a) val vresult" where
  "list_enumerate L v = bindR (seq v) (\<lambda>xs. enumerate_loop L 0 xs collection_eager)"

definition slice_count ::
  "('z, 'a) layout \<Rightarrow> ('z, 'a) val \<Rightarrow> nat \<Rightarrow> bool \<Rightarrow> ('z, 'a) val vresult" where
  "slice_count L v n tk =
     (case v of
        Str s \<Rightarrow> Inr (Str (concat (if tk then take n (utf8_chars s) else drop n (utf8_chars s))))
      | _ \<Rightarrow> bindR (seq v) (\<lambda>x. collected L (if tk then take n x else drop n x)))"

function chunk_loop ::
  "('z, 'a) layout \<Rightarrow> nat \<Rightarrow> ('z, 'a) val list \<Rightarrow> ('z, 'a) materialized_collection \<Rightarrow> ('z, 'a) val vresult" where
  "chunk_loop L n xs out =
     (if take n xs = [] then Inr (collection_finish out)
      else bindR (collection_push L (List (take n xs)) out) (chunk_loop L n (drop n xs)))"
  by pat_completeness auto
termination
  by (relation "measure (\<lambda>(_, _, xs, _). length xs)") auto

declare chunk_loop.simps [simp del]

definition chunks :: "('z, 'a) layout \<Rightarrow> ('z, 'a) val \<Rightarrow> nat \<Rightarrow> ('z, 'a) val vresult" where
  "chunks L v n =
     (if n = 0 then Inl (Raised (arg_error ''chunk size must be positive''))
      else bindR (admitted_seq L v) (\<lambda>xs. chunk_loop L n xs collection_eager))"

definition list_zip :: "('z, 'a) layout \<Rightarrow> ('z, 'a) val \<Rightarrow> ('z, 'a) val \<Rightarrow> ('z, 'a) val vresult" where
  "list_zip L a b =
     bindR (seq a) (\<lambda>xs. bindR (seq b) (\<lambda>ys. collected L (map (\<lambda>(x, y). List [x, y]) (zip xs ys))))"

fun group_loop ::
  "('a htok list \<Rightarrow> nat) \<Rightarrow> 'z host \<Rightarrow> ('z, 'a) layout \<Rightarrow> ('s, 'z, 'a) caller \<Rightarrow> ('z, 'a) val
     \<Rightarrow> ('z, 'a) val list \<Rightarrow> (('z, 'a) val \<times> ('z, 'a) val list) list \<Rightarrow> buckets
     \<Rightarrow> materialization_budget \<Rightarrow> ('s, (('z, 'a) val \<times> ('z, 'a) val list) list) act" where
  "group_loop hasher h L call f [] groups bs b = ret (Inr groups)"
| "group_loop hasher h L call f (x # xs) groups bs b =
     bindA (call f [x]) (\<lambda>k.
     bindA (ret (admit L x b)) (\<lambda>b.
     let n = hasher (value_hash (timestamp_ns h) k)
     in case find (\<lambda>i. veq h (fst (groups ! i)) k) (bucket_of bs n) of
          Some i \<Rightarrow>
            group_loop hasher h L call f xs
              (groups[i := (fst (groups ! i), snd (groups ! i) @ [x])]) bs b
        | None \<Rightarrow>
            bindA (ret (charge_retained L k b)) (\<lambda>b.
            group_loop hasher h L call f xs (groups @ [(k, [x])])
              (bucket_push n (length groups) bs) b)))"

definition group ::
  "('a htok list \<Rightarrow> nat) \<Rightarrow> 'z host \<Rightarrow> ('z, 'a) layout \<Rightarrow> ('s, 'z, 'a) caller \<Rightarrow> ('z, 'a) val
     \<Rightarrow> ('z, 'a) val \<Rightarrow> ('s, ('z, 'a) val) act" where
  "group hasher h L call v f =
     bindA (ret (seq v)) (\<lambda>xs.
     bindA (group_loop hasher h L call f xs [] [] budget_eager) (\<lambda>groups.
     ret (collected L (map (\<lambda>(k, vs). Record [(''key'', k), (''values'', List vs)]) groups))))"

fun join_loop ::
  "string \<Rightarrow> bool \<Rightarrow> ('z, 'a) val list \<Rightarrow> bounded_string \<Rightarrow> ('z, 'a) val vresult" where
  "join_loop sp start [] out = Inr (bounded_string_finish out)"
| "join_loop sp start (x # xs) out =
     bindR (if start then Inr out else push_str sp out) (\<lambda>out.
     case x of
       Str s \<Rightarrow> bindR (push_str s out) (join_loop sp False xs)
     | v \<Rightarrow> Inl (Raised (type_error (''join expects str elements, found '' @ type_name v))))"

definition join :: "('z, 'a) val \<Rightarrow> string \<Rightarrow> ('z, 'a) val vresult" where
  "join v sp = bindR (seq v) (\<lambda>xs. join_loop sp True xs bounded_string_eager)"

definition list_contains :: "'z host \<Rightarrow> ('z, 'a) val \<Rightarrow> ('z, 'a) val \<Rightarrow> ('z, 'a) val vresult" where
  "list_contains h v q =
     (case v of
        Str s \<Rightarrow> (case q of Str q \<Rightarrow> Inr (Bool (sublist q s))
                 | _ \<Rightarrow> Inl (Raised (type_error ''string contains expects str'')))
      | Record r \<Rightarrow> (case q of Str k \<Rightarrow> Inr (Bool (map_of r k \<noteq> None))
                 | _ \<Rightarrow> Inl (Raised (type_error ''record contains expects str key'')))
      | _ \<Rightarrow> bindR (seq v) (\<lambda>xs. Inr (Bool (list_ex (\<lambda>x. veq h x q) xs))))"

definition index :: "int \<Rightarrow> nat \<Rightarrow> nat option" where
  "index i n =
     (if 0 \<le> i then (if nat i < n then Some (nat i) else None)
      else (if nat (- i) \<le> n then Some (n - nat (- i)) else None))"

definition get :: "('z, 'a) val \<Rightarrow> ('z, 'a) val \<Rightarrow> ('z, 'a) val \<Rightarrow> ('z, 'a) val vresult" where
  "get v key dflt =
     (let or_dflt = (\<lambda>x. case x of Some y \<Rightarrow> y | None \<Rightarrow> dflt);
          no = Inl (Raised (type_error ''get expects record+str or list/table/range+int''))
      in case v of
           Record r \<Rightarrow> (case key of Str k \<Rightarrow> Inr (or_dflt (map_of r k)) | _ \<Rightarrow> no)
         | List x \<Rightarrow> (case key of Int64 i \<Rightarrow> Inr (or_dflt (map_option (\<lambda>j. x ! j) (index i (length x))))
                     | _ \<Rightarrow> no)
         | Table x \<Rightarrow>
             (case key of Int64 i \<Rightarrow> Inr (or_dflt (map_option (\<lambda>j. Record (x ! j)) (index i (length x))))
              | _ \<Rightarrow> no)
         | Range r \<Rightarrow> (case key of Int64 i \<Rightarrow> Inr (or_dflt (map_option Int64 (range_value_at r i)))
                     | _ \<Rightarrow> no)
         | _ \<Rightarrow> no)"

subsection \<open>Records\<close>

text \<open>\<open>IndexMap::insert\<close> replaces the value of a key in place and appends a new key.\<close>

definition record_set :: "('z, 'a) val \<Rightarrow> string \<Rightarrow> ('z, 'a) val \<Rightarrow> ('z, 'a) val vresult" where
  "record_set v key x =
     (case v of Record r \<Rightarrow> Inr (Record (AList.update key x r)) | _ \<Rightarrow> expected ''record'' v)"

definition record_merge :: "('z, 'a) val \<Rightarrow> ('z, 'a) val \<Rightarrow> ('z, 'a) val vresult" where
  "record_merge v other =
     (case v of
        Record r \<Rightarrow>
          (case other of
             Record s \<Rightarrow> Inr (Record (fold (\<lambda>(k, x). AList.update k x) s r))
           | _ \<Rightarrow> Inl (Raised (type_error (''merge expects a record argument, found '' @ type_name other))))
      | _ \<Rightarrow> expected ''record'' v)"

definition record_side :: "('z, 'a) layout \<Rightarrow> ('z, 'a) val \<Rightarrow> bool \<Rightarrow> ('z, 'a) val vresult" where
  "record_side L v keys =
     (case v of
        Record r \<Rightarrow> collected L (if keys then map (\<lambda>(k, _). Str k) r else map snd r)
      | _ \<Rightarrow> expected ''record'' v)"

definition record_items :: "('z, 'a) layout \<Rightarrow> ('z, 'a) val \<Rightarrow> ('z, 'a) val vresult" where
  "record_items L v =
     (case v of
        Record r \<Rightarrow> collected L (map (\<lambda>(k, x). List [Str k, x]) r)
      | _ \<Rightarrow> expected ''record'' v)"

subsection \<open>Stable sorting\<close>

text \<open>The laws a comparison keeps on the values it is used on.\<close>

locale preorder_cmp =
  fixes A :: "'b set" and cmp :: "'b \<Rightarrow> 'b \<Rightarrow> ordering"
  assumes cmp_flip: "x \<in> A \<Longrightarrow> y \<in> A \<Longrightarrow> cmp y x = reverse_ordering (cmp x y)"
    and cmp_le_trans: "x \<in> A \<Longrightarrow> y \<in> A \<Longrightarrow> z \<in> A \<Longrightarrow> cmp x y \<noteq> Greater \<Longrightarrow> cmp y z \<noteq> Greater
      \<Longrightarrow> cmp x z \<noteq> Greater"
begin

lemma cmp_same: "x \<in> A \<Longrightarrow> cmp x x = Equal"
  using cmp_flip [of x x] by (cases "cmp x x") auto

lemma cmp_greater: "x \<in> A \<Longrightarrow> y \<in> A \<Longrightarrow> cmp x y = Greater \<longleftrightarrow> cmp y x = Less"
  using cmp_flip [of x y] by (cases "cmp x y") auto

lemma cmp_equal_iff:
  "x \<in> A \<Longrightarrow> y \<in> A \<Longrightarrow> cmp x y = Equal \<longleftrightarrow> cmp x y \<noteq> Greater \<and> cmp y x \<noteq> Greater"
  using cmp_flip [of x y] by (cases "cmp x y") auto

lemma cmp_equal_trans:
  "x \<in> A \<Longrightarrow> y \<in> A \<Longrightarrow> z \<in> A \<Longrightarrow> cmp x y = Equal \<Longrightarrow> cmp x z = Equal \<longleftrightarrow> cmp y z = Equal"
  by (meson cmp_equal_iff cmp_le_trans)

lemma set_insert_by [simp]: "set (insert_by cmp x ys) = insert x (set ys)"
  by (induction ys) auto

lemma mset_insert_by [simp]: "mset (insert_by cmp x ys) = add_mset x (mset ys)"
  by (induction ys) auto

lemma set_sort [simp]: "set (stable_sort_by cmp xs) = set xs"
  by (induction xs) (simp_all add: stable_sort_by_def)

lemma mset_sort [simp]: "mset (stable_sort_by cmp xs) = mset xs"
  by (induction xs) (simp_all add: stable_sort_by_def)

lemma insert_by_sorted:
  assumes "x \<in> A" "set ys \<subseteq> A" "sorted_wrt (\<lambda>a b. cmp a b \<noteq> Greater) ys"
  shows "sorted_wrt (\<lambda>a b. cmp a b \<noteq> Greater) (insert_by cmp x ys)"
  using assms
proof (induction ys)
  case (Cons y ys)
  have "cmp x z \<noteq> Greater" if "cmp x y \<noteq> Greater" "z \<in> set ys" for z
    using that Cons.prems cmp_le_trans [of x y z] by auto
  moreover have "cmp y x \<noteq> Greater" if "cmp x y = Greater"
    using that Cons.prems cmp_greater [of x y] by auto
  ultimately show ?case
    using Cons by auto
qed simp

lemma sort_sorted: "set xs \<subseteq> A \<Longrightarrow> sorted_wrt (\<lambda>a b. cmp a b \<noteq> Greater) (stable_sort_by cmp xs)"
proof (induction xs)
  case (Cons x xs)
  then show ?case
    using insert_by_sorted [of x "stable_sort_by cmp xs"] by (simp add: stable_sort_by_def set_sort [unfolded stable_sort_by_def])
qed (simp add: stable_sort_by_def)

lemma insert_by_class:
  assumes "x \<in> A" "set ys \<subseteq> A" "a \<in> A"
  shows "filter (\<lambda>y. cmp a y = Equal) (insert_by cmp x ys)
    = filter (\<lambda>y. cmp a y = Equal) (x # ys)"
  using assms
proof (induction ys)
  case (Cons y ys)
  have "\<not> (cmp a x = Equal \<and> cmp a y = Equal)" if "cmp x y = Greater"
    using that Cons.prems cmp_equal_trans [of a x y] by auto
  then show ?case
    using Cons by auto
qed simp

lemma sort_stable:
  "set xs \<subseteq> A \<Longrightarrow> a \<in> A \<Longrightarrow>
     filter (\<lambda>y. cmp a y = Equal) (stable_sort_by cmp xs) = filter (\<lambda>y. cmp a y = Equal) xs"
proof (induction xs)
  case (Cons x xs)
  then show ?case
    using insert_by_class [of x "stable_sort_by cmp xs" a]
    by (simp add: stable_sort_by_def set_sort [unfolded stable_sort_by_def])
qed (simp add: stable_sort_by_def)

lemma class_member:
  assumes "x \<in> A" "x \<in> set ys" "filter (\<lambda>y. cmp x y = Equal) ys = filter (\<lambda>y. cmp x y = Equal) zs"
  shows "x \<in> set zs"
proof -
  have "x \<in> set (filter (\<lambda>y. cmp x y = Equal) ys)"
    using assms(1,2) cmp_same by simp
  then show ?thesis
    unfolding assms(3) by simp
qed

lemma stable_arrangement_unique:
  assumes "sorted_wrt (\<lambda>a b. cmp a b \<noteq> Greater) ys" "sorted_wrt (\<lambda>a b. cmp a b \<noteq> Greater) zs"
    and "set ys \<subseteq> A" "set zs \<subseteq> A"
    and "\<And>a. a \<in> set ys \<union> set zs \<Longrightarrow>
      filter (\<lambda>y. cmp a y = Equal) ys = filter (\<lambda>y. cmp a y = Equal) zs"
  shows "ys = zs"
  using assms
proof (induction ys arbitrary: zs)
  case Nil
  then show ?case
    using cmp_same by (cases zs) fastforce+
next
  case (Cons y ys)
  from Cons.prems(3) have y: "y \<in> A" "cmp y y = Equal"
    using cmp_same by auto
  then have "y \<in> set zs"
    using class_member [OF y(1) _ Cons.prems(5) [of y]] by simp
  then obtain z zs' where zs: "zs = z # zs'"
    by (cases zs) auto
  then have z: "z \<in> A" "cmp z z = Equal"
    using Cons.prems(4) cmp_same by auto
  then have "z \<in> set (y # ys)"
    using class_member [OF z(1) _ Cons.prems(5) [of z, symmetric]] zs by simp
  then have "cmp y z \<noteq> Greater" "cmp z y \<noteq> Greater"
    using Cons.prems(1,2) \<open>y \<in> set zs\<close> zs y z by auto
  then have "cmp y z = Equal"
    using y z cmp_equal_iff by blast
  then have "y = z"
    using Cons.prems(5) [of y] y zs by simp
  moreover have "filter (\<lambda>x. cmp a x = Equal) ys = filter (\<lambda>x. cmp a x = Equal) zs'"
    if "a \<in> set ys \<union> set zs'" for a
    using Cons.prems(5) [of a] that zs \<open>y = z\<close> by (auto split: if_splits)
  ultimately show ?case
    using Cons.IH [of zs'] Cons.prems zs by auto
qed

lemma sort_characterised:
  assumes "set xs \<subseteq> A"
  shows "ys = stable_sort_by cmp xs \<longleftrightarrow>
    mset ys = mset xs \<and> sorted_wrt (\<lambda>a b. cmp a b \<noteq> Greater) ys
    \<and> (\<forall>a \<in> set xs. filter (\<lambda>y. cmp a y = Equal) ys = filter (\<lambda>y. cmp a y = Equal) xs)"
proof
  assume *: "mset ys = mset xs \<and> sorted_wrt (\<lambda>a b. cmp a b \<noteq> Greater) ys
    \<and> (\<forall>a \<in> set xs. filter (\<lambda>y. cmp a y = Equal) ys = filter (\<lambda>y. cmp a y = Equal) xs)"
  then have "set ys = set xs"
    by (metis set_mset_mset)
  moreover have "filter (\<lambda>y. cmp a y = Equal) ys = filter (\<lambda>y. cmp a y = Equal) (stable_sort_by cmp xs)"
    if "a \<in> set ys \<union> set (stable_sort_by cmp xs)" for a
  proof -
    have "a \<in> set xs"
      using that calculation by simp
    then show ?thesis
      using * sort_stable [OF assms, of a] assms by auto
  qed
  ultimately show "ys = stable_sort_by cmp xs"
    using stable_arrangement_unique [of ys "stable_sort_by cmp xs"] sort_sorted [OF assms] * assms by simp
qed (use sort_sorted [OF assms] sort_stable [OF assms] assms in \<open>auto 4 4\<close>)

end

lemma sorted_wrt_same:
  "(\<And>a b. a \<in> set ys \<Longrightarrow> b \<in> set ys \<Longrightarrow> P a b = Q a b) \<Longrightarrow> sorted_wrt P ys = sorted_wrt Q ys"
  by (induction ys) auto

subsection \<open>Comparable values\<close>

text \<open>Values are comparable exactly within these classes; numbers form one class and NaN is in none.\<close>

fun cmp_class :: "('z, 'a) val \<Rightarrow> nat option" where
  "cmp_class (Int64 _) = Some 0"
| "cmp_class (Float x) = (if x = NaN then None else Some 0)"
| "cmp_class (Str _) = Some 1"
| "cmp_class (Path _) = Some 2"
| "cmp_class (Size _) = Some 3"
| "cmp_class (Duration _) = Some 4"
| "cmp_class (DateTime _) = Some 5"
| "cmp_class (Time _) = Some 6"
| "cmp_class (Bool _) = Some 7"
| "cmp_class _ = None"

lemma f64_of_int_not_NaN [simp]: "f64_of_int i \<noteq> NaN"
  by (simp add: f64_of_int_def f64_round_def Let_def)

lemma f64_cmp_NaN [simp]: "f64_partial_cmp x NaN = None"
  by (simp add: f64_cmp_None)

lemma compare_ok:
  "(\<exists>o1. compare h x y = Inr o1) \<longleftrightarrow> cmp_class x = cmp_class y \<and> cmp_class x \<noteq> None"
  by (cases x; cases y) (auto simp: compare_def f64_cmp_None split: option.splits)

lemma compare_error:
  assumes "compare h x y = Inl e"
  shows "err_code e = Some ''type_error''"
proof -
  define no :: "ordering vresult"
    where "no = Inl (Raised (type_error (''cannot compare '' @ type_name x @ '' with '' @ type_name y)))"
  have "compare h x y = no \<or> (\<exists>o1. compare h x y = Inr o1)"
    unfolding compare_def Let_def no_def [symmetric] by (simp split: val.splits option.splits)
  with assms show ?thesis
    by (auto simp: no_def type_error_def error_new_def)
qed

lemma check_pairs_ok:
  "check_pairs h xs = Inr () \<longleftrightarrow>
     length xs \<le> 1 \<or> (\<exists>c. \<forall>x \<in> set xs. cmp_class x = Some c)"
proof (induction h xs rule: check_pairs.induct)
  case (1 h x y ys)
  have "check_pairs h (x # y # ys) = Inr () \<longleftrightarrow>
      cmp_class x = cmp_class y \<and> cmp_class x \<noteq> None \<and> check_pairs h (y # ys) = Inr ()"
    using compare_ok [of h x y] by (auto simp: bindR_eq_Inr)
  also have "\<dots> \<longleftrightarrow> (\<exists>c. \<forall>z \<in> set (x # y # ys). cmp_class z = Some c)"
    using 1 by (auto split: if_splits)
  finally show ?case
    by simp
qed auto

lemma check_pairs_error: "check_pairs h xs = Inl e \<Longrightarrow> err_code e = Some ''type_error''"
  by (induction h xs rule: check_pairs.induct) (auto simp: bindR_eq_Inl dest: compare_error)

text \<open>Within one type the comparison is that of a key in a linear order.\<close>

fun component_key :: "component \<Rightarrow> nat \<times> string" where
  "component_key RootDir = (0, [])"
| "component_key CurDir = (1, [])"
| "component_key ParentDir = (2, [])"
| "component_key (Normal s) = (3, s)"

lemma component_cmp_key: "component_cmp a b = cmp_of (component_key a) (component_key b)"
  by (cases a; cases b) (auto simp: cmp_of_def)

lemma components_cmp_key:
  "components_cmp as bs = cmp_of (map component_key as) (map component_key bs)"
  by (induction as bs rule: components_cmp.induct)
    (auto simp: component_cmp_key cmp_of_def split: ordering.splits)

lemma time_cmp_key:
  "time_cmp a b = cmp_of (hour a, minute a, sec a) (hour b, minute b, sec b)"
  by (auto simp: time_cmp_def cmp_of_def split: ordering.splits)

fun float_key :: "f64 \<Rightarrow> nat \<times> rat" where
  "float_key NaN = (3, 0)"
| "float_key (Infinity s) = (if s then 0 else 2, 0)"
| "float_key (Finite s a) = (1, signed s a)"

lemma float_cmp_key:
  "f \<noteq> NaN \<Longrightarrow> g \<noteq> NaN \<Longrightarrow> f64_partial_cmp f g = Some (cmp_of (float_key f) (float_key g))"
  by (cases f; cases g) (auto simp: cmp_of_def)

definition value_key :: "'z host \<Rightarrow> ('z, 'a) val \<Rightarrow> (nat \<times> string) list \<times> int \<times> nat \<times> rat" where
  "value_key h v =
     (case v of
        Int64 a \<Rightarrow> ([], a, 0, 0)
      | Float f \<Rightarrow> ([], 0, float_key f)
      | Str s \<Rightarrow> ([(0, s)], 0, 0, 0)
      | Path p \<Rightarrow> (map component_key (components p), 0, 0, 0)
      | Size n \<Rightarrow> ([], int n, 0, 0)
      | Duration a \<Rightarrow> ([], a, 0, 0)
      | DateTime z \<Rightarrow> ([], timestamp_ns h z, 0, 0)
      | Time t \<Rightarrow> ([(hour t, []), (minute t, []), (sec t, [])], 0, 0, 0)
      | Bool b \<Rightarrow> ([], if b then 1 else 0, 0, 0)
      | _ \<Rightarrow> ([], 0, 0, 0))"

lemma comparator_key:
  assumes "type_name x = type_name y" "cmp_class x \<noteq> None" "cmp_class y \<noteq> None"
  shows "comparator h x y = cmp_of (value_key h x) (value_key h y)"
proof (cases x)
  case (Int64 a)
  with assms show ?thesis
    by (cases y) (auto simp: comparator_def compare_def value_key_def cmp_of_def)
next
  case (Float f)
  with assms show ?thesis
    by (cases y) (auto simp: comparator_def compare_def value_key_def float_cmp_key cmp_of_def
        split: if_splits)
next
  case (Str s)
  with assms show ?thesis
    by (cases y) (auto simp: comparator_def compare_def value_key_def cmp_of_def)
next
  case (Path s)
  with assms show ?thesis
    by (cases y) (auto simp: comparator_def compare_def value_key_def components_cmp_key cmp_of_def)
next
  case (Size s)
  with assms show ?thesis
    by (cases y) (auto simp: comparator_def compare_def value_key_def cmp_of_def)
next
  case (Duration s)
  with assms show ?thesis
    by (cases y) (auto simp: comparator_def compare_def value_key_def cmp_of_def)
next
  case (DateTime s)
  with assms show ?thesis
    by (cases y) (auto simp: comparator_def compare_def value_key_def cmp_of_def)
next
  case (Time s)
  with assms show ?thesis
    by (cases y) (auto simp: comparator_def compare_def value_key_def time_cmp_def cmp_of_def)
next
  case (Bool s)
  with assms show ?thesis
    by (cases y) (auto simp: comparator_def compare_def value_key_def cmp_of_def)
qed (use assms in simp_all)

interpretation one_type: preorder_cmp "{v. type_name v = k \<and> cmp_class v \<noteq> None}" "comparator h" for k h
proof
  show "comparator h y x = reverse_ordering (comparator h x y)"
    if "x \<in> {v. type_name v = k \<and> cmp_class v \<noteq> None}" "y \<in> {v. type_name v = k \<and> cmp_class v \<noteq> None}" for x y
    using that linorder_cmp.cmp_reverse [of "value_key h y" "value_key h x"] by (simp add: comparator_key)
  show "comparator h x z \<noteq> Greater"
    if "x \<in> {v. type_name v = k \<and> cmp_class v \<noteq> None}" "y \<in> {v. type_name v = k \<and> cmp_class v \<noteq> None}"
      "z \<in> {v. type_name v = k \<and> cmp_class v \<noteq> None}"
      "comparator h x y \<noteq> Greater" "comparator h y z \<noteq> Greater" for x y z
    using that by (auto simp: comparator_key)
qed

lemma admitted_seq_ok: "admitted_seq L v = Inr xs \<longleftrightarrow> seq v = Inr xs \<and> admitted L xs"
proof (cases "seq v")
  case (Inr ys)
  then show ?thesis
    using eager_list_ok [of L ys xs] by (auto simp: admitted_seq_def eager_list_def)
qed (simp add: admitted_seq_def)

lemma class_by_type:
  "cmp_class x \<noteq> None \<Longrightarrow> cmp_class x = map_of [(''int'', 0), (''float'', 0), (''str'', 1), (''path'', 2),
     (''size'', 3), (''duration'', 4), (''datetime'', 5), (''time'', 6), (''bool'', 7)] (type_name x)"
  by (cases x) (simp_all split: if_splits)

lemma same_type_class:
  "type_name x = type_name y \<Longrightarrow> cmp_class x \<noteq> None \<Longrightarrow> cmp_class y \<noteq> None \<Longrightarrow> cmp_class x = cmp_class y"
  using class_by_type [of x] class_by_type [of y] by simp

lemma compare_comparator:
  assumes "type_name x = type_name y" "cmp_class x \<noteq> None" "cmp_class y \<noteq> None"
  shows "compare h x y = Inr (comparator h x y)"
  using assms same_type_class [OF assms] compare_ok [of h x y] by (auto simp: comparator_def)

lemma one_type_checks:
  assumes "\<forall>x \<in> set xs. type_name x = k \<and> cmp_class x \<noteq> None"
  shows "check_pairs h xs = Inr ()"
proof (cases xs)
  case (Cons y ys)
  obtain c where "cmp_class y = Some c"
    using assms Cons by auto
  then have "\<forall>x \<in> set xs. cmp_class x = Some c"
    using assms Cons same_type_class [of _ y] by auto
  then show ?thesis
    unfolding check_pairs_ok by blast
qed simp

subsection \<open>Removing duplicates, chunks and ranges\<close>

text \<open>
  The reference for \<open>uniq\<close>: keep each element that no kept element equals.
\<close>

fun dedupe :: "('b \<Rightarrow> 'b \<Rightarrow> bool) \<Rightarrow> 'b list \<Rightarrow> 'b list \<Rightarrow> 'b list" where
  "dedupe e kept [] = kept"
| "dedupe e kept (x # xs) = dedupe e (if list_ex (\<lambda>y. e y x) kept then kept else kept @ [x]) xs"

definition buckets_ok ::
  "('a htok list \<Rightarrow> nat) \<Rightarrow> 'z host \<Rightarrow> ('z, 'a) val list \<Rightarrow> buckets \<Rightarrow> bool" where
  "buckets_ok hasher h kept bs \<longleftrightarrow>
     (\<forall>n. set (bucket_of bs n) = {i. i < length kept \<and> hasher (value_hash (timestamp_ns h) (kept ! i)) = n})"

lemma bucket_of_push: "bucket_of (bucket_push m i bs) n = (if n = m then bucket_of bs m @ [i] else bucket_of bs n)"
  by (simp add: bucket_of_def bucket_push_def update_conv')

lemma buckets_push:
  assumes "buckets_ok hasher h kept bs"
  shows "buckets_ok hasher h (kept @ [x])
    (bucket_push (hasher (value_hash (timestamp_ns h) x)) (length kept) bs)"
  using assms unfolding buckets_ok_def by (auto simp: bucket_of_push nth_append less_Suc_eq)

lemma bucket_finds:
  assumes "buckets_ok hasher h kept bs" "value_ok x" "\<forall>y \<in> set kept. value_ok y"
    and "\<forall>y \<in> set kept. paths_agree (paths_of y) (paths_of x)"
  shows "list_ex (\<lambda>i. veq h (kept ! i) x) (bucket_of bs (hasher (value_hash (timestamp_ns h) x)))
    \<longleftrightarrow> list_ex (\<lambda>y. veq h y x) kept"
proof -
  have "value_hash (timestamp_ns h) y = value_hash (timestamp_ns h) x" if "y \<in> set kept" "veq h y x" for y
    using value_hash_eq_induct(1) [of y x "timestamp_ns h"] that assms by blast
  then have "hasher (value_hash (timestamp_ns h) (kept ! i)) = hasher (value_hash (timestamp_ns h) x)"
    if "i < length kept" "veq h (kept ! i) x" for i
    using that by simp
  then have "(\<exists>i < length kept. hasher (value_hash (timestamp_ns h) (kept ! i)) = hasher (value_hash (timestamp_ns h) x)
      \<and> veq h (kept ! i) x) \<longleftrightarrow> (\<exists>y \<in> set kept. veq h y x)"
    by (metis in_set_conv_nth)
  then show ?thesis
    using assms(1) unfolding buckets_ok_def list_ex_iff by auto
qed

lemma collection_extend_append:
  "collection_extend L (xs @ ys) c = bindR (collection_extend L xs c) (collection_extend L ys)"
proof (induction xs arbitrary: c)
  case (Cons x xs)
  then show ?case
    by (cases "collection_push L x c") simp_all
qed simp

lemma extend_eager_ok:
  "(\<exists>c. collection_extend L xs collection_eager = Inr c) \<longleftrightarrow> admitted L xs"
  using collection_extend_ok [OF budget_eager_ok(2), of L xs] by (auto simp: admitted_def)

lemma extend_eager_values:
  "collection_extend L xs collection_eager = Inr c \<Longrightarrow> c_values c = xs"
  using eager_list_ok [of L xs "c_values c"] by (simp add: eager_list_def)

lemma admitted_append: "admitted L (xs @ ys) \<Longrightarrow> admitted L xs"
  by (simp add: admitted_def cost_of_all_def)

lemma admitted_skip: "admitted L (xs @ y # ys) \<Longrightarrow> admitted L (xs @ ys)"
  by (simp add: admitted_def cost_of_all_def)

lemma push_eager:
  assumes "collection_extend L kept collection_eager = Inr out" "admitted L (kept @ [x])"
  obtains out' where "collection_push L x out = Inr out'"
    "collection_extend L (kept @ [x]) collection_eager = Inr out'"
  using extend_eager_ok [of L "kept @ [x]"] assms by (auto simp: collection_extend_append bindR_eq_Inr)

lemma uniq_loop_dedupe:
  assumes "buckets_ok hasher h kept bs" "collection_extend L kept collection_eager = Inr out"
    and "admitted L (kept @ xs)" "\<forall>x \<in> set (kept @ xs). value_ok x"
    and "\<forall>x \<in> set (kept @ xs). \<forall>y \<in> set (kept @ xs). paths_agree (paths_of x) (paths_of y)"
  shows "uniq_loop hasher h L xs out bs = Inr (List (dedupe (veq h) kept xs))"
  using assms
proof (induction xs arbitrary: kept bs out)
  case Nil
  then show ?case
    using extend_eager_values by (auto simp: collection_finish_def)
next
  case (Cons x xs)
  have found: "list_ex (\<lambda>i. veq h (kept ! i) x) (bucket_of bs (hasher (value_hash (timestamp_ns h) x)))
      \<longleftrightarrow> list_ex (\<lambda>y. veq h y x) kept"
    using bucket_finds [OF Cons.prems(1), of x] Cons.prems(4,5) by simp
  have kept_eq: "c_values out = kept"
    using extend_eager_values Cons.prems(2) by blast
  show ?case
  proof (cases "list_ex (\<lambda>y. veq h y x) kept")
    case True
    then show ?thesis
      using Cons.IH [OF Cons.prems(1,2) admitted_skip [OF Cons.prems(3)]] Cons.prems(4,5) found kept_eq
      by simp
  next
    case False
    obtain out' where out': "collection_push L x out = Inr out'"
        "collection_extend L (kept @ [x]) collection_eager = Inr out'"
      using push_eager [OF Cons.prems(2), of x] admitted_append [of L "kept @ [x]" xs] Cons.prems(3) by auto
    then show ?thesis
      using Cons.IH [OF buckets_push [OF Cons.prems(1)] out'(2)] Cons.prems(3-5) False found kept_eq
      by simp
  qed
qed


lemma chunk_loop_ok:
  assumes "0 < n" "chunk_loop L n xs out = Inr w"
  shows "\<exists>cs. w = List (c_values out @ map List cs) \<and> concat cs = xs
    \<and> (\<forall>c \<in> set cs. c \<noteq> [] \<and> length c \<le> n) \<and> (\<forall>c \<in> set (butlast cs). length c = n)"
  using assms
proof (induction L n xs out rule: chunk_loop.induct)
  case (1 L n xs out)
  show ?case
  proof (cases "take n xs = []")
    case True
    then have "w = List (c_values out)" "xs = []"
      using 1(2,3) by (auto simp: chunk_loop.simps [of L n] collection_finish_def)
    then show ?thesis
      by (intro exI [of _ "[]"]) simp
  next
    case False
    then obtain out' where out': "collection_push L (List (take n xs)) out = Inr out'"
        "chunk_loop L n (drop n xs) out' = Inr w"
      using 1(3) by (auto simp: chunk_loop.simps [of L n xs] bindR_eq_Inr)
    then have "c_values out' = c_values out @ [List (take n xs)]"
      by (auto simp: collection_push_def bindR_eq_Inr)
    moreover obtain cs where cs: "w = List (c_values out' @ map List cs)" "concat cs = drop n xs"
        "\<forall>c \<in> set cs. c \<noteq> [] \<and> length c \<le> n" "\<forall>c \<in> set (butlast cs). length c = n"
      using 1(1) [OF False 1(2) out'(2)] by blast
    moreover have "length (take n xs) = n" if "cs \<noteq> []"
    proof -
      have "drop n xs \<noteq> []"
        using that cs(2,3) by (cases cs) auto
      then show ?thesis
        by simp
    qed
    ultimately show ?thesis
      using False by (intro exI [of _ "take n xs # cs"]) auto
  qed
qed

lemma flatten_lists:
  "flatten_loop L (map List cs) out
   = bindR (collection_extend L (concat cs) out) (\<lambda>out. Inr (collection_finish out))"
proof (induction cs arbitrary: out)
  case (Cons c cs)
  then show ?case
    by (cases "collection_extend L c out") (simp_all add: seq_def collection_extend_append)
qed simp

lemma index_range:
  assumes "range_ok r"
  shows "map_option (\<lambda>j. map Int64 [r_start r..range_last r] ! j) (index i (range_len r))
    = map_option Int64 (range_value_at r i)"
  by (auto simp: index_def range_value_at_iff [OF assms] range_len_eq nth_upto)

text \<open>A closure that always returns, and leaves the evaluator as it was.\<close>

definition pure_call :: "('s, 'z, 'a) caller \<Rightarrow> ('z, 'a) val \<Rightarrow> (('z, 'a) val list \<Rightarrow> ('z, 'a) val) \<Rightarrow> bool" where
  "pure_call call f g \<longleftrightarrow> (\<forall>args s. call f args s = (Inr (g args), s))"

lemma pure_callD: "pure_call call f g \<Longrightarrow> call f args s = (Inr (g args), s)"
  by (simp add: pure_call_def)

lemma ret_bindA: "bindA (ret r) k s = (case r of Inl e \<Rightarrow> (Inl e, s) | Inr x \<Rightarrow> k x s)"
  by (simp add: bindA_def ret_def split: sum.splits)

lemma map_loop_pure:
  assumes "pure_call call f g"
  shows "map_loop L call f xs out s
    = (bindR (collection_extend L (map (\<lambda>x. g [x]) xs) out) (\<lambda>out. Inr (collection_finish out)), s)"
proof (induction xs arbitrary: out)
  case (Cons x xs)
  then show ?case
    by (cases "collection_push L (g [x]) out") (simp_all add: bindA_def ret_def pure_callD [OF assms])
qed (simp add: ret_def)

lemma filter_loop_pure:
  assumes "pure_call call f g" "\<forall>x \<in> set xs. as_condition (g [x]) = Inr (p x)"
  shows "filter_loop L call f xs out s
    = (bindR (collection_extend L (filter p xs) out) (\<lambda>out. Inr (collection_finish out)), s)"
  using assms(2)
proof (induction xs arbitrary: out)
  case (Cons x xs)
  then show ?case
    by (cases "collection_push L x out") (simp_all add: bindA_def ret_def pure_callD [OF assms(1)])
qed (simp add: ret_def)

lemma reduce_loop_pure:
  "pure_call call f g \<Longrightarrow> reduce_loop call f xs acc s = (Inr (fold (\<lambda>x acc. g [acc, x]) xs acc), s)"
  by (induction xs arbitrary: acc) (simp_all add: bindA_def ret_def pure_callD)

lemma any_all_loop_pure:
  "pure_call call f g \<Longrightarrow> \<forall>x \<in> set xs. as_condition (g [x]) = Inr (p x) \<Longrightarrow>
     any_all_loop call f any xs s = (Inr (Bool (if any then list_ex p xs else list_all p xs)), s)"
  by (induction xs) (auto simp: bindA_def ret_def pure_callD)

lemma find_loop_pure:
  "pure_call call f g \<Longrightarrow> \<forall>x \<in> set xs. as_condition (g [x]) = Inr (p x) \<Longrightarrow>
     find_loop call f xs s = (Inr (case find p xs of Some x \<Rightarrow> x | None \<Rightarrow> Null), s)"
  by (induction xs) (auto simp: bindA_def ret_def pure_callD)

lemmas admission_defs = admitted_def cost_of_all_def eager_cost_def eager_shape_def value_charges_def
  total_cost_def node_count_def eager_limits_def saturating_usize_def unit_layout_def
  EAGER_COLLECTION_MAX_VALUES_def EAGER_COLLECTION_MAX_RETAINED_BYTES_def

subsection \<open>Properties of the collection methods\<close>

text \<open>
  C26. Sorting a collection of one comparable type returns its elements in the one arrangement that is
  ordered by the comparison and keeps the input's order among elements that compare equal.
\<close>

theorem sort_is_stable:
  assumes "seq v = Inr xs" "admitted L xs"
    and "\<forall>x \<in> set xs. type_name x = k \<and> cmp_class x \<noteq> None"
  shows "list_sort h L v = Inr w \<longleftrightarrow>
    (\<exists>ys. w = List ys \<and> mset ys = mset xs \<and> sorted_wrt (\<lambda>a b. compare h a b \<in> {Inr Less, Inr Equal}) ys
      \<and> (\<forall>a \<in> set xs. filter (\<lambda>y. compare h a y = Inr Equal) ys = filter (\<lambda>y. compare h a y = Inr Equal) xs))"
proof -
  let ?A = "{v. type_name v = k \<and> cmp_class v \<noteq> None}"
  have A: "set xs \<subseteq> ?A"
    using assms(3) by auto
  have "check_pairs h xs = Inr ()"
    using assms(3) by (rule one_type_checks)
  then have "list_sort h L v = Inr w \<longleftrightarrow> (\<exists>ys. w = List ys \<and> ys = stable_sort_by (comparator h) xs)"
    using assms(1,2) admitted_seq_ok [of L v xs] by (auto simp: list_sort_def)
  also have "\<dots> \<longleftrightarrow> (\<exists>ys. w = List ys \<and> mset ys = mset xs
      \<and> sorted_wrt (\<lambda>a b. comparator h a b \<noteq> Greater) ys
      \<and> (\<forall>a \<in> set xs. filter (\<lambda>y. comparator h a y = Equal) ys = filter (\<lambda>y. comparator h a y = Equal) xs))"
    using one_type.sort_characterised [OF A] by simp
  also have "\<dots> \<longleftrightarrow> (\<exists>ys. w = List ys \<and> mset ys = mset xs
      \<and> sorted_wrt (\<lambda>a b. compare h a b \<in> {Inr Less, Inr Equal}) ys
      \<and> (\<forall>a \<in> set xs. filter (\<lambda>y. compare h a y = Inr Equal) ys = filter (\<lambda>y. compare h a y = Inr Equal) xs))"
  proof -
    have cmp: "compare h a b = Inr (comparator h a b)" if "a \<in> set xs" "b \<in> set xs" for a b
      using that A compare_comparator [of a b h] by auto
    have le: "o1 \<noteq> Greater \<Longrightarrow> o1 \<noteq> Equal \<Longrightarrow> o1 = Less" for o1
      by (cases o1) auto
    have "sorted_wrt (\<lambda>a b. compare h a b \<in> {Inr Less, Inr Equal}) ys
        = sorted_wrt (\<lambda>a b. comparator h a b \<noteq> Greater) ys"
      "\<forall>a \<in> set xs. filter (\<lambda>y. compare h a y = Inr Equal) ys = filter (\<lambda>y. comparator h a y = Equal) ys"
      if "set ys = set xs" for ys
      using that cmp le by (auto intro!: filter_cong sorted_wrt_same)
    then show ?thesis
      by (metis set_mset_mset)
  qed
  finally show ?thesis .
qed

theorem sort_is_stable_witness:
  "list_sort \<lparr>timestamp_ns = id, zoned_add = (\<lambda>z d. Inr (z + d)), overflow_checks = True\<rparr> unit_layout
     (List [Path ''b'', Path ''a/'', Path ''a'', Path ''a/''])
   = Inr (List [Path ''a/'', Path ''a'', Path ''a/'', Path ''b''])"
proof (rule iffD2 [OF sort_is_stable
      [where k = "''path''" and xs = "[Path ''b'', Path ''a/'', Path ''a'', Path ''a/'']"]])
  show "admitted unit_layout [Path ''b'', Path ''a/'', Path ''a'', Path ''a/'']"
    by (simp add: admission_defs)
qed (simp_all add: seq_def compare_def components_def is_absolute_def comp_of_def List.map_filter_def
    Let_def cmp_of_def)

text \<open>
  C27. For well-formed values whose equal paths are spelt alike, \<open>uniq\<close> with its hash buckets removes
  duplicates like the quadratic reference: it keeps exactly the elements that no earlier kept element
  equals, in order. Paths that are equal and spelt differently hash apart and are both kept.
\<close>

theorem uniq_removes_duplicates:
  assumes "seq v = Inr xs" "\<forall>x \<in> set xs. value_ok x"
    and "\<forall>x \<in> set xs. \<forall>y \<in> set xs. paths_agree (paths_of x) (paths_of y)"
  shows "uniq hasher h L v = Inr w \<longleftrightarrow> admitted L xs \<and> w = List (dedupe (veq h) [] xs)"
proof (cases "admitted L xs")
  case True
  have "buckets_ok hasher h [] []"
    by (simp add: buckets_ok_def bucket_of_def)
  then have "uniq_loop hasher h L xs collection_eager [] = Inr (List (dedupe (veq h) [] xs))"
    using uniq_loop_dedupe [of hasher h "[]" "[]" L collection_eager xs] True assms(2,3) by simp
  then show ?thesis
    using True assms(1) admitted_seq_ok [of L v xs] by (auto simp: uniq_def)
next
  case False
  then show ?thesis
    using assms(1) admitted_seq_ok [of L v] by (auto simp: uniq_def bindR_eq_Inr)
qed

theorem uniq_removes_duplicates_witness:
  "uniq length \<lparr>timestamp_ns = id, zoned_add = (\<lambda>z d. Inr (z + d)), overflow_checks = True\<rparr> unit_layout
     (List [Int64 1, Str ''x'', Float (Finite False 1), Path ''x''])
   = Inr (List [Int64 1, Str ''x''])"
proof (rule iffD2 [OF uniq_removes_duplicates
      [where xs = "[Int64 1, Str ''x'', Float (Finite False 1), Path ''x'']"]])
  have "admitted unit_layout [Int64 1, Str ''x'', Float (Finite False 1), Path ''x'']"
    by (simp add: admission_defs)
  moreover have "f64_eq (f64_of_int 1) (Finite False 1)"
    using f64_of_int_exact [of 1] by (simp add: f64_eq_def)
  moreover have "utf8_lossy ''x'' = ''x''"
    by (rule utf8_lossy_valid) (simp add: lead_width_def)
  ultimately show "admitted unit_layout [Int64 1, Str ''x'', Float (Finite False 1), Path ''x'']
    \<and> List [Int64 1, Str ''x''] = List (dedupe
        (veq \<lparr>timestamp_ns = id, zoned_add = (\<lambda>z d. Inr (z + d)), overflow_checks = True\<rparr>) []
        [Int64 1, Str ''x'', Float (Finite False 1), Path ''x''])"
    by simp
qed (simp_all add: seq_def in_i64_def paths_agree_def lead_width_def)

text \<open>
  Chunks lose nothing: they are non-empty, of the requested size but for the last, and flattening
  them gives the elements back.
\<close>

theorem chunks_flatten_roundtrip:
  assumes "seq v = Inr xs" "chunks L v n = Inr w"
  shows "\<exists>cs. w = List (map List cs) \<and> (\<forall>c \<in> set cs. c \<noteq> [] \<and> length c \<le> n)
    \<and> (\<forall>c \<in> set (butlast cs). length c = n) \<and> concat cs = xs \<and> flatten L w = Inr (List xs)"
proof -
  have n: "0 < n" and adm: "admitted L xs" and "chunk_loop L n xs collection_eager = Inr w"
    using assms admitted_seq_ok [of L v] by (auto simp: chunks_def bindR_eq_Inr split: if_splits)
  then obtain cs where cs: "w = List (map List cs)" "concat cs = xs"
      "\<forall>c \<in> set cs. c \<noteq> [] \<and> length c \<le> n" "\<forall>c \<in> set (butlast cs). length c = n"
    using chunk_loop_ok [OF n, of L xs collection_eager w] by auto
  obtain out where "collection_extend L xs collection_eager = Inr out" "c_values out = xs"
    using adm extend_eager_ok extend_eager_values by metis
  then have "flatten L w = Inr (List xs)"
    using cs(1,2) by (simp add: flatten_def flatten_with_limits_def seq_def flatten_lists
        collection_eager_def [symmetric] collection_finish_def)
  with cs show ?thesis
    by blast
qed

theorem chunks_flatten_roundtrip_witness:
  "\<exists>w. chunks unit_layout (List [Int64 1, Int64 2, Int64 3]) 2 = Inr w
     \<and> flatten unit_layout w = Inr (List [Int64 1, Int64 2, Int64 3])"
proof -
  have "chunks unit_layout (List [Int64 1, Int64 2, Int64 3]) 2
      = Inr (List [List [Int64 1, Int64 2], List [Int64 3]])"
    by (simp add: chunks_def admitted_seq_def seq_def chunk_loop.simps collection_push_def admit_def
        charge_retained_def retained_size_def visit_def enter_node_def add_bytes_def checked_usize_def
        eager_limits_def unit_layout_def collection_eager_def collection_new_def budget_new_def
        EAGER_COLLECTION_MAX_VALUES_def EAGER_COLLECTION_MAX_RETAINED_BYTES_def collection_finish_def saturating_usize_def)
  then show ?thesis
    using chunks_flatten_roundtrip [of "List [Int64 1, Int64 2, Int64 3]" "[Int64 1, Int64 2, Int64 3]"
        unit_layout 2 "List [List [Int64 1, Int64 2], List [Int64 3]]"]
    by (auto simp: seq_def)
qed

text \<open>
  A range answers \<open>.get\<close>, \<open>in\<close> and \<open>.len\<close> without being expanded exactly as the list it collects
  to, negative indices and the ends of the 64-bit integers included.
\<close>

theorem range_answers_like_list:
  assumes "range_ok r" "list_collect (Range r) = Inr w"
  shows "get (Range r) (Int64 i) d = get w (Int64 i) d \<and> member h (Range r) (Int64 j) = member h w (Int64 j)
    \<and> list_len (Range r) = list_len w"
proof -
  have w: "w = List (map Int64 [r_start r..range_last r])" and len: "range_len r \<le> 16384"
    using assms by (auto simp: list_collect_def bindR_eq_Inr range_materialize_def range_items_eq
        materialization_len_def RANGE_MATERIALIZATION_MAX_VALUES_def split: if_splits)
  have l: "length [r_start r..range_last r] = range_len r"
    by (simp add: range_len_eq)
  have "get (Range r) (Int64 i) d = get w (Int64 i) d"
    unfolding get_def w by (simp add: index_range [OF assms(1), of i, symmetric] range_len_eq)
  moreover have "member h (Range r) (Int64 j) = member h w (Int64 j)"
    by (auto simp: member_def w range_contains_iff list_ex_iff)
  moreover have "list_len (Range r) = list_len w"
    using len by (simp add: list_len_def w range_len_eq) linarith
  ultimately show ?thesis
    by blast
qed

theorem range_answers_like_list_witness:
  "get (Range \<lparr>r_start = I64_MAX - 1, r_end = I64_MAX, inclusive = True\<rparr>) (Int64 (- 1)) Null
   = get (List [Int64 (I64_MAX - 1), Int64 I64_MAX]) (Int64 (- 1)) Null"
  using range_answers_like_list
    [of "\<lparr>r_start = I64_MAX - 1, r_end = I64_MAX, inclusive = True\<rparr>"
      "List [Int64 (I64_MAX - 1), Int64 I64_MAX]" "- 1" Null, THEN conjunct1]
  by (simp add: range_ok_def in_i64_def list_collect_def range_materialize_def range_items_eq range_last_def
      materialization_len_def range_len_eq RANGE_MATERIALIZATION_MAX_VALUES_def upto.simps)

text \<open>
  With a closure that returns on every element, \<open>.map\<close>, \<open>.filter\<close>, \<open>.reduce\<close>, \<open>.any\<close>, \<open>.all\<close> and
  \<open>.find\<close> compute the functions of those names, and the ones that build a list put exactly that list
  through the admission guard.
\<close>

theorem closure_methods_functional:
  assumes "seq v = Inr xs" "pure_call call f g" "\<forall>x \<in> set xs. as_condition (g [x]) = Inr (p x)"
  shows "list_map L call v f s = (collected L (map (\<lambda>x. g [x]) xs), s)
    \<and> list_filter L call v f s = (collected L (filter p xs), s)
    \<and> list_reduce call v a f s = (Inr (fold (\<lambda>x acc. g [acc, x]) xs a), s)
    \<and> any_all call v f True s = (Inr (Bool (\<exists>x \<in> set xs. p x)), s)
    \<and> any_all call v f False s = (Inr (Bool (\<forall>x \<in> set xs. p x)), s)
    \<and> list_find call v f s = (Inr (case find p xs of Some x \<Rightarrow> x | None \<Rightarrow> Null), s)"
  using assms
  by (simp add: list_map_def list_filter_def list_reduce_def any_all_def list_find_def ret_bindA
      collected_def map_loop_pure filter_loop_pure reduce_loop_pure any_all_loop_pure [of call f g xs p]
      find_loop_pure [of call f g xs p] list_ex_iff list_all_iff)

theorem closure_methods_functional_witness:
  "list_find (\<lambda>f args. ret (Inr (hd args))) (List [Bool False, Bool True] :: (int, unit) val) Null ()
   = (Inr (Bool True), ())"
proof -
  have "list_find (\<lambda>f args. ret (Inr (hd args))) (List [Bool False, Bool True] :: (int, unit) val) Null ()
      = (Inr (case find (\<lambda>x. x = Bool True) [Bool False, Bool True] of Some x \<Rightarrow> x | None \<Rightarrow> Null), ())"
    by (rule closure_methods_functional [where g = hd and L = unit_layout, THEN conjunct2, THEN conjunct2,
          THEN conjunct2, THEN conjunct2, THEN conjunct2])
      (simp_all add: seq_def pure_call_def ret_def as_condition_def)
  then show ?thesis
    by simp
qed

end
