(* ===== verification/Value_Suggest.thy ===== *)
theory Value_Suggest
  imports Value_List
begin

text \<open>
  The hints on an unknown method (\<open>value/methods/suggest.rs\<close>): the tables of method names by receiver
  type, the two-row table of the edit distance, and the choice of a suggestion. The distance is shown
  to be the least number of single-character edits that turn one name into the other.
\<close>

subsection \<open>The edit distance as it is computed\<close>

text \<open>\<open>cur\<close> is written by index; after a row the two rows are swapped.\<close>

fun lev_row :: "'c \<Rightarrow> 'c list \<Rightarrow> nat \<Rightarrow> nat list \<Rightarrow> nat list \<Rightarrow> nat list" where
  "lev_row ca [] j prev cur = cur"
| "lev_row ca (cb # bs) j prev cur =
     (let sub = prev ! j + (if ca \<noteq> cb then 1 else 0)
      in lev_row ca bs (j + 1) prev
           (cur[j + 1 := min (min sub (prev ! (j + 1) + 1)) (cur ! j + 1)]))"

fun lev_rows :: "'c list \<Rightarrow> 'c list \<Rightarrow> nat \<Rightarrow> nat list \<Rightarrow> nat list \<Rightarrow> nat list" where
  "lev_rows [] b i prev cur = prev"
| "lev_rows (ca # a) b i prev cur = lev_rows a b (i + 1) (lev_row ca b 0 prev (cur[0 := i + 1])) prev"

definition levenshtein :: "string \<Rightarrow> string \<Rightarrow> nat" where
  "levenshtein s t =
     (let a = utf8_chars s; b = utf8_chars t
      in if a = [] then length b
         else if b = [] then length a
         else lev_rows a b 0 [0..<length b + 1] (replicate (length b + 1) 0) ! length b)"

subsection \<open>The recurrence\<close>

fun ed :: "'c list \<Rightarrow> 'c list \<Rightarrow> nat" where
  "ed [] ys = length ys"
| "ed (x # xs) [] = Suc (length xs)"
| "ed (x # xs) (y # ys) =
     min (min (ed xs ys + (if x \<noteq> y then 1 else 0)) (ed xs (y # ys) + 1)) (ed (x # xs) ys + 1)"

lemma ed_Nil2 [simp]: "ed xs [] = length xs"
  by (cases xs) auto

lemma ed_same [simp]: "ed xs xs = 0"
  by (induction xs) auto

lemma ed_comm: "ed xs ys = ed ys xs"
  by (induction xs ys rule: ed.induct) auto

text \<open>A row of the table, for the reversed prefix \<open>u\<close> of the first name.\<close>

definition row :: "'c list \<Rightarrow> 'c list \<Rightarrow> nat list" where
  "row u b = map (\<lambda>j. ed u (rev (take j b))) [0..<length b + 1]"

lemma row_nth [simp]: "j \<le> length b \<Longrightarrow> row u b ! j = ed u (rev (take j b))"
  by (simp add: row_def del: upt_Suc)

lemma row_length [simp]: "length (row u b) = length b + 1"
  by (simp add: row_def)

lemma ed_step:
  assumes "j < length b"
  shows "ed (x # u) (rev (take (Suc j) b)) =
    min (min (ed u (rev (take j b)) + (if x \<noteq> b ! j then 1 else 0)) (ed u (rev (take (Suc j) b)) + 1))
      (ed (x # u) (rev (take j b)) + 1)"
  using assms by (simp add: take_Suc_conv_app_nth)

lemma lev_row_ok:
  assumes "drop j b = bs" "j \<le> length b" "length cur = length b + 1"
    and "\<forall>k \<le> j. cur ! k = ed (x # u) (rev (take k b))"
  shows "lev_row x bs j (row u b) cur = row (x # u) b"
  using assms
proof (induction bs arbitrary: j cur)
  case Nil
  then have "j = length b"
    by simp
  with Nil show ?case
    by (intro nth_equalityI) (auto simp: less_Suc_eq_le)
next
  case (Cons c bs)
  have j: "j < length b" "b ! j = c" "drop (Suc j) b = bs"
    using Cons.prems(1,2) by (auto simp: Cons_nth_drop_Suc [symmetric] drop_eq_Nil le_less)
  let ?v = "min (min (row u b ! j + (if x \<noteq> c then 1 else 0)) (row u b ! (j + 1) + 1)) (cur ! j + 1)"
  have "?v = ed (x # u) (rev (take (Suc j) b))"
    using Cons.prems(4) j ed_step [OF j(1), of x u] by simp
  then have "\<forall>k \<le> Suc j. cur[j + 1 := ?v] ! k = ed (x # u) (rev (take k b))"
    using Cons.prems(3,4) j(1) by (auto simp: nth_list_update le_Suc_eq)
  then show ?case
    using Cons.IH [of "Suc j" "cur[j + 1 := ?v]"] Cons.prems(3) j by (simp add: Let_def)
qed

lemma lev_rows_ok:
  "length u = i \<Longrightarrow> length cur = length b + 1 \<Longrightarrow> lev_rows a b i (row u b) cur = row (rev a @ u) b"
proof (induction a arbitrary: u i cur)
  case (Cons x a)
  have "lev_row x b 0 (row u b) (cur[0 := i + 1]) = row (x # u) b"
    using Cons.prems by (intro lev_row_ok) auto
  then show ?case
    using Cons.IH [of "x # u" "i + 1" "row u b"] Cons.prems by simp
qed simp

lemma levenshtein_ed: "levenshtein s t = ed (rev (utf8_chars s)) (rev (utf8_chars t))"
proof -
  have "[0..<length b + 1] = row [] b" for b :: "string list"
    by (intro nth_equalityI) (auto simp del: upt_Suc)
  then show ?thesis
    using lev_rows_ok [of "[]" 0 "replicate (length (utf8_chars t) + 1) 0" "utf8_chars t" "utf8_chars s"]
    by (simp add: levenshtein_def Let_def)
qed

subsection \<open>The least number of edits\<close>

inductive edit :: "'c list \<Rightarrow> 'c list \<Rightarrow> bool" where
  insert_char: "edit (p @ q) (p @ x # q)"
| delete_char: "edit (p @ x # q) (p @ q)"
| replace_char: "edit (p @ x # q) (p @ y # q)"

lemma edit_Cons: "edit xs ys \<Longrightarrow> edit (c # xs) (c # ys)"
  by (erule edit.cases) (metis append_Cons edit.intros)+

lemma edits_Cons: "(edit ^^ n) xs ys \<Longrightarrow> (edit ^^ n) (c # xs) (c # ys)"
  by (induction n arbitrary: ys) (auto intro: edit_Cons)

lemma edit_rev: "edit xs ys \<Longrightarrow> edit (rev xs) (rev ys)"
  by (erule edit.cases) (metis append.assoc append_Cons append_Nil edit.intros rev.simps(2) rev_append)+

lemma edits_rev: "(edit ^^ n) (rev xs) (rev ys) \<longleftrightarrow> (edit ^^ n) xs ys"
proof
  show "(edit ^^ n) (rev xs) (rev ys)" if "(edit ^^ n) xs ys" for xs ys :: "'a list"
    using that by (induction n arbitrary: ys) (auto intro: edit_rev)
  then show "(edit ^^ n) xs ys" if "(edit ^^ n) (rev xs) (rev ys)"
    using that by (metis rev_rev_ident)
qed

text \<open>The recurrence gives a script of that many edits.\<close>

lemma edits_relpow_Suc: "edit xs ys \<Longrightarrow> (edit ^^ n) ys zs \<Longrightarrow> (edit ^^ (n + 1)) xs zs"
  using relpowp_Suc_I2 [of edit xs ys n zs] by (simp only: Suc_eq_plus1)

lemma ed_reachable: "(edit ^^ ed xs ys) xs ys"
proof (induction xs ys rule: ed.induct)
  case (1 ys)
  show ?case
  proof (induction ys)
    case (Cons y ys)
    then show ?case
      using edit.insert_char [of "[]" ys y] by auto
  qed simp
next
  case (2 x xs)
  have "(edit ^^ length zs) zs []" for zs :: "'a list"
  proof (induction zs)
    case (Cons z zs)
    then show ?case
      using edit.delete_char [of "[]" z zs] edits_relpow_Suc by fastforce
  qed simp
  from this [of "x # xs"] show ?case
    by simp
next
  case (3 x xs y ys)
  consider "ed (x # xs) (y # ys) = ed xs ys + (if x \<noteq> y then 1 else 0)"
    | "ed (x # xs) (y # ys) = ed xs (y # ys) + 1" | "ed (x # xs) (y # ys) = ed (x # xs) ys + 1"
    by (metis ed.simps(3) min_def)
  then show ?case
  proof cases
    case 1
    have "(edit ^^ ed xs ys) (y # xs) (y # ys)"
      by (rule edits_Cons) (rule 3)
    then show ?thesis
      using edit.replace_char [of "[]" x xs y] edits_relpow_Suc [of "x # xs" "y # xs"] 1 by auto
  next
    case 2
    then show ?thesis
      using edit.delete_char [of "[]" x xs] edits_relpow_Suc [OF _ 3(2)] by simp
  next
    case 3
    have "(edit ^^ ed (x # xs) ys) (x # xs) ys"
      by (rule "3.IH")
    then show ?thesis
      using edit.insert_char [of "[]" ys y] 3 by auto
  qed
qed

text \<open>No script is shorter: one edit changes the recurrence by at most one.\<close>

lemma ed_insert: "ed xs (p @ x # q) \<le> ed xs (p @ q) + 1"
proof (induction p arbitrary: xs)
  case Nil
  show ?case
    by (cases xs) auto
next
  case (Cons c p)
  note IH = Cons.IH
  show ?case
  proof (induction xs)
    case (Cons a as)
    then show ?case
      using IH [of as] IH [of "a # as"] by simp
  qed simp
qed

lemma ed_insert1: "ed (a # as) ys \<le> ed as ys + 1"
  using ed_insert [of ys "[]" a as] by (simp add: ed_comm)

lemma ed_delete: "ed xs (p @ q) \<le> ed xs (p @ x # q) + 1"
proof (induction p arbitrary: xs)
  case Nil
  show ?case
  proof (induction xs)
    case (Cons a as)
    then show ?case
      using ed_insert1 [of a as q] by simp
  qed simp
next
  case (Cons c p)
  note IH = Cons.IH
  show ?case
  proof (induction xs)
    case (Cons a as)
    then show ?case
      using IH [of as] IH [of "a # as"] by simp
  qed simp
qed

lemma ed_replace: "ed xs (p @ y # q) \<le> ed xs (p @ x # q) + 1"
proof (induction p arbitrary: xs)
  case Nil
  show ?case
  proof (induction xs)
    case (Cons a as)
    then show ?case
      by (auto simp: min_def)
  qed simp
next
  case (Cons c p)
  note IH = Cons.IH
  show ?case
  proof (induction xs)
    case (Cons a as)
    then show ?case
      using IH [of as] IH [of "a # as"] by simp
  qed simp
qed

lemma ed_edit: "edit ys zs \<Longrightarrow> ed xs zs \<le> ed xs ys + 1"
  by (erule edit.cases) (simp_all only: ed_insert ed_delete ed_replace)

lemma ed_least: "(edit ^^ n) xs ys \<Longrightarrow> ed xs ys \<le> n"
proof (induction n arbitrary: ys)
  case (Suc n)
  then obtain zs where "(edit ^^ n) xs zs" "edit zs ys"
    by auto
  then show ?case
    using Suc.IH ed_edit [of zs ys xs] by fastforce
qed simp

subsection \<open>Method names and hints\<close>

definition SEQ_METHODS :: "string list" where
  "SEQ_METHODS = [
    ''len'', ''count'', ''is_empty'', ''first'', ''last'', ''collect'', ''stream'', ''tee'',
    ''map'', ''reduce'', ''fold'', ''where'', ''filter'', ''each'', ''any'', ''all'', ''find'',
    ''flat_map'', ''sort_by'', ''sort'', ''reverse'', ''uniq'', ''sum'', ''min'', ''max'',
    ''flatten'', ''enumerate'', ''skip'', ''take'', ''chunks'', ''zip'', ''group'',
    ''group_by'', ''join'', ''contains'', ''get'', ''json'', ''save'', ''append'', ''feed'']"

definition STR_METHODS :: "string list" where
  "STR_METHODS = [
    ''len'', ''count'', ''is_empty'', ''lines'', ''words'', ''chars'', ''trim'', ''upper'',
    ''lower'', ''split'', ''starts_with'', ''ends_with'', ''contains'', ''replace'',
    ''matches'', ''match'', ''parse_int'', ''parse_float'', ''take'', ''skip'', ''reverse'',
    ''stream'', ''str'', ''display'', ''json'', ''save'', ''append'', ''feed'']"

definition RECORD_METHODS :: "string list" where
  "RECORD_METHODS = [
    ''keys'', ''values'', ''items'', ''set'', ''merge'', ''get'', ''contains'', ''len'',
    ''count'', ''is_empty'', ''json'', ''save'', ''append'', ''feed'']"

definition NUM_METHODS :: "string list" where
  "NUM_METHODS = [
    ''abs'', ''round'', ''floor'', ''ceil'', ''str'', ''display'', ''json'', ''save'',
    ''append'', ''feed'']"

definition PATH_METHODS :: "string list" where
  "PATH_METHODS = [
    ''name'', ''stem'', ''ext'', ''parent'', ''join'', ''abs'', ''read'', ''read_bytes'',
    ''lines'', ''exists'', ''is_dir'', ''is_file'', ''size'', ''modified'', ''save'',
    ''append'', ''str'', ''display'', ''json'']"

definition TASK_METHODS :: "string list" where
  "TASK_METHODS = [
    ''await'', ''wait'', ''cancel'', ''is_done'', ''suspend'', ''resume'', ''is_suspended'']"

definition BYTES_METHODS :: "string list" where
  "BYTES_METHODS = [
    ''len'', ''count'', ''is_empty'', ''str'', ''display'', ''stream'', ''json'', ''save'',
    ''append'', ''feed'']"

definition BOOL_METHODS :: "string list" where
  "BOOL_METHODS = [
    ''str'', ''display'', ''json'', ''save'', ''append'', ''feed'']"

definition SCALAR_METHODS :: "string list" where
  "SCALAR_METHODS = [
    ''json'', ''save'', ''append'', ''feed'']"

definition POLY_METHODS :: "string list" where
  "POLY_METHODS = [
    ''tap'', ''also'']"

definition METHOD_NAMES :: "string list" where
  "METHOD_NAMES = remdups_adj (sort
     (SEQ_METHODS @ STR_METHODS @ RECORD_METHODS @ NUM_METHODS @ PATH_METHODS @ TASK_METHODS
      @ BYTES_METHODS @ BOOL_METHODS @ SCALAR_METHODS @ POLY_METHODS))"

definition type_table :: "string \<Rightarrow> string list option" where
  "type_table ty =
     (if ty = ''list'' \<or> ty = ''table'' \<or> ty = ''range'' then Some SEQ_METHODS
      else if ty = ''str'' then Some STR_METHODS
      else if ty = ''record'' then Some RECORD_METHODS
      else if ty = ''int'' \<or> ty = ''float'' then Some NUM_METHODS
      else if ty = ''path'' then Some PATH_METHODS
      else if ty = ''task'' then Some TASK_METHODS
      else if ty = ''bytes'' then Some BYTES_METHODS
      else if ty = ''bool'' then Some BOOL_METHODS
      else if ty = ''size'' \<or> ty = ''duration'' \<or> ty = ''datetime'' \<or> ty = ''time'' then Some SCALAR_METHODS
      else None)"

definition known_methods :: "string \<Rightarrow> string list" where
  "known_methods ty = (case type_table ty of Some t \<Rightarrow> t | None \<Rightarrow> [])"

definition methods_for :: "string \<Rightarrow> string list option" where
  "methods_for ty = map_option (\<lambda>base. remdups_adj (sort (base @ POLY_METHODS))) (type_table ty)"

text \<open>\<open>Iterator::min_by_key\<close> returns the first of the least elements.\<close>

fun min_by_key :: "('b \<Rightarrow> nat) \<Rightarrow> 'b list \<Rightarrow> 'b option" where
  "min_by_key f [] = None"
| "min_by_key f (x # xs) =
     Some (case min_by_key f xs of None \<Rightarrow> x | Some y \<Rightarrow> if f x \<le> f y then x else y)"

definition did_you_mean :: "string \<Rightarrow> string" where
  "did_you_mean k = ''did you mean .'' @ k @ ''()?''"

definition push_hint :: string where
  "push_hint = ''shoal values are immutable '' @ map char_of [226, 128, 148 :: nat]
     @ '' build a new list with `list + [item]`''"

definition slice_hint :: string where
  "slice_hint = ''did you mean .take(n) / .skip(n)? they slice a str by char''"

definition nearest_hint :: "string \<Rightarrow> string list \<Rightarrow> string option" where
  "nearest_hint name known =
     (let n = length (utf8_chars name); max_d = (if 5 \<le> n then 2 else 1)
      in case min_by_key (\<lambda>k. levenshtein name k) known of
           None \<Rightarrow> None
         | Some k \<Rightarrow>
             if levenshtein name k \<le> max_d \<and> levenshtein name k < n then Some (did_you_mean k)
             else map_option did_you_mean
               (find (\<lambda>k. 3 \<le> length k \<and> length k < length name \<and> prefix k name
                  \<and> name ! length k = CHR ''_'') known))"

definition hint :: "string \<Rightarrow> string \<Rightarrow> string option" where
  "hint name ty =
     (let known = known_methods ty
      in if (name = ''length'' \<or> name = ''size'') \<and> ''len'' \<in> set known then Some ''did you mean .len()?''
         else if name = ''push'' \<and> (ty = ''list'' \<or> ty = ''table'') then Some push_hint
         else if (name = ''substring'' \<or> name = ''substr'' \<or> name = ''slice'') \<and> ty = ''str''
         then Some slice_hint
         else if prefix ''to_'' name \<and> drop 3 name \<in> set known then Some (did_you_mean (drop 3 name))
         else nearest_hint name known)"

definition unknown_method :: "string \<Rightarrow> ('z, 'a) val \<Rightarrow> error_val" where
  "unknown_method name recv =
     (let err = error_new ''field_missing''
            (''unknown method `.'' @ name @ ''` on '' @ type_name recv)
      in case hint name (type_name recv) of Some h \<Rightarrow> with_hint h err | None \<Rightarrow> err)"

lemma min_by_key_None [simp]: "min_by_key f xs = None \<longleftrightarrow> xs = []"
  by (cases xs) auto

lemma min_by_key_least:
  "min_by_key f xs = Some x \<Longrightarrow> x \<in> set xs \<and> (\<forall>y \<in> set xs. f x \<le> f y)"
proof (induction xs arbitrary: x)
  case (Cons a xs)
  show ?case
  proof (cases "min_by_key f xs")
    case (Some y)
    then show ?thesis
      using Cons.prems Cons.IH [OF Some] by (auto split: if_splits intro: order_trans)
  qed (use Cons.prems in simp)
qed simp

lemma nearest_hint_known: "nearest_hint name known = Some h \<Longrightarrow> \<exists>k \<in> set known. h = did_you_mean k"
  by (auto simp: nearest_hint_def Let_def find_Some_iff dest!: min_by_key_least
      split: option.splits if_splits)

lemma nearest_hint_near:
  assumes "k \<in> set known" "levenshtein name k \<le> 1" "2 \<le> length (utf8_chars name)"
  shows "nearest_hint name known \<noteq> None"
proof -
  obtain m where m: "min_by_key (\<lambda>k. levenshtein name k) known = Some m"
    using assms(1) min_by_key_None by fastforce
  then have "levenshtein name m \<le> 1"
    using min_by_key_least [OF m] assms(1,2) by fastforce
  then show ?thesis
    using m assms(3) by (simp add: nearest_hint_def Let_def)
qed

lemma hint_known:
  assumes "hint name ty = Some h"
  shows "h = push_hint \<or> h = slice_hint \<or> (\<exists>k \<in> set (known_methods ty). h = did_you_mean k)"
proof -
  have len: "''did you mean .len()?'' = did_you_mean ''len''"
    by (simp add: did_you_mean_def)
  show ?thesis
    using assms nearest_hint_known [of name "known_methods ty" h]
    unfolding hint_def Let_def len by (auto split: if_splits)
qed

lemma set_method_names:
  "set METHOD_NAMES = set SEQ_METHODS \<union> set STR_METHODS \<union> set RECORD_METHODS \<union> set NUM_METHODS
     \<union> set PATH_METHODS \<union> set TASK_METHODS \<union> set BYTES_METHODS \<union> set BOOL_METHODS
     \<union> set SCALAR_METHODS \<union> set POLY_METHODS"
  by (auto simp: METHOD_NAMES_def)

lemma type_table_names: "type_table ty = Some t \<Longrightarrow> set t \<subseteq> set METHOD_NAMES"
  unfolding type_table_def set_method_names by (auto split: if_splits)

subsection \<open>Properties\<close>

text \<open>
  C25. The two-row table computes the edit distance: some sequence of that many insertions, deletions
  and replacements of characters turns one name into the other, and no shorter one does.
\<close>

theorem levenshtein_is_edit_distance:
  "(edit ^^ levenshtein s t) (utf8_chars s) (utf8_chars t)
   \<and> (\<forall>n < levenshtein s t. \<not> (edit ^^ n) (utf8_chars s) (utf8_chars t))"
proof -
  have "(edit ^^ n) (utf8_chars s) (utf8_chars t) \<longleftrightarrow>
      (edit ^^ n) (rev (utf8_chars s)) (rev (utf8_chars t))" for n
    by (simp add: edits_rev)
  then show ?thesis
    using ed_reachable [of "rev (utf8_chars s)" "rev (utf8_chars t)"]
      ed_least [of _ "rev (utf8_chars s)" "rev (utf8_chars t)"]
    by (auto simp: levenshtein_ed not_less [symmetric])
qed

theorem levenshtein_is_edit_distance_witness:
  "levenshtein ''uper'' ''lower'' = 3
   \<and> (edit ^^ 3) (utf8_chars ''uper'') (utf8_chars ''lower'')
   \<and> \<not> (edit ^^ 2) (utf8_chars ''uper'') (utf8_chars ''lower'')"
proof -
  have dist: "levenshtein ''uper'' ''lower'' = 3"
    by code_simp
  have "2 < (3 :: nat)"
    by simp
  then show ?thesis
    using levenshtein_is_edit_distance [of "''uper''" "''lower''"] unfolding dist by blast
qed

text \<open>
  A hint on an unknown method is one of the two curated sentences or names a method of the
  receiver's own table; a name at most one edit from a method of the table always gets a hint, and what a
  completion offers for a type is part of what it offers without one.
\<close>

theorem hints_are_real:
  "(hint name ty = Some h \<longrightarrow> h = push_hint \<or> h = slice_hint
      \<or> (\<exists>k \<in> set (known_methods ty). h = did_you_mean k))
   \<and> (k \<in> set (known_methods ty) \<longrightarrow> levenshtein name k \<le> 1 \<longrightarrow> 2 \<le> length (utf8_chars name)
      \<longrightarrow> hint name ty \<noteq> None)
   \<and> (methods_for ty = Some ms \<longrightarrow> set ms \<subseteq> set METHOD_NAMES \<and> set (known_methods ty) \<subseteq> set ms
      \<and> sorted ms \<and> distinct ms)"
proof (intro conjI impI)
  show "hint name ty \<noteq> None"
    if "k \<in> set (known_methods ty)" "levenshtein name k \<le> 1" "2 \<le> length (utf8_chars name)"
    using nearest_hint_near [OF that] by (simp add: hint_def Let_def)
  assume ms: "methods_for ty = Some ms"
  then obtain base where base: "type_table ty = Some base" "ms = remdups_adj (sort (base @ POLY_METHODS))"
    by (auto simp: methods_for_def)
  then have "sorted_wrt (<) ms"
    by (simp add: strict_sorted_remdups_adj)
  then show "sorted ms" "distinct ms"
    by (auto simp: strict_sorted_iff)
  show "set ms \<subseteq> set METHOD_NAMES"
    using base type_table_names [OF base(1)] by (auto simp: set_method_names)
  show "set (known_methods ty) \<subseteq> set ms"
    using base by (auto simp: known_methods_def)
qed (rule hint_known)

end
