(* ===== verification/Value_Units.thy ===== *)
theory Value_Units
  imports Value_Ops
begin

text \<open>
  The words a command argument is coerced from (\<open>value/value_types.rs\<close>): sizes with decimal and binary
  units, durations with compound units, and times of day. Numbers are parsed as floats, so the lemmas
  say when the result is exact. \<open>host\<close> says whether the build checks overflow of the unchecked \<open>-v\<close>.
\<close>

subsection \<open>Letters and numbers\<close>

definition to_ascii_lowercase :: "string \<Rightarrow> string" where
  "to_ascii_lowercase =
     map (\<lambda>c. if CHR ''A'' \<le> c \<and> c \<le> CHR ''Z'' then char_of (of_char c + 32 :: nat) else c)"

definition is_alpha :: "char \<Rightarrow> bool" where
  "is_alpha c \<longleftrightarrow> (CHR ''a'' \<le> c \<and> c \<le> CHR ''z'') \<or> (CHR ''A'' \<le> c \<and> c \<le> CHR ''Z'')"

text \<open>
  \<open>str::parse::<f64>\<close> on text without ASCII letters: exponents and the names of the special values
  need letters, so only signed decimals remain. The result is the rounding of the exact decimal.
\<close>

definition parse_f64 :: "string \<Rightarrow> f64 option" where
  "parse_f64 s =
     (let neg = (s \<noteq> [] \<and> hd s = CHR ''-'');
          body = (if s \<noteq> [] \<and> (hd s = CHR ''-'' \<or> hd s = CHR ''+'') then tl s else s);
          ip = takeWhile is_digit body; rest = dropWhile is_digit body
      in if rest = [] then if ip = [] then None else Some (f64_round neg (of_nat (digits_val 0 ip)))
         else let fp = tl rest
              in if hd rest = CHR ''.'' \<and> list_all is_digit fp \<and> (ip \<noteq> [] \<or> fp \<noteq> [])
                 then Some (f64_round neg (of_nat (digits_val 0 (ip @ fp)) / 10 ^ length fp))
                 else None)"

subsection \<open>Sizes\<close>

definition size_units :: "(string \<times> nat) list" where
  "size_units = [(''b'', 1), (''kb'', 10 ^ 3), (''mb'', 10 ^ 6), (''gb'', 10 ^ 9), (''tb'', 10 ^ 12),
     (''kib'', 2 ^ 10), (''mib'', 2 ^ 20), (''gib'', 2 ^ 30), (''tib'', 2 ^ 40)]"

definition parse_size :: "string \<Rightarrow> nat option" where
  "parse_size word =
     (let lower = to_ascii_lowercase word;
          num = takeWhile (\<lambda>c. \<not> is_alpha c) lower; unit = dropWhile (\<lambda>c. \<not> is_alpha c) lower
      in if unit = [] then None
         else case parse_f64 num of
                None \<Rightarrow> None
              | Some x \<Rightarrow>
                  (case map_of size_units unit of
                     None \<Rightarrow> None
                   | Some per \<Rightarrow>
                       if f64_lt x f64_zero then None
                       else Some (f64_as_u64 (f64_round_int (f64_mul x (Finite False (of_nat per)))))))"

subsection \<open>Durations\<close>

definition duration_units :: "(string \<times> nat) list" where
  "duration_units = [(''ns'', 1), (''us'', 10 ^ 3), (''ms'', 10 ^ 6), (''s'', 10 ^ 9), (''m'', 60 * 10 ^ 9),
     (''h'', 3600 * 10 ^ 9), (''d'', 86400 * 10 ^ 9), (''w'', 604800 * 10 ^ 9)]"

function duration_loop :: "string \<Rightarrow> f64 \<Rightarrow> bool \<Rightarrow> (f64 \<times> bool) option" where
  "duration_loop cur tot any =
     (if cur = [] then Some (tot, any)
      else let num = takeWhile (\<lambda>c. \<not> is_alpha c) cur; rest = dropWhile (\<lambda>c. \<not> is_alpha c) cur;
               unit = takeWhile is_alpha rest; next_part = dropWhile is_alpha rest
           in if rest = [] \<or> num = [] then None
              else case parse_f64 num of
                     None \<Rightarrow> None
                   | Some x \<Rightarrow>
                       (case map_of duration_units unit of
                          None \<Rightarrow> None
                        | Some ns \<Rightarrow>
                            duration_loop next_part (f64_add tot (f64_mul x (Finite False (of_nat ns)))) True))"
  by pat_completeness auto
termination
proof (relation "measure (\<lambda>(cur, _, _). length cur)", goal_cases)
  case (2 cur tot any num rest unit next_part x ns)
  have "length cur = length num + length rest" "num \<noteq> []"
    using 2 by (metis length_append takeWhile_dropWhile_id, blast)
  moreover have "length next_part \<le> length rest"
    using 2 by (simp add: length_dropWhile_le)
  ultimately have "length next_part < length cur"
    by (cases num) auto
  then show ?case
    by simp
qed simp

declare duration_loop.simps [simp del]

definition parse_duration :: "'z host \<Rightarrow> string \<Rightarrow> int option vresult" where
  "parse_duration h word =
     (let lower = to_ascii_lowercase word; neg = prefix ''-'' lower;
          rest = (if neg then tl lower else lower)
      in case duration_loop rest f64_zero False of
           None \<Rightarrow> Inr None
         | Some (tot, any) \<Rightarrow>
             if \<not> any then Inr None
             else let v = f64_as_i64 (f64_round_int tot)
                  in if neg then bindR (neg_i64 h v) (\<lambda>v. Inr (Some v)) else Inr (Some v))"

subsection \<open>Times of day\<close>

definition split_meridiem :: "string \<Rightarrow> string \<times> bool option" where
  "split_meridiem s =
     (if suffix ''am'' s then (take (length s - 2) s, Some False)
      else if suffix ''pm'' s then (take (length s - 2) s, Some True) else (s, None))"

abbreviation parse_u8 :: "string \<Rightarrow> nat option" where
  "parse_u8 \<equiv> parse_uint 255"

definition hour_of :: "bool option \<Rightarrow> nat \<Rightarrow> nat option" where
  "hour_of meridiem hr =
     (case meridiem of
        Some pm \<Rightarrow>
          if hr = 0 \<or> 12 < hr then None
          else Some (if pm \<and> hr \<noteq> 12 then hr + 12 else if \<not> pm \<and> hr = 12 then 0 else hr)
      | None \<Rightarrow> if 23 < hr then None else Some hr)"

definition parse_time :: "string \<Rightarrow> time_val option" where
  "parse_time word =
     (let (body, meridiem) = split_meridiem (to_ascii_lowercase word); parts = split_on CHR '':'' body
      in if length parts < 2 \<or> 3 < length parts then None
         else case (parse_u8 (parts ! 0), parse_u8 (parts ! 1),
                    if length parts = 3 then parse_u8 (parts ! 2) else Some 0) of
                (Some hr, Some mi, Some se) \<Rightarrow>
                  (case hour_of meridiem hr of
                     None \<Rightarrow> None
                   | Some hr \<Rightarrow>
                       if 59 < mi \<or> 59 < se then None
                       else Some \<lparr>hour = hr, minute = mi, sec = se\<rparr>)
              | _ \<Rightarrow> None)"

subsection \<open>Plain numbers with a unit\<close>

definition lower_char :: "char \<Rightarrow> bool" where
  "lower_char c \<longleftrightarrow> \<not> (CHR ''A'' \<le> c \<and> c \<le> CHR ''Z'')"

lemma lower_id: "list_all lower_char s \<Longrightarrow> to_ascii_lowercase s = s"
  by (induction s) (auto simp: to_ascii_lowercase_def lower_char_def)

lemma digit_char: "is_digit c \<Longrightarrow> lower_char c \<and> \<not> is_alpha c \<and> c \<noteq> CHR ''-'' \<and> c \<noteq> CHR ''+'' \<and> c \<noteq> CHR '':''"
  by (auto simp: is_digit_def lower_char_def is_alpha_def less_eq_char_def)

lemma dec_chars:
  "list_all lower_char (dec n)" "list_all (\<lambda>c. \<not> is_alpha c) (dec n)" "CHR '':'' \<notin> set (dec n)"
  using dec_digits [of n] digit_char by (auto simp: list_all_iff)

lemma parse_f64_dec: "parse_f64 (dec n) = Some (f64_round False (of_nat n))"
proof -
  obtain c cs where d: "dec n = c # cs" "is_digit c"
    using dec_digits [of n] by (cases "dec n") auto
  have "\<forall>x \<in> set cs. is_digit x"
    using dec_digits [of n] d by (simp add: list_all_iff)
  then show ?thesis
    using d digit_char [of c] digits_val_dec [of n]
    by (simp add: parse_f64_def Let_def takeWhile_eq_all_conv [THEN iffD2])
qed

lemma unit_split:
  assumes "list_all is_alpha u" "u \<noteq> []"
  shows "takeWhile (\<lambda>c. \<not> is_alpha c) (dec n @ u @ r) = dec n"
    and "dropWhile (\<lambda>c. \<not> is_alpha c) (dec n @ u @ r) = u @ r"
proof -
  obtain c cs where u: "u = c # cs" "is_alpha c"
    using assms by (cases u) auto
  have "\<forall>x \<in> set (dec n). \<not> is_alpha x"
    using dec_chars(2) [of n] by (simp add: list_all_iff)
  then show "takeWhile (\<lambda>c. \<not> is_alpha c) (dec n @ u @ r) = dec n"
    "dropWhile (\<lambda>c. \<not> is_alpha c) (dec n @ u @ r) = u @ r"
    using u by (simp_all add: takeWhile_append2 dropWhile_append2)
qed

lemma f64_nat_ops:
  assumes "m * k \<le> 2 ^ 53" "0 < k"
  shows "f64_mul (f64_round False (of_nat m)) (Finite False (of_nat k)) = Finite False (of_nat (m * k))"
proof -
  have "m \<le> m * k"
    using assms(2) by simp
  then have "f64_round False (of_nat m) = Finite False (of_nat m)"
    using f64_of_nat_exact [of m False] assms(1) by linarith
  then show ?thesis
    using f64_of_nat_exact [OF assms(1), of False] by simp
qed

lemma floor_half: "\<lfloor>of_nat n + 1 / 2 :: rat\<rfloor> = int n"
  by (rule floor_unique) simp_all

lemma casts_nat:
  "m \<le> U64_MAX \<Longrightarrow> f64_as_u64 (f64_round_int (Finite False (of_nat m))) = m"
  "m \<le> 2 ^ 53 \<Longrightarrow> f64_as_i64 (f64_round_int (Finite False (of_nat m))) = int m"
  unfolding f64_round_int.simps floor_half
  by (simp_all add: trunc_rat_def saturating_i64_def)

lemma size_units_ok:
  "map_of size_units u = Some k \<Longrightarrow> list_all is_alpha u \<and> list_all lower_char u \<and> u \<noteq> [] \<and> 0 < k"
  by (auto simp: size_units_def is_alpha_def lower_char_def less_eq_char_def split: if_splits)

lemma duration_units_ok:
  "map_of duration_units u = Some k \<Longrightarrow> list_all is_alpha u \<and> list_all lower_char u \<and> u \<noteq> [] \<and> 0 < k"
  by (auto simp: duration_units_def is_alpha_def lower_char_def less_eq_char_def split: if_splits)

lemma parse_size_exact:
  assumes "map_of size_units u = Some k" "n * k \<le> 2 ^ 53"
  shows "parse_size (dec n @ u) = Some (n * k)"
proof -
  have u: "list_all is_alpha u" "list_all lower_char u" "u \<noteq> []" "0 < k"
    using size_units_ok [OF assms(1)] by auto
  have "n \<le> n * k"
    using u(4) by simp
  then have n: "f64_round False (of_nat n) = Finite False (of_nat n)"
    using f64_of_nat_exact [of n False] assms(2) by linarith
  have "f64_as_u64 (f64_round_int (Finite False (of_nat (n * k)))) = n * k"
    using assms(2) by (intro casts_nat) simp
  moreover have "to_ascii_lowercase (dec n @ u) = dec n @ u"
    using u dec_chars [of n] by (intro lower_id) simp
  ultimately show ?thesis
    using unit_split [OF u(1,3), of n "[]"] f64_nat_ops [OF assms(2) u(4)] assms(1) u(3) parse_f64_dec [of n]
    by (simp add: parse_size_def Let_def n f64_lt_def signed_def del: dropWhile_eq_Nil_conv f64_round_int.simps)
qed

lemma duration_loop_step:
  assumes "map_of duration_units u = Some k" "r = [] \<or> is_digit (hd r)"
  shows "duration_loop (dec n @ u @ r) tot any
    = duration_loop r (f64_add tot (f64_mul (f64_round False (of_nat n)) (Finite False (of_nat k)))) True"
proof -
  have u: "list_all is_alpha u" "u \<noteq> []"
    using duration_units_ok [OF assms(1)] by auto
  have "takeWhile is_alpha r = []" "dropWhile is_alpha r = r"
    using assms(2) digit_char by (cases r; auto)+
  then have "takeWhile is_alpha (u @ r) = u" "dropWhile is_alpha (u @ r) = r"
    using u(1) by (simp_all add: list_all_iff takeWhile_append2 dropWhile_append2)
  then show ?thesis
    using unit_split [OF u, of n r] parse_f64_dec [of n] assms(1) u(2) dec_digits [of n]
    by (subst duration_loop.simps) (simp add: Let_def del: dropWhile_eq_Nil_conv)
qed

definition duration_word :: "(nat \<times> string) list \<Rightarrow> string" where
  "duration_word parts = concat (map (\<lambda>(n, u). dec n @ u) parts)"

definition duration_ns :: "(nat \<times> string) list \<Rightarrow> nat" where
  "duration_ns parts = sum_list (map (\<lambda>(n, u). n * the (map_of duration_units u)) parts)"

lemma duration_word_head: "duration_word parts = [] \<or> is_digit (hd (duration_word parts))"
proof (cases parts)
  case (Cons p ps)
  then show ?thesis
    using dec_digits [of "fst p"] by (cases "dec (fst p)") (auto simp: duration_word_def case_prod_beta)
qed (simp add: duration_word_def)

lemma f64_add_nat:
  "m + n \<le> 2 ^ 53 \<Longrightarrow> f64_add (Finite False (of_nat m)) (Finite False (of_nat n)) = Finite False (of_nat (m + n))"
  using f64_of_nat_exact [of "m + n" False] by (simp add: signed_def)

lemma duration_loop_word:
  assumes "\<forall>(n, u) \<in> set parts. map_of duration_units u \<noteq> None" "t + duration_ns parts \<le> 2 ^ 53"
  shows "duration_loop (duration_word parts) (Finite False (of_nat t)) any
    = Some (Finite False (of_nat (t + duration_ns parts)), any \<or> parts \<noteq> [])"
  using assms
proof (induction parts arbitrary: t any)
  case Nil
  then show ?case
    by (simp add: duration_word_def duration_ns_def duration_loop.simps)
next
  case (Cons p parts)
  obtain n u where p: "p = (n, u)"
    by (cases p)
  then obtain k where k: "map_of duration_units u = Some k"
    using Cons.prems(1) by auto
  have word: "duration_word (p # parts) = dec n @ u @ duration_word parts"
    and ns: "duration_ns (p # parts) = n * k + duration_ns parts"
    by (simp_all add: p k duration_word_def duration_ns_def)
  have "n * k \<le> 2 ^ 53" "t + n * k \<le> 2 ^ 53" "t + n * k + duration_ns parts \<le> 2 ^ 53"
    using Cons.prems(2) ns by linarith+
  then show ?case
    using Cons.IH [of "t + n * k" True] Cons.prems(1) duration_units_ok [OF k]
    unfolding word ns duration_loop_step [OF k duration_word_head]
    by (simp add: f64_nat_ops f64_add_nat del: f64_add.simps f64_mul.simps of_nat_add of_nat_mult)
qed

lemma duration_word_lower:
  "\<forall>(n, u) \<in> set parts. map_of duration_units u \<noteq> None \<Longrightarrow> list_all lower_char (duration_word parts)"
  using duration_units_ok dec_chars(1) by (induction parts) (auto simp: duration_word_def)

lemma parse_duration_exact:
  assumes "parts \<noteq> []" "\<forall>(n, u) \<in> set parts. map_of duration_units u \<noteq> None" "duration_ns parts \<le> 2 ^ 53"
  shows "parse_duration h (duration_word parts) = Inr (Some (int (duration_ns parts)))"
    and "parse_duration h (CHR ''-'' # duration_word parts) = Inr (Some (- int (duration_ns parts)))"
proof -
  have loop: "duration_loop (duration_word parts) f64_zero False
      = Some (Finite False (of_nat (duration_ns parts)), True)"
    using duration_loop_word [OF assms(2), of 0 False] assms(1,3) by simp
  have lower: "to_ascii_lowercase (duration_word parts) = duration_word parts"
    "to_ascii_lowercase (CHR ''-'' # duration_word parts) = CHR ''-'' # duration_word parts"
    using duration_word_lower [OF assms(2)]
    by (auto intro!: lower_id simp: lower_char_def less_eq_char_def)
  have "\<not> prefix ''-'' (duration_word parts)"
    using duration_word_head [of parts] digit_char [of "CHR ''-''"] by (auto simp: prefix_def)
  then show "parse_duration h (duration_word parts) = Inr (Some (int (duration_ns parts)))"
    using lower(1) loop casts_nat(2) [OF assms(3)]
    by (simp add: parse_duration_def Let_def del: f64_round_int.simps)
  have "neg_i64 h (int (duration_ns parts)) = Inr (- int (duration_ns parts))"
    by (simp add: neg_i64_def)
  then show "parse_duration h (CHR ''-'' # duration_word parts) = Inr (Some (- int (duration_ns parts)))"
    using lower(2) loop casts_nat(2) [OF assms(3)]
    by (simp add: parse_duration_def Let_def del: f64_round_int.simps)
qed

subsection \<open>Properties\<close>

text \<open>
  A size or a duration written with plain numbers is read exactly while it stays below \<open>2^53\<close>: a
  number with a unit is that many units, a compound duration is the sum of its parts, and a leading
  minus sign negates it.
\<close>

theorem unit_words_exact:
  assumes "map_of size_units su = Some k" "m * k \<le> 2 ^ 53"
    and "parts \<noteq> []" "\<forall>(n, u) \<in> set parts. map_of duration_units u \<noteq> None" "duration_ns parts \<le> 2 ^ 53"
  shows "parse_size (dec m @ su) = Some (m * k)
    \<and> parse_duration h (duration_word parts) = Inr (Some (int (duration_ns parts)))
    \<and> parse_duration h (CHR ''-'' # duration_word parts) = Inr (Some (- int (duration_ns parts)))"
  using parse_size_exact [OF assms(1,2)] parse_duration_exact [OF assms(3-5)] by blast

theorem unit_words_exact_witness:
  "parse_duration \<lparr>timestamp_ns = id, zoned_add = (\<lambda>z d. Inr (z + d)), overflow_checks = True\<rparr> ''1m30s''
   = Inr (Some 90000000000)"
proof -
  have "dec 1 = ''1''" "dec 30 = ''30''"
    by code_simp+
  then have "duration_word [(1, ''m''), (30, ''s'')] = ''1m30s''"
    "duration_ns [(1, ''m''), (30, ''s'')] = 90000000000"
    by (simp_all add: duration_word_def duration_ns_def duration_units_def)
  then show ?thesis
    using unit_words_exact [of "''b''" 1 0 "[(1, ''m''), (30, ''s'')]"
        "\<lparr>timestamp_ns = id, zoned_add = (\<lambda>z d. Inr (z + d)), overflow_checks = True\<rparr>"]
    by (simp add: size_units_def duration_units_def)
qed

text \<open>
  The times of day the parser returns are times of day, and it reads every time written out on
  the 24-hour clock.
\<close>

theorem time_words_roundtrip:
  "(parse_time w = Some t \<longrightarrow> hour t < 24 \<and> minute t < 60 \<and> sec t < 60)
   \<and> (hour t < 24 \<longrightarrow> minute t < 60 \<longrightarrow> sec t < 60 \<longrightarrow>
      parse_time (dec (hour t) @ '':'' @ dec (minute t) @ '':'' @ dec (sec t)) = Some t)"
proof (intro conjI impI)
  assume *: "hour t < 24" "minute t < 60" "sec t < 60"
  let ?w = "dec (hour t) @ '':'' @ dec (minute t) @ '':'' @ dec (sec t)"
  have "to_ascii_lowercase ?w = ?w"
    using dec_chars(1) by (intro lower_id) (simp add: lower_char_def less_eq_char_def)
  moreover have "split_on CHR '':'' ?w = [dec (hour t), dec (minute t), dec (sec t)]"
    using dec_chars(3) by (simp add: split_on_append split_on_no_sep)
  moreover have "\<not> suffix (c # ''m'') ?w" for c
  proof
    assume "suffix (c # ''m'') ?w"
    then obtain zs where e: "?w = zs @ c # ''m''"
      unfolding suffix_def by blast
    have "last ?w = CHR ''m''"
      unfolding e by simp
    moreover have "last ?w = last (dec (sec t))" "is_digit (last (dec (sec t)))"
      using dec_digits [of "sec t"] by (auto simp: list_all_iff)
    ultimately have "is_digit CHR ''m''"
      by metis
    then show False
      by (simp add: is_digit_def less_eq_char_def)
  qed
  moreover have "parse_u8 (dec n) = Some n" if "n < 60" for n
    using that by (intro parse_uint_dec) simp
  ultimately show "parse_time ?w = Some t"
    using * by (simp add: parse_time_def split_meridiem_def hour_of_def Let_def)
qed (auto simp: parse_time_def hour_of_def Let_def split: prod.splits option.splits if_splits)

text \<open>
  A duration that starts with two minus signs and is too large saturates at the least 64-bit integer,
  which the last step negates without a check.
\<close>

lemma f64_round_large: "f64_round True 12096000000000000000 = Finite True 12096000000000000000"
proof (rule f64_round_exact)
  have "floor_log2 12096000000000000000 = 63"
    by (rule floor_log2_eqI) (simp_all add: power_int_def)
  then show "12096000000000000000 = (of_int 5906250000000000 :: rat) * 2 powi ulp_exp 12096000000000000000"
    by (simp add: ulp_exp_def power_int_def)
qed simp

theorem parse_duration_negation_unchecked:
  "parse_duration h ''--20000w'' =
     (if overflow_checks h then Inl (Panicked ''attempt to negate with overflow'') else Inr (Some I64_MIN))"
proof -
  have lower: "to_ascii_lowercase ''--20000w'' = ''--20000w''"
    by (rule lower_id) (simp add: lower_char_def less_eq_char_def)
  have "f64_round True 20000 = Finite True 20000"
    using f64_of_nat_exact [of 20000 True] by simp
  then have "parse_f64 ''-20000'' = Some (Finite True 20000)"
    by (simp add: parse_f64_def is_digit_def less_eq_char_def digit_val_def)
  then have "duration_loop ''-20000w'' f64_zero False = Some (Finite True 12096000000000000000, True)"
    using f64_round_large
    by (subst duration_loop.simps) (simp add: is_alpha_def less_eq_char_def duration_units_def
        duration_loop.simps [of "[]"] signed_def)
  moreover have "\<lfloor>24192000000000000001 / 2 :: rat\<rfloor> = 12096000000000000000"
    by (rule floor_unique) simp_all
  ultimately show ?thesis
    by (simp add: parse_duration_def Let_def lower neg_i64_def trunc_rat_def saturating_i64_def)
qed

end
