(* ===== verification/Value_Env.thy ===== *)
theory Value_Env
  imports Value_Retained "HOL-Library.AList"
begin

text \<open>
  Lexical scopes (\<open>value/env.rs\<close>). A scope is shared by reference, so the scopes of a session are a
  store of scopes by address; the budget a family of scopes shares is a cell of its own. An address
  handed out by \<open>root\<close>, \<open>child\<close> or \<open>isolated\<close> is an \<open>Env\<close>. Reservation of memory for a table may
  fail: \<open>reserve n\<close> is the allocator's answer to a request for \<open>n\<close> more entries. A poisoned lock is
  recovered with its contents, so it does not show here.

  \<open>env_declare\<close>, \<open>env_declare_many\<close> and \<open>env_assign\<close> are what a call does when it returns. The calls
  themselves are \<open>declare_call\<close>, \<open>declare_many_call\<close> and \<open>assign_call\<close>: the value a call replaces is
  dropped while the lock of the budget is held, and if that frees a scope of the session, the
  destructor of the scope asks for the same lock, so the call does not return (\<open>None\<close>). Every call
  holds the lock of the scope it works on, and of the budget, from the lookup of the binding to its
  last store, so a call is one step; \<open>assign\<close> releases the lock of a scope before it looks into the
  parent, and its walk is taken as one step with the stores at its end.
\<close>

definition ENV_BINDING_NAME_BYTES :: nat where "ENV_BINDING_NAME_BYTES = 256"
definition ENV_BINDING_IDENTITY_CAP :: nat where "ENV_BINDING_IDENTITY_CAP = 4096"
definition ENV_BINDING_VALUE_BYTES :: nat where "ENV_BINDING_VALUE_BYTES = 4 * 1024 * 1024"
definition ENV_BINDING_AGGREGATE_BYTES :: nat where "ENV_BINDING_AGGREGATE_BYTES = 16 * 1024 * 1024"
definition ENV_BINDING_VALUE_DEPTH :: nat where "ENV_BINDING_VALUE_DEPTH = 64"
definition ENV_BINDING_VALUE_NODES :: nat where "ENV_BINDING_VALUE_NODES = 16 * 1024"
definition ENV_OPAQUE_HANDLE_CHARGE :: nat where "ENV_OPAQUE_HANDLE_CHARGE = 64 * 1024"

lemmas env_caps = ENV_BINDING_NAME_BYTES_def ENV_BINDING_IDENTITY_CAP_def ENV_BINDING_VALUE_BYTES_def
  ENV_BINDING_AGGREGATE_BYTES_def ENV_BINDING_VALUE_DEPTH_def ENV_BINDING_VALUE_NODES_def
  ENV_OPAQUE_HANDLE_CHARGE_def

definition env_limits :: retained_limits where
  "env_limits = \<lparr>max_bytes = ENV_BINDING_VALUE_BYTES, max_depth = ENV_BINDING_VALUE_DEPTH,
     max_nodes = ENV_BINDING_VALUE_NODES, opaque_mode = Charge ENV_OPAQUE_HANDLE_CHARGE,
     allow_secret = True\<rparr>"

record ('z, 'a) binding =
  bound_value :: "('z, 'a) val"
  mutable :: bool
  value_bytes :: nat

record env_budget =
  identities :: nat
  retained_bytes :: nat

record ('z, 'a) scope =
  vars :: "(string \<times> ('z, 'a) binding) list"
  parent :: "nat option"
  budget :: nat

record ('z, 'a) env_store =
  scopes :: "(nat \<times> ('z, 'a) scope) list"
  budgets :: "(nat \<times> env_budget) list"
  fresh :: nat

datatype assign_error = NotFound | Immutable | Limit failure

subsection \<open>Helpers\<close>

definition validate_binding_name :: "string \<Rightarrow> unit vresult" where
  "validate_binding_name name =
     (if length name \<le> ENV_BINDING_NAME_BYTES then Inr ()
      else fail ''binding_name_limit''
        (''binding name is '' @ dec (length name) @ '' UTF-8 bytes; maximum is ''
          @ dec ENV_BINDING_NAME_BYTES))"

definition measure_binding_value :: "('z, 'a) layout \<Rightarrow> ('z, 'a) val \<Rightarrow> nat vresult" where
  "measure_binding_value L v =
     (case retained_size L v env_limits of
        Inr n \<Rightarrow> Inr n
      | Inl e \<Rightarrow>
          let detail = (case e of
            BytesOver m mx \<Rightarrow> ''retains '' @ dec m @ '' bytes; maximum per binding is '' @ dec mx
          | DepthOver m mx \<Rightarrow> ''has depth '' @ dec m @ ''; maximum is '' @ dec mx
          | NodesOver m mx \<Rightarrow> ''has '' @ dec m @ '' nodes; maximum is '' @ dec mx
          | OpaqueKind k \<Rightarrow> ''contains unsupported '' @ k @ '' state''
          | SecretKind \<Rightarrow> ''contains a secret disallowed by policy''
          | AccountingOverflow \<Rightarrow> ''retained-size accounting overflowed'')
          in fail ''binding_value_limit'' (''environment binding value '' @ detail))"

definition binding_charge :: "('z, 'a) layout \<Rightarrow> string \<Rightarrow> nat \<Rightarrow> nat" where
  "binding_charge L name bytes =
     saturating_usize (saturating_usize (length name + bytes) + size_of_binding L)"

definition ensure_aggregate_bytes :: "nat \<Rightarrow> unit vresult" where
  "ensure_aggregate_bytes n =
     (if n \<le> ENV_BINDING_AGGREGATE_BYTES then Inr ()
      else fail ''binding_aggregate_limit''
        (''environment bindings would retain '' @ dec n @ '' bytes; session maximum is ''
          @ dec ENV_BINDING_AGGREGATE_BYTES))"

definition binding_accounting_overflow :: failure where
  "binding_accounting_overflow = Raised (error_new ''binding_aggregate_limit''
     ''environment retained-size accounting overflowed'')"

definition identity_limit :: failure where
  "identity_limit = Raised (error_new ''binding_identity_limit''
     (''environment binding identity limit ('' @ dec ENV_BINDING_IDENTITY_CAP
       @ '') reached; replace or remove a binding before declaring another''))"

definition or_accounting :: "nat option \<Rightarrow> nat vresult" where
  "or_accounting x = (case x of None \<Rightarrow> Inl binding_accounting_overflow | Some n \<Rightarrow> Inr n)"

definition set_scope :: "nat \<Rightarrow> ('z, 'a) scope \<Rightarrow> ('z, 'a) env_store \<Rightarrow> ('z, 'a) env_store" where
  "set_scope e s st = st\<lparr>scopes := AList.update e s (scopes st)\<rparr>"

definition set_budget :: "nat \<Rightarrow> env_budget \<Rightarrow> ('z, 'a) env_store \<Rightarrow> ('z, 'a) env_store" where
  "set_budget b x st = st\<lparr>budgets := AList.update b x (budgets st)\<rparr>"

text \<open>A live scope and its budget; the defaults stand for addresses that are not live.\<close>

definition scope_at :: "('z, 'a) env_store \<Rightarrow> nat \<Rightarrow> ('z, 'a) scope" where
  "scope_at st e =
     (case map_of (scopes st) e of Some s \<Rightarrow> s | None \<Rightarrow> \<lparr>vars = [], parent = None, budget = 0\<rparr>)"

definition budget_at :: "('z, 'a) env_store \<Rightarrow> nat \<Rightarrow> env_budget" where
  "budget_at st b =
     (case map_of (budgets st) b of Some x \<Rightarrow> x | None \<Rightarrow> \<lparr>identities = 0, retained_bytes = 0\<rparr>)"

subsection \<open>Creating scopes\<close>

definition new_scope :: "nat option \<Rightarrow> nat \<Rightarrow> ('z, 'a) env_store \<Rightarrow> nat \<times> ('z, 'a) env_store" where
  "new_scope p b st =
     (fresh st, st\<lparr>scopes := (fresh st, \<lparr>vars = [], parent = p, budget = b\<rparr>) # scopes st,
                  fresh := fresh st + 1\<rparr>)"

definition env_root :: "('z, 'a) env_store \<Rightarrow> nat \<times> ('z, 'a) env_store" where
  "env_root st =
     new_scope None (fresh st)
       (st\<lparr>budgets := (fresh st, \<lparr>identities = 0, retained_bytes = 0\<rparr>) # budgets st\<rparr>)"

definition env_child :: "nat \<Rightarrow> ('z, 'a) env_store \<Rightarrow> nat \<times> ('z, 'a) env_store" where
  "env_child e st = new_scope (Some e) (budget (scope_at st e)) st"

definition env_isolated :: "nat \<Rightarrow> ('z, 'a) env_store \<Rightarrow> nat \<times> ('z, 'a) env_store" where
  "env_isolated e st = new_scope None (budget (scope_at st e)) st"

subsection \<open>Declaring and removing\<close>

definition env_declare ::
  "('z, 'a) layout \<Rightarrow> (nat \<Rightarrow> string option) \<Rightarrow> nat \<Rightarrow> string \<Rightarrow> ('z, 'a) val \<Rightarrow> bool
     \<Rightarrow> ('z, 'a) env_store \<Rightarrow> unit vresult \<times> ('z, 'a) env_store" where
  "env_declare L reserve e name v mut st =
     (let s = scope_at st e; b = budget_at st (budget s);
          staged =
            bindR (validate_binding_name name) (\<lambda>_.
            bindR (measure_binding_value L v) (\<lambda>bytes.
            let bd = \<lparr>bound_value = v, mutable = mut, value_bytes = bytes\<rparr> in
            case map_of (vars s) name of
              Some old \<Rightarrow>
                bindR (or_accounting (checked_usize ((retained_bytes b - value_bytes old) + bytes))) (\<lambda>n.
                bindR (ensure_aggregate_bytes n) (\<lambda>_. Inr (bd, b\<lparr>retained_bytes := n\<rparr>)))
            | None \<Rightarrow>
                (case reserve 1 of
                   Some err \<Rightarrow> fail ''binding_aggregate_limit''
                     (''cannot reserve another environment binding: '' @ err)
                 | None \<Rightarrow>
                     if ENV_BINDING_IDENTITY_CAP \<le> identities b then Inl identity_limit
                     else bindR (or_accounting (checked_usize (retained_bytes b + binding_charge L name bytes))) (\<lambda>n.
                          bindR (ensure_aggregate_bytes n) (\<lambda>_.
                            Inr (bd, \<lparr>identities = identities b + 1, retained_bytes = n\<rparr>))))))
      in case staged of
           Inl err \<Rightarrow> (Inl err, st)
         | Inr (bd, b') \<Rightarrow>
             (Inr (), set_budget (budget s) b' (set_scope e (s\<lparr>vars := AList.update name bd (vars s)\<rparr>) st)))"

type_synonym ('z, 'a) staged = "(string \<times> ('z, 'a) binding) list"

text \<open>The first loop of \<open>declare_many\<close>: every name is checked, distinct and measured.\<close>

fun measure_all ::
  "('z, 'a) layout \<Rightarrow> (string \<times> ('z, 'a) val \<times> bool) list \<Rightarrow> ('z, 'a) staged \<Rightarrow> ('z, 'a) staged vresult" where
  "measure_all L [] done_so_far = Inr done_so_far"
| "measure_all L ((name, v, mut) # rest) done_so_far =
     bindR (validate_binding_name name) (\<lambda>_.
     if name \<in> fst ` set done_so_far
     then fail ''binding_transaction''
       (''binding transaction contains duplicate name `'' @ name @ ''`'')
     else bindR (measure_binding_value L v) (\<lambda>bytes.
       measure_all L rest (done_so_far
         @ [(name, \<lparr>bound_value = v, mutable = mut, value_bytes = bytes\<rparr>)])))"

fun charge_all ::
  "('z, 'a) layout \<Rightarrow> (string \<times> ('z, 'a) binding) list \<Rightarrow> ('z, 'a) staged \<Rightarrow> nat \<Rightarrow> nat vresult" where
  "charge_all L vs [] n = Inr n"
| "charge_all L vs ((name, bd) # rest) n =
     bindR (or_accounting
       (case map_of vs name of
          Some old \<Rightarrow> checked_usize ((n - value_bytes old) + value_bytes bd)
        | None \<Rightarrow> checked_usize (n + binding_charge L name (value_bytes bd))))
     (charge_all L vs rest)"

definition new_names :: "(string \<times> ('z, 'a) binding) list \<Rightarrow> ('z, 'a) staged \<Rightarrow> string list" where
  "new_names vs staged = filter (\<lambda>n. map_of vs n = None) (map fst staged)"

fun install :: "('z, 'a) staged \<Rightarrow> (string \<times> ('z, 'a) binding) list \<Rightarrow> (string \<times> ('z, 'a) binding) list" where
  "install [] vs = vs"
| "install ((name, bd) # rest) vs = install rest (AList.update name bd vs)"

text \<open>Everything \<open>declare_many\<close> decides before it installs anything.\<close>

definition stage_many ::
  "('z, 'a) layout \<Rightarrow> (nat \<Rightarrow> string option) \<Rightarrow> (nat \<Rightarrow> string option) \<Rightarrow> env_budget
     \<Rightarrow> (string \<times> ('z, 'a) binding) list \<Rightarrow> (string \<times> ('z, 'a) val \<times> bool) list
     \<Rightarrow> (('z, 'a) staged \<times> env_budget) vresult" where
  "stage_many L stage reserve b vs bindings =
     (case stage (length bindings) of
        Some err \<Rightarrow> fail ''binding_aggregate_limit''
          (''cannot stage environment binding transaction: '' @ err)
      | None \<Rightarrow>
          bindR (measure_all L bindings []) (\<lambda>measured.
          let new_identities = length (new_names vs measured) in
          case reserve new_identities of
            Some err \<Rightarrow> fail ''binding_aggregate_limit''
              (''cannot reserve environment binding transaction: '' @ err)
          | None \<Rightarrow>
              bindR (or_accounting (checked_usize (identities b + new_identities))) (\<lambda>ids.
              if ENV_BINDING_IDENTITY_CAP < ids then Inl identity_limit
              else bindR (charge_all L vs measured (retained_bytes b)) (\<lambda>n.
                   bindR (ensure_aggregate_bytes n) (\<lambda>_.
                     Inr (measured, \<lparr>identities = ids, retained_bytes = n\<rparr>))))))"

definition env_declare_many ::
  "('z, 'a) layout \<Rightarrow> (nat \<Rightarrow> string option) \<Rightarrow> (nat \<Rightarrow> string option) \<Rightarrow> nat
     \<Rightarrow> (string \<times> ('z, 'a) val \<times> bool) list \<Rightarrow> ('z, 'a) env_store
     \<Rightarrow> unit vresult \<times> ('z, 'a) env_store" where
  "env_declare_many L stage reserve e bindings st =
     (let s = scope_at st e
      in case stage_many L stage reserve (budget_at st (budget s)) (vars s) bindings of
           Inl err \<Rightarrow> (Inl err, st)
         | Inr (measured, b') \<Rightarrow>
             (Inr (), set_budget (budget s) b' (set_scope e (s\<lparr>vars := install measured (vars s)\<rparr>) st)))"

definition env_remove_local ::
  "('z, 'a) layout \<Rightarrow> nat \<Rightarrow> string \<Rightarrow> ('z, 'a) env_store
     \<Rightarrow> ('z, 'a) binding option \<times> ('z, 'a) env_store" where
  "env_remove_local L e name st =
     (let s = scope_at st e; b = budget_at st (budget s)
      in case map_of (vars s) name of
           None \<Rightarrow> (None, st)
         | Some bd \<Rightarrow>
             (Some bd, set_budget (budget s)
                \<lparr>identities = identities b - 1,
                 retained_bytes = retained_bytes b - binding_charge L name (value_bytes bd)\<rparr>
                (set_scope e (s\<lparr>vars := AList.delete name (vars s)\<rparr>) st)))"

text \<open>\<open>Drop for EnvInner\<close>: the last handle to a scope is gone.\<close>

definition scope_charge :: "('z, 'a) layout \<Rightarrow> (string \<times> ('z, 'a) binding) list \<Rightarrow> nat" where
  "scope_charge L vs = sum_list (map (\<lambda>(name, bd). binding_charge L name (value_bytes bd)) vs)"

definition env_drop :: "('z, 'a) layout \<Rightarrow> nat \<Rightarrow> ('z, 'a) env_store \<Rightarrow> ('z, 'a) env_store" where
  "env_drop L e st =
     (let s = scope_at st e; b = budget_at st (budget s)
      in set_budget (budget s)
           \<lparr>identities = identities b - length (vars s),
            retained_bytes = retained_bytes b - saturating_usize (scope_charge L (vars s))\<rparr>
           (st\<lparr>scopes := AList.delete e (scopes st)\<rparr>))"

subsection \<open>Looking up and assigning\<close>

text \<open>
  The walk up the parents. A parent is older than its children, so as many steps as the address of
  the scope reach the root.
\<close>

fun walk :: "nat \<Rightarrow> ('z, 'a) env_store \<Rightarrow> nat \<Rightarrow> (nat \<times> ('z, 'a) scope) list" where
  "walk 0 st e = []"
| "walk (Suc n) st e =
     (case map_of (scopes st) e of
        None \<Rightarrow> []
      | Some s \<Rightarrow> (e, s) # (case parent s of None \<Rightarrow> [] | Some p \<Rightarrow> walk n st p))"

definition chain :: "('z, 'a) env_store \<Rightarrow> nat \<Rightarrow> (nat \<times> ('z, 'a) scope) list" where
  "chain st e = walk (Suc e) st e"

fun get_in :: "string \<Rightarrow> (nat \<times> ('z, 'a) scope) list \<Rightarrow> ('z, 'a) val option" where
  "get_in name [] = None"
| "get_in name ((e, s) # rest) =
     (case map_of (vars s) name of Some bd \<Rightarrow> Some (bound_value bd) | None \<Rightarrow> get_in name rest)"

definition env_get :: "('z, 'a) env_store \<Rightarrow> nat \<Rightarrow> string \<Rightarrow> ('z, 'a) val option" where
  "env_get st e name = get_in name (chain st e)"

definition env_is_bound :: "('z, 'a) env_store \<Rightarrow> nat \<Rightarrow> string \<Rightarrow> bool" where
  "env_is_bound st e name \<longleftrightarrow> env_get st e name \<noteq> None"

fun assign_in ::
  "string \<Rightarrow> ('z, 'a) val \<Rightarrow> nat \<Rightarrow> (nat \<times> ('z, 'a) scope) list \<Rightarrow> ('z, 'a) env_store
     \<Rightarrow> (assign_error, unit) result \<times> ('z, 'a) env_store" where
  "assign_in name v bytes [] st = (Inl NotFound, st)"
| "assign_in name v bytes ((e, s) # rest) st =
     (case map_of (vars s) name of
        None \<Rightarrow> assign_in name v bytes rest st
      | Some bd \<Rightarrow>
          if \<not> mutable bd then (Inl Immutable, st)
          else let b = budget_at st (budget s) in
            case bindR (or_accounting (checked_usize ((retained_bytes b - value_bytes bd) + bytes)))
                   (\<lambda>n. bindR (ensure_aggregate_bytes n) (\<lambda>_. Inr n)) of
              Inl err \<Rightarrow> (Inl (Limit err), st)
            | Inr n \<Rightarrow>
                (Inr (), set_budget (budget s) (b\<lparr>retained_bytes := n\<rparr>)
                   (set_scope e (s\<lparr>vars := AList.update name
                      (bd\<lparr>bound_value := v, value_bytes := bytes\<rparr>) (vars s)\<rparr>) st)))"

definition env_assign ::
  "('z, 'a) layout \<Rightarrow> nat \<Rightarrow> string \<Rightarrow> ('z, 'a) val \<Rightarrow> ('z, 'a) env_store
     \<Rightarrow> (assign_error, unit) result \<times> ('z, 'a) env_store" where
  "env_assign L e name v st =
     (case measure_binding_value L v of
        Inl err \<Rightarrow> (Inl (Limit err), st)
      | Inr bytes \<Rightarrow> assign_in name v bytes (chain st e) st)"

subsection \<open>Calls\<close>

text \<open>
  The reference counts of scopes are not part of the store: \<open>frees vs\<close> says that dropping the values
  \<open>vs\<close> gives up the last handle to a scope with this budget, which only a closure can hold.
\<close>

definition replaced_values ::
  "string list \<Rightarrow> (string \<times> ('z, 'a) binding) list \<Rightarrow> ('z, 'a) val list" where
  "replaced_values names vs = map bound_value (List.map_filter (map_of vs) names)"

definition hangs :: "(('z, 'a) val list \<Rightarrow> bool) \<Rightarrow> ('z, 'a) val list \<Rightarrow> bool" where
  "hangs frees old \<longleftrightarrow> old \<noteq> [] \<and> frees old"

definition returns ::
  "(('z, 'a) val list \<Rightarrow> bool) \<Rightarrow> ('z, 'a) val list \<Rightarrow> ('e, 'r) result \<times> ('z, 'a) env_store
     \<Rightarrow> (('e, 'r) result \<times> ('z, 'a) env_store) option" where
  "returns frees old out = (if \<not> isl (fst out) \<and> hangs frees old then None else Some out)"

definition declare_call ::
  "('z, 'a) layout \<Rightarrow> (nat \<Rightarrow> string option) \<Rightarrow> (('z, 'a) val list \<Rightarrow> bool) \<Rightarrow> nat \<Rightarrow> string
     \<Rightarrow> ('z, 'a) val \<Rightarrow> bool \<Rightarrow> ('z, 'a) env_store \<Rightarrow> (unit vresult \<times> ('z, 'a) env_store) option" where
  "declare_call L reserve frees e name v mut st =
     returns frees (replaced_values [name] (vars (scope_at st e))) (env_declare L reserve e name v mut st)"

definition declare_many_call ::
  "('z, 'a) layout \<Rightarrow> (nat \<Rightarrow> string option) \<Rightarrow> (nat \<Rightarrow> string option) \<Rightarrow> (('z, 'a) val list \<Rightarrow> bool)
     \<Rightarrow> nat \<Rightarrow> (string \<times> ('z, 'a) val \<times> bool) list \<Rightarrow> ('z, 'a) env_store
     \<Rightarrow> (unit vresult \<times> ('z, 'a) env_store) option" where
  "declare_many_call L stage reserve frees e bindings st =
     returns frees (replaced_values (map fst bindings) (vars (scope_at st e)))
       (env_declare_many L stage reserve e bindings st)"

definition assign_call ::
  "('z, 'a) layout \<Rightarrow> (('z, 'a) val list \<Rightarrow> bool) \<Rightarrow> nat \<Rightarrow> string \<Rightarrow> ('z, 'a) val
     \<Rightarrow> ('z, 'a) env_store \<Rightarrow> ((assign_error, unit) result \<times> ('z, 'a) env_store) option" where
  "assign_call L frees e name v st =
     returns frees (case env_get st e name of Some old \<Rightarrow> [old] | None \<Rightarrow> []) (env_assign L e name v st)"

definition visible_names :: "('z, 'a) env_store \<Rightarrow> nat \<Rightarrow> string list" where
  "visible_names st e =
     rev (fold (\<lambda>k seen. if k \<in> set seen then seen else k # seen)
       (concat (map (\<lambda>(_, s). map fst (vars s)) (chain st e))) [])"

subsection \<open>The accounting invariant\<close>

definition family_total :: "(('z, 'a) scope \<Rightarrow> nat) \<Rightarrow> ('z, 'a) env_store \<Rightarrow> nat \<Rightarrow> nat" where
  "family_total f st b = sum_list (map (\<lambda>(_, s). if budget s = b then f s else 0) (scopes st))"

definition live_identities :: "('z, 'a) env_store \<Rightarrow> nat \<Rightarrow> nat" where
  "live_identities st b = family_total (\<lambda>s. length (vars s)) st b"

definition live_charge :: "('z, 'a) layout \<Rightarrow> ('z, 'a) env_store \<Rightarrow> nat \<Rightarrow> nat" where
  "live_charge L st b = family_total (\<lambda>s. scope_charge L (vars s)) st b"

definition vars_ok :: "(string \<times> ('z, 'a) binding) list \<Rightarrow> bool" where
  "vars_ok vs \<longleftrightarrow> distinct (map fst vs)
     \<and> (\<forall>(name, bd) \<in> set vs. length name \<le> ENV_BINDING_NAME_BYTES
          \<and> value_bytes bd \<le> ENV_BINDING_VALUE_BYTES)"

definition scope_ok :: "('z, 'a) env_store \<Rightarrow> nat \<Rightarrow> ('z, 'a) scope \<Rightarrow> bool" where
  "scope_ok st e s \<longleftrightarrow> e < fresh st \<and> vars_ok (vars s) \<and> budget s \<in> fst ` set (budgets st)
     \<and> (\<forall>p. parent s = Some p \<longrightarrow>
          p < e \<and> (\<exists>s'. map_of (scopes st) p = Some s' \<and> budget s' = budget s))"

definition budget_exact :: "('z, 'a) layout \<Rightarrow> ('z, 'a) env_store \<Rightarrow> nat \<Rightarrow> env_budget \<Rightarrow> bool" where
  "budget_exact L st b x \<longleftrightarrow> identities x = live_identities st b \<and> retained_bytes x = live_charge L st b
     \<and> identities x \<le> ENV_BINDING_IDENTITY_CAP \<and> retained_bytes x \<le> ENV_BINDING_AGGREGATE_BYTES"

definition store_ok :: "('z, 'a) layout \<Rightarrow> ('z, 'a) env_store \<Rightarrow> bool" where
  "store_ok L st \<longleftrightarrow> distinct (map fst (scopes st)) \<and> distinct (map fst (budgets st))
     \<and> (\<forall>(e, s) \<in> set (scopes st). scope_ok st e s)
     \<and> (\<forall>(b, x) \<in> set (budgets st). b < fresh st \<and> budget_exact L st b x)"

text \<open>The size of a binding is a few words, so that its charge cannot saturate.\<close>

definition small_binding :: "('z, 'a) layout \<Rightarrow> bool" where
  "small_binding L \<longleftrightarrow> size_of_binding L \<le> 4096"

lemma store_ok_scope: "store_ok L st \<Longrightarrow> map_of (scopes st) e = Some s \<Longrightarrow> scope_ok st e s"
  by (auto simp: store_ok_def dest: map_of_SomeD)

lemma store_ok_budget:
  assumes "store_ok L st" "map_of (scopes st) e = Some s"
  shows "map_of (budgets st) (budget s) = Some (budget_at st (budget s))"
    and "budget_exact L st (budget s) (budget_at st (budget s))"
proof -
  have "budget s \<in> fst ` set (budgets st)"
    using store_ok_scope [OF assms] by (simp add: scope_ok_def)
  then obtain x where x: "map_of (budgets st) (budget s) = Some x"
    by (metis map_of_eq_None_iff not_None_eq)
  then have "budget_at st (budget s) = x"
    by (simp add: budget_at_def)
  then show "map_of (budgets st) (budget s) = Some (budget_at st (budget s))"
    "budget_exact L st (budget s) (budget_at st (budget s))"
    using x assms(1) by (auto simp: store_ok_def dest: map_of_SomeD)
qed

lemma sum_list_update:
  "distinct (map fst xs) \<Longrightarrow> map_of xs k = Some v \<Longrightarrow>
   sum_list (map g (AList.update k w xs)) + g (k, v) = sum_list (map g xs) + (g (k, w) :: nat)"
  by (induction xs) (auto split: if_splits)

lemma sum_list_delete:
  "distinct (map fst xs) \<Longrightarrow> map_of xs k = Some v \<Longrightarrow>
   sum_list (map g (AList.delete k xs)) + g (k, v) = (sum_list (map g xs) :: nat)"
proof (induction xs)
  case (Cons x xs)
  then show ?case
    by (cases x) (auto simp: AList.delete_idem split: if_splits)
qed simp

lemma sum_list_insert:
  "map_of xs k = None \<Longrightarrow> sum_list (map g (AList.update k w xs)) = sum_list (map g xs) + (g (k, w) :: nat)"
  by (induction xs) (auto split: if_splits)

lemma in_set_update:
  assumes "distinct (map fst xs)"
  shows "(k', w') \<in> set (AList.update k w xs) \<longleftrightarrow> (if k' = k then w' = w else (k', w') \<in> set xs)"
proof -
  have "(k', w') \<in> set (AList.update k w xs) \<longleftrightarrow> map_of (AList.update k w xs) k' = Some w'"
    using distinct_update [OF assms] by simp
  then show ?thesis
    using assms by (auto simp: update_conv')
qed

lemma in_set_delete: "(k', w) \<in> set (AList.delete k xs) \<longleftrightarrow> k' \<noteq> k \<and> (k', w) \<in> set xs"
  by (induction xs) auto

lemma total_set_scope:
  assumes "distinct (map fst (scopes st))" "map_of (scopes st) e = Some s" "budget s' = budget s"
  shows "family_total f (set_scope e s' st) b + (if budget s = b then f s else 0)
    = family_total f st b + (if budget s = b then f s' else 0)"
  using sum_list_update [OF assms(1,2), of "\<lambda>(_, s). if budget s = b then f s else 0" s'] assms(3)
  by (simp add: family_total_def set_scope_def split: if_splits)

lemma total_budgets [simp]: "family_total f (set_budget b x st) = family_total f st"
  by (simp add: family_total_def set_budget_def fun_eq_iff)

text \<open>
  One scope changes its variables and the budget moves by the same amount: the invariant is kept.
  Every operation on bindings is an instance.
\<close>

lemma rebalance:
  assumes ok: "store_ok L st" and s: "map_of (scopes st) e = Some s"
    and x: "x = budget_at st (budget s)"
    and vs: "vars_ok vs'"
    and ids: "identities x' + length (vars s) = identities x + length vs'"
    and bytes: "retained_bytes x' + scope_charge L (vars s) = retained_bytes x + scope_charge L vs'"
    and caps: "identities x' \<le> ENV_BINDING_IDENTITY_CAP" "retained_bytes x' \<le> ENV_BINDING_AGGREGATE_BYTES"
  shows "store_ok L (set_budget (budget s) x' (set_scope e (s\<lparr>vars := vs'\<rparr>) st))"
    (is "store_ok L ?st")
proof -
  let ?s = "s\<lparr>vars := vs'\<rparr>"
  have ds: "distinct (map fst (scopes st))" and db: "distinct (map fst (budgets st))"
    using ok by (auto simp: store_ok_def)
  note bx = store_ok_budget [OF ok s, folded x]
  have sc: "scopes ?st = AList.update e ?s (scopes st)" "fresh ?st = fresh st"
    "budgets ?st = AList.update (budget s) x' (budgets st)"
    by (simp_all add: set_budget_def set_scope_def)
  have keys: "fst ` set (budgets ?st) = fst ` set (budgets st)"
    using bx(1) by (force simp: sc dom_update dest: map_of_SomeD)
  have tot: "family_total f ?st b + (if budget s = b then f s else 0)
      = family_total f st b + (if budget s = b then f ?s else 0)" for f b
    using total_set_scope [OF ds s, of ?s f b] by simp
  have exact: "b < fresh ?st \<and> budget_exact L ?st b y" if "(b, y) \<in> set (budgets ?st)" for b y
  proof (cases "b = budget s")
    case True
    moreover have "budget s < fresh st"
      using bx(1) ok by (auto simp: store_ok_def dest!: map_of_SomeD)
    moreover have "y = x'"
      using that True by (simp add: sc in_set_update [OF db])
    ultimately show ?thesis
      using bx(2) ids bytes caps tot [of "\<lambda>s. length (vars s)" b]
        tot [of "\<lambda>s. scope_charge L (vars s)" b]
      by (simp add: budget_exact_def live_identities_def live_charge_def sc)
  next
    case False
    then have "b < fresh st \<and> budget_exact L st b y"
      using that ok by (auto simp: sc in_set_update [OF db] store_ok_def)
    then show ?thesis
      using False tot [of _ b] by (simp add: budget_exact_def live_identities_def live_charge_def sc)
  qed
  have look: "\<exists>s''. map_of (scopes ?st) p = Some s'' \<and> budget s'' = budget s'"
    if "map_of (scopes st) p = Some s'" for p s'
    using that s by (auto simp: sc update_conv')
  have scope: "scope_ok ?st e' s'" if "(e', s') \<in> set (scopes ?st)" for e' s'
  proof -
    have "\<exists>o'. scope_ok st e' o' \<and> parent s' = parent o' \<and> budget s' = budget o' \<and> vars_ok (vars s')"
    proof (cases "e' = e")
      case True
      then have "s' = ?s"
        using that by (simp add: sc in_set_update [OF ds])
      then show ?thesis
        using True vs store_ok_scope [OF ok s] by force
    next
      case False
      then have "scope_ok st e' s'"
        using that ok by (auto simp: sc in_set_update [OF ds] store_ok_def)
      then show ?thesis
        by (force simp: scope_ok_def)
    qed
    then show ?thesis
      unfolding scope_ok_def keys using look by (metis sc(2) scope_ok_def)
  qed
  show ?thesis
    unfolding store_ok_def using exact scope ds db
    by (auto simp: sc(1,3) distinct_update)
qed

subsection \<open>Charges\<close>

lemma measure_binding_bounded: "measure_binding_value L v = Inr n \<Longrightarrow> n \<le> ENV_BINDING_VALUE_BYTES"
proof -
  assume "measure_binding_value L v = Inr n"
  then have "retained_size L v env_limits = Inr n"
    by (simp add: measure_binding_value_def Let_def split: sum.splits)
  moreover have "max_bytes env_limits = ENV_BINDING_VALUE_BYTES" "max_bytes env_limits \<le> USIZE_MAX"
      "max_nodes env_limits \<le> USIZE_MAX"
    by (simp_all add: env_limits_def env_caps)
  ultimately show ?thesis
    using retained_size_iff [of env_limits L v n] by simp
qed

lemma binding_charge_small:
  "small_binding L \<Longrightarrow> length name \<le> ENV_BINDING_NAME_BYTES \<Longrightarrow> n \<le> ENV_BINDING_VALUE_BYTES \<Longrightarrow>
   binding_charge L name n = length name + n + size_of_binding L"
  by (simp add: binding_charge_def saturating_usize_def small_binding_def env_caps)

lemma vars_ok_Nil [simp]: "vars_ok []"
  by (simp add: vars_ok_def)

lemma vars_ok_distinct: "vars_ok vs \<Longrightarrow> distinct (map fst vs)"
  by (simp add: vars_ok_def)

lemma vars_ok_lookup:
  "vars_ok vs \<Longrightarrow> map_of vs name = Some bd \<Longrightarrow>
   length name \<le> ENV_BINDING_NAME_BYTES \<and> value_bytes bd \<le> ENV_BINDING_VALUE_BYTES"
  by (auto simp: vars_ok_def dest: map_of_SomeD)

lemma vars_ok_update:
  "vars_ok vs \<Longrightarrow> length name \<le> ENV_BINDING_NAME_BYTES \<Longrightarrow> value_bytes bd \<le> ENV_BINDING_VALUE_BYTES \<Longrightarrow>
   vars_ok (AList.update name bd vs)"
  by (auto simp: vars_ok_def distinct_update in_set_update split: if_splits)

lemma vars_ok_delete: "vars_ok vs \<Longrightarrow> vars_ok (AList.delete name vs)"
  by (auto simp: vars_ok_def distinct_delete in_set_delete)

lemma scope_charge_update:
  assumes "small_binding L" "vars_ok vs" "map_of vs name = Some old"
    and "value_bytes bd \<le> ENV_BINDING_VALUE_BYTES"
  shows "scope_charge L (AList.update name bd vs) + value_bytes old = scope_charge L vs + value_bytes bd"
proof -
  have "distinct (map fst vs)"
    using assms(2) by (simp add: vars_ok_def)
  from sum_list_update [OF this assms(3), of "\<lambda>(name, bd). binding_charge L name (value_bytes bd)" bd]
  show ?thesis
    using vars_ok_lookup [OF assms(2,3)] assms(1,4) by (simp add: scope_charge_def binding_charge_small)
qed

lemma scope_charge_insert:
  "map_of vs name = None \<Longrightarrow>
   scope_charge L (AList.update name bd vs) = scope_charge L vs + binding_charge L name (value_bytes bd)"
  using sum_list_insert [of vs name "\<lambda>(name, bd). binding_charge L name (value_bytes bd)" bd]
  by (simp add: scope_charge_def)

lemma scope_charge_delete:
  "vars_ok vs \<Longrightarrow> map_of vs name = Some bd \<Longrightarrow>
   scope_charge L (AList.delete name vs) + binding_charge L name (value_bytes bd) = scope_charge L vs"
  using sum_list_delete [of vs name bd "\<lambda>(name, bd). binding_charge L name (value_bytes bd)"]
  by (simp add: scope_charge_def vars_ok_def)

lemma value_bytes_le_charge:
  assumes "small_binding L" "vars_ok vs" "map_of vs name = Some bd"
  shows "value_bytes bd \<le> scope_charge L vs"
  using scope_charge_delete [OF assms(2,3), of L] vars_ok_lookup [OF assms(2,3)] assms(1)
  by (simp add: binding_charge_small)

lemma length_update:
  "length (AList.update k v xs) = length xs + (if map_of xs k = None then 1 else 0)"
  by (induction xs) auto

lemma length_delete:
  "distinct (map fst xs) \<Longrightarrow> map_of xs k = Some v \<Longrightarrow> length (AList.delete k xs) + 1 = length xs"
  using sum_list_delete [of xs k v "\<lambda>_. 1"] by (simp add: sum_list_triv)

lemma total_ge:
  "map_of (scopes st) e = Some s \<Longrightarrow> f s \<le> family_total f st (budget s)"
proof -
  assume "map_of (scopes st) e = Some s"
  then have "f s \<in> set (map (\<lambda>(_, s'). if budget s' = budget s then f s' else 0) (scopes st))"
    by (force dest: map_of_SomeD)
  then show ?thesis
    unfolding family_total_def by (rule member_le_sum_list) simp
qed

lemma scope_within_budget:
  assumes "store_ok L st" "map_of (scopes st) e = Some s"
  shows "scope_charge L (vars s) \<le> retained_bytes (budget_at st (budget s))"
    and "length (vars s) \<le> identities (budget_at st (budget s))"
  using store_ok_budget(2) [OF assms] total_ge [OF assms(2), of "\<lambda>s. scope_charge L (vars s)"]
    total_ge [OF assms(2), of "\<lambda>s. length (vars s)"]
  by (simp_all add: budget_exact_def live_charge_def live_identities_def)

subsection \<open>Every operation keeps the invariant\<close>

lemma env_helper_ok [simp]:
  "or_accounting x = Inr n \<longleftrightarrow> x = Some n"
  "ensure_aggregate_bytes n = Inr u \<longleftrightarrow> n \<le> ENV_BINDING_AGGREGATE_BYTES"
  "validate_binding_name name = Inr u \<longleftrightarrow> length name \<le> ENV_BINDING_NAME_BYTES"
  "checked_usize k = Some n \<longleftrightarrow> n = k \<and> k \<le> USIZE_MAX"
  by (auto simp: or_accounting_def ensure_aggregate_bytes_def validate_binding_name_def checked_usize_def
      split: option.splits)

lemma scope_at_live: "map_of (scopes st) e = Some s \<Longrightarrow> scope_at st e = s"
  by (simp add: scope_at_def)

lemma replace_binding_ok:
  assumes "store_ok L st" "small_binding L" "map_of (scopes st) e = Some s"
    and "map_of (vars s) name = Some old" "value_bytes bd \<le> ENV_BINDING_VALUE_BYTES"
    and "n = (retained_bytes (budget_at st (budget s)) - value_bytes old) + value_bytes bd"
    and "n \<le> ENV_BINDING_AGGREGATE_BYTES"
  shows "store_ok L (set_budget (budget s) ((budget_at st (budget s))\<lparr>retained_bytes := n\<rparr>)
    (set_scope e (s\<lparr>vars := AList.update name bd (vars s)\<rparr>) st))"
proof (rule rebalance [OF assms(1,3) refl])
  have vs: "vars_ok (vars s)"
    using store_ok_scope [OF assms(1,3)] by (simp add: scope_ok_def)
  show "vars_ok (AList.update name bd (vars s))"
    using vars_ok_update [OF vs] vars_ok_lookup [OF vs assms(4)] assms(5) by blast
  show "retained_bytes ((budget_at st (budget s))\<lparr>retained_bytes := n\<rparr>) + scope_charge L (vars s)
      = retained_bytes (budget_at st (budget s)) + scope_charge L (AList.update name bd (vars s))"
    using scope_charge_update [OF assms(2) vs assms(4,5)] value_bytes_le_charge [OF assms(2) vs assms(4)]
      scope_within_budget(1) [OF assms(1,3)] assms(6) by simp
qed (use assms(4,7) store_ok_budget(2) [OF assms(1,3)] in
    \<open>simp_all add: budget_exact_def length_update\<close>)

lemma env_declare_ok:
  assumes "store_ok L st" "small_binding L" "map_of (scopes st) e = Some s"
  shows "store_ok L (snd (env_declare L reserve e name v mut st))"
proof -
  let ?b = "budget_at st (budget s)"
  have vs: "vars_ok (vars s)"
    using store_ok_scope [OF assms(1,3)] by (simp add: scope_ok_def)
  have ok: "store_ok L (set_budget (budget s) x (set_scope e (s\<lparr>vars := AList.update name bd (vars s)\<rparr>) st))"
    if "length name \<le> ENV_BINDING_NAME_BYTES" "value_bytes bd \<le> ENV_BINDING_VALUE_BYTES"
      "map_of (vars s) name = None" "identities ?b < ENV_BINDING_IDENTITY_CAP"
      "x = \<lparr>identities = identities ?b + 1,
            retained_bytes = retained_bytes ?b + binding_charge L name (value_bytes bd)\<rparr>"
      "retained_bytes x \<le> ENV_BINDING_AGGREGATE_BYTES" for bd x
    using that vs
    by (intro rebalance [OF assms(1,3) refl])
       (simp_all add: vars_ok_update scope_charge_insert length_update)
  show ?thesis
  proof (cases "map_of (vars s) name")
    case None
    then show ?thesis
      using measure_binding_bounded [of L v]
      by (auto simp: env_declare_def scope_at_live [OF assms(3)] Let_def bindR_eq_Inr assms
          split: sum.split option.splits if_splits intro!: ok)
  next
    case (Some old)
    then show ?thesis
      using measure_binding_bounded [of L v]
      by (auto simp: env_declare_def scope_at_live [OF assms(3)] Let_def bindR_eq_Inr assms
          split: sum.split intro!: replace_binding_ok [OF assms])
  qed
qed

text \<open>The bindings a transaction stages: distinct names, each within its own limits.\<close>

lemma measure_all_ok:
  "vars_ok acc \<Longrightarrow> measure_all L bs acc = Inr m \<Longrightarrow>
   vars_ok m \<and> map fst m = map fst acc @ map fst bs
   \<and> map (\<lambda>(n, bd). (n, bound_value bd, mutable bd)) m
       = map (\<lambda>(n, bd). (n, bound_value bd, mutable bd)) acc @ bs"
proof (induction L bs acc rule: measure_all.induct)
  case (2 L name v mut rest acc)
  then obtain bytes where *: "length name \<le> ENV_BINDING_NAME_BYTES" "name \<notin> fst ` set acc"
      "measure_binding_value L v = Inr bytes"
      "measure_all L rest (acc @ [(name, \<lparr>bound_value = v, mutable = mut, value_bytes = bytes\<rparr>)]) = Inr m"
    by (auto simp: bindR_eq_Inr split: if_splits)
  then have "vars_ok (acc @ [(name, \<lparr>bound_value = v, mutable = mut, value_bytes = bytes\<rparr>)])"
    using "2.prems"(1) measure_binding_bounded [OF *(3)] by (auto simp: vars_ok_def)
  then show ?case
    using "2.IH" * by auto
qed (simp add: vars_ok_def)

lemma install_ok:
  assumes "small_binding L"
  shows "vars_ok vs' \<Longrightarrow> vars_ok staged \<Longrightarrow> charge_all L vs staged n = Inr n'
    \<Longrightarrow> \<forall>name \<in> fst ` set staged. map_of vs' name = map_of vs name \<Longrightarrow> scope_charge L vs' \<le> n
    \<Longrightarrow> n' + scope_charge L vs' = n + scope_charge L (install staged vs')
      \<and> length (install staged vs') = length vs' + length (new_names vs staged)
      \<and> vars_ok (install staged vs')"
proof (induction staged arbitrary: vs' n)
  case (Cons entry rest)
  obtain name bd where entry: "entry = (name, bd)"
    by fastforce
  let ?vs = "AList.update name bd vs'"
  have bd: "length name \<le> ENV_BINDING_NAME_BYTES" "value_bytes bd \<le> ENV_BINDING_VALUE_BYTES"
      and rest: "vars_ok rest" and fresh: "name \<notin> fst ` set rest"
    using Cons.prems(2) by (auto simp: entry vars_ok_def)
  have same: "map_of vs' name = map_of vs name"
    using Cons.prems(4) by (simp add: entry)
  define k where "k = (case map_of vs name of Some old \<Rightarrow> (n - value_bytes old) + value_bytes bd
      | None \<Rightarrow> n + binding_charge L name (value_bytes bd))"
  have "charge_all L vs rest k = Inr n'"
    using Cons.prems(3) by (auto simp: entry k_def bindR_eq_Inr split: option.splits)
  moreover have "k + scope_charge L vs' = n + scope_charge L ?vs"
  proof (cases "map_of vs name")
    case None
    then show ?thesis
      using same by (simp add: k_def scope_charge_insert)
  next
    case (Some old)
    then show ?thesis
      using scope_charge_update [OF assms Cons.prems(1), of name old bd]
        value_bytes_le_charge [OF assms Cons.prems(1), of name old] bd(2) same Cons.prems(5)
      by (simp add: k_def)
  qed
  moreover have "\<forall>m \<in> fst ` set rest. map_of ?vs m = map_of vs m"
    using Cons.prems(4) fresh by (auto simp: entry update_conv')
  moreover have "vars_ok ?vs"
    using vars_ok_update [OF Cons.prems(1) bd] .
  ultimately show ?case
    using Cons.IH [of ?vs k] rest Cons.prems(5) same
    by (auto simp: entry new_names_def length_update)
qed (simp add: new_names_def)

lemma env_declare_many_ok:
  assumes "store_ok L st" "small_binding L" "map_of (scopes st) e = Some s"
  shows "store_ok L (snd (env_declare_many L stage reserve e bs st))"
proof -
  let ?b = "budget_at st (budget s)"
  have vs: "vars_ok (vars s)"
    using store_ok_scope [OF assms(1,3)] by (simp add: scope_ok_def)
  have ok: "store_ok L (set_budget (budget s) \<lparr>identities = ids, retained_bytes = n\<rparr>
      (set_scope e (s\<lparr>vars := install m (vars s)\<rparr>) st))"
    if "measure_all L bs [] = Inr m" "charge_all L (vars s) m (retained_bytes ?b) = Inr n"
      "ids = identities ?b + length (new_names (vars s) m)" "ids \<le> ENV_BINDING_IDENTITY_CAP"
      "n \<le> ENV_BINDING_AGGREGATE_BYTES" for m n ids
  proof -
    have "vars_ok m"
      using measure_all_ok [OF vars_ok_Nil that(1)] by simp
    then show ?thesis
      using install_ok [OF assms(2) vs _ that(2)] scope_within_budget(1) [OF assms(1,3)] that
      by (intro rebalance [OF assms(1,3) refl]) auto
  qed
  show ?thesis
    by (auto simp: env_declare_many_def stage_many_def scope_at_live [OF assms(3)] Let_def bindR_eq_Inr
        assms split: sum.split option.splits if_splits intro!: ok)
qed

lemma env_remove_local_ok:
  assumes "store_ok L st" "map_of (scopes st) e = Some s"
  shows "store_ok L (snd (env_remove_local L e name st))"
proof (cases "map_of (vars s) name")
  case None
  then show ?thesis
    using assms by (simp add: env_remove_local_def scope_at_live Let_def)
next
  case (Some bd)
  have vs: "vars_ok (vars s)"
    using store_ok_scope [OF assms] by (simp add: scope_ok_def)
  then have "length (AList.delete name (vars s)) + 1 = length (vars s)"
    using Some by (intro length_delete vars_ok_distinct)
  then have "store_ok L (set_budget (budget s)
      \<lparr>identities = identities (budget_at st (budget s)) - 1,
       retained_bytes = retained_bytes (budget_at st (budget s)) - binding_charge L name (value_bytes bd)\<rparr>
      (set_scope e (s\<lparr>vars := AList.delete name (vars s)\<rparr>) st))"
    using vars_ok_delete [OF vs] scope_charge_delete [OF vs Some, of L] scope_within_budget [OF assms]
      store_ok_budget(2) [OF assms]
    by (intro rebalance [OF assms refl]) (auto simp: budget_exact_def)
  then show ?thesis
    using Some by (simp add: env_remove_local_def scope_at_live [OF assms(2)] Let_def)
qed

lemma walk_live: "(e', s') \<in> set (walk n st e) \<Longrightarrow> map_of (scopes st) e' = Some s'"
  by (induction n arbitrary: e) (auto split: option.splits)

lemma assign_in_ok:
  assumes "store_ok L st" "small_binding L" "bytes \<le> ENV_BINDING_VALUE_BYTES"
  shows "\<forall>(e, s) \<in> set c. map_of (scopes st) e = Some s \<Longrightarrow> store_ok L (snd (assign_in name v bytes c st))"
proof (induction c)
  case (Cons p c)
  obtain e s where p: "p = (e, s)"
    by fastforce
  then have live: "map_of (scopes st) e = Some s"
    using Cons.prems by simp
  show ?case
    using Cons assms
    by (auto simp: p Let_def bindR_eq_Inr split: option.split sum.split
        intro!: replace_binding_ok [OF assms(1,2) live])
qed (simp add: assms)

lemma env_assign_ok:
  "store_ok L st \<Longrightarrow> small_binding L \<Longrightarrow> store_ok L (snd (env_assign L e name v st))"
  using assign_in_ok [of L st _ "chain st e" name v] measure_binding_bounded [of L v]
  by (auto simp: env_assign_def chain_def simp del: walk.simps dest: walk_live split: sum.split)

text \<open>Creating and dropping a scope.\<close>

lemma add_scope_ok:
  assumes ok: "store_ok L st"
    and bs: "bs = budgets st \<or> bs = (fresh st, \<lparr>identities = 0, retained_bytes = 0\<rparr>) # budgets st"
    and b: "b \<in> fst ` set bs"
    and p: "\<And>q. p = Some q \<Longrightarrow> \<exists>s. map_of (scopes st) q = Some s \<and> budget s = b"
  shows "store_ok L (st\<lparr>budgets := bs, scopes := (fresh st, \<lparr>vars = [], parent = p, budget = b\<rparr>) # scopes st,
    fresh := fresh st + 1\<rparr>)" (is "store_ok L ?st")
proof -
  have older: "e < fresh st" if "(e, s) \<in> set (scopes st)" for e s
    using that ok by (auto simp: store_ok_def scope_ok_def)
  have old_budget: "k < fresh st" if "(k, x) \<in> set (budgets st)" for k x
    using that ok by (auto simp: store_ok_def)
  have keep: "map_of (scopes ?st) q = map_of (scopes st) q" if "map_of (scopes st) q = Some s" for q s
    using older [OF map_of_SomeD [OF that]] by simp
  have tot: "live_identities ?st k = live_identities st k" "live_charge L ?st k = live_charge L st k" for k
    by (simp_all add: live_identities_def live_charge_def family_total_def scope_charge_def)
  have none: "live_identities st (fresh st) = 0" "live_charge L st (fresh st) = 0"
  proof -
    have "budget s \<noteq> fresh st" if "(e, s) \<in> set (scopes st)" for e s
      using that ok old_budget by (fastforce simp: store_ok_def scope_ok_def)
    then show "live_identities st (fresh st) = 0" "live_charge L st (fresh st) = 0"
      by (auto simp: live_identities_def live_charge_def family_total_def)
  qed
  have exact: "k < fresh ?st \<and> budget_exact L ?st k x" if "(k, x) \<in> set (budgets ?st)" for k x
  proof (cases "(k, x) \<in> set (budgets st)")
    case True
    then show ?thesis
      using ok tot by (fastforce simp: store_ok_def budget_exact_def)
  next
    case False
    then have "k = fresh st" "x = \<lparr>identities = 0, retained_bytes = 0\<rparr>"
      using that bs by auto
    then show ?thesis
      using none tot by (simp add: budget_exact_def)
  qed
  have scope: "scope_ok ?st e s" if es: "(e, s) \<in> set (scopes ?st)" for e s
  proof (cases "(e, s) \<in> set (scopes st)")
    case True
    then have "scope_ok st e s"
      using ok by (auto simp: store_ok_def)
    then show ?thesis
      using bs keep by (auto simp: scope_ok_def)
  next
    case False
    then have new: "e = fresh st" "s = \<lparr>vars = [], parent = p, budget = b\<rparr>"
      using es by auto
    have "q < fresh st \<and> (\<exists>s'. map_of (scopes ?st) q = Some s' \<and> budget s' = b)" if pq: "p = Some q" for q
    proof -
      obtain s' where s': "map_of (scopes st) q = Some s'" "budget s' = b"
        using p [OF pq] by blast
      then show ?thesis
        using keep [OF s'(1)] older [OF map_of_SomeD [OF s'(1)]] by simp
    qed
    then show ?thesis
      using new b by (simp add: scope_ok_def)
  qed
  have "fresh st \<notin> fst ` set (scopes st)" "distinct (map fst bs)"
    using older old_budget bs ok by (force simp: store_ok_def)+
  then show ?thesis
    unfolding store_ok_def using exact scope ok by (auto simp: store_ok_def)
qed

lemma env_root_ok: "store_ok L st \<Longrightarrow> store_ok L (snd (env_root st))"
  using add_scope_ok [of L st "(fresh st, \<lparr>identities = 0, retained_bytes = 0\<rparr>) # budgets st" "fresh st" None]
  by (simp add: env_root_def new_scope_def)

lemma env_child_ok:
  assumes "store_ok L st" "map_of (scopes st) e = Some s"
  shows "store_ok L (snd (env_child e st))" "store_ok L (snd (env_isolated e st))"
proof -
  have b: "budget s \<in> fst ` set (budgets st)"
    using store_ok_scope [OF assms] by (simp add: scope_ok_def)
  show "store_ok L (snd (env_child e st))" "store_ok L (snd (env_isolated e st))"
    using add_scope_ok [OF assms(1) disjI1 [OF refl] b, of "Some e"]
      add_scope_ok [OF assms(1) disjI1 [OF refl] b, of None] assms(2)
    by (simp_all add: env_child_def env_isolated_def new_scope_def scope_at_live)
qed

lemma env_drop_ok:
  assumes ok: "store_ok L st" and s: "map_of (scopes st) e = Some s"
    and childless: "\<And>e' s'. (e', s') \<in> set (scopes st) \<Longrightarrow> parent s' \<noteq> Some e"
  shows "store_ok L (env_drop L e st)" (is "store_ok L ?st")
proof -
  let ?b = "budget_at st (budget s)"
  have ds: "distinct (map fst (scopes st))" and db: "distinct (map fst (budgets st))"
    using ok by (auto simp: store_ok_def)
  note bx = store_ok_budget [OF ok s] and within = scope_within_budget [OF ok s]
  have sat: "saturating_usize (scope_charge L (vars s)) = scope_charge L (vars s)"
    using within(1) bx(2) by (simp add: saturating_usize_def budget_exact_def env_caps)
  define x' where "x' = \<lparr>identities = identities ?b - length (vars s),
      retained_bytes = retained_bytes ?b - scope_charge L (vars s)\<rparr>"
  have sc: "scopes ?st = AList.delete e (scopes st)" "fresh ?st = fresh st"
      "budgets ?st = AList.update (budget s) x' (budgets st)"
    by (simp_all add: env_drop_def scope_at_live [OF s] Let_def set_budget_def x'_def sat)
  have tot: "family_total f ?st k + (if budget s = k then f s else 0) = family_total f st k" for f k
    using sum_list_delete [OF ds s, of "\<lambda>(_, s). if budget s = k then f s else 0"]
    by (simp add: family_total_def sc split: if_splits)
  have exact: "k < fresh ?st \<and> budget_exact L ?st k y" if "(k, y) \<in> set (budgets ?st)" for k y
  proof (cases "k = budget s")
    case True
    moreover have "budget s < fresh st"
      using bx(1) ok by (auto simp: store_ok_def dest!: map_of_SomeD)
    moreover have "y = x'"
      using that True by (simp add: sc in_set_update [OF db])
    ultimately show ?thesis
      using bx(2) tot [of "\<lambda>s. length (vars s)" k] tot [of "\<lambda>s. scope_charge L (vars s)" k]
      by (auto simp: budget_exact_def live_identities_def live_charge_def x'_def sc)
  next
    case False
    then have "k < fresh st \<and> budget_exact L st k y"
      using that ok by (auto simp: sc in_set_update [OF db] store_ok_def)
    then show ?thesis
      using False tot [of _ k] by (simp add: budget_exact_def live_identities_def live_charge_def sc)
  qed
  have keys: "fst ` set (budgets ?st) = fst ` set (budgets st)"
    using bx(1) by (force simp: sc dom_update dest: map_of_SomeD)
  have scope: "scope_ok ?st e' s'" if "(e', s') \<in> set (scopes ?st)" for e' s'
  proof -
    have "(e', s') \<in> set (scopes st)"
      using that by (simp add: sc in_set_delete)
    then have "scope_ok st e' s'" "parent s' \<noteq> Some e"
      using ok childless by (auto simp: store_ok_def)
    then show ?thesis
      unfolding scope_ok_def keys by (auto simp: sc delete_conv')
  qed
  show ?thesis
    unfolding store_ok_def using exact scope ds db
    by (auto simp: sc(1,3) distinct_update distinct_delete)
qed

subsection \<open>Sessions\<close>

text \<open>
  A session starts with no scope; each step is one call of the interface on a live scope, with any
  arguments and any answers of the allocator, or the end of a scope that no other scope has as parent.
  A call that does not return is no step. The end of a scope is not tied to the closures that hold
  it: any scope without children may go at any time, which covers every order of the drops.
\<close>

definition env_init :: "('z, 'a) env_store" where
  "env_init = \<lparr>scopes = [], budgets = [], fresh = 0\<rparr>"

definition live :: "('z, 'a) env_store \<Rightarrow> nat \<Rightarrow> bool" where
  "live st e \<longleftrightarrow> map_of (scopes st) e \<noteq> None"

definition childless :: "('z, 'a) env_store \<Rightarrow> nat \<Rightarrow> bool" where
  "childless st e \<longleftrightarrow> list_all (\<lambda>(_, s). parent s \<noteq> Some e) (scopes st)"

inductive env_step :: "('z, 'a) layout \<Rightarrow> ('z, 'a) env_store \<Rightarrow> ('z, 'a) env_store \<Rightarrow> bool" for L where
  new_root: "env_step L st (snd (env_root st))"
| do_child: "live st e \<Longrightarrow> env_step L st (snd (env_child e st))"
| do_isolated: "live st e \<Longrightarrow> env_step L st (snd (env_isolated e st))"
| declare_one: "live st e \<Longrightarrow> declare_call L reserve frees e name v mut st = Some (r, st') \<Longrightarrow>
    env_step L st st'"
| declare_many: "live st e \<Longrightarrow> declare_many_call L stage reserve frees e bs st = Some (r, st') \<Longrightarrow>
    env_step L st st'"
| do_remove: "live st e \<Longrightarrow> env_step L st (snd (env_remove_local L e name st))"
| do_assign: "live st e \<Longrightarrow> assign_call L frees e name v st = Some (q, st') \<Longrightarrow> env_step L st st'"
| drop_scope: "live st e \<Longrightarrow> childless st e \<Longrightarrow> env_step L st (env_drop L e st)"

inductive env_reachable :: "('z, 'a) layout \<Rightarrow> ('z, 'a) env_store \<Rightarrow> bool" for L where
  init: "env_reachable L env_init"
| step: "env_reachable L st \<Longrightarrow> env_step L st st' \<Longrightarrow> env_reachable L st'"

inductive_cases env_stepE: "env_step L st st'"

lemma returns_Some: "returns frees old out = Some (r, st') \<Longrightarrow> st' = snd out"
  by (auto simp: returns_def split: if_splits)

lemma returns_safe: "returns (\<lambda>_. False) old out = Some out"
  by (simp add: returns_def hangs_def)

lemma env_step_declare: "live st e \<Longrightarrow> env_step L st (snd (env_declare L reserve e name v mut st))"
  by (rule env_step.declare_one [where frees = "\<lambda>_. False" and r = "fst (env_declare L reserve e name v mut st)"])
    (simp_all add: declare_call_def returns_safe)

lemma env_step_ok: "env_step L st st' \<Longrightarrow> store_ok L st \<Longrightarrow> small_binding L \<Longrightarrow> store_ok L st'"
  by (erule env_stepE)
     (auto simp: live_def childless_def list_all_iff declare_call_def declare_many_call_def assign_call_def
       dest!: returns_Some
       intro: env_root_ok env_child_ok env_declare_ok env_declare_many_ok env_remove_local_ok env_assign_ok
       intro!: env_drop_ok)

lemma reachable_store_ok: "env_reachable L st \<Longrightarrow> small_binding L \<Longrightarrow> store_ok L st"
proof (induction rule: env_reachable.induct)
  case init
  then show ?case
    by (simp add: env_init_def store_ok_def)
qed (rule env_step_ok)

text \<open>
  C23. In every state a session can reach, the budget of a family of scopes is exactly what its live
  bindings cost: the number of bindings and the bytes charged for them, and both are within the
  session's caps. No sequence of declarations, transactions, assignments, removals and dropped scopes,
  failed ones included, makes the account drift.
\<close>

theorem env_budget_exact:
  assumes "env_reachable L st" "small_binding L" "(b, x) \<in> set (budgets st)"
  shows "identities x = live_identities st b \<and> retained_bytes x = live_charge L st b
    \<and> identities x \<le> ENV_BINDING_IDENTITY_CAP \<and> retained_bytes x \<le> ENV_BINDING_AGGREGATE_BYTES"
  using reachable_store_ok [OF assms(1,2)] assms(3) by (auto simp: store_ok_def budget_exact_def)

definition one_binding :: "(int, unit) env_store" where
  "one_binding = snd (env_declare unit_layout (\<lambda>_. None) 0 ''x'' (Int64 7) True (snd (env_root env_init)))"

lemma one_binding_eval:
  "one_binding = \<lparr>scopes = [(0, \<lparr>vars = [(''x'', \<lparr>bound_value = Int64 7, mutable = True, value_bytes = 40\<rparr>)],
     parent = None, budget = 0\<rparr>)], budgets = [(0, \<lparr>identities = 1, retained_bytes = 97\<rparr>)], fresh = 1\<rparr>"
proof -
  have "measure_binding_value unit_layout (Int64 7) = Inr 40"
    by (simp add: measure_binding_value_def retained_size_def visit_def enter_node_def add_bytes_def
        checked_usize_def unit_layout_def env_limits_def env_caps)
  then show ?thesis
    by (simp add: one_binding_def env_declare_def env_root_def new_scope_def env_init_def scope_at_def
        budget_at_def validate_binding_name_def or_accounting_def ensure_aggregate_bytes_def
        checked_usize_def binding_charge_def saturating_usize_def set_budget_def set_scope_def
        unit_layout_def env_caps Let_def)
qed

lemma one_binding_reachable: "env_reachable unit_layout one_binding"
  unfolding one_binding_def
  by (rule env_reachable.step [OF env_reachable.step [OF env_reachable.init env_step.new_root]
        env_step_declare]) (simp add: live_def env_root_def new_scope_def env_init_def)

theorem env_budget_exact_witness:
  "live_identities one_binding 0 = 1 \<and> live_charge unit_layout one_binding 0 = 97"
  using env_budget_exact [OF one_binding_reachable, of 0 "\<lparr>identities = 1, retained_bytes = 97\<rparr>"]
  by (simp add: one_binding_eval small_binding_def unit_layout_def)

subsection \<open>Lexical lookup\<close>

lemma walk_enough: "store_ok L st \<Longrightarrow> e < n \<Longrightarrow> walk n st e = walk (Suc e) st e"
proof (induction e arbitrary: n rule: less_induct)
  case (less e)
  obtain k where k: "n = Suc k"
    using less.prems(2) by (cases n) auto
  have "walk k st p = walk e st p" if "map_of (scopes st) e = Some s" "parent s = Some p" for s p
  proof -
    have "p < e"
      using store_ok_scope [OF less.prems(1) that(1)] that(2) by (simp add: scope_ok_def)
    then show ?thesis
      using less.IH [of p k] less.IH [of p e] less.prems(1,2) unfolding k by (metis less_trans_Suc Suc_less_eq not_less_eq order.strict_trans)
  qed
  then show ?case
    by (auto simp: k split: option.split)
qed

text \<open>\<open>get\<close> looks in the scope itself and then in its parent.\<close>

lemma env_get_unfold:
  assumes "store_ok L st" "map_of (scopes st) e = Some s"
  shows "env_get st e name =
    (case map_of (vars s) name of
       Some bd \<Rightarrow> Some (bound_value bd)
     | None \<Rightarrow> (case parent s of None \<Rightarrow> None | Some p \<Rightarrow> env_get st p name))"
proof -
  have "walk e st p = chain st p" if "parent s = Some p" for p
  proof -
    have "p < e"
      using store_ok_scope [OF assms] that by (simp add: scope_ok_def)
    from walk_enough [OF assms(1) this] show ?thesis
      by (simp only: chain_def)
  qed
  then have "chain st e = (e, s) # (case parent s of None \<Rightarrow> [] | Some p \<Rightarrow> chain st p)"
    using assms(2) unfolding chain_def [of st e] by (simp split: option.split)
  then show ?thesis
    unfolding env_get_def by (cases "parent s") (simp_all split: option.split)
qed

lemma parent_live:
  "store_ok L st \<Longrightarrow> map_of (scopes st) e = Some s \<Longrightarrow> parent s = Some p \<Longrightarrow> p < e \<and> live st p"
  using store_ok_scope [of L st e s] by (auto simp: live_def scope_ok_def)

text \<open>A change of one scope's variables is seen only through the names it changes.\<close>

lemma get_after_update:
  assumes "store_ok L st" "store_ok L st'"
    and "scopes st' = AList.update e (s\<lparr>vars := vs'\<rparr>) (scopes st)" "map_of (scopes st) e = Some s"
    and "map_of vs' name = map_of (vars s) name"
  shows "live st e' \<Longrightarrow> env_get st' e' name = env_get st e' name"
proof (induction e' rule: less_induct)
  case (less e')
  obtain s1 where s1: "map_of (scopes st) e' = Some s1"
    using less.prems by (auto simp: live_def)
  obtain s2 where s2: "map_of (scopes st') e' = Some s2" "parent s2 = parent s1"
      "map_of (vars s2) name = map_of (vars s1) name"
    using s1 assms(3-5) by (cases "e' = e") (auto simp: update_conv')
  show ?case
    unfolding env_get_unfold [OF assms(1) s1] env_get_unfold [OF assms(2) s2(1)] s2(2,3)
    using less.IH parent_live [OF assms(1) s1] by (auto split: option.split)
qed

lemma get_local:
  "store_ok L st \<Longrightarrow> map_of (scopes st) e = Some s \<Longrightarrow> map_of (vars s) name = Some bd \<Longrightarrow>
   env_get st e name = Some (bound_value bd)"
  by (simp add: env_get_unfold)

lemma map_of_install:
  "distinct (map fst staged) \<Longrightarrow>
   map_of (install staged vs) n = (case map_of staged n of Some bd \<Rightarrow> Some bd | None \<Rightarrow> map_of vs n)"
proof (induction staged arbitrary: vs)
  case (Cons entry rest)
  obtain k v where entry: "entry = (k, v)"
    by fastforce
  have "map_of rest k = None"
    using Cons.prems by (auto simp: entry map_of_eq_None_iff)
  then show ?case
    using Cons by (auto simp: entry update_conv' split: option.split)
qed simp

lemma stage_many_measured:
  "stage_many L stage reserve b vs bs = Inr (m, b') \<Longrightarrow> measure_all L bs [] = Inr m"
  by (auto simp: stage_many_def bindR_eq_Inr Let_def split: option.splits if_splits)

lemma measure_all_bytes:
  "measure_all L bs acc = Inr m \<Longrightarrow>
   \<forall>(n, bd) \<in> set m. (n, bd) \<in> set acc \<or> measure_binding_value L (bound_value bd) = Inr (value_bytes bd)"
proof (induction L bs acc rule: measure_all.induct)
  case (2 L name v mut rest acc)
  then show ?case by (fastforce simp: bindR_eq_Inr split: if_splits)
qed auto

lemma stage_many_budget:
  "stage_many L stage reserve b vs bs = Inr (m, b') \<Longrightarrow>
     identities b' = identities b + length (new_names vs m)"
  by (auto simp: stage_many_def bindR_eq_Inr or_accounting_def checked_usize_def Let_def
      split: option.splits if_splits)

text \<open>What one transaction leaves behind: the batch in its scope, and the budget that pays for it.\<close>

definition batch_installed ::
  "('z, 'a) layout \<Rightarrow> nat \<Rightarrow> (string \<times> ('z, 'a) val \<times> bool) list \<Rightarrow> ('z, 'a) env_store
     \<Rightarrow> ('z, 'a) env_store \<Rightarrow> bool" where
  "batch_installed L e bs st st' \<longleftrightarrow>
     (\<forall>(name, v, mut) \<in> set bs. env_get st' e name = Some v
        \<and> (\<exists>bytes. measure_binding_value L v = Inr bytes \<and> map_of (vars (scope_at st' e)) name =
             Some \<lparr>bound_value = v, mutable = mut, value_bytes = bytes\<rparr>))
     \<and> (\<forall>name e'. name \<notin> fst ` set bs \<longrightarrow> live st e' \<longrightarrow> env_get st' e' name = env_get st e' name)
     \<and> (\<forall>e'. e' \<noteq> e \<longrightarrow> map_of (scopes st') e' = map_of (scopes st) e')"

definition batch_charged ::
  "('z, 'a) layout \<Rightarrow> nat \<Rightarrow> (string \<times> ('z, 'a) val \<times> bool) list \<Rightarrow> ('z, 'a) env_store
     \<Rightarrow> ('z, 'a) env_store \<Rightarrow> bool" where
  "batch_charged L e bs st st' \<longleftrightarrow>
     (let b = budget (scope_at st e); x = budget_at st' b
      in identities x = identities (budget_at st b)
             + length (filter (\<lambda>n. map_of (vars (scope_at st e)) n = None) (map fst bs))
         \<and> identities x = live_identities st' b \<and> retained_bytes x = live_charge L st' b
         \<and> identities x \<le> ENV_BINDING_IDENTITY_CAP \<and> retained_bytes x \<le> ENV_BINDING_AGGREGATE_BYTES
         \<and> (\<forall>b'. b' \<noteq> b \<longrightarrow> budget_at st' b' = budget_at st b'))"

lemma env_declare_many_installs:
  assumes ok: "store_ok L st" and small: "small_binding L" and s: "map_of (scopes st) e = Some s"
    and call: "env_declare_many L stage reserve e bs st = (Inr u, st')"
  shows "batch_installed L e bs st st'"
proof -
  obtain m b' where staged: "stage_many L stage reserve (budget_at st (budget s)) (vars s) bs = Inr (m, b')"
    and st': "st' = set_budget (budget s) b' (set_scope e (s\<lparr>vars := install m (vars s)\<rparr>) st)"
    using call by (auto simp: env_declare_many_def scope_at_live [OF s] split: sum.splits)
  note meas = stage_many_measured [OF staged]
  have m: "vars_ok m" "map fst m = map fst bs" "map (\<lambda>(n, bd). (n, bound_value bd, mutable bd)) m = bs"
    using measure_all_ok [OF vars_ok_Nil meas] by simp_all
  have ok': "store_ok L st'"
    using env_declare_many_ok [OF ok small s, of stage reserve bs] call by simp
  have sc: "scopes st' = AList.update e (s\<lparr>vars := install m (vars s)\<rparr>) (scopes st)"
    by (simp add: st' set_budget_def set_scope_def)
  have e: "map_of (scopes st') e = Some (s\<lparr>vars := install m (vars s)\<rparr>)"
    by (simp add: sc update_conv')
  have inst: "map_of (install m (vars s)) name =
      (case map_of m name of Some bd \<Rightarrow> Some bd | None \<Rightarrow> map_of (vars s) name)" for name
    using map_of_install [OF vars_ok_distinct [OF m(1)]] .
  have "env_get st' e name = Some v
      \<and> (\<exists>bytes. measure_binding_value L v = Inr bytes \<and> map_of (vars (scope_at st' e)) name =
           Some \<lparr>bound_value = v, mutable = mut, value_bytes = bytes\<rparr>)"
    if in_bs: "(name, v, mut) \<in> set bs" for name v mut
  proof -
    obtain bd where bd: "(name, bd) \<in> set m" "v = bound_value bd" "mut = mutable bd"
      using in_bs unfolding m(3) [symmetric] by auto
    then have "map_of (install m (vars s)) name = Some bd"
      using inst [of name] vars_ok_distinct [OF m(1)] by simp
    moreover have "measure_binding_value L v = Inr (value_bytes bd)"
      using measure_all_bytes [OF meas] bd by auto
    ultimately show ?thesis
      using get_local [OF ok' e, of name bd] bd(2,3) by (simp add: scope_at_live [OF e])
  qed
  moreover have "env_get st' e' name = env_get st e' name"
    if "name \<notin> fst ` set bs" "live st e'" for name e'
  proof -
    have "map_of m name = None"
      using that(1) m(2) by (metis list.set_map map_of_eq_None_iff)
    then show ?thesis
      using get_after_update [OF ok ok' sc s _ that(2)] inst [of name] by simp
  qed
  moreover have "map_of (scopes st') e' = map_of (scopes st) e'" if "e' \<noteq> e" for e'
    using that by (simp add: sc update_conv')
  ultimately show ?thesis by (auto simp: batch_installed_def)
qed

lemma env_declare_many_charges:
  assumes ok: "store_ok L st" and small: "small_binding L" and s: "map_of (scopes st) e = Some s"
    and call: "env_declare_many L stage reserve e bs st = (Inr u, st')"
  shows "batch_charged L e bs st st'"
proof -
  obtain m b' where staged: "stage_many L stage reserve (budget_at st (budget s)) (vars s) bs = Inr (m, b')"
    and st': "st' = set_budget (budget s) b' (set_scope e (s\<lparr>vars := install m (vars s)\<rparr>) st)"
    using call by (auto simp: env_declare_many_def scope_at_live [OF s] split: sum.splits)
  have names: "map fst m = map fst bs"
    using measure_all_ok [OF vars_ok_Nil stage_many_measured [OF staged]] by simp
  have ok': "store_ok L st'"
    using env_declare_many_ok [OF ok small s, of stage reserve bs] call by simp
  have e: "map_of (scopes st') e = Some (s\<lparr>vars := install m (vars s)\<rparr>)"
    by (simp add: st' set_budget_def set_scope_def update_conv')
  have b: "budget_at st' (budget s) = b'" "\<And>b'. b' \<noteq> budget s \<Longrightarrow> budget_at st' b' = budget_at st b'"
    by (simp_all add: st' budget_at_def set_budget_def set_scope_def update_conv')
  have "budget_exact L st' (budget s) b'"
    using store_ok_budget(2) [OF ok' e] b(1) by simp
  then show ?thesis
    using stage_many_budget [OF staged] names b
    by (simp add: batch_charged_def scope_at_live [OF s] budget_exact_def new_names_def Let_def)
qed

text \<open>
  C24. \<open>declare_many\<close> is a transaction. When the call returns an error, the session is as it was. When
  it returns, every binding of the batch is in the scope with its value, its mutability and its
  measured size, and visible under its name; no other name changes in any scope and no other scope
  changes; the shared budget counts one more identity for each new name, is exactly what the live
  bindings cost and stays within the caps; and no other budget changes. It fails to return exactly
  when it accepts a batch whose replaced values hold the last handle to a scope of the session.
\<close>

theorem declare_many_atomic:
  assumes "env_reachable L st" "small_binding L" "live st e"
  shows "case declare_many_call L stage reserve frees e bs st of
      None \<Rightarrow> hangs frees (replaced_values (map fst bs) (vars (scope_at st e)))
        \<and> fst (env_declare_many L stage reserve e bs st) = Inr ()
    | Some (Inl err, st') \<Rightarrow> st' = st
    | Some (Inr _, st') \<Rightarrow> \<not> hangs frees (replaced_values (map fst bs) (vars (scope_at st e)))
        \<and> batch_installed L e bs st st' \<and> batch_charged L e bs st st'"
proof -
  have ok: "store_ok L st"
    using reachable_store_ok [OF assms(1,2)] .
  obtain s where s: "map_of (scopes st) e = Some s"
    using assms(3) by (auto simp: live_def)
  obtain r st' where call: "env_declare_many L stage reserve e bs st = (r, st')" by fastforce
  show ?thesis
  proof (cases r)
    case (Inl err)
    then have "st' = st" using call by (auto simp: env_declare_many_def Let_def split: sum.splits prod.splits)
    then show ?thesis using call Inl by (simp add: declare_many_call_def returns_def)
  next
    case (Inr u)
    then show ?thesis
      using call env_declare_many_installs [OF ok assms(2) s] env_declare_many_charges [OF ok assms(2) s]
      by (auto simp: declare_many_call_def returns_def)
  qed
qed

lemma one_binding_batch:
  "fst (env_declare_many unit_layout (\<lambda>_. None) (\<lambda>_. None) 0 [(''y'', Null, False)] one_binding) = Inr ()"
proof -
  have "measure_binding_value unit_layout (Null :: (int, unit) val) = Inr 40"
    by (simp add: measure_binding_value_def retained_size_def visit_def enter_node_def add_bytes_def
        checked_usize_def unit_layout_def env_limits_def env_caps)
  then show ?thesis
    by (simp add: env_declare_many_def stage_many_def one_binding_eval scope_at_def budget_at_def
        validate_binding_name_def or_accounting_def ensure_aggregate_bytes_def checked_usize_def
        binding_charge_def saturating_usize_def new_names_def unit_layout_def env_caps Let_def)
qed

theorem declare_many_atomic_witness:
  "\<exists>st'. declare_many_call unit_layout (\<lambda>_. None) (\<lambda>_. None) (\<lambda>_. True) 0 [(''y'', Null, False)] one_binding
       = Some (Inr (), st')
     \<and> env_get st' 0 ''y'' = Some Null \<and> env_get st' 0 ''x'' = env_get one_binding 0 ''x''
     \<and> identities (budget_at st' 0) = 2"
proof -
  let ?bs = "[(''y'', Null, False)] :: (string \<times> (int, unit) val \<times> bool) list"
  have hyp: "small_binding unit_layout" "live one_binding 0"
    by (simp_all add: small_binding_def unit_layout_def live_def one_binding_eval)
  obtain st' where st': "declare_many_call unit_layout (\<lambda>_. None) (\<lambda>_. None) (\<lambda>_. True) 0 ?bs one_binding
      = Some (Inr (), st')"
    using one_binding_batch
    by (cases "env_declare_many unit_layout (\<lambda>_. None) (\<lambda>_. None) 0 ?bs one_binding")
      (simp add: declare_many_call_def returns_def hangs_def replaced_values_def map_filter_simps one_binding_eval
        scope_at_def)
  have "batch_installed unit_layout 0 ?bs one_binding st'" "batch_charged unit_layout 0 ?bs one_binding st'"
    using declare_many_atomic [OF one_binding_reachable hyp, where stage = "\<lambda>_. None" and reserve = "\<lambda>_. None"
        and frees = "\<lambda>_. True" and bs = ?bs] st' by simp_all
  then show ?thesis
    using st' hyp(2) by (simp add: batch_installed_def batch_charged_def Let_def one_binding_eval scope_at_def budget_at_def)
qed

text \<open>
  A program can make a call that never returns: a closure over a scope is stored, the scope is left, so
  the closure holds the last handle to it, and the name is then declared again, alone or in a batch,
  or assigned to. The session cannot use its environment after that.
\<close>

lemma replacing_hangs:
  assumes "map_of (vars (scope_at st e)) name = Some old" and "frees [bound_value old]"
  shows "fst (env_declare L reserve e name v mut st) = Inr () \<Longrightarrow>
      declare_call L reserve frees e name v mut st = None"
    and "fst (env_declare_many L stage reserve e [(name, v, mut)] st) = Inr () \<Longrightarrow>
      declare_many_call L stage reserve frees e [(name, v, mut)] st = None"
    and "env_get st e name = Some (bound_value old) \<Longrightarrow> fst (env_assign L e name v st) = Inr () \<Longrightarrow>
      assign_call L frees e name v st = None"
  using assms
  by (simp_all add: declare_call_def declare_many_call_def assign_call_def returns_def hangs_def
      replaced_values_def map_filter_simps)

text \<open>A root scope whose variable \<open>f\<close> is a closure over the scope 1 below it.\<close>

definition counter_closure :: "(int, unit) val" where
  "counter_closure =
     Closure 0 \<lparr>closure_name = None, closure_doc = None, closure_code = (), closure_env = 1\<rparr>"

definition closure_session :: "(int, unit) env_store" where
  "closure_session =
     snd (env_declare unit_layout (\<lambda>_. None) 0 ''f'' counter_closure True
       (snd (env_child 0 (snd (env_root env_init)))))"

definition only_closure :: "(int, unit) val list \<Rightarrow> bool" where
  "only_closure vs \<longleftrightarrow> vs = [counter_closure]"

lemma closure_session_reachable: "env_reachable unit_layout closure_session"
  unfolding closure_session_def
  by (rule env_reachable.step [OF env_reachable.step [OF env_reachable.step
        [OF env_reachable.init env_step.new_root] env_step.do_child] env_step_declare])
    (simp_all add: live_def env_root_def env_child_def new_scope_def env_init_def)

lemma unit_measures:
  "measure_binding_value unit_layout (Null :: (int, unit) val) = Inr 40"
  "\<exists>n. measure_binding_value unit_layout counter_closure = Inr n \<and> n \<le> 70000"
  by (simp_all add: measure_binding_value_def counter_closure_def retained_size_def visit_def enter_node_def
      add_bytes_def add_opt_def opaque_def checked_usize_def unit_layout_def env_limits_def env_caps)

theorem replacing_last_closure_hangs:
  "env_reachable unit_layout closure_session
   \<and> env_get closure_session 0 ''f'' = Some counter_closure
   \<and> fst (env_declare unit_layout (\<lambda>_. None) 0 ''f'' Null True closure_session) = Inr ()
   \<and> declare_call unit_layout (\<lambda>_. None) only_closure 0 ''f'' Null True closure_session = None
   \<and> declare_many_call unit_layout (\<lambda>_. None) (\<lambda>_. None) only_closure 0 [(''f'', Null, True)] closure_session = None
   \<and> assign_call unit_layout only_closure 0 ''f'' Null closure_session = None"
proof -
  obtain n where n: "measure_binding_value unit_layout counter_closure = Inr n" "n \<le> 70000"
    using unit_measures(2) by blast
  have st: "closure_session = \<lparr>scopes = [(1, \<lparr>vars = [], parent = Some 0, budget = 0\<rparr>),
      (0, \<lparr>vars = [(''f'', \<lparr>bound_value = counter_closure, mutable = True, value_bytes = n\<rparr>)],
          parent = None, budget = 0\<rparr>)],
      budgets = [(0, \<lparr>identities = 1, retained_bytes = 57 + n\<rparr>)], fresh = 2\<rparr>"
    using n
    by (simp add: closure_session_def env_declare_def env_root_def env_child_def new_scope_def env_init_def
        scope_at_def budget_at_def validate_binding_name_def or_accounting_def ensure_aggregate_bytes_def
        checked_usize_def binding_charge_def saturating_usize_def set_budget_def set_scope_def
        unit_layout_def env_caps Let_def)
  have old: "map_of (vars (scope_at closure_session 0)) ''f'' =
      Some \<lparr>bound_value = counter_closure, mutable = True, value_bytes = n\<rparr>"
    by (simp add: st scope_at_def)
  have get: "env_get closure_session 0 ''f'' = Some counter_closure"
    by (simp add: st env_get_def chain_def)
  have "n \<le> 16777216" "n \<le> 18446744073709551615" using n(2) by simp_all
  note small = this n(2) unit_measures(1) validate_binding_name_def or_accounting_def ensure_aggregate_bytes_def
    checked_usize_def env_caps budget_at_def scope_at_def
  have one: "fst (env_declare unit_layout (\<lambda>_. None) 0 ''f'' Null True closure_session) = Inr ()"
    by (simp add: st env_declare_def small Let_def)
  have many: "fst (env_declare_many unit_layout (\<lambda>_. None) (\<lambda>_. None) 0 [(''f'', Null, True)] closure_session) = Inr ()"
    by (simp add: st env_declare_many_def stage_many_def new_names_def small Let_def)
  have assign: "fst (env_assign unit_layout 0 ''f'' Null closure_session) = Inr ()"
    by (simp add: st env_assign_def chain_def small Let_def)
  have "only_closure [counter_closure]" by (simp add: only_closure_def)
  then show ?thesis
    using closure_session_reachable get one replacing_hangs(1) [OF old _ one]
      replacing_hangs(2) [OF old _ many] replacing_hangs(3) [OF old _ _ assign] by simp
qed

text \<open>
  Removing a binding uncovers what the enclosing scope binds under the name and never touches the
  enclosing scope itself.
\<close>

lemma remove_local_uncovers:
  assumes "store_ok L st" "map_of (scopes st) e = Some s" "map_of (vars s) name = Some bd"
  defines "st' \<equiv> snd (env_remove_local L e name st)"
  shows "env_get st' e name = (case parent s of None \<Rightarrow> None | Some p \<Rightarrow> env_get st' p name)"
    and "n \<noteq> name \<Longrightarrow> live st e' \<Longrightarrow> env_get st' e' n = env_get st e' n"
proof -
  have ok': "store_ok L st'"
    using env_remove_local_ok [OF assms(1,2)] by (simp add: st'_def)
  have sc: "scopes st' = AList.update e (s\<lparr>vars := AList.delete name (vars s)\<rparr>) (scopes st)"
    using assms(3) by (simp add: st'_def env_remove_local_def scope_at_live [OF assms(2)] Let_def
        set_budget_def set_scope_def)
  have e: "map_of (scopes st') e = Some (s\<lparr>vars := AList.delete name (vars s)\<rparr>)"
    by (simp add: sc update_conv')
  show "env_get st' e name = (case parent s of None \<Rightarrow> None | Some p \<Rightarrow> env_get st' p name)"
    unfolding env_get_unfold [OF ok' e] by (simp add: delete_conv' split: option.split)
  show "env_get st' e' n = env_get st e' n" if "n \<noteq> name" "live st e'"
    using get_after_update [OF assms(1) ok' sc assms(2) _ that(2)] that(1) by (simp add: delete_conv')
qed

end
