(* ===== verification/Spec2Isabelle.thy ===== *)
theory Spec2Isabelle
  imports Leash_Sandbox Leash_Config Kernel_Approval Kernel_Requests Proto_Frame Reef_Resolve Event_Merge Event_Replay Value_Suggest Value_Units Value_Env
begin

text \<open>
  A verification library for \<open>shoal\<close>, a shell whose programs run in a long-lived kernel process on
  behalf of humans and of software agents. All paths below are under
  \<open>src/crates/shoal-sh/src\<close>.

  \<^bold>\<open>The program.\<close> A client writes JSON-RPC frames to a socket (\<open>proto/frame.rs\<close>). The kernel
  (\<open>kernel/\<close>) answers each request in a session: it derives a plan, the list of effects a program
  would have, lets the policy engine (\<open>leash/\<close>) judge the plan for the session's principal, and then
  runs the program as a task, or stores the plan until an operator approves it. Commands are found
  by \<open>reef/\<close>, which resolves a tool name against the version constraints of the enclosing
  directories and a lock file. What happens is published on the event bus (\<open>kernel/eventbus*\<close>), whose
  subscribers get a replay of the past and then live events. Programs compute with the values of
  \<open>value/\<close>: their operators, methods, equality and the scopes that bind them.

  \<^bold>\<open>The theories and the code they model.\<close>

  \<^descr> \<open>Shoal_Prelude\<close>: the result type of fallible code, machine-integer ranges, the standard library's
    ordering with the locale \<open>total_cmp\<close> of the laws a comparison promises, and the list and option
    lemmas the components share.
  \<^descr> \<open>Unix_Path\<close>, \<open>Utf8\<close>: the parts of \<open>std::path\<close> and of the standard library's UTF-8 decoding the code
    uses. Bytes are characters; a path is a byte string.
  \<^descr> \<open>Leash_Policy\<close>: \<open>leash/effects.rs\<close> and the evaluation of \<open>leash/policy.rs\<close>. Each effect kind goes to
    its allow list; a plan's verdict is the first refusal. The lemmas relate it to a specification by
    membership, and show monotonicity in effects and in grants and that an empty policy refuses all.
    Symbolic links enter as an argument, the function that resolves a path.
  \<^descr> \<open>Leash_Sandbox\<close>: the roots that a principal's grants hand to the operating-system sandbox, and
    how they agree with the semantic policy: each root is a path one of the grants stands for.
  \<^descr> \<open>Leash_Config\<close>: the byte scanner and the bounds of a policy file, flattening of its tables, and
    that a broken user policy denies everything. The TOML parser is an argument.
  \<^descr> \<open>Kernel_Plans\<close>: \<open>kernel/state/plans.rs\<close> and the plan requests of \<open>kernel/handlers_exec\<close>,
    \<open>kernel/handlers_task.rs\<close> and \<open>kernel/mod.rs\<close>, whole: each handler returns its answer and the registry.
    The locale \<open>plan_op\<close> states what every operation keeps of the registry.
  \<^descr> \<open>Kernel_Approval\<close>: the same handlers as an interleaved step relation with requests in flight (a
    handler that drops the lock between its phases is two steps), its invariant by rule induction, and
    that an approval is used at most once, audited first, never one's own, and bound to its program.
  \<^descr> \<open>Kernel_Quota\<close>: the task, pseudo-terminal and connection permits as instances of one locale
    \<open>permit_counter\<close>: what a counter counts is the number of permits alive.
  \<^descr> \<open>Kernel_Tasks\<close>: \<open>kernel/state/tasks.rs\<close> and the task handlers: a task's state machine, the registry
    with its retention of finished tasks, launching, waiting, suspending and the deadline watchdog.
    The handlers are sequences of steps of a relation in which a permit or a number can be in flight
    between two locks; a finished task never changes, the active tasks and the permits in flight of an
    owner are what its quota counts, and the waits end in time.
  \<^descr> \<open>Kernel_Requests\<close>: the same task requests against a registry of the owner's own: they refine it,
    and touch nothing of another owner.
  \<^descr> \<open>Proto_Frame\<close>: \<open>proto/frame.rs\<close>: the pushdown scanner that admits a frame before it is parsed,
    shown equivalent to a grammar of JSON with the scanner's bounds, and reading and writing of frames.
  \<^descr> \<open>Reef_Version\<close>, \<open>Reef_Resolve\<close>: \<open>reef/version.rs\<close> and \<open>reef/resolve.rs\<close> with the lock, the hash
    cache and the discovery bounds: versions form a total preorder, a resolution satisfies the
    constraint of every scope, the best candidate wins, and a locked tool resolves to its entry.
  \<^descr> \<open>Event_Ring\<close>: admission of user events, the rings of recent events (\<open>kernel/eventbus/channels.rs\<close>) and
    the pointer indexes of the journal-backed channels (\<open>durable.rs\<close>): a read returns the recent
    history it promises, and a healthy bus never trips its own quarantine.
  \<^descr> \<open>Event_Queue\<close>, \<open>Event_Merge\<close>: a subscription's queue (\<open>subscriptions.rs\<close>): deliveries are in order,
    none is lost uncounted, draining delivers exactly the run that is due, and the merge of replay and
    live events is exact once the first number is staged.
  \<^descr> \<open>Event_Dispatch\<close>: the dispatchers of the connections and their registry; every queue is served.
  \<^descr> \<open>Event_Bus\<close>: the bus and its requests (\<open>kernel/eventbus.rs\<close>), whole and as interleaved steps with
    lock faults: events reach only who subscribed to them and was allowed to. A subscription that was
    ever granted counts as one; removing it does not take the grant back.
  \<^descr> \<open>Event_Replay\<close>: \<open>events.read\<close> with hydration from the journal's tables: the pages are exact while
    the rows are aligned with the published events and the events fit the ring, and their cursors replay
    the whole history after a restart.
  \<^descr> \<open>Value_Float\<close>: the arithmetic, ordering and casts of \<open>f64\<close>, with rational values and rounding to
    nearest even.
  \<^descr> \<open>Value_Core\<close>, \<open>Value_Hash\<close>: \<open>value/mod.rs\<close>, \<open>value/value_types.rs\<close> and the hash of
    \<open>value/stream/ops.rs\<close>: every kind of value, ranges, equality (shown symmetric), and that equal values
    hash alike unless they hold differently spelt paths.
  \<^descr> \<open>Value_Retained\<close>: \<open>value/retained.rs\<close> and \<open>value/methods/materialize.rs\<close>: the measurement of what a
    value retains, exact against its list of charges, and the admission of eager results.
  \<^descr> \<open>Value_Ops\<close>: \<open>value/ops.rs\<close>: the operators, checked against the coercion matrix as a table of types,
    when they panic, and the scaling of sizes and durations by floats, errors included.
  \<^descr> \<open>Value_List\<close>: \<open>value/methods/list.rs\<close> and \<open>record.rs\<close>: collection methods against their references
    (stable sorting through the locale \<open>preorder_cmp\<close>, removal of duplicates, chunks, ranges, closures).
  \<^descr> \<open>Value_Suggest\<close>: \<open>value/methods/suggest.rs\<close>: the hints on an unknown method; the two-row table computes
    the least number of edits, and a hint names a real method.
  \<^descr> \<open>Value_Units\<close>: the words for sizes, durations and times of day (\<open>value/value_types.rs\<close>) and when
    reading them is exact.
  \<^descr> \<open>Value_Env\<close>: \<open>value/env.rs\<close>: scopes in a store with their shared budget; the budget is exact in
    every reachable state and a transaction of bindings is atomic, but a call that replaces the last
    closure over a scope never returns.

  \<^bold>\<open>Conventions.\<close> A handler is a function from the state it locks to its reply and the new state;
  errors are values of the \<open>result\<close> type. Unsigned counters are natural numbers with the checked
  operations of the code written out. Clocks, file contents, host names and the results of signals are
  arguments, so a theorem holds for every value of them. Loops recurse on the list they consume or on
  the remaining bytes, and a wait loop takes the list of the turns it is given: each turn says how long
  the loop ran and what the wait did with the duration it asked for, the loop returns the time at which it
  ends, and the liveness theorems say how many turns are enough and how late the end can be. The one bounded walk is from a scope up its parents: a
  parent is older than its children, so the address of the scope is steps enough.

  \<^bold>\<open>Not modelled.\<close> The lexer, the parser and the evaluator (the kernel takes a program as its text and
  its plan, a method takes a closure as a function), lazy streams, rendering and JSON conversion of
  values, the string, number and path methods and the table that dispatches them, the journal's
  writes and the content store (SQL and file-system work), process and terminal I/O, the front ends
  (REPL, completion, prompt, language server, MCP and plug-in host), tokens and secrets (cryptographic
  libraries), reef's directory walks and probes. These are either I/O against services whose behaviour
  is theirs, or parts whose interfaces enter here as arguments.
\<close>

end
